(* ===== verification/Prelude.thy ===== *)
theory Prelude
  imports Main "HOL-Library.Word" "HOL-Library.Monad_Syntax" "HOL-Library.List_Lexorder"
begin

text \<open>
  Shared vocabulary of the development.  Fixed-width C integers are words; \<open>off_t\<close>, \<open>ssize_t\<close>
  and plain \<open>int\<close> values that the code never overflows are \<open>int\<close>; sizes are \<open>nat\<close> or \<open>int\<close>.
  A C computation that may perform undefined behaviour (a NULL dereference, an access out of
  bounds, a double free), fail an assertion or run forever is a value of type \<open>option\<close>:
  \<open>None\<close> stands for all of these, so a theorem that a function yields \<open>Some\<close> says that it
  returns and that no such fault happens.  Error codes the program itself returns are ordinary
  results.
\<close>

unbundle bit_operations_syntax

type_synonym u8 = "8 word"
type_synonym u16 = "16 word"
type_synonym u32 = "32 word"
type_synonym u64 = "64 word"

text \<open>C strings are lists of bytes without the terminating NUL.\<close>

type_synonym cstring = "u8 list"

definition cstr :: "string \<Rightarrow> cstring" where
  "cstr s = map of_char s"

section \<open>Errors of the C library\<close>

abbreviation (input) ENOENT :: int where "ENOENT \<equiv> 2"
abbreviation (input) EINTR :: int where "EINTR \<equiv> 4"
abbreviation (input) EIO :: int where "EIO \<equiv> 5"
abbreviation (input) ENOTDIR :: int where "ENOTDIR \<equiv> 20"
abbreviation (input) EISDIR :: int where "EISDIR \<equiv> 21"
abbreviation (input) EINVAL :: int where "EINVAL \<equiv> 22"
abbreviation (input) ENOSPC :: int where "ENOSPC \<equiv> 28"
abbreviation (input) EOVERFLOW :: int where "EOVERFLOW \<equiv> 75"

section \<open>Collections of rewrite rules\<close>

named_theorems word_nat_simps \<open>machine words read as natural numbers\<close>
named_theorems heap_simps \<open>reading a heap after a write\<close>

section \<open>Options\<close>

lemma bind_Some_iff [simp]:
  "(Option.bind m f = Some y) \<longleftrightarrow> (\<exists>x. m = Some x \<and> f x = Some y)"
  by (cases m) auto

definition guard :: "bool \<Rightarrow> unit option" where
  "guard b = (if b then Some () else None)"

lemma guard_simps [simp]:
  "guard True = Some ()" "guard False = None" "guard b = Some u \<longleftrightarrow> b"
  by (auto simp: guard_def)

section \<open>Reading and writing arrays in bounds\<close>

definition array_get :: "'a list \<Rightarrow> nat \<Rightarrow> 'a option" where
  "array_get xs i = (if i < length xs then Some (xs ! i) else None)"

definition array_set :: "'a list \<Rightarrow> nat \<Rightarrow> 'a \<Rightarrow> 'a list option" where
  "array_set xs i x = (if i < length xs then Some (xs[i := x]) else None)"

lemma array_get_Some_iff [simp]: "array_get xs i = Some x \<longleftrightarrow> i < length xs \<and> x = xs ! i"
  by (auto simp: array_get_def)

lemma array_set_Some_iff [simp]:
  "array_set xs i x = Some ys \<longleftrightarrow> i < length xs \<and> ys = xs[i := x]"
  by (auto simp: array_set_def)

lemma drop_eq_ConsD:
  assumes "drop i xs = y # ys"
  shows "i < length xs" "xs ! i = y" "drop (Suc i) xs = ys"
proof -
  show "i < length xs"
  proof (rule ccontr)
    assume "\<not> i < length xs"
    with assms show False by simp
  qed
  with assms show "xs ! i = y" "drop (Suc i) xs = ys"
    by (simp_all add: Cons_nth_drop_Suc [symmetric])
qed

text \<open>What a first match of a scan of a table says.\<close>

lemma find_upt_Some: "find P [0..<n] = Some j \<Longrightarrow> j < n \<and> P j \<and> (\<forall>i < j. \<not> P i)"
  by (auto simp: find_Some_iff)

lemma find_upt_None: "find P [0..<n] = None \<longleftrightarrow> (\<forall>i < n. \<not> P i)"
  by (auto simp: find_None_iff)

lemma find_upt_only: "c < n \<Longrightarrow> find (\<lambda>j. j = c) [0..<n] = Some c"
  unfolding find_Some_iff by (rule exI [of _ c]) simp

section \<open>Words\<close>

lemma unat_less_iff [word_nat_simps]: "a < b \<longleftrightarrow> unat a < unat b"
  by (rule word_less_nat_alt)

lemma unat_le_iff [word_nat_simps]: "a \<le> b \<longleftrightarrow> unat a \<le> unat b"
  by (rule word_le_nat_alt)

lemma unat_ucast_up:
  assumes "LENGTH('a::len) \<le> LENGTH('b::len)"
  shows "unat (ucast (w :: 'a word) :: 'b word) = unat w"
proof -
  have "unat w < 2 ^ LENGTH('a)" by (rule unsigned_less)
  also have "(2 :: nat) ^ LENGTH('a) \<le> 2 ^ LENGTH('b)" using assms by (intro power_increasing) simp_all
  finally show ?thesis by (simp add: unsigned_ucast_eq take_bit_nat_eq_self_iff)
qed

lemma unat_uminus32:
  fixes w :: "32 word"
  assumes "0 < unat w"
  shows "unat (- w) = 2 ^ 32 - unat w"
proof -
  have "unat w < 2 ^ 32" using unsigned_less [of w] by simp
  then have "of_nat (2 ^ 32 - unat w) = (of_nat (2 ^ 32) :: 32 word) - of_nat (unat w)"
    by (intro of_nat_diff) simp
  then have "- w = of_nat (2 ^ 32 - unat w)" by simp
  then have "unat (- w) = (2 ^ 32 - unat w) mod 2 ^ 32" by (simp only: unat_of_nat) simp
  then show ?thesis using assms by simp
qed

lemma sint_small:
  fixes w :: u32
  assumes "unat w < 2 ^ 31"
  shows "sint w = int (unat w)"
proof -
  have "int (unat w) < 2 ^ 31" using assms by (metis of_nat_less_iff of_nat_numeral of_nat_power)
  then have "signed_take_bit 31 (int (unat w)) = int (unat w)"
    by (intro signed_take_bit_int_eq_self order_trans [of "- (2 ^ 31)" 0 "int (unat w)"]) simp_all
  then show ?thesis by (simp add: sint_uint)
qed

lemma and_mask_int:
  assumes "0 \<le> x"
  shows "x AND (2 ^ n - 1) = x mod (2 ^ n :: int)"
  by (simp add: take_bit_eq_mask [symmetric] mask_eq_exp_minus_1 [symmetric] take_bit_eq_mod)

section \<open>Byte order\<close>

text \<open>The little-endian representation of 16-bit and 32-bit numbers on disk.\<close>

definition le16_bytes :: "u16 \<Rightarrow> u8 list" where
  "le16_bytes w = [ucast w, ucast (drop_bit 8 w)]"

definition le32_bytes :: "u32 \<Rightarrow> u8 list" where
  "le32_bytes w = [ucast w, ucast (drop_bit 8 w), ucast (drop_bit 16 w), ucast (drop_bit 24 w)]"

definition le16_of :: "u8 list \<Rightarrow> u16" where
  "le16_of bs = ucast (bs ! 0) OR push_bit 8 (ucast (bs ! 1))"

definition le32_of :: "u8 list \<Rightarrow> u32" where
  "le32_of bs = ucast (bs ! 0) OR push_bit 8 (ucast (bs ! 1))
     OR push_bit 16 (ucast (bs ! 2)) OR push_bit 24 (ucast (bs ! 3))"

lemma length_le_bytes [simp]: "length (le16_bytes w) = 2" "length (le32_bytes v) = 4"
  by (simp_all add: le16_bytes_def le32_bytes_def)

lemma le16_of_le16_bytes [simp]: "le16_of (le16_bytes w) = w"
  unfolding le16_of_def le16_bytes_def
  by (intro bit_word_eqI) (auto simp: bit_simps)

lemma le32_of_le32_bytes [simp]: "le32_of (le32_bytes w) = w"
proof (rule bit_word_eqI)
  fix n
  assume "n < LENGTH(32)"
  then consider "n < 8" | "8 \<le> n" "n < 16" | "16 \<le> n" "n < 24" | "24 \<le> n" "n < 32"
    by fastforce
  then show "bit (le32_of (le32_bytes w)) n = bit w n"
    by cases (auto simp: le32_of_def le32_bytes_def bit_simps)
qed

end
