(* ===== verification/Fat_Util.thy ===== *)
theory Fat_Util
  imports Prelude
begin

text \<open>
  Model of \<open>LAB4/main/esqueleto/fat_util.c\<close> and \<open>fat_util.h\<close>: retried positioned reads and
  writes on the volume file, FAT date and time stamps, and the small numeric helpers.

  The operating system below \<open>pread\<close>/\<open>pwrite\<close> is the record \<open>io\<close>: the bytes of the volume file,
  \<open>errno\<close>, the clock, and the outcomes the coming system calls will have (a transfer of at most
  so many bytes, or a failure with an error number).  When no outcome is scheduled a call
  transfers everything it can.
\<close>

section \<open>The volume file and its system calls\<close>

datatype io_result = Upto nat | Fail int

record io =
  io_bytes :: "u8 list"
  io_sched :: "io_result list"
  io_errno :: int
  io_now :: int

abbreviation set_errno :: "int \<Rightarrow> io \<Rightarrow> io" where
  "set_errno e s \<equiv> s\<lparr>io_errno := e\<rparr>"

definition next_outcome :: "nat \<Rightarrow> io \<Rightarrow> io_result \<times> io" where
  "next_outcome n s = (case io_sched s of [] \<Rightarrow> (Upto n, s) | r # rs \<Rightarrow> (r, s\<lparr>io_sched := rs\<rparr>))"

definition splice_at :: "u8 list \<Rightarrow> nat \<Rightarrow> u8 list \<Rightarrow> u8 list" where
  "splice_at bs off d = (if d = [] then bs
     else take off bs @ replicate (off - length bs) 0 @ d @ drop (off + length d) bs)"

text \<open>\<open>pread(fd, buf, n, off)\<close>: the returned count, the bytes put at \<open>buf\<close>, the new state.\<close>

definition sys_pread :: "nat \<Rightarrow> int \<Rightarrow> io \<Rightarrow> int \<times> u8 list \<times> io" where
  "sys_pread n off s = (if off < 0 then (-1, [], set_errno EINVAL s) else
     (case next_outcome n s of
       (Fail e, s') \<Rightarrow> (-1, [], set_errno e s')
     | (Upto k, s') \<Rightarrow> (let d = take (min k n) (drop (nat off) (io_bytes s))
                       in (int (length d), d, s'))))"

section \<open>\<open>full_pread\<close> and \<open>full_pwrite\<close>\<close>

text \<open>A transfer into or out of the caller's buffer is undefined outside the buffer.\<close>

definition buf_store :: "u8 list \<Rightarrow> int \<Rightarrow> u8 list \<Rightarrow> u8 list option" where
  "buf_store buf at d = (if 0 \<le> at \<and> at + int (length d) \<le> int (length buf)
     then Some (take (nat at) buf @ d @ drop (nat at + length d) buf) else None)"

definition buf_load :: "u8 list \<Rightarrow> int \<Rightarrow> nat \<Rightarrow> u8 list option" where
  "buf_load buf at n = (if 0 \<le> at \<and> at + int n \<le> int (length buf)
     then Some (take n (drop (nat at) buf)) else None)"

text \<open>
  \<open>pwrite(fd, buf + at, n, off)\<close>: the call reads the bytes it transfers from the buffer, so it is
  undefined when they are not inside it.
\<close>

definition sys_pwrite :: "u8 list \<Rightarrow> int \<Rightarrow> nat \<Rightarrow> int \<Rightarrow> io \<Rightarrow> (int \<times> io) option" where
  "sys_pwrite buf at n off s = (if off < 0 then Some (-1, set_errno EINVAL s) else
     (case next_outcome n s of
       (Fail e, s') \<Rightarrow> Some (-1, set_errno e s')
     | (Upto k, s') \<Rightarrow> (case buf_load buf at (min k n) of None \<Rightarrow> None | Some d \<Rightarrow>
          Some (int (length d), s'\<lparr>io_bytes := splice_at (io_bytes s') (nat off) d\<rparr>))))"

text \<open>
  The loops of \<open>full_pread\<close> and \<open>full_pwrite\<close>.  The \<open>continue\<close> taken on \<open>EINTR\<close> goes through the
  update part of the \<open>for\<close>, with \<open>bytes_read = -1\<close>: the buffer and file positions move back by
  one and one more byte is wanted.
\<close>

function full_pread_loop ::
  "u8 list \<Rightarrow> int \<Rightarrow> nat \<Rightarrow> int \<Rightarrow> io \<Rightarrow> (nat \<times> u8 list \<times> io) option" where
  "full_pread_loop buf at remaining off s =
     (if remaining = 0 then Some (0, buf, s)
      else (case sys_pread remaining off s of (r, d, s1) \<Rightarrow>
        if r \<le> 0 then
          (if r = 0 then Some (remaining, buf, set_errno EIO s1)
           else if io_errno s1 = EINTR
             then full_pread_loop buf (at + r) (nat (int remaining - r)) (off + r) s1
           else Some (remaining, buf, s1))
        else (case buf_store buf at d of
             None \<Rightarrow> None
           | Some buf' \<Rightarrow>
               full_pread_loop buf' (at + r) (nat (int remaining - r)) (off + r) s1)))"
  by pat_completeness auto

function full_pwrite_loop ::
  "u8 list \<Rightarrow> int \<Rightarrow> nat \<Rightarrow> int \<Rightarrow> io \<Rightarrow> (nat \<times> io) option" where
  "full_pwrite_loop buf at remaining off s =
     (if remaining = 0 then Some (0, s)
      else (case sys_pwrite buf at remaining off s of None \<Rightarrow> None | Some (r, s1) \<Rightarrow>
        if r \<le> 0 then
          (if r = 0 then Some (remaining, set_errno EIO s1)
           else if io_errno s1 = EINTR
             then full_pwrite_loop buf (at + r) (nat (int remaining - r)) (off + r) s1
           else Some (remaining, s1))
        else full_pwrite_loop buf (at + r) (nat (int remaining - r)) (off + r) s1))"
  by pat_completeness auto

lemma buf_load_length: "buf_load buf at n = Some d \<Longrightarrow> length d = n"
  by (auto simp: buf_load_def split: if_splits)

text \<open>Every call that does not end the loop uses up an outcome or transfers something.\<close>

lemma sys_pread_progress:
  assumes "sys_pread n off s = (r, d, s1)" "r < 0 \<longrightarrow> io_errno s1 = EINTR" "r \<noteq> 0"
  shows "length (io_sched s1) < length (io_sched s) \<or>
    io_sched s1 = io_sched s \<and> 0 < r \<and> r \<le> int n"
  using assms
  by (auto simp: sys_pread_def next_outcome_def Let_def split: if_splits list.splits io_result.splits)

lemma sys_pwrite_progress:
  assumes "sys_pwrite buf at n off s = Some (r, s1)" "r < 0 \<longrightarrow> io_errno s1 = EINTR" "r \<noteq> 0"
  shows "length (io_sched s1) < length (io_sched s) \<or>
    io_sched s1 = io_sched s \<and> 0 < r \<and> r \<le> int n"
  using assms
  by (auto simp: sys_pwrite_def next_outcome_def dest!: buf_load_length
      split: if_splits list.splits io_result.splits option.splits)

termination full_pread_loop
proof (relation "measures [\<lambda>(buf, at, n, off, s). length (io_sched s), \<lambda>(buf, at, n, off, s). n]",
    goal_cases)
  case (2 buf at n off s r ds d s1)
  then show ?case using sys_pread_progress [of n off s r d s1] by auto
next
  case (3 buf at n off s r ds d s1)
  then show ?case using sys_pread_progress [of n off s r d s1] by auto
qed simp

termination full_pwrite_loop
proof (relation "measures [\<lambda>(buf, at, n, off, s). length (io_sched s), \<lambda>(buf, at, n, off, s). n]",
    goal_cases)
  case (2 buf at n off s p r s1)
  then show ?case using sys_pwrite_progress [of buf at n off s r s1] by auto
next
  case (3 buf at n off s p r s1)
  then show ?case using sys_pwrite_progress [of buf at n off s r s1] by auto
qed simp

declare full_pread_loop.simps [simp del] full_pwrite_loop.simps [simp del]

text \<open>
  The functions themselves, called on the buffer from its position \<open>pos\<close> on.  The result \<open>count - bytes_remaining\<close> is read as a signed number,
  as every caller does by storing it in an \<open>ssize_t\<close> or comparing it with the count.
\<close>

definition full_pread_at :: "u8 list \<Rightarrow> nat \<Rightarrow> nat \<Rightarrow> int \<Rightarrow> io \<Rightarrow> (int \<times> u8 list \<times> io) option" where
  "full_pread_at buf pos count off s =
     (case full_pread_loop buf (int pos) count off s of
        None \<Rightarrow> None
      | Some (remaining, buf', s') \<Rightarrow> Some (int count - int remaining, buf', s'))"

definition full_pwrite_at :: "u8 list \<Rightarrow> nat \<Rightarrow> nat \<Rightarrow> int \<Rightarrow> io \<Rightarrow> (int \<times> io) option" where
  "full_pwrite_at buf pos count off s =
     (case full_pwrite_loop buf (int pos) count off s of
        None \<Rightarrow> None
      | Some (remaining, s') \<Rightarrow> Some (int count - int remaining, s'))"

text \<open>Calls whose buffer argument is the start of a block.\<close>

definition full_pread :: "u8 list \<Rightarrow> nat \<Rightarrow> int \<Rightarrow> io \<Rightarrow> (int \<times> u8 list \<times> io) option" where
  "full_pread buf count off s = full_pread_at buf 0 count off s"

definition full_pwrite :: "u8 list \<Rightarrow> nat \<Rightarrow> int \<Rightarrow> io \<Rightarrow> (int \<times> io) option" where
  "full_pwrite buf count off s = full_pwrite_at buf 0 count off s"

section \<open>Correctness of the retried transfers\<close>

text \<open>
  A schedule of short transfers: every coming call moves at least one byte and none fails.
\<close>

definition short_only :: "io \<Rightarrow> bool" where
  "short_only s \<longleftrightarrow> (\<forall>r \<in> set (io_sched s). \<exists>k > 0. r = Upto k)"

definition sched_suffix :: "io \<Rightarrow> io \<Rightarrow> bool" where
  "sched_suffix s s' \<longleftrightarrow> (\<exists>k. s' = s\<lparr>io_sched := drop k (io_sched s)\<rparr>)"

lemma sched_suffix_refl [simp, intro]: "sched_suffix s s"
  unfolding sched_suffix_def by (rule exI [of _ 0]) simp

lemma sched_suffix_trans:
  "sched_suffix s s' \<Longrightarrow> sched_suffix s' s'' \<Longrightarrow> sched_suffix s s''"
  unfolding sched_suffix_def by (auto simp: drop_drop)

lemma sched_suffixD:
  assumes "sched_suffix s s'"
  shows "io_bytes s' = io_bytes s" "io_errno s' = io_errno s" "io_now s' = io_now s"
    "short_only s \<Longrightarrow> short_only s'"
  using assms unfolding sched_suffix_def short_only_def by (auto dest!: in_set_dropD bspec)

lemma next_outcome_short:
  assumes "short_only s" "next_outcome n s = (r, s')" "0 < n"
  obtains k where "r = Upto k" "0 < k" "sched_suffix s s'"
proof (cases "io_sched s")
  case Nil
  with assms that show thesis by (auto simp: next_outcome_def)
next
  case (Cons q qs)
  with assms have "\<exists>k. r = Upto k \<and> 0 < k" "s' = s\<lparr>io_sched := drop 1 (io_sched s)\<rparr>"
    by (auto simp: next_outcome_def short_only_def)
  then show thesis using that unfolding sched_suffix_def by blast
qed

lemma sys_pread_short:
  assumes "short_only s" "0 < n" "0 \<le> off" "nat off + n \<le> length (io_bytes s)"
  obtains k s' where "0 < k" "k \<le> n"
    "sys_pread n off s = (int k, take k (drop (nat off) (io_bytes s)), s')" "sched_suffix s s'"
proof -
  obtain r s' where no: "next_outcome n s = (r, s')" by fastforce
  from next_outcome_short [OF assms(1) no assms(2)] obtain k
    where k: "r = Upto k" "0 < k" "sched_suffix s s'" .
  from k(3) have [simp]: "io_bytes s' = io_bytes s" by (simp add: sched_suffixD)
  have "sys_pread n off s
      = (int (min k n), take (min k n) (drop (nat off) (io_bytes s)), s')"
    using assms(3,4) k no by (simp add: sys_pread_def Let_def)
  then show thesis using that [of "min k n" s'] k assms(2) by simp
qed

lemma full_pread_loop_short:
  assumes "short_only s" "0 \<le> at" "nat at + n \<le> length buf" "0 \<le> off"
    "nat off + n \<le> length (io_bytes s)"
  shows "\<exists>s'. full_pread_loop buf at n off s = Some (0, take (nat at) buf
      @ take n (drop (nat off) (io_bytes s)) @ drop (nat at + n) buf, s') \<and> sched_suffix s s'"
  using assms
proof (induction n arbitrary: buf at off s rule: less_induct)
  case (less n)
  show ?case
  proof (cases "n = 0")
    case True
    then show ?thesis by (simp add: full_pread_loop.simps)
  next
    case False
    then have "0 < n" by simp
    from sys_pread_short [OF less.prems(1) this less.prems(4,5)] obtain k s1
      where k: "0 < k" "k \<le> n" and suf: "sched_suffix s s1"
        and rd: "sys_pread n off s = (int k, take k (drop (nat off) (io_bytes s)), s1)" .
    let ?d = "take k (drop (nat off) (io_bytes s))"
    let ?buf = "take (nat at) buf @ ?d @ drop (nat at + k) buf"
    have len: "length ?d = k" using k less.prems by simp
    have st: "buf_store buf at ?d = Some ?buf"
      using less.prems k len by (auto simp: buf_store_def)
    have n1: "nat (at + int k) = nat at + k" "nat (off + int k) = nat off + k"
      using less.prems by auto
    have step: "full_pread_loop buf at n off s
        = full_pread_loop ?buf (at + int k) (n - k) (off + int k) s1"
      using False k rd st
      by (subst full_pread_loop.simps) (simp add: nat_diff_distrib')
    have pre: "0 \<le> at + int k" "nat (at + int k) + (n - k) \<le> length ?buf" "0 \<le> off + int k"
        "nat (off + int k) + (n - k) \<le> length (io_bytes s1)"
      using less.prems k len sched_suffixD [OF suf] by (auto simp: n1)
    from less.IH [OF _ _ pre] k sched_suffixD(4) [OF suf less.prems(1)] obtain s'
      where fin: "full_pread_loop ?buf (at + int k) (n - k) (off + int k) s1
        = Some (0, take (nat at + k) ?buf @ take (n - k) (drop (nat off + k) (io_bytes s))
            @ drop (nat at + k + (n - k)) ?buf, s')" and suf': "sched_suffix s1 s'"
      by (auto simp: n1 sched_suffixD [OF suf])
    have b1: "take (nat at + k) ?buf = take (nat at) buf @ ?d"
      using less.prems len by simp
    have b2: "drop (nat at + k + (n - k)) ?buf = drop (nat at + n) buf"
      using less.prems len k by (simp add: ac_simps)
    have b3: "?d @ take (n - k) (drop (nat off + k) (io_bytes s))
        = take n (drop (nat off) (io_bytes s))"
      using k by (metis add.commute drop_drop le_add_diff_inverse take_add)
    from fin have "full_pread_loop buf at n off s = Some (0, take (nat at) buf
        @ take n (drop (nat off) (io_bytes s)) @ drop (nat at + n) buf, s')"
      unfolding step b1 b2 append_assoc b3 [symmetric] .
    with sched_suffix_trans [OF suf suf'] show ?thesis by blast
  qed
qed

text \<open>Facts about the bytes of the volume after a write.\<close>

lemma splice_Nil [simp]: "splice_at bs off [] = bs"
  by (simp add: splice_at_def)

lemma length_splice:
  "length (splice_at bs off d) = (if d = [] then length bs else max (length bs) (off + length d))"
  by (auto simp: splice_at_def min_def max_def)

lemma length_splice_inside [simp]:
  "off + length d \<le> length bs \<Longrightarrow> length (splice_at bs off d) = length bs"
  by (auto simp: length_splice)

lemma splice_read_back [simp]: "take (length d) (drop off (splice_at bs off d)) = d"
proof (cases "d = []")
  case False
  have "length (take off bs @ replicate (off - length bs) 0) = off" by simp
  then have "drop off ((take off bs @ replicate (off - length bs) 0) @ d @ drop (off + length d) bs)
      = d @ drop (off + length d) bs"
    by (metis append_eq_conv_conj)
  with False show ?thesis by (simp add: splice_at_def)
qed simp

lemma nth_splice_inside:
  assumes "off + length d \<le> length bs" "i < length bs"
  shows "splice_at bs off d ! i = (if off \<le> i \<and> i < off + length d then d ! (i - off) else bs ! i)"
  using assms by (auto simp: splice_at_def nth_append)

lemma splice_other [heap_simps]:
  assumes "off + length d \<le> length bs" "at + n \<le> length bs" "at + n \<le> off \<or> off + length d \<le> at"
  shows "take n (drop at (splice_at bs off d)) = take n (drop at bs)"
  by (rule nth_equalityI) (use assms in \<open>auto simp: nth_splice_inside\<close>)

lemma splice_at_splice_at:
  assumes "off \<le> length bs"
  shows "splice_at (splice_at bs off d) (off + length d) e = splice_at bs off (d @ e)"
proof (cases "d = [] \<or> e = []")
  case False
  have len: "length (take off bs) = off" using assms by simp
  have "splice_at bs off d = (take off bs @ d) @ drop (off + length d) bs"
    using False assms by (simp add: splice_at_def)
  moreover have "take (off + length d) ((take off bs @ d) @ drop (off + length d) bs) = take off bs @ d"
    using len by simp
  moreover have "drop (off + length d + length e) ((take off bs @ d) @ drop (off + length d) bs)
      = drop (off + length d + length e) bs"
    using len by (simp add: ac_simps)
  ultimately show ?thesis using False assms len
    by (simp add: splice_at_def ac_simps)
qed auto

lemma sys_pwrite_short:
  assumes "short_only s" "0 < n" "0 \<le> off" "0 \<le> at" "nat at + n \<le> length buf"
  obtains k s' where "0 < k" "k \<le> n" "sched_suffix s s'"
    "sys_pwrite buf at n off s = Some (int k, s'\<lparr>io_bytes
      := splice_at (io_bytes s) (nat off) (take k (drop (nat at) buf))\<rparr>)"
proof -
  obtain r s' where no: "next_outcome n s = (r, s')" by fastforce
  from next_outcome_short [OF assms(1) no assms(2)] obtain k
    where k: "r = Upto k" "0 < k" "sched_suffix s s'" .
  from k(3) have [simp]: "io_bytes s' = io_bytes s" by (simp add: sched_suffixD)
  have "buf_load buf at (min k n) = Some (take (min k n) (drop (nat at) buf))"
    using assms by (auto simp: buf_load_def)
  moreover have "length (take (min k n) (drop (nat at) buf)) = min k n"
    using assms by auto
  ultimately have "sys_pwrite buf at n off s = Some (int (min k n), s'\<lparr>io_bytes
      := splice_at (io_bytes s) (nat off) (take (min k n) (drop (nat at) buf))\<rparr>)"
    using assms(3) k no by (simp add: sys_pwrite_def del: take_take)
  then show thesis using that [of "min k n" s'] k assms(2) by simp
qed

lemma full_pwrite_loop_short:
  assumes "short_only s" "0 \<le> at" "nat at + n \<le> length buf" "0 \<le> off"
    "nat off \<le> length (io_bytes s)"
  shows "\<exists>s'. full_pwrite_loop buf at n off s = Some (0, s'\<lparr>io_bytes
      := splice_at (io_bytes s) (nat off) (take n (drop (nat at) buf))\<rparr>) \<and> sched_suffix s s'"
  using assms
proof (induction n arbitrary: at off s rule: less_induct)
  case (less n)
  show ?case
  proof (cases "n = 0")
    case True
    then show ?thesis by (auto simp: full_pwrite_loop.simps intro: exI [of _ s])
  next
    case False
    then have "0 < n" by simp
    from sys_pwrite_short [OF less.prems(1) this less.prems(4,2,3)] obtain k s1
      where k: "0 < k" "k \<le> n" and suf: "sched_suffix s s1" and
        wr: "sys_pwrite buf at n off s = Some (int k, s1\<lparr>io_bytes
          := splice_at (io_bytes s) (nat off) (take k (drop (nat at) buf))\<rparr>)" .
    let ?d = "take k (drop (nat at) buf)"
    let ?s1 = "s1\<lparr>io_bytes := splice_at (io_bytes s) (nat off) ?d\<rparr>"
    have len: "length ?d = k" using k less.prems by simp
    have n1: "nat (at + int k) = nat at + k" "nat (off + int k) = nat off + k"
      using less.prems by auto
    have step: "full_pwrite_loop buf at n off s
        = full_pwrite_loop buf (at + int k) (n - k) (off + int k) ?s1"
      using False k wr by (subst full_pwrite_loop.simps) (simp add: nat_diff_distrib')
    have pre: "0 \<le> at + int k" "nat (at + int k) + (n - k) \<le> length buf" "0 \<le> off + int k"
        "nat (off + int k) \<le> length (io_bytes ?s1)"
      using less.prems k len by (auto simp: n1 length_splice)
    have sh: "short_only ?s1"
      using sched_suffixD(4) [OF suf less.prems(1)] by (simp add: short_only_def)
    from less.IH [OF _ sh pre] k obtain s'
      where fin: "full_pwrite_loop buf (at + int k) (n - k) (off + int k) ?s1
        = Some (0, s'\<lparr>io_bytes := splice_at (splice_at (io_bytes s) (nat off) ?d) (nat off + k)
            (take (n - k) (drop (nat at + k) buf))\<rparr>)" and suf': "sched_suffix ?s1 s'"
      by (auto simp: n1)
    have "?d @ take (n - k) (drop (nat at + k) buf) = take n (drop (nat at) buf)"
      using k by (metis add.commute drop_drop le_add_diff_inverse take_add)
    moreover have "splice_at (splice_at (io_bytes s) (nat off) ?d) (nat off + k) e
        = splice_at (io_bytes s) (nat off) (?d @ e)" for e
      using splice_at_splice_at [OF less.prems(5), of ?d e] by (simp only: len)
    ultimately have res: "full_pwrite_loop buf at n off s = Some (0, s'\<lparr>io_bytes
        := splice_at (io_bytes s) (nat off) (take n (drop (nat at) buf))\<rparr>)"
      using fin step by simp
    let ?s2 = "s'\<lparr>io_bytes := io_bytes s\<rparr>"
    from suf suf' have "sched_suffix s ?s2"
      unfolding sched_suffix_def by (auto simp: drop_drop)
    with res show ?thesis by (intro exI [of _ ?s2]) simp
  qed
qed

lemma full_pread_at_short:
  assumes "short_only s" "pos + n \<le> length buf" "0 \<le> off" "nat off + n \<le> length (io_bytes s)"
  obtains s' where "full_pread_at buf pos n off s = Some (int n,
      take pos buf @ take n (drop (nat off) (io_bytes s)) @ drop (pos + n) buf, s')" "sched_suffix s s'"
  using full_pread_loop_short [of s "int pos" n buf off] assms by (auto simp: full_pread_at_def)

lemma full_pwrite_at_short:
  assumes "short_only s" "pos + n \<le> length buf" "0 \<le> off" "nat off \<le> length (io_bytes s)"
  obtains s' where "full_pwrite_at buf pos n off s = Some (int n,
      s'\<lparr>io_bytes := splice_at (io_bytes s) (nat off) (take n (drop pos buf))\<rparr>)" "sched_suffix s s'"
  using full_pwrite_loop_short [of s "int pos" n buf off] assms by (auto simp: full_pwrite_at_def)

lemma full_pread_short:
  assumes "short_only s" "n \<le> length buf" "0 \<le> off" "nat off + n \<le> length (io_bytes s)"
  obtains s' where "full_pread buf n off s
      = Some (int n, take n (drop (nat off) (io_bytes s)) @ drop n buf, s')" "sched_suffix s s'"
  using full_pread_at_short [of s 0 n buf off] assms by (auto simp: full_pread_def)

lemma full_pwrite_short:
  assumes "short_only s" "n \<le> length buf" "0 \<le> off" "nat off \<le> length (io_bytes s)"
  obtains s' where "full_pwrite buf n off s
      = Some (int n, s'\<lparr>io_bytes := splice_at (io_bytes s) (nat off) (take n buf)\<rparr>)"
    "sched_suffix s s'"
  using full_pwrite_at_short [of s 0 n buf off] assms by (auto simp: full_pwrite_def)

text \<open>
  C21: whatever short transfers the system makes, \<open>full_pwrite\<close> stores the whole buffer, and a
  \<open>full_pread\<close> of the same range returns it with its full count and no error, while the volume
  keeps its size and all its other bytes.
\<close>

theorem full_pwrite_pread_roundtrip:
  assumes "short_only s" "short_only s2" "length rbuf = length buf" "0 \<le> off"
    "nat off + length buf \<le> length (io_bytes s)"
  shows "\<exists>s1. full_pwrite buf (length buf) off s = Some (int (length buf), s1)
    \<and> length (io_bytes s1) = length (io_bytes s) \<and> io_errno s1 = io_errno s
    \<and> (\<forall>i < length (io_bytes s). i < nat off \<or> nat off + length buf \<le> i
         \<longrightarrow> io_bytes s1 ! i = io_bytes s ! i)
    \<and> (io_bytes s2 = io_bytes s1 \<longrightarrow> (\<exists>s3. full_pread rbuf (length buf) off s2
         = Some (int (length buf), buf, s3) \<and> io_errno s3 = io_errno s2))"
proof -
  from assms obtain s1 where wr: "full_pwrite buf (length buf) off s = Some (int (length buf),
      s1\<lparr>io_bytes := splice_at (io_bytes s) (nat off) buf\<rparr>)" and suf: "sched_suffix s s1"
    by (elim full_pwrite_short [of s "length buf" buf off]) auto
  have "\<exists>s3. full_pread rbuf (length buf) off s2 = Some (int (length buf), buf, s3)
      \<and> io_errno s3 = io_errno s2" if "io_bytes s2 = splice_at (io_bytes s) (nat off) buf"
    using assms that
    by (elim full_pread_short [of s2 "length buf" rbuf off]) (auto simp: sched_suffixD)
  with wr suf assms show ?thesis
    by (auto simp: nth_splice_inside sched_suffixD)
qed

theorem full_pwrite_pread_roundtrip_witness:
  "\<exists>s1. full_pwrite [7, 8] 2 1 \<lparr>io_bytes = [0, 0, 0, 0], io_sched = [Upto 1],
      io_errno = 0, io_now = 0\<rparr> = Some (2, s1) \<and> io_bytes s1 ! 0 = 0 \<and> io_bytes s1 ! 3 = 0"
proof -
  let ?s = "\<lparr>io_bytes = [0, 0, 0, 0], io_sched = [Upto 1], io_errno = 0, io_now = 0\<rparr>"
  have "short_only ?s" by (simp add: short_only_def)
  from full_pwrite_pread_roundtrip [OF this this, where rbuf = "[0, 0]" and buf = "[7, 8]" and off = 1]
  obtain s1 where wr: "full_pwrite [7, 8] 2 1 ?s = Some (2, s1)"
    and fr: "\<forall>i<4. i < 1 \<or> 3 \<le> i \<longrightarrow> io_bytes s1 ! i = [0, 0, 0, 0] ! i"
    by (auto simp: eval_nat_numeral)
  have "io_bytes s1 ! 0 = 0" using fr [rule_format, of 0] by simp
  moreover have "io_bytes s1 ! 3 = 0" using fr [rule_format, of 3] by simp
  ultimately show ?thesis using wr by blast
qed

text \<open>
  A \<open>full_pread\<close> interrupted before its first byte (\<open>EINTR\<close>) does not restart the read: it
  steps one byte in front of the buffer and of the requested range, and the retried transfer
  stores outside the caller's buffer.
\<close>

theorem full_pread_eintr_underflow:
  assumes "io_sched s = Fail EINTR # rest" "short_only (s\<lparr>io_sched := rest\<rparr>)"
    "0 < n" "1 \<le> off" "nat off + n \<le> length (io_bytes s)"
  shows "full_pread buf n off s = None"
proof -
  let ?s1 = "set_errno EINTR (s\<lparr>io_sched := rest\<rparr>)"
  have "short_only ?s1" "nat (off - 1) + (n + 1) \<le> length (io_bytes ?s1)"
    using assms by (auto simp: short_only_def nat_diff_distrib)
  then obtain k s2 where rd: "0 < k" "sys_pread (n + 1) (off - 1) ?s1
      = (int k, take k (drop (nat (off - 1)) (io_bytes ?s1)), s2)"
    using assms by (elim sys_pread_short [of ?s1 "n + 1" "off - 1"]) auto
  have "full_pread_loop buf 0 n off s = full_pread_loop buf (-1) (n + 1) (off - 1) ?s1"
    using assms by (subst full_pread_loop.simps)
      (simp add: sys_pread_def next_outcome_def nat_add_distrib)
  also have "\<dots> = None"
    using rd by (subst full_pread_loop.simps) (simp add: buf_store_def)
  finally show ?thesis by (simp add: full_pread_def full_pread_at_def)
qed

theorem full_pread_eintr_underflow_witness:
  "full_pread [0, 0] 2 1 \<lparr>io_bytes = [1, 2, 3, 4], io_sched = [Fail EINTR],
      io_errno = 0, io_now = 0\<rparr> = None"
  by (rule full_pread_eintr_underflow [where rest = "[]"]) (simp_all add: short_only_def)

end
