(* ===== verification/Fat_Time.thy ===== *)
theory Fat_Time
  imports Prelude
begin

text \<open>
  Model of the time stamps and numeric helpers of \<open>LAB4/main/esqueleto/fat_util.c\<close> and
  \<open>fat_util.h\<close>: \<open>fill_time\<close>, \<open>time_to_unix_time\<close>, \<open>remove_trailing_spaces\<close>, \<open>bsr\<close> and
  \<open>is_power_of_2\<close>.  \<open>gmtime_r\<close> is computed on the proleptic Gregorian calendar; \<open>mktime\<close>, whose
  result depends on the time zone of the host, is an argument.
\<close>

section \<open>Broken-down time\<close>

record tm =
  tm_sec :: int
  tm_min :: int
  tm_hour :: int
  tm_mday :: int
  tm_mon :: int
  tm_year :: int

text \<open>The calendar: the year a day falls in, counted from a first of January, then the month.\<close>

definition year_len :: "int \<Rightarrow> int" where
  "year_len y = (if y mod 4 = 0 \<and> (y mod 100 \<noteq> 0 \<or> y mod 400 = 0) then 366 else 365)"

function civil_year :: "int \<Rightarrow> int \<Rightarrow> int \<times> int" where
  "civil_year y d =
     (if d < 0 then civil_year (y - 1) (d + year_len (y - 1))
      else if year_len y \<le> d then civil_year (y + 1) (d - year_len y)
      else (y, d))"
  by pat_completeness auto
termination
  by (relation "measure (\<lambda>(y, d). if d < 0 then nat (- d) + 400 else nat d)")
     (auto simp: year_len_def)

declare civil_year.simps [simp del]

definition month_lens :: "int \<Rightarrow> int list" where
  "month_lens y = [31, year_len y - 337, 31, 30, 31, 30, 31, 31, 30, 31, 30, 31]"

fun civil_month :: "int list \<Rightarrow> int \<Rightarrow> int \<Rightarrow> int \<times> int" where
  "civil_month [] m d = (m, d + 1)"
| "civil_month (l # ls) m d = (if d < l then (m, d + 1) else civil_month ls (m + 1) (d - l))"

definition gmtime_r :: "int \<Rightarrow> tm" where
  "gmtime_r t =
     (let (y, d) = civil_year 1970 (t div 86400);
          (m, md) = civil_month (month_lens y) 0 d;
          s = t mod 86400
      in \<lparr>tm_sec = s mod 60, tm_min = s div 60 mod 60, tm_hour = s div 3600,
          tm_mday = md, tm_mon = m, tm_year = y - 1900\<rparr>)"

section \<open>FAT time stamps\<close>

definition fill_date16 :: "tm \<Rightarrow> u16" where
  "fill_date16 time_st =
     (let date = word_of_int (tm_mday time_st) AND 0x1F;
          date = date OR push_bit 5 (word_of_int (tm_mon time_st) + 1);
          date = date AND 0x1FF
      in date OR push_bit 9 (word_of_int (tm_year time_st + 1900 - 1980)))"

definition fill_time16 :: "tm \<Rightarrow> u16" where
  "fill_time16 time_st =
     (let tim = word_of_int (tm_sec time_st div 2) AND 0x1F;
          tim = tim OR push_bit 5 (word_of_int (tm_min time_st));
          tim = tim AND 0x07FF
      in tim OR push_bit 11 (word_of_int (tm_hour time_st)))"

text \<open>
  \<open>fill_time(&entry_date, entry_time, t)\<close>: the two stamps.  A caller that passes a NULL
  \<open>entry_time\<close> uses the first only.
\<close>

definition fill_time :: "int \<Rightarrow> u16 \<times> u16" where
  "fill_time t = (fill_date16 (gmtime_r t), fill_time16 (gmtime_r t))"

text \<open>The fields \<open>time_to_unix_time\<close> hands to \<open>mktime\<close>, computed on unsigned 16-bit numbers.\<close>

definition stamp_tm :: "u16 \<Rightarrow> u16 \<Rightarrow> tm" where
  "stamp_tm date time =
     (let year = drop_bit 9 date + (1980 - 1900);
          month = (drop_bit 5 date AND 0xf) - 1;
          day = date AND 0x1f;
          hours = drop_bit 11 time;
          minutes = drop_bit 5 time AND 0x3f;
          seconds = (time AND 0x1f) * 2
      in \<lparr>tm_sec = uint seconds, tm_min = uint minutes, tm_hour = uint hours,
          tm_mday = uint day, tm_mon = uint month, tm_year = uint year\<rparr>)"

definition time_to_unix_time :: "(tm \<Rightarrow> int) \<Rightarrow> u16 \<Rightarrow> u16 \<Rightarrow> int" where
  "time_to_unix_time mktime le_date le_time = mktime (stamp_tm le_date le_time)"

section \<open>Numeric and string helpers\<close>

text \<open>
  The position of the highest set bit; the instruction leaves its result undefined for 0, which
  the model gives as 0.
\<close>

fun bsr :: "nat \<Rightarrow> nat" where
  "bsr n = (if n \<le> 1 then 0 else Suc (bsr (n div 2)))"

declare bsr.simps [simp del]

definition is_power_of_2 :: "u64 \<Rightarrow> bool" where
  "is_power_of_2 n \<longleftrightarrow> n AND (n - 1) = 0 \<and> n \<noteq> 0"

fun remove_trailing_spaces :: "cstring \<Rightarrow> cstring" where
  "remove_trailing_spaces s =
     (if s \<noteq> [] \<and> last s = 0x20 then remove_trailing_spaces (butlast s) else s)"

declare remove_trailing_spaces.simps [simp del]

section \<open>Powers of two\<close>

lemma bsr_bounds: "0 < n \<Longrightarrow> 2 ^ bsr n \<le> n \<and> n < 2 ^ Suc (bsr n)"
proof (induction n rule: bsr.induct)
  case (1 n)
  show ?case
  proof (cases "n \<le> 1")
    case True
    then show ?thesis using "1.prems" by (simp add: bsr.simps [of n])
  next
    case False
    then have IH: "2 ^ bsr (n div 2) \<le> n div 2" "n div 2 < 2 ^ Suc (bsr (n div 2))" using "1.IH" by auto
    have "bsr n = Suc (bsr (n div 2))" using False by (simp add: bsr.simps [of n])
    moreover have "n = 2 * (n div 2) + n mod 2" "n mod 2 < 2" by simp_all
    ultimately show ?thesis using IH by (simp only: power_Suc) linarith
  qed
qed

lemma power_of_2_nat:
  assumes "0 < n" "n AND (n - 1) = (0 :: nat)"
  shows "n = 2 ^ bsr n"
proof (rule ccontr)
  assume ne: "n \<noteq> 2 ^ bsr n"
  let ?k = "bsr n"
  have b: "2 ^ ?k \<le> n" "n < 2 ^ Suc ?k" using bsr_bounds [OF assms(1)] by auto
  with ne have "2 ^ ?k \<le> n - 1" "n - 1 < 2 ^ Suc ?k" by auto
  then have "(n - 1) div 2 ^ ?k = 1" by (intro div_nat_eqI) auto
  moreover have "n div 2 ^ ?k = 1" using b by (intro div_nat_eqI) auto
  ultimately have "bit n ?k" "bit (n - 1) ?k" by (simp_all add: bit_iff_odd)
  then have "bit (n AND (n - 1)) ?k" by (simp add: bit_and_iff)
  then show False using assms(2) by simp
qed

lemma power_of_2_bsr:
  assumes "is_power_of_2 n"
  shows "unat n = 2 ^ bsr (unat n)"
proof (rule power_of_2_nat)
  have n: "n AND (n - 1) = 0" "n \<noteq> 0" using assms by (simp_all add: is_power_of_2_def)
  then show "0 < unat n" by (simp add: unat_gt_0)
  have "unat (n AND (n - 1)) = unat n AND unat (n - 1)" by (rule unsigned_and_eq)
  moreover have "unat (n - 1) = unat n - 1" using n(2) by (rule unat_minus_one)
  ultimately show "unat n AND (unat n - 1) = 0" using n(1) by simp
qed
lemma bsr_less: "n < 2 ^ k \<Longrightarrow> 0 < n \<Longrightarrow> bsr n < k"
  using bsr_bounds [of n] by (meson le_less_trans nat_power_less_imp_less zero_less_numeral)

section \<open>Bounds of the broken-down time\<close>

lemma gmtime_time_bounds:
  "0 \<le> tm_sec (gmtime_r t)" "tm_sec (gmtime_r t) < 60" "0 \<le> tm_min (gmtime_r t)"
  "tm_min (gmtime_r t) < 60" "0 \<le> tm_hour (gmtime_r t)" "tm_hour (gmtime_r t) < 24"
  by (auto simp: gmtime_r_def Let_def split: prod.splits)

lemma civil_year_bounds: "civil_year y d = (y', d') \<Longrightarrow> 0 \<le> d' \<and> d' < year_len y'"
proof (induction y d rule: civil_year.induct)
  case (1 y d)
  then show ?case
    by (cases "d < 0"; cases "year_len y \<le> d") (auto simp: civil_year.simps [of y d])
qed

lemma civil_month_bounds:
  assumes "civil_month ls m d = (m', md)" "0 \<le> d" "d < sum_list ls" "\<forall>l \<in> set ls. l \<le> 31"
  shows "m \<le> m' \<and> m' < m + int (length ls) \<and> 1 \<le> md \<and> md \<le> 31"
  using assms by (induction ls m d rule: civil_month.induct) (fastforce split: if_splits)+

lemma gmtime_date_bounds:
  "0 \<le> tm_mon (gmtime_r t)" "tm_mon (gmtime_r t) < 12"
  "1 \<le> tm_mday (gmtime_r t)" "tm_mday (gmtime_r t) \<le> 31"
proof -
  obtain y d where y: "civil_year 1970 (t div 86400) = (y, d)" by fastforce
  obtain m md where m: "civil_month (month_lens y) 0 d = (m, md)" by fastforce
  from civil_year_bounds [OF y] have "0 \<le> d" "d < sum_list (month_lens y)"
    by (auto simp: month_lens_def)
  with m have "0 \<le> m \<and> m < 12 \<and> 1 \<le> md \<and> md \<le> 31"
    using civil_month_bounds [OF m] by (auto simp: month_lens_def year_len_def)
  with y m show "0 \<le> tm_mon (gmtime_r t)" "tm_mon (gmtime_r t) < 12"
      "1 \<le> tm_mday (gmtime_r t)" "tm_mday (gmtime_r t) \<le> 31"
    by (auto simp: gmtime_r_def Let_def)
qed

section \<open>Stamps round trip\<close>

lemma bit_small:
  fixes w :: "'a::len word"
  assumes "uint w < 2 ^ k" "bit w n"
  shows "n < k"
proof (rule ccontr)
  assume "\<not> n < k"
  have "take_bit k (uint w) = uint w" using assms(1) by (simp add: take_bit_int_eq_self)
  then have "bit (uint w) n \<longrightarrow> n < k" by (metis bit_take_bit_iff)
  moreover have "n < LENGTH('a)" using assms(2) by (rule bit_imp_le_length)
  ultimately show False using \<open>\<not> n < k\<close> assms(2) by (simp add: bit_uint_iff)
qed

lemma mask16: "(0x1f::u16) = mask 5" "(0xf::u16) = mask 4" "(0x1FF::u16) = mask 9"
    "(0x3f::u16) = mask 6" "(0x7FF::u16) = mask 11"
  by (simp_all add: mask_eq_exp_minus_1)

text \<open>Packing three fields of 5, 4 and 7 bits and reading them back; then 5, 6 and 5 bits.\<close>

lemma date_fields:
  fixes d m y :: u16
  assumes "uint d < 2 ^ 5" "uint m < 2 ^ 4" "uint y < 2 ^ 7"
  defines "w \<equiv> ((d AND 0x1F) OR push_bit 5 m) AND 0x1FF OR push_bit 9 y"
  shows "w AND 0x1f = d" "drop_bit 5 w AND 0xf = m" "drop_bit 9 w = y"
  unfolding w_def mask16
  by (intro bit_word_eqI; auto simp: bit_simps dest: bit_small [OF assms(1)]
      bit_small [OF assms(2)] bit_small [OF assms(3)])+

lemma time_fields:
  fixes sc mi h :: u16
  assumes "uint sc < 2 ^ 5" "uint mi < 2 ^ 6" "uint h < 2 ^ 5"
  defines "w \<equiv> ((sc AND 0x1F) OR push_bit 5 mi) AND 0x7FF OR push_bit 11 h"
  shows "w AND 0x1f = sc" "drop_bit 5 w AND 0x3f = mi" "drop_bit 11 w = h"
  unfolding w_def mask16
  by (intro bit_word_eqI; auto simp: bit_simps dest: bit_small [OF assms(1)]
      bit_small [OF assms(2)] bit_small [OF assms(3)])+

lemma uint16_of_int: "0 \<le> x \<Longrightarrow> x < 65536 \<Longrightarrow> uint (word_of_int x :: u16) = x"
  by (simp add: uint_word_of_int take_bit_eq_mod)

lemma stamp_tm_fill:
  assumes "1 \<le> tm_mday z" "tm_mday z \<le> 31" "0 \<le> tm_mon z" "tm_mon z < 12"
    "1980 \<le> tm_year z + 1900" "tm_year z + 1900 \<le> 2107"
    "0 \<le> tm_sec z" "tm_sec z < 60" "0 \<le> tm_min z" "tm_min z < 60" "0 \<le> tm_hour z" "tm_hour z < 24"
  shows "stamp_tm (fill_date16 z) (fill_time16 z) = z\<lparr>tm_sec := 2 * (tm_sec z div 2)\<rparr>"
proof -
  have mon: "(word_of_int (tm_mon z) + 1 :: u16) = word_of_int (tm_mon z + 1)" by simp
  have yr: "(word_of_int (tm_year z + 1900 - 1980) + (1980 - 1900) :: u16) = word_of_int (tm_year z)"
    by (simp only: of_int_add of_int_diff of_int_numeral) (simp add: algebra_simps)
  have sec: "(word_of_int (tm_sec z div 2) * 2 :: u16) = word_of_int (2 * (tm_sec z div 2))"
    by (simp add: mult.commute)
  have u: "uint (word_of_int (tm_mday z) :: u16) < 2 ^ 5"
      "uint (word_of_int (tm_mon z + 1) :: u16) < 2 ^ 4"
      "uint (word_of_int (tm_year z + 1900 - 1980) :: u16) < 2 ^ 7"
      "uint (word_of_int (tm_sec z div 2) :: u16) < 2 ^ 5"
      "uint (word_of_int (tm_min z) :: u16) < 2 ^ 6"
      "uint (word_of_int (tm_hour z) :: u16) < 2 ^ 5"
    by (subst uint16_of_int; use assms in simp)+
  have d: "fill_date16 z AND 0x1f = word_of_int (tm_mday z)"
      "drop_bit 5 (fill_date16 z) AND 0xf = word_of_int (tm_mon z) + 1"
      "drop_bit 9 (fill_date16 z) = word_of_int (tm_year z + 1900 - 1980)"
    unfolding fill_date16_def Let_def mon by (rule date_fields [OF u(1-3)])+
  have t: "fill_time16 z AND 0x1f = word_of_int (tm_sec z div 2)"
      "drop_bit 5 (fill_time16 z) AND 0x3f = word_of_int (tm_min z)"
      "drop_bit 11 (fill_time16 z) = word_of_int (tm_hour z)"
    unfolding fill_time16_def Let_def by (rule time_fields [OF u(4-6)])+
  have us: "uint (word_of_int (2 * (tm_sec z div 2)) :: u16) = 2 * (tm_sec z div 2)"
    by (rule uint16_of_int) (use assms in auto)
  have "stamp_tm (fill_date16 z) (fill_time16 z) = \<lparr>tm_sec = 2 * (tm_sec z div 2),
      tm_min = tm_min z, tm_hour = tm_hour z, tm_mday = tm_mday z, tm_mon = tm_mon z,
      tm_year = tm_year z\<rparr>"
    unfolding stamp_tm_def Let_def d t yr sec us
    using assms by (simp add: uint16_of_int del: of_int_mult)
  then show ?thesis by (cases z) simp
qed

text \<open>
  For every second of the years 1980 to 2107, reading back the FAT stamps written for it
  gives the same calendar date and time, with the seconds rounded down to an even number.
\<close>

theorem fat_time_roundtrip:
  assumes "1980 \<le> tm_year (gmtime_r t) + 1900" "tm_year (gmtime_r t) + 1900 \<le> 2107"
  shows "time_to_unix_time mktime (fst (fill_time t)) (snd (fill_time t))
    = mktime ((gmtime_r t)\<lparr>tm_sec := 2 * (tm_sec (gmtime_r t) div 2)\<rparr>)"
  unfolding time_to_unix_time_def fill_time_def fst_conv snd_conv
  by (subst stamp_tm_fill) (use assms gmtime_date_bounds [of t] gmtime_time_bounds [of t] in auto)

theorem fat_time_roundtrip_witness:
  "time_to_unix_time tm_mday (fst (fill_time 1000000000)) (snd (fill_time 1000000000)) = 9"
proof -
  have z: "gmtime_r 1000000000 = \<lparr>tm_sec = 40, tm_min = 46, tm_hour = 1, tm_mday = 9, tm_mon = 8,
      tm_year = 101\<rparr>"
    by (simp add: gmtime_r_def civil_year.simps year_len_def month_lens_def)
  show ?thesis using fat_time_roundtrip [of 1000000000 tm_mday] by (simp add: z)
qed

end
