(* ===== verification/Fat_Table.thy ===== *)
theory Fat_Table
  imports Fat_Util
begin

text \<open>
  Model of \<open>LAB4/main/esqueleto/fat_table.c\<close>: the file allocation table, kept both in memory
  (\<open>fat_map\<close>, a private mapping) and on the volume, and the chains of clusters it encodes.
  Reading or writing \<open>fat_map\<close> past its end is a fault (\<open>None\<close>).  The host is little-endian, so
  \<open>le32_to_cpu\<close> is the identity on a loaded entry.
\<close>

record fat_table =
  fat_map :: "u32 list"
  fat_offset :: int
  num_data_clusters :: u32
  data_start_offset :: int
  cluster_order :: u16

abbreviation (input) FAT_CLUSTER_END_OF_CHAIN_MIN :: u32 where
  "FAT_CLUSTER_END_OF_CHAIN_MIN \<equiv> 0x0FFFFFF8"
abbreviation (input) FAT_CLUSTER_END_OF_CHAIN_MAX :: u32 where
  "FAT_CLUSTER_END_OF_CHAIN_MAX \<equiv> 0x0FFFFFFF"
abbreviation (input) FAT_CLUSTER_FREE :: u32 where "FAT_CLUSTER_FREE \<equiv> 0"
abbreviation (input) FAT_CLUSTER_BAD_SECTOR :: u32 where "FAT_CLUSTER_BAD_SECTOR \<equiv> 0x0FFFFFF7"

section \<open>Operations\<close>

definition fat_table_is_valid_cluster_number :: "fat_table \<Rightarrow> u32 \<Rightarrow> bool" where
  "fat_table_is_valid_cluster_number t cluster \<longleftrightarrow>
     cluster \<ge> 2 \<and> cluster < num_data_clusters t + 2"

definition fat_table_get_next_cluster :: "fat_table \<Rightarrow> u32 \<Rightarrow> u32 option" where
  "fat_table_get_next_cluster t cur_cluster = do {
     next_cluster \<leftarrow> array_get (fat_map t) (unat cur_cluster);
     Some (if \<not> fat_table_is_valid_cluster_number t next_cluster
           then FAT_CLUSTER_END_OF_CHAIN_MAX else next_cluster)
   }"

text \<open>\<open>1 << cluster_order\<close>; mounting bounds the order by 19, far from the width of \<open>int\<close>.\<close>

definition fat_table_bytes_per_cluster :: "fat_table \<Rightarrow> nat" where
  "fat_table_bytes_per_cluster t = 2 ^ unat (cluster_order t)"

definition fat_table_mask_offset :: "int \<Rightarrow> fat_table \<Rightarrow> nat" where
  "fat_table_mask_offset off t = nat (off AND (int (fat_table_bytes_per_cluster t) - 1))"

definition fat_table_get_cluster_remaining_bytes :: "fat_table \<Rightarrow> nat \<Rightarrow> int \<Rightarrow> nat" where
  "fat_table_get_cluster_remaining_bytes t bytes_remaining off =
     min (fat_table_bytes_per_cluster t - fat_table_mask_offset off t) bytes_remaining"

definition fat_table_get_clusters_for_size :: "fat_table \<Rightarrow> nat \<Rightarrow> u32" where
  "fat_table_get_clusters_for_size t file_size = word_of_int
     (drop_bit (unat (cluster_order t)) (int file_size + (int (fat_table_bytes_per_cluster t) - 1)))"

text \<open>The scan for a free entry: the loop stops at the first zero entry, wherever it is.\<close>

partial_function (option) next_free_loop :: "fat_table \<Rightarrow> u32 \<Rightarrow> u32 option" where
  "next_free_loop t c = do {
     entry \<leftarrow> array_get (fat_map t) (unat c);
     if entry \<noteq> FAT_CLUSTER_FREE then next_free_loop t (c + 1) else Some c
   }"

definition fat_table_get_next_free_cluster :: "fat_table \<Rightarrow> u32 option" where
  "fat_table_get_next_free_cluster t = do {
     c \<leftarrow> next_free_loop t 2;
     Some (if \<not> fat_table_is_valid_cluster_number t c then FAT_CLUSTER_END_OF_CHAIN_MAX else c)
   }"

definition fat_table_cluster_offset :: "fat_table \<Rightarrow> u32 \<Rightarrow> int" where
  "fat_table_cluster_offset t cluster =
     data_start_offset t + push_bit (unat (cluster_order t)) (uint (cluster - 2))"

definition fat_table_is_cluster_used :: "fat_table \<Rightarrow> u32 \<Rightarrow> bool option" where
  "fat_table_is_cluster_used t cluster = do {
     entry \<leftarrow> array_get (fat_map t) (unat cluster);
     Some (entry \<noteq> 0)
   }"

definition fat_table_set_next_cluster ::
  "fat_table \<Rightarrow> u32 \<Rightarrow> u32 \<Rightarrow> io \<Rightarrow> (fat_table \<times> io) option" where
  "fat_table_set_next_cluster t cur_cluster next_cluster s = do {
     let entry_offset = uint (cur_cluster * 4) + fat_offset t;
     (written_bytes, s1) \<leftarrow> sys_pwrite (le32_bytes next_cluster) 0 4 entry_offset s;
     if written_bytes \<le> 0 then Some (t, set_errno EIO s1)
     else do {
       m \<leftarrow> array_set (fat_map t) (unat cur_cluster) next_cluster;
       Some (t\<lparr>fat_map := m\<rparr>, s1)
     }
   }"

fun seek_loop :: "fat_table \<Rightarrow> nat \<Rightarrow> u32 \<Rightarrow> io \<Rightarrow> (u32 \<times> io) option" where
  "seek_loop t 0 c s = Some (c, s)"
| "seek_loop t (Suc i) c s =
     (if c = FAT_CLUSTER_END_OF_CHAIN_MAX then Some (0, set_errno EOVERFLOW s)
      else do { c' \<leftarrow> fat_table_get_next_cluster t c; seek_loop t i c' s })"

definition fat_table_seek_cluster :: "fat_table \<Rightarrow> u32 \<Rightarrow> int \<Rightarrow> io \<Rightarrow> (u32 \<times> io) option" where
  "fat_table_seek_cluster t start_cluster off s =
     (let positions_to_move = (word_of_int (drop_bit (unat (cluster_order t)) off) :: u32)
      in seek_loop t (unat positions_to_move) start_cluster s)"

definition fat_table_cluster_is_EOC :: "u32 \<Rightarrow> bool" where
  "fat_table_cluster_is_EOC cluster \<longleftrightarrow>
     cluster \<ge> FAT_CLUSTER_END_OF_CHAIN_MIN \<and> cluster \<le> FAT_CLUSTER_END_OF_CHAIN_MAX"

definition fat_table_cluster_is_bad_sector :: "u32 \<Rightarrow> bool" where
  "fat_table_cluster_is_bad_sector cluster \<longleftrightarrow> cluster = FAT_CLUSTER_BAD_SECTOR"

definition fat_table_cluster_is_valid :: "u32 \<Rightarrow> bool" where
  "fat_table_cluster_is_valid cluster \<longleftrightarrow>
     \<not> fat_table_cluster_is_EOC cluster \<and> \<not> fat_table_cluster_is_bad_sector cluster"

section \<open>Well-formed tables\<close>

text \<open>
  What mounting a FAT32 volume gives: the cluster numbers stay below the reserved values and the
  mapped table has an entry for each of them.
\<close>

definition table_wf :: "fat_table \<Rightarrow> bool" where
  "table_wf t \<longleftrightarrow> unat (num_data_clusters t) + 2 \<le> length (fat_map t)
     \<and> unat (num_data_clusters t) + 2 \<le> 0x0FFFFFF7
     \<and> length (fat_map t) \<le> 0x10000000 \<and> unat (cluster_order t) \<le> 19"

lemma valid_number_unat:
  assumes "table_wf t"
  shows "fat_table_is_valid_cluster_number t c \<longleftrightarrow> 2 \<le> unat c \<and> unat c < unat (num_data_clusters t) + 2"
proof -
  have "unat (num_data_clusters t + 2) = unat (num_data_clusters t) + 2"
    using assms by (subst unat_add_lem [THEN iffD1]) (auto simp: table_wf_def)
  then show ?thesis
    by (auto simp: fat_table_is_valid_cluster_number_def word_nat_simps)
qed

lemma valid_number_is_valid:
  assumes "table_wf t" "fat_table_is_valid_cluster_number t c"
  shows "fat_table_cluster_is_valid c" "unat c < length (fat_map t)" "c \<noteq> 0"
    "c \<noteq> FAT_CLUSTER_END_OF_CHAIN_MAX"
  using assms unfolding valid_number_unat [OF assms(1)]
  by (auto simp: table_wf_def fat_table_cluster_is_valid_def fat_table_cluster_is_EOC_def
      fat_table_cluster_is_bad_sector_def word_nat_simps)

lemma special_not_valid_number:
  assumes "table_wf t"
  shows "\<not> fat_table_is_valid_cluster_number t 0"
    "\<not> fat_table_is_valid_cluster_number t FAT_CLUSTER_END_OF_CHAIN_MAX"
    "\<not> fat_table_is_valid_cluster_number t FAT_CLUSTER_BAD_SECTOR"
  using assms unfolding valid_number_unat [OF assms]
  by (auto simp: table_wf_def)

lemma EOC_not_valid [simp]: "\<not> fat_table_cluster_is_valid FAT_CLUSTER_END_OF_CHAIN_MAX"
  by (simp add: fat_table_cluster_is_valid_def fat_table_cluster_is_EOC_def)

lemma bytes_per_cluster_pos [simp]: "0 < fat_table_bytes_per_cluster t"
  by (simp add: fat_table_bytes_per_cluster_def)

lemma mask_offset_mod:
  "0 \<le> off \<Longrightarrow> fat_table_mask_offset off t = nat off mod fat_table_bytes_per_cluster t"
  by (simp add: fat_table_mask_offset_def fat_table_bytes_per_cluster_def and_mask_int nat_mod_distrib
      nat_power_eq)

lemma mask_offset_less [simp]:
  "0 \<le> off \<Longrightarrow> fat_table_mask_offset off t < fat_table_bytes_per_cluster t"
  by (simp add: mask_offset_mod)

lemma remaining_bytes_pos:
  "0 \<le> off \<Longrightarrow> 0 < n \<Longrightarrow> 0 < fat_table_get_cluster_remaining_bytes t n off"
  by (simp add: fat_table_get_cluster_remaining_bytes_def)

section \<open>Chains of clusters\<close>

text \<open>\<open>fat_chain t c cs\<close>: starting from \<open>c\<close> the table visits exactly the clusters \<open>cs\<close>.\<close>

fun fat_chain :: "fat_table \<Rightarrow> u32 \<Rightarrow> u32 list \<Rightarrow> bool" where
  "fat_chain t c [] \<longleftrightarrow> c = FAT_CLUSTER_END_OF_CHAIN_MAX"
| "fat_chain t c (x # xs) \<longleftrightarrow> c = x \<and> fat_table_is_valid_cluster_number t x
     \<and> (case fat_table_get_next_cluster t x of None \<Rightarrow> False | Some n \<Rightarrow> fat_chain t n xs)"

lemma fat_chain_unique: "fat_chain t c xs \<Longrightarrow> fat_chain t c ys \<Longrightarrow> table_wf t \<Longrightarrow> xs = ys"
proof (induction xs arbitrary: c ys)
  case Nil
  then show ?case using special_not_valid_number(2) by (cases ys) auto
next
  case (Cons x xs)
  then show ?case using special_not_valid_number(2)
    by (cases ys) (auto split: option.splits)
qed

lemma fat_chain_suffix: "fat_chain t c (xs @ y # ys) \<Longrightarrow> fat_chain t y (y # ys)"
  by (induction xs arbitrary: c) (fastforce split: option.splits)+

lemma fat_chain_distinct: "fat_chain t c xs \<Longrightarrow> table_wf t \<Longrightarrow> distinct xs"
proof (induction xs arbitrary: c)
  case (Cons x xs)
  have "x \<notin> set xs"
  proof
    assume "x \<in> set xs"
    then obtain as bs where xs: "xs = as @ x # bs" by (auto simp: in_set_conv_decomp)
    from Cons.prems(1) have x: "fat_chain t x (x # xs)" by (auto split: option.splits)
    from x xs have "fat_chain t x (x # bs)" using fat_chain_suffix [of t x "x # as" x bs] by simp
    with x have "xs = bs" using fat_chain_unique Cons.prems(2) by blast
    with xs show False by (simp add: append_eq_Cons_conv)
  qed
  with Cons show ?case by (auto split: option.splits)
qed simp

lemma fat_chain_validD:
  "fat_chain t c xs \<Longrightarrow> x \<in> set xs \<Longrightarrow> fat_table_is_valid_cluster_number t x"
  by (induction xs arbitrary: c) (auto split: option.splits)

text \<open>A chain depends only on the entries of its own clusters.\<close>

lemma get_next_update_other [heap_simps]:
  "c \<noteq> d \<Longrightarrow> fat_table_get_next_cluster (t\<lparr>fat_map := (fat_map t)[unat d := v]\<rparr>) c
     = fat_table_get_next_cluster t c"
  by (auto simp: fat_table_get_next_cluster_def array_get_def fat_table_is_valid_cluster_number_def
      nth_list_update unat_arith_simps)

lemma valid_number_update [heap_simps]:
  "fat_table_is_valid_cluster_number (t\<lparr>fat_map := m\<rparr>) c = fat_table_is_valid_cluster_number t c"
  by (simp add: fat_table_is_valid_cluster_number_def)

lemma get_next_update_same [heap_simps]:
  "unat d < length (fat_map t) \<Longrightarrow>
     fat_table_get_next_cluster (t\<lparr>fat_map := (fat_map t)[unat d := v]\<rparr>) d
     = Some (if fat_table_is_valid_cluster_number t v then v else FAT_CLUSTER_END_OF_CHAIN_MAX)"
  by (simp add: fat_table_get_next_cluster_def array_get_def fat_table_is_valid_cluster_number_def)

lemma table_wf_update [heap_simps]: "table_wf (t\<lparr>fat_map := (fat_map t)[i := v]\<rparr>) = table_wf t"
  by (simp add: table_wf_def)

lemma fat_chain_update_other [heap_simps]:
  "d \<notin> set cs \<Longrightarrow> fat_chain (t\<lparr>fat_map := (fat_map t)[unat d := v]\<rparr>) c cs = fat_chain t c cs"
proof (induction cs arbitrary: c)
  case (Cons x xs)
  then have "x \<noteq> d" by auto
  with Cons show ?case
    by (simp add: get_next_update_other valid_number_update cong: option.case_cong)
qed simp

text \<open>Writing the end mark into a cluster of a chain cuts the chain behind it.\<close>

lemma fat_chain_cut:
  assumes "table_wf t" "fat_chain t c (xs @ x # ys)" "distinct (xs @ x # ys)"
  shows "fat_chain (t\<lparr>fat_map := (fat_map t)[unat x := FAT_CLUSTER_END_OF_CHAIN_MAX]\<rparr>) c (xs @ [x])"
  using assms(2,3)
proof (induction xs arbitrary: c)
  case Nil
  then have "fat_table_is_valid_cluster_number t x" by simp
  then show ?case
    using Nil valid_number_is_valid(2) [OF assms(1)] special_not_valid_number(2) [OF assms(1)]
    by (simp add: valid_number_update get_next_update_same)
next
  case (Cons y ys')
  then have "y \<noteq> x" by auto
  with Cons show ?case by (auto simp: valid_number_update get_next_update_other split: option.splits)
qed

section \<open>The search for a free cluster\<close>

lemma next_free_loop_found:
  assumes "unat c \<le> i" "i < length (fat_map t)" "i < 2 ^ 32" "fat_map t ! i = 0"
    "\<forall>j. unat c \<le> j \<and> j < i \<longrightarrow> fat_map t ! j \<noteq> 0"
  shows "next_free_loop t c = Some (word_of_nat i)"
  using assms
proof (induction "i - unat c" arbitrary: c)
  case 0
  then have "c = word_of_nat i" by (metis diff_is_0_eq le_antisym of_nat_unat ucast_id)
  with 0 show ?case by (subst next_free_loop.simps) (simp add: array_get_def)
next
  case (Suc k)
  then have "unat c < i" by simp
  with Suc.prems have "unat (c + 1) = Suc (unat c)"
    by (simp add: unat_word_ariths)
  with Suc have "next_free_loop t (c + 1) = Some (word_of_nat i)" by auto
  with \<open>unat c < i\<close> Suc.prems show ?case
    by (subst next_free_loop.simps) (simp add: array_get_def)
qed

lemma next_free_loop_none:
  assumes "\<forall>j. unat c \<le> j \<and> j < length (fat_map t) \<longrightarrow> fat_map t ! j \<noteq> 0"
    "length (fat_map t) < 2 ^ 32"
  shows "next_free_loop t c = None"
  using assms
proof (induction "length (fat_map t) - unat c" arbitrary: c)
  case 0
  then show ?case by (subst next_free_loop.simps) (simp add: array_get_def)
next
  case (Suc k)
  then have "unat c < length (fat_map t)" by simp
  with Suc.prems have "unat (c + 1) = Suc (unat c)"
    by (simp add: unat_word_ariths)
  with Suc have "next_free_loop t (c + 1) = None" by auto
  with \<open>unat c < length (fat_map t)\<close> Suc.prems show ?case
    by (subst next_free_loop.simps) (simp add: array_get_def)
qed

definition free_entry :: "fat_table \<Rightarrow> nat \<Rightarrow> bool" where
  "free_entry t i \<longleftrightarrow> 2 \<le> i \<and> i < length (fat_map t) \<and> fat_map t ! i = 0"

lemma next_free_least:
  assumes "table_wf t" "free_entry t i"
  obtains k where "free_entry t k" "k \<le> i" "\<forall>j. 2 \<le> j \<and> j < k \<longrightarrow> fat_map t ! j \<noteq> 0"
    "next_free_loop t 2 = Some (word_of_nat k)" "unat (word_of_nat k :: u32) = k"
proof -
  define k where "k = (LEAST k. free_entry t k)"
  have kf: "free_entry t k" unfolding k_def using assms(2) by (rule LeastI)
  have least: "\<not> free_entry t j" if "j < k" for j
    using that unfolding k_def by (rule not_less_Least)
  have k: "free_entry t k" "k \<le> i" "\<forall>j. 2 \<le> j \<and> j < k \<longrightarrow> fat_map t ! j \<noteq> 0"
    using kf least assms(2) by (auto simp: free_entry_def intro: leI)
  moreover have "k < 2 ^ 32" using k assms(1) by (auto simp: free_entry_def table_wf_def)
  moreover from this have "next_free_loop t 2 = Some (word_of_nat k)"
    using k by (intro next_free_loop_found) (auto simp: free_entry_def)
  ultimately show thesis using that [of k] by (simp add: unat_of_nat)
qed

lemma next_free_some:
  assumes "table_wf t" "free_entry t i" "i < unat (num_data_clusters t) + 2"
  obtains c where "fat_table_get_next_free_cluster t = Some c" "fat_table_is_valid_cluster_number t c"
    "fat_map t ! unat c = 0" "unat c \<le> i" "\<forall>j. 2 \<le> j \<and> j < unat c \<longrightarrow> fat_map t ! j \<noteq> 0"
proof -
  from next_free_least [OF assms(1,2)] obtain k where k: "free_entry t k" "k \<le> i"
    "\<forall>j. 2 \<le> j \<and> j < k \<longrightarrow> fat_map t ! j \<noteq> 0" "next_free_loop t 2 = Some (word_of_nat k)"
    "unat (word_of_nat k :: u32) = k" .
  with assms show thesis
    by (intro that [of "word_of_nat k"])
      (auto simp: fat_table_get_next_free_cluster_def valid_number_unat free_entry_def)
qed

text \<open>
  C27: the search for a free cluster.  If the entry of a data cluster is free the lowest free one
  is returned.  Otherwise, if an entry of the table behind those of the data clusters is 0, the
  answer is the end-of-chain mark.  Otherwise the scan reads behind the mapped table, a fault: it
  has no bound of its own.
\<close>

theorem next_free_cluster_cases:
  assumes "table_wf t"
  shows "if \<exists>j < unat (num_data_clusters t) + 2. free_entry t j then
      \<exists>c. fat_table_get_next_free_cluster t = Some c \<and> free_entry t (unat c)
        \<and> fat_table_is_valid_cluster_number t c \<and> (\<forall>j. free_entry t j \<longrightarrow> unat c \<le> j)
    else if \<exists>j. free_entry t j then
      fat_table_get_next_free_cluster t = Some FAT_CLUSTER_END_OF_CHAIN_MAX
    else fat_table_get_next_free_cluster t = None"
proof (cases "\<exists>i. free_entry t i")
  case False
  then have "\<forall>j. 2 \<le> j \<and> j < length (fat_map t) \<longrightarrow> fat_map t ! j \<noteq> 0"
    by (auto simp: free_entry_def)
  then have "next_free_loop t 2 = None"
    using assms by (intro next_free_loop_none) (auto simp: table_wf_def)
  with False show ?thesis by (simp add: fat_table_get_next_free_cluster_def)
next
  case True
  then obtain i where "free_entry t i" ..
  from next_free_least [OF assms this] obtain k where k: "free_entry t k"
    "\<forall>j. 2 \<le> j \<and> j < k \<longrightarrow> fat_map t ! j \<noteq> 0" "next_free_loop t 2 = Some (word_of_nat k)"
    "unat (word_of_nat k :: u32) = k" .
  then have least: "\<forall>j. free_entry t j \<longrightarrow> k \<le> j" by (meson free_entry_def not_le)
  show ?thesis
  proof (cases "k < unat (num_data_clusters t) + 2")
    case True
    then have "fat_table_is_valid_cluster_number t (word_of_nat k)"
      using k assms by (simp add: valid_number_unat free_entry_def)
    then have "fat_table_get_next_free_cluster t = Some (word_of_nat k)"
      using k(3) by (simp add: fat_table_get_next_free_cluster_def)
    with True k(1,4) least \<open>fat_table_is_valid_cluster_number t (word_of_nat k)\<close> show ?thesis by auto
  next
    case False
    with k assms have "fat_table_get_next_free_cluster t = Some FAT_CLUSTER_END_OF_CHAIN_MAX"
      by (auto simp: fat_table_get_next_free_cluster_def valid_number_unat)
    moreover have "\<not> (\<exists>j < unat (num_data_clusters t) + 2. free_entry t j)" using False least by auto
    ultimately show ?thesis using k(1) by auto
  qed
qed

text \<open>Two data clusters: with a free one, with one free entry behind them, and with none.\<close>

definition small_table :: "u32 list \<Rightarrow> fat_table" where
  "small_table m = \<lparr>fat_map = m, fat_offset = 0, num_data_clusters = 2, data_start_offset = 16, cluster_order = 2\<rparr>"

theorem next_free_cluster_cases_witness:
  "(\<exists>c. fat_table_get_next_free_cluster (small_table [0x0FFFFFF8, 0x0FFFFFFF, 0x0FFFFFFF, 0, 0]) = Some c \<and> unat c \<le> 3)
   \<and> fat_table_get_next_free_cluster (small_table [0x0FFFFFF8, 0x0FFFFFFF, 0x0FFFFFFF, 0x0FFFFFFF, 0])
       = Some FAT_CLUSTER_END_OF_CHAIN_MAX
   \<and> fat_table_get_next_free_cluster (small_table [0x0FFFFFF8, 0x0FFFFFFF, 0x0FFFFFFF, 0x0FFFFFFF]) = None"
proof (intro conjI)
  have wf: "table_wf (small_table [0x0FFFFFF8, 0x0FFFFFFF, 0x0FFFFFFF, 0, 0])"
    "table_wf (small_table [0x0FFFFFF8, 0x0FFFFFFF, 0x0FFFFFFF, 0x0FFFFFFF, 0])"
    "table_wf (small_table [0x0FFFFFF8, 0x0FFFFFFF, 0x0FFFFFFF, 0x0FFFFFFF])"
    by (simp_all add: table_wf_def small_table_def)
  have n: "unat (num_data_clusters (small_table m)) + 2 = 4" for m by (simp add: small_table_def)
  have free: "free_entry (small_table [0x0FFFFFF8, 0x0FFFFFFF, 0x0FFFFFFF, 0, 0]) 3"
    "free_entry (small_table [0x0FFFFFF8, 0x0FFFFFFF, 0x0FFFFFFF, 0x0FFFFFFF, 0]) 4"
    by (simp_all add: free_entry_def small_table_def)
  have used: "\<not> free_entry (small_table (0x0FFFFFF8 # 0x0FFFFFFF # 0x0FFFFFFF # 0x0FFFFFFF # m)) j" if "j < 4" for j m
  proof
    assume free: "free_entry (small_table (0x0FFFFFF8 # 0x0FFFFFFF # 0x0FFFFFFF # 0x0FFFFFFF # m)) j"
    then have "j = 2 \<or> j = 3" using that by (auto simp: free_entry_def)
    with free show False by (auto simp: free_entry_def small_table_def)
  qed
  show "\<exists>c. fat_table_get_next_free_cluster (small_table [0x0FFFFFF8, 0x0FFFFFFF, 0x0FFFFFFF, 0, 0]) = Some c \<and> unat c \<le> 3"
  proof -
    have "\<exists>j < 4. free_entry (small_table [0x0FFFFFF8, 0x0FFFFFFF, 0x0FFFFFFF, 0, 0]) j" using free(1) by (intro exI [of _ 3]) simp
    then show ?thesis using next_free_cluster_cases [OF wf(1), unfolded n] free(1) by auto
  qed
  show "fat_table_get_next_free_cluster (small_table [0x0FFFFFF8, 0x0FFFFFFF, 0x0FFFFFFF, 0x0FFFFFFF, 0])
       = Some FAT_CLUSTER_END_OF_CHAIN_MAX"
  proof -
    let ?t = "small_table [0x0FFFFFF8, 0x0FFFFFFF, 0x0FFFFFFF, 0x0FFFFFFF, 0]"
    have "\<not> (\<exists>j < 4. free_entry ?t j)" "\<exists>j. free_entry ?t j" using used [of _ "[0]"] free(2) by blast+
    then show ?thesis using next_free_cluster_cases [OF wf(2), unfolded n] by (simp only: if_False if_True)
  qed
  have "\<not> free_entry (small_table [0x0FFFFFF8, 0x0FFFFFFF, 0x0FFFFFFF, 0x0FFFFFFF]) j" for j
    using used [of j "[]"] by (cases "j < 4") (simp_all add: free_entry_def small_table_def)
  then show "fat_table_get_next_free_cluster (small_table [0x0FFFFFF8, 0x0FFFFFFF, 0x0FFFFFFF, 0x0FFFFFFF]) = None"
    using next_free_cluster_cases [OF wf(3)] by auto
qed

section \<open>Writing an entry\<close>

text \<open>The mapped table agrees with the table on the volume.\<close>

definition fat_mirror :: "fat_table \<Rightarrow> io \<Rightarrow> bool" where
  "fat_mirror t s \<longleftrightarrow> 0 \<le> fat_offset t
     \<and> nat (fat_offset t) + 4 * length (fat_map t) \<le> length (io_bytes s)
     \<and> (\<forall>i < length (fat_map t). take 4 (drop (nat (fat_offset t) + 4 * i) (io_bytes s))
          = le32_bytes (fat_map t ! i))"

lemma take_entry:
  "i < length m \<Longrightarrow> take 4 (drop (4 * i) (concat (map le32_bytes m) @ post)) = le32_bytes (m ! i)"
proof (induction m arbitrary: i)
  case (Cons x xs)
  then show ?case by (cases i) simp_all
qed simp

lemma length_entries: "length (concat (map le32_bytes m)) = 4 * length m"
  by (induction m) simp_all

lemma fat_mirror_layout:
  assumes "io_bytes s = pre @ concat (map le32_bytes (fat_map t)) @ post" "fat_offset t = int (length pre)"
  shows "fat_mirror t s"
  using assms take_entry [where post = "[]"] by (simp add: fat_mirror_def length_entries)

text \<open>The next call is not cut short in the middle of an entry.\<close>

definition whole_entry :: "io \<Rightarrow> bool" where
  "whole_entry s \<longleftrightarrow> (case io_sched s of Upto k # _ \<Rightarrow> 4 \<le> k | _ \<Rightarrow> True)"

lemma entry_offset:
  assumes "unat (c :: u32) < 0x10000000"
  shows "uint (c * 4) = 4 * uint c"
proof -
  have "unat c * unat (4 :: u32) < 2 ^ LENGTH(32)" using assms by simp
  then have "unat (c * 4) = unat c * unat (4 :: u32)" by (rule unat_mult_lem [THEN iffD1])
  then have "int (unat (c * 4)) = int (unat c * unat (4 :: u32))" by (rule arg_cong)
  then show ?thesis by simp
qed

lemma sys_pwrite_entry:
  assumes "0 \<le> off" "whole_entry s" "length buf = 4"
  obtains (ok) s' where "sys_pwrite buf 0 4 off s = Some (4, s')"
      "s' = s\<lparr>io_bytes := splice_at (io_bytes s) (nat off) buf, io_sched := tl (io_sched s)\<rparr>"
  | (bad) e where "sys_pwrite buf 0 4 off s
        = Some (-1, s\<lparr>io_sched := tl (io_sched s), io_errno := e\<rparr>)" "io_sched s \<noteq> []"
      "hd (io_sched s) = Fail e"
proof (cases "io_sched s")
  case Nil
  then show thesis using assms
    by (intro ok [OF _ refl]) (simp add: sys_pwrite_def next_outcome_def buf_load_def)
next
  case (Cons r rs)
  show thesis
  proof (cases r)
    case (Upto k)
    with Cons assms have "min k 4 = 4" by (auto simp: whole_entry_def)
    with Upto Cons assms show thesis
      by (intro ok [OF _ refl]) (simp add: sys_pwrite_def next_outcome_def buf_load_def)
  next
    case (Fail e)
    with Cons assms show thesis
      by (intro bad [of e]) (simp_all add: sys_pwrite_def next_outcome_def)
  qed
qed

lemma set_next_cases:
  assumes "table_wf t" "unat c < length (fat_map t)" "0 \<le> fat_offset t" "whole_entry s"
  obtains (written) s' where "fat_table_set_next_cluster t c v s
        = Some (t\<lparr>fat_map := (fat_map t)[unat c := v]\<rparr>, s')"
      "s' = s\<lparr>io_bytes := splice_at (io_bytes s) (nat (fat_offset t) + 4 * unat c) (le32_bytes v),
           io_sched := tl (io_sched s)\<rparr>"
  | (failed) s' where "fat_table_set_next_cluster t c v s = Some (t, s')"
      "io_bytes s' = io_bytes s" "io_errno s' = EIO" "io_sched s \<noteq> []" "\<exists>e. hd (io_sched s) = Fail e"
proof -
  have off: "uint (c * 4) + fat_offset t = 4 * uint c + fat_offset t"
    using assms by (subst entry_offset) (auto simp: table_wf_def)
  have n: "nat (uint (c * 4) + fat_offset t) = nat (fat_offset t) + 4 * unat c"
    unfolding off using assms(3) by (simp add: nat_add_distrib nat_mult_distrib)
  have nn: "0 \<le> uint (c * 4) + fat_offset t" using assms(3) by simp
  show thesis
  proof (rule sys_pwrite_entry [OF nn assms(4) length_le_bytes(2) [of v]], goal_cases)
    case (1 s')
    then show ?case using assms(2)
      by (intro written [OF _ refl])
        (simp add: fat_table_set_next_cluster_def array_set_def n del: of_nat_unat)
  next
    case (2 e)
    then show ?case
      by (intro failed [of "s\<lparr>io_sched := tl (io_sched s), io_errno := EIO\<rparr>"])
        (simp_all add: fat_table_set_next_cluster_def)
  qed
qed

lemma mirror_after_write:
  assumes "fat_mirror t s" "unat c < length (fat_map t)"
    "io_bytes s' = splice_at (io_bytes s) (nat (fat_offset t) + 4 * unat c) (le32_bytes v)"
  shows "fat_mirror (t\<lparr>fat_map := (fat_map t)[unat c := v]\<rparr>) s'"
proof -
  let ?off = "nat (fat_offset t)" and ?m = "(fat_map t)[unat c := v]"
  have len: "?off + 4 * unat c + length (le32_bytes v) \<le> length (io_bytes s)"
    using assms(1,2) by (simp add: fat_mirror_def)
  have "take 4 (drop (?off + 4 * i) (io_bytes s')) = le32_bytes (?m ! i)"
    if i: "i < length (fat_map t)" for i
  proof (cases "i = unat c")
    case True
    then show ?thesis
      using assms(3) i splice_read_back [of "le32_bytes v" "?off + 4 * unat c" "io_bytes s"] by simp
  next
    case False
    with i have "?off + 4 * i + 4 \<le> ?off + 4 * unat c
        \<or> ?off + 4 * unat c + length (le32_bytes v) \<le> ?off + 4 * i" by auto
    with assms i len False show ?thesis
      by (simp add: splice_other fat_mirror_def)
  qed
  then show ?thesis using assms(1,3) len by (simp add: fat_mirror_def)
qed

text \<open>
  The mapped table and the table on the volume stay equal.  A write of an entry changes that
  entry in both, or, when the system call fails, neither and reports \<open>EIO\<close>; bytes outside the
  table are never touched.
\<close>

theorem set_next_cluster_mirror:
  assumes "table_wf t" "fat_mirror t s" "unat c < length (fat_map t)" "whole_entry s"
  shows "\<exists>t' s'. fat_table_set_next_cluster t c v s = Some (t', s') \<and> fat_mirror t' s'
    \<and> (t' = t\<lparr>fat_map := (fat_map t)[unat c := v]\<rparr> \<and> io_errno s' = io_errno s
        \<or> t' = t \<and> io_errno s' = EIO \<and> io_sched s \<noteq> [])
    \<and> (\<forall>a n. a + n \<le> nat (fat_offset t)
          \<or> nat (fat_offset t) + 4 * length (fat_map t) \<le> a \<and> a + n \<le> length (io_bytes s)
        \<longrightarrow> take n (drop a (io_bytes s')) = take n (drop a (io_bytes s)))"
proof (rule set_next_cases [OF assms(1,3) _ assms(4), of v], goal_cases)
  case 1
  then show ?case using assms(2) by (simp add: fat_mirror_def)
next
  case (2 s')
  let ?off = "nat (fat_offset t)"
  have len: "?off + 4 * unat c + length (le32_bytes v) \<le> length (io_bytes s)"
    using assms(2,3) by (simp add: fat_mirror_def)
  have "take n (drop a (io_bytes s')) = take n (drop a (io_bytes s))"
    if "a + n \<le> ?off \<or> ?off + 4 * length (fat_map t) \<le> a \<and> a + n \<le> length (io_bytes s)" for a n
    using that 2 len assms(3) by (auto intro!: splice_other)
  moreover have "fat_mirror (t\<lparr>fat_map := (fat_map t)[unat c := v]\<rparr>) s'"
    using 2 by (intro mirror_after_write [OF assms(2,3)]) simp
  ultimately show ?case using 2 by auto
next
  case (3 s')
  then show ?case using assms(2) by (auto simp: fat_mirror_def)
qed

theorem set_next_cluster_mirror_witness:
  "\<exists>t' s'. fat_table_set_next_cluster \<lparr>fat_map = [8, 9, 0], fat_offset = 1,
      num_data_clusters = 1, data_start_offset = 13, cluster_order = 0\<rparr> 2 5
      \<lparr>io_bytes = [77] @ le32_bytes 8 @ le32_bytes 9 @ le32_bytes 0 @ [99], io_sched = [],
        io_errno = 0, io_now = 0\<rparr> = Some (t', s') \<and> fat_map t' = [8, 9, 5] \<and> fat_mirror t' s'"
proof -
  let ?t = "\<lparr>fat_map = [8, 9, 0], fat_offset = 1, num_data_clusters = 1,
      data_start_offset = 13, cluster_order = 0\<rparr>"
  let ?s = "\<lparr>io_bytes = [77] @ le32_bytes 8 @ le32_bytes 9 @ le32_bytes 0 @ [99], io_sched = [],
        io_errno = 0, io_now = 0\<rparr>"
  have "table_wf ?t" "whole_entry ?s" "unat (2 :: u32) < length (fat_map ?t)"
    by (simp_all add: table_wf_def whole_entry_def)
  moreover have "fat_mirror ?t ?s"
    by (auto simp: fat_mirror_def less_Suc_eq eval_nat_numeral le32_bytes_def)
  ultimately show ?thesis using set_next_cluster_mirror [of ?t ?s 2 5] by auto
qed

section \<open>Seeking in a chain\<close>

lemma seek_loop_chain:
  assumes "fat_chain t c cs" "table_wf t"
  shows "seek_loop t n c s = (if n < length cs then Some (cs ! n, s)
    else if n = length cs then Some (FAT_CLUSTER_END_OF_CHAIN_MAX, s)
    else Some (0, set_errno EOVERFLOW s))"
  using assms
proof (induction cs arbitrary: c n)
  case Nil
  then show ?case by (cases n) auto
next
  case (Cons x xs)
  then obtain c' where c': "fat_table_get_next_cluster t x = Some c'" "fat_chain t c' xs" "c = x"
    by (auto split: option.splits)
  moreover have "x \<noteq> FAT_CLUSTER_END_OF_CHAIN_MAX"
    using Cons.prems special_not_valid_number(2) by auto
  ultimately show ?case using Cons.IH [of c'] Cons.prems(2) by (cases n) auto
qed

lemma seek_cluster_chain_lib:
  assumes "table_wf t" "fat_chain t c cs" "0 \<le> off"
    "nat off div fat_table_bytes_per_cluster t < 2 ^ 32"
  shows "fat_table_seek_cluster t c off s =
    (let n = nat off div fat_table_bytes_per_cluster t in
     if n < length cs then Some (cs ! n, s)
     else if n = length cs then Some (FAT_CLUSTER_END_OF_CHAIN_MAX, s)
     else Some (0, set_errno EOVERFLOW s))"
proof -
  have "drop_bit (unat (cluster_order t)) off = int (nat off div fat_table_bytes_per_cluster t)"
    using assms(3) by (simp add: drop_bit_eq_div fat_table_bytes_per_cluster_def zdiv_int nat_power_eq)
  then have "unat (word_of_int (drop_bit (unat (cluster_order t)) off) :: u32)
      = nat off div fat_table_bytes_per_cluster t"
    using assms(4) by (simp add: unat_of_nat)
  then show ?thesis
    using seek_loop_chain [OF assms(2,1)] by (simp add: fat_table_seek_cluster_def Let_def)
qed

text \<open>
  C26: seeking to an offset in a file's chain gives the cluster that holds it.  The position just
  behind the last cluster is answered by the end-of-chain mark and no error; only a position
  further out is an \<open>EOVERFLOW\<close>.
\<close>

theorem seek_cluster_chain:
  assumes "table_wf t" "fat_chain t c cs" "0 \<le> off"
    "nat off div fat_table_bytes_per_cluster t < 2 ^ 32"
  shows "fat_table_seek_cluster t c off s =
    (let n = nat off div fat_table_bytes_per_cluster t in
     if n < length cs then Some (cs ! n, s)
     else if n = length cs then Some (FAT_CLUSTER_END_OF_CHAIN_MAX, s)
     else Some (0, set_errno EOVERFLOW s))"
  by (rule seek_cluster_chain_lib [OF assms])

theorem seek_cluster_chain_witness:
  "\<forall>s. fat_table_seek_cluster \<lparr>fat_map = [8, 9, 4, 0, 0x0FFFFFFF], fat_offset = 0,
      num_data_clusters = 3, data_start_offset = 20, cluster_order = 2\<rparr> 2 6 s = Some (4, s)"
proof
  fix s :: io
  let ?t = "\<lparr>fat_map = [8, 9, 4, 0, 0x0FFFFFFF], fat_offset = 0, num_data_clusters = 3,
      data_start_offset = 20, cluster_order = 2\<rparr>"
  have "table_wf ?t" by (simp add: table_wf_def)
  moreover have "fat_chain ?t 2 [2, 4]"
    by (simp add: fat_table_get_next_cluster_def array_get_def fat_table_is_valid_cluster_number_def)
  ultimately show "fat_table_seek_cluster ?t 2 6 s = Some (4, s)"
    using seek_cluster_chain [of ?t 2 "[2, 4]" 6 s] by (simp add: fat_table_bytes_per_cluster_def)
qed

end
