(* ===== verification/Fat_Filename.thy ===== *)
theory Fat_Filename
  imports Prelude
begin

text \<open>
  Model of \<open>LAB4/main/esqueleto/fat_filename_util.c\<close>: the legal characters of FAT names, the
  conversion between path names and the 8 + 3 byte fields of a directory entry, and path
  concatenation.

  A \<open>char *\<close> argument that the code reads beyond its terminating NUL is given as the memory block
  \<open>mem\<close> that starts at the pointer: the string, its NUL and whatever follows.  The directory entry
  being filled is a block of 32 bytes with the base name at offset 0 and the extension at 8.
  Accesses outside a block are faults.
\<close>

abbreviation (input) SPACE :: u8 where "SPACE \<equiv> 0x20"
abbreviation (input) DOT :: u8 where "DOT \<equiv> 0x2E"
abbreviation (input) PATH_SEPARATOR :: u8 where "PATH_SEPARATOR \<equiv> 0x2F"

text \<open>The C string stored at the start of a block.\<close>

definition cstring_at :: "u8 list \<Rightarrow> cstring" where
  "cstring_at mem = takeWhile (\<lambda>c. c \<noteq> 0) mem"

section \<open>Legal characters\<close>

text \<open>The table \<open>_fat_char_tab\<close>: letters, digits, bytes from 128 on and the listed punctuation.\<close>

definition fat_char_punct :: "u8 list" where
  "fat_char_punct = cstr '' $%-_@~`!(){}^#&''"

definition char_legal_in_filename :: "u8 \<Rightarrow> bool" where
  "char_legal_in_filename c \<longleftrightarrow>
     0x61 \<le> c \<and> c \<le> 0x7A \<or> 0x41 \<le> c \<and> c \<le> 0x5A \<or> 0x30 \<le> c \<and> c \<le> 0x39 \<or> 128 \<le> c
     \<or> c \<in> set fat_char_punct"

text \<open>Characters are signed on the target, so the difference is that of signed bytes.\<close>

fun inline_strcmp :: "cstring \<Rightarrow> cstring \<Rightarrow> int" where
  "inline_strcmp [] [] = 0"
| "inline_strcmp [] (y # ys) = - sint y"
| "inline_strcmp (x # xs) [] = sint x"
| "inline_strcmp (x # xs) (y # ys) = (if x = y then inline_strcmp xs ys else sint x - sint y)"

section \<open>Validity of the stored fields\<close>

text \<open>The \<open>do\<close>/\<open>while\<close> over the remaining bytes of the base name.\<close>

fun basename_loop :: "u8 list \<Rightarrow> bool" where
  "basename_loop [] = True"
| "basename_loop (c # cs) =
     (if \<not> char_legal_in_filename c then False
      else (case cs of [] \<Rightarrow> True
            | d # _ \<Rightarrow> if d \<noteq> 0 \<and> d \<noteq> SPACE then basename_loop cs else True))"

definition file_basename_valid :: "u8 list \<Rightarrow> bool" where
  "file_basename_valid base_name =
     (if base_name ! 0 = 0 \<or> base_name ! 0 = SPACE \<or> base_name ! 0 = 0xe5 then False
      else basename_loop base_name)"

fun file_extension_valid :: "u8 list \<Rightarrow> bool" where
  "file_extension_valid [] = True"
| "file_extension_valid (c # cs) =
     (if c \<noteq> 0 \<and> c \<noteq> SPACE
      then (if \<not> char_legal_in_filename c then False else file_extension_valid cs)
      else True)"

section \<open>Reading a name\<close>

text \<open>The \<open>do\<close>/\<open>while\<close> looks at \<open>name[len - 1]\<close> for \<open>len\<close> from \<open>max_len\<close> down to 1.\<close>

fun filename_len :: "u8 list \<Rightarrow> nat \<Rightarrow> nat option" where
  "filename_len name 0 = Some 0"
| "filename_len name (Suc n) = do {
     c \<leftarrow> array_get name n;
     if c \<noteq> SPACE \<and> c \<noteq> 0 then Some (Suc n) else filename_len name n
   }"

text \<open>
  The string left at \<open>dst_name_p\<close>.  A NUL inside one of the fields is copied like any other byte, so
  the string ends there.
\<close>

definition build_filename :: "u8 list \<Rightarrow> u8 list \<Rightarrow> u8 list option" where
  "build_filename src_name src_extension = do {
     name_len \<leftarrow> filename_len src_name 8;
     if name_len = 0 then Some [PATH_SEPARATOR]
     else do {
       extension_len \<leftarrow> filename_len src_extension 3;
       Some (cstring_at (take name_len src_name @
         (if extension_len \<noteq> 0 then DOT # take extension_len src_extension else [])))
     }
   }"

section \<open>Writing a name into a directory entry\<close>

text \<open>\<open>strrchr(src, '.')\<close>, as an index into the string.\<close>

definition last_dot :: "cstring \<Rightarrow> nat option" where
  "last_dot s = (case filter (\<lambda>i. s ! i = DOT) [0..<length s] of [] \<Rightarrow> None | is \<Rightarrow> Some (last is))"

text \<open>The \<open>do\<close>/\<open>while\<close> that copies the base name; \<open>i\<close> is the index about to be copied.\<close>

function copy_base :: "u8 list \<Rightarrow> nat \<Rightarrow> nat option \<Rightarrow> nat \<Rightarrow> u8 list \<Rightarrow> (nat \<times> u8 list) option" where
  "copy_base mem name_len dot_pos i blk = do {
     c \<leftarrow> array_get mem i;
     blk' \<leftarrow> array_set blk i c;
     if Suc i < name_len \<and> Some (Suc i) \<noteq> dot_pos
     then copy_base mem name_len dot_pos (Suc i) blk' else Some (Suc i, blk')
   }"
  by pat_completeness auto
termination
  by (relation "measure (\<lambda>(mem, name_len, dot_pos, i, blk). name_len - i)") auto

text \<open>The \<open>while\<close> that copies the extension, whatever its length.\<close>

function copy_extension :: "u8 list \<Rightarrow> nat \<Rightarrow> nat \<Rightarrow> u8 list \<Rightarrow> (nat \<times> u8 list) option" where
  "copy_extension mem i j blk = do {
     c \<leftarrow> array_get mem i;
     if c \<noteq> SPACE \<and> c \<noteq> 0 then do {
       blk' \<leftarrow> array_set blk (8 + j) c;
       copy_extension mem (Suc i) (Suc j) blk'
     } else Some (j, blk)
   }"
  by pat_completeness auto
termination
  by (relation "measure (\<lambda>(mem, i, j, blk). length mem - i)") auto

declare copy_base.simps [simp del] copy_extension.simps [simp del]

definition filename_from_path :: "u8 list \<Rightarrow> u8 list \<Rightarrow> u8 list option" where
  "filename_from_path mem blk = do {
     name_len \<leftarrow> filename_len mem 8;
     if name_len = 0 then do { blk' \<leftarrow> array_set blk 0 0; array_set blk' 8 0 }
     else do {
       let dot_pos = last_dot (cstring_at mem);
       (i, blk') \<leftarrow> copy_base mem name_len dot_pos 0 blk;
       (j, blk'') \<leftarrow> (if dot_pos \<noteq> None \<and> i < name_len then copy_extension mem (Suc i) 0 blk'
                      else Some (0, blk'));
       if j < 3 then array_set blk'' (8 + (j + 1)) 0 else Some blk''
     }
   }"

section \<open>Joining paths\<close>

text \<open>
  The size of the block \<open>filepath_from_name\<close> allocates, and the string it writes there.  The block has
  no room for the separator: when one is added, the terminating NUL is written behind the block, a
  fault.
\<close>

definition filepath_block_size :: "cstring \<Rightarrow> cstring \<Rightarrow> nat" where
  "filepath_block_size parent_filepath file_name = length parent_filepath + length file_name + 1"

definition filepath_from_name :: "cstring \<Rightarrow> cstring \<Rightarrow> cstring option" where
  "filepath_from_name parent_filepath file_name =
     (if parent_filepath = [] then None
      else let path = parent_filepath @
          (if last parent_filepath \<noteq> PATH_SEPARATOR then [PATH_SEPARATOR] else []) @ file_name
        in if length path + 1 \<le> filepath_block_size parent_filepath file_name then Some path else None)"

lemma filepath_from_name_cases:
  assumes "parent \<noteq> []"
  shows "filepath_from_name parent nm = (if last parent = PATH_SEPARATOR then Some (parent @ nm) else None)"
  using assms by (simp add: filepath_from_name_def filepath_block_size_def Let_def)

section \<open>The copying loops\<close>

lemma list_update_append_at: "length xs = n \<Longrightarrow> (xs @ y # ys)[n := z] = xs @ z # ys"
  by (simp add: list_update_append)

lemma copy_base_spec:
  assumes "i < k" "k \<le> length mem" "k \<le> length blk"
    "\<forall>j. i < j \<and> j < k \<longrightarrow> j < n \<and> Some j \<noteq> dot" "n \<le> k \<or> Some k = dot"
  shows "copy_base mem n dot i blk = Some (k, take i blk @ take (k - i) (drop i mem) @ drop k blk)"
  using assms
proof (induction "k - i" arbitrary: i blk)
  case (Suc m)
  have upd: "blk[i := mem ! i] = take i blk @ mem ! i # drop (Suc i) blk"
    using Suc.prems by (simp add: upd_conv_take_nth_drop)
  show ?case
  proof (cases "Suc i = k")
    case True
    then have "k - i = 1" by simp
    then have "take (k - i) (drop i mem) = [mem ! i]"
      using Suc.prems by (simp add: take_Suc Cons_nth_drop_Suc [symmetric])
    with True Suc.prems upd show ?thesis
      by (subst copy_base.simps) (auto simp: array_get_def array_set_def)
  next
    case False
    with Suc.prems have lt: "Suc i < k" by simp
    have "copy_base mem n dot (Suc i) (blk[i := mem ! i])
        = Some (k, take (Suc i) (blk[i := mem ! i]) @ take (k - Suc i) (drop (Suc i) mem)
            @ drop k (blk[i := mem ! i]))"
      using Suc lt by (intro Suc.hyps(1)) auto
    moreover have "take (Suc i) (blk[i := mem ! i]) = take i blk @ [mem ! i]"
      using Suc.prems by (simp add: upd take_Suc_conv_app_nth)
    moreover have "take (k - i) (drop i mem) = mem ! i # take (k - Suc i) (drop (Suc i) mem)"
      using Suc.prems lt by (simp add: Cons_nth_drop_Suc [symmetric] Suc_diff_Suc [symmetric])
    moreover have "drop k (blk[i := mem ! i]) = drop k blk" using lt by simp
    moreover have "Suc i < n \<and> Some (Suc i) \<noteq> dot" using Suc.prems lt by auto
    ultimately show ?thesis using Suc.prems
      by (subst copy_base.simps) (simp add: array_get_def array_set_def)
  qed
qed simp

lemma copy_extension_spec:
  assumes "drop i mem = e @ c # rest" "c = 0 \<or> c = SPACE" "\<forall>x \<in> set e. x \<noteq> 0 \<and> x \<noteq> SPACE"
  shows "copy_extension mem i j blk = (if e = [] \<or> 8 + j + length e \<le> length blk
    then Some (j + length e, take (8 + j) blk @ e @ drop (8 + j + length e) blk) else None)"
  using assms
proof (induction e arbitrary: i j blk)
  case Nil
  then have "i < length mem" "mem ! i = c" by (auto dest: drop_eq_ConsD)
  with Nil show ?case by (subst copy_extension.simps) (auto simp: array_get_def)
next
  case (Cons x e)
  then have i: "i < length mem" "mem ! i = x" "drop (Suc i) mem = e @ c # rest"
    by (auto dest: drop_eq_ConsD)
  let ?blk = "blk[8 + j := x]"
  show ?case
  proof (cases "8 + j < length blk")
    case False
    with Cons.prems i show ?thesis
      by (subst copy_extension.simps) (auto simp: array_get_def array_set_def)
  next
    case True
    have t: "take (Suc (8 + j)) ?blk = take (8 + j) blk @ [x]"
      using True take_Suc_conv_app_nth [of "8 + j" ?blk] by simp
    have "copy_extension mem i j blk = copy_extension mem (Suc i) (Suc j) ?blk"
      using Cons.prems i True by (subst copy_extension.simps) (simp add: array_get_def array_set_def)
    with Cons.IH [OF i(3)] Cons.prems True t show ?thesis by (auto simp: add.assoc)
  qed
qed

section \<open>Names of the 8.3 form\<close>

text \<open>A byte that may stand in a name: legal, and neither the dot, the space nor NUL.\<close>

definition name_byte :: "u8 \<Rightarrow> bool" where
  "name_byte c \<longleftrightarrow> char_legal_in_filename c \<and> c \<noteq> SPACE \<and> c \<noteq> DOT \<and> c \<noteq> 0"

definition dotted :: "cstring \<Rightarrow> cstring \<Rightarrow> cstring" where
  "dotted b e = b @ (if e = [] then [] else DOT # e)"

lemma cstring_at_append: "0 \<notin> set s \<Longrightarrow> cstring_at (s @ 0 # r) = s"
  unfolding cstring_at_def by (subst takeWhile_append2) auto

lemma cstring_at_id: "0 \<notin> set s \<Longrightarrow> cstring_at s = s"
  unfolding cstring_at_def by (rule takeWhile_eq_all_conv [THEN iffD2]) auto

lemma filename_len_spec:
  assumes "k \<le> n" "n \<le> length mem" "0 < k \<longrightarrow> mem ! (k - 1) \<noteq> 0 \<and> mem ! (k - 1) \<noteq> SPACE"
    "\<forall>j. k \<le> j \<and> j < n \<longrightarrow> mem ! j = 0 \<or> mem ! j = SPACE"
  shows "filename_len mem n = Some k"
  using assms by (induction n) (auto simp: array_get_def le_Suc_eq)

lemma filter_upt_single: "n < m \<Longrightarrow> filter (\<lambda>i. i = n) [0..<m] = [n]"
  by (induction m) (auto simp: filter_empty_conv less_Suc_eq)

lemma last_dot_dotted:
  assumes "DOT \<notin> set b" "DOT \<notin> set e"
  shows "last_dot (dotted b e) = (if e = [] then None else Some (length b))"
proof (cases "e = []")
  case True
  with assms(1) have "filter (\<lambda>i. dotted b e ! i = DOT) [0..<length (dotted b e)] = []"
    by (auto simp: dotted_def filter_empty_conv) (metis nth_mem)
  with True show ?thesis unfolding last_dot_def by simp
next
  case False
  have n: "dotted b e ! i = DOT \<longleftrightarrow> i = length b" if i: "i < length (dotted b e)" for i
  proof (cases i "length b" rule: linorder_cases)
    case less
    then have "dotted b e ! i \<in> set b" by (simp add: dotted_def nth_append)
    with less assms(1) show ?thesis by auto
  next
    case equal
    with False show ?thesis by (simp add: dotted_def nth_append)
  next
    case greater
    from less_imp_Suc_add [OF greater] obtain k where k: "i = Suc (length b + k)" ..
    with i False have "dotted b e ! i = e ! k" "k < length e" by (auto simp: dotted_def nth_append)
    with assms(2) greater show ?thesis by (metis less_irrefl_nat nth_mem)
  qed
  have "filter (\<lambda>i. dotted b e ! i = DOT) [0..<length (dotted b e)]
      = filter (\<lambda>i. i = length b) [0..<length (dotted b e)]"
    by (rule filter_cong) (auto simp: n)
  also have "\<dots> = [length b]"
    using False by (intro filter_upt_single) (simp add: dotted_def)
  finally show ?thesis using False by (simp add: last_dot_def)
qed

definition fresh_block :: "u8 list" where
  "fresh_block = replicate 32 0"

text \<open>What \<open>filename_from_path\<close> reads: the name, its NUL and at least the 8 bytes it looks at.\<close>

definition clean_block :: "cstring \<Rightarrow> u8 list \<Rightarrow> bool" where
  "clean_block name mem \<longleftrightarrow> (\<exists>pad. mem = name @ 0 # pad \<and> 8 \<le> length mem
     \<and> (\<forall>c \<in> set pad. c = 0 \<or> c = SPACE))"

lemma clean_filename_len:
  assumes "clean_block name mem" "name \<noteq> []" "\<forall>c \<in> set name. c \<noteq> 0 \<and> c \<noteq> SPACE"
  shows "filename_len mem 8 = Some (min 8 (length name))"
proof (rule filename_len_spec)
  obtain pad where mem: "mem = name @ 0 # pad" "8 \<le> length mem" "\<forall>c \<in> set pad. c = 0 \<or> c = SPACE"
    using assms(1) by (auto simp: clean_block_def)
  then show "8 \<le> length mem" by simp
  have "min 8 (length name) - 1 < length name" using assms(2) by (cases name) auto
  then have "mem ! (min 8 (length name) - 1) \<in> set name" using mem by (simp add: nth_append)
  with assms(3) show "0 < min 8 (length name) \<longrightarrow> mem ! (min 8 (length name) - 1) \<noteq> 0
      \<and> mem ! (min 8 (length name) - 1) \<noteq> SPACE" by blast
  show "\<forall>j. min 8 (length name) \<le> j \<and> j < 8 \<longrightarrow> mem ! j = 0 \<or> mem ! j = SPACE"
  proof (intro allI impI, elim conjE)
    fix j
    assume j: "min 8 (length name) \<le> j" "j < 8"
    then have "mem ! j = (0 # pad) ! (j - length name)" "j - length name < length (0 # pad)"
      using mem by (auto simp: nth_append min_def split: if_splits)
    with mem(3) show "mem ! j = 0 \<or> mem ! j = SPACE"
      by (metis list.set_intros(1) nth_mem set_ConsD)
  qed
qed simp

lemma filename_from_path_dotted:
  assumes "clean_block (dotted b e) mem" "b \<noteq> []" "length b < 8"
    "\<forall>c \<in> set b. name_byte c" "\<forall>c \<in> set e. name_byte c"
  shows "filename_from_path mem fresh_block = (if length e \<le> 24
    then Some (b @ replicate (8 - length b) 0 @ e @ replicate (24 - length e) 0) else None)"
proof -
  let ?name = "dotted b e"
  have nb: "DOT \<notin> set b" "DOT \<notin> set e" "0 \<notin> set ?name" "\<forall>c \<in> set ?name. c \<noteq> 0 \<and> c \<noteq> SPACE"
    "?name \<noteq> []" "\<forall>x \<in> set e. x \<noteq> 0 \<and> x \<noteq> SPACE"
    using assms(2,4,5) by (auto simp: name_byte_def dotted_def)
  obtain pad where mem: "mem = ?name @ 0 # pad" using assms(1) by (auto simp: clean_block_def)
  have len: "filename_len mem 8 = Some (min 8 (length ?name))"
    by (rule clean_filename_len [OF assms(1) nb(5,4)])
  have dot: "last_dot (cstring_at mem) = (if e = [] then None else Some (length b))"
    using mem nb by (simp add: cstring_at_append last_dot_dotted)
  have base: "copy_base mem (min 8 (length ?name)) (last_dot (cstring_at mem)) 0 fresh_block
      = Some (length b, b @ replicate (32 - length b) 0)"
    unfolding dot using assms(2,3) mem
    by (subst copy_base_spec [where k = "length b"]) (auto simp: fresh_block_def dotted_def)
  have same: "xs[i := 0] = xs" if "xs ! i = 0" for xs :: "u8 list" and i
    using that by (metis list_update_id)
  show ?thesis
  proof (cases "e = []")
    case True
    have "(b @ replicate (32 - length b) 0)[9 := 0 :: u8] = b @ replicate (32 - length b) 0"
      using assms(3) by (intro same) (simp add: nth_append)
    moreover have "replicate (32 - length b) (0 :: u8) = replicate (8 - length b) 0 @ replicate 24 0"
      using assms(3) by (simp add: replicate_add [symmetric])
    ultimately show ?thesis using True base len dot assms(2,3)
      by (simp add: filename_from_path_def array_set_def dotted_def)
  next
    case False
    have drp: "drop (Suc (length b)) mem = e @ 0 # pad"
      using mem False by (simp add: dotted_def)
    let ?blk = "b @ replicate (32 - length b) (0 :: u8)"
    let ?out = "b @ replicate (8 - length b) 0 @ e @ replicate (24 - length e) 0"
    have "take 8 ?blk = b @ replicate (8 - length b) 0" "drop (8 + length e) ?blk = replicate (24 - length e) 0"
      using assms(3) by simp_all
    then have ext: "copy_extension mem (Suc (length b)) 0 ?blk
        = (if length e \<le> 24 then Some (length e, ?out) else None)"
      using copy_extension_spec [OF drp _ nb(6), of 0 ?blk] False assms(3) by simp
    have "?out[Suc (8 + length e) := 0] = ?out" if "length e < 3"
      using assms(3) that by (intro same) (auto simp: nth_append)
    moreover have "length b < min 8 (length ?name)" using False assms(3) by (simp add: dotted_def)
    ultimately show ?thesis using False base len dot ext assms(2,3)
      by (simp add: filename_from_path_def array_set_def dotted_def)
  qed
qed

lemma basename_loop_legal:
  "b \<noteq> [] \<Longrightarrow> \<forall>c \<in> set b. char_legal_in_filename c \<Longrightarrow> basename_loop (b @ replicate n 0)"
proof (induction b)
  case (Cons c b)
  then show ?case by (cases b; cases n) auto
qed simp

lemma extension_legal:
  "\<forall>c \<in> set e. char_legal_in_filename c \<Longrightarrow> file_extension_valid (e @ replicate n 0)"
  by (induction e) (cases n; simp)+

lemma filename_len_padded:
  assumes "length b \<le> n" "\<forall>c \<in> set b. c \<noteq> 0 \<and> c \<noteq> SPACE"
  shows "filename_len (b @ replicate (n - length b) 0) n = Some (length b)"
proof (rule filename_len_spec)
  show "0 < length b \<longrightarrow> (b @ replicate (n - length b) 0) ! (length b - 1) \<noteq> 0
      \<and> (b @ replicate (n - length b) 0) ! (length b - 1) \<noteq> SPACE"
    using assms(2) by (auto simp: nth_append dest: nth_mem)
qed (use assms in \<open>auto simp: nth_append\<close>)

text \<open>
  C29: names of at most seven plus three legal characters survive the trip through a directory
  entry: \<open>build_filename\<close> gives back what \<open>filename_from_path\<close> stored, nothing outside the name
  and extension fields is written, and the stored fields pass the validity checks that reading a
  directory applies (unless the name starts with the deletion mark).
\<close>

theorem filename_roundtrip:
  assumes "clean_block (dotted b e) mem" "b \<noteq> []" "length b < 8" "length e \<le> 3"
    "\<forall>c \<in> set b. name_byte c" "\<forall>c \<in> set e. name_byte c"
  shows "\<exists>blk. filename_from_path mem fresh_block = Some blk
    \<and> build_filename (take 8 blk) (take 3 (drop 8 blk)) = Some (dotted b e)
    \<and> drop 11 blk = replicate 21 0
    \<and> (hd b \<noteq> 0xe5 \<longrightarrow> file_basename_valid (take 8 blk) \<and> file_extension_valid (take 3 (drop 8 blk)))"
proof -
  let ?base = "b @ replicate (8 - length b) 0" and ?ext = "e @ replicate (3 - length e) (0 :: u8)"
  let ?blk = "b @ replicate (8 - length b) 0 @ e @ replicate (24 - length e) 0"
  have f: "filename_from_path mem fresh_block = Some ?blk"
    using filename_from_path_dotted [OF assms(1,2,3,5,6)] assms(4) by simp
  have parts: "take 8 ?blk = ?base" "take 3 (drop 8 ?blk) = ?ext" "drop 11 ?blk = replicate 21 0"
    using assms(3,4) by (auto simp: min_def)
  have legal: "\<forall>c \<in> set b. char_legal_in_filename c" "\<forall>c \<in> set e. char_legal_in_filename c"
    and plain: "\<forall>c \<in> set b. c \<noteq> 0 \<and> c \<noteq> SPACE" "\<forall>c \<in> set e. c \<noteq> 0 \<and> c \<noteq> SPACE"
    using assms(5,6) by (auto simp: name_byte_def)
  have "0 \<notin> set (dotted b e)" using plain by (auto simp: dotted_def)
  then have str: "cstring_at (dotted b e) = dotted b e" by (rule cstring_at_id)
  have "build_filename ?base ?ext = Some (dotted b e)"
    using filename_len_padded [of b 8, OF _ plain(1)] filename_len_padded [of e 3, OF _ plain(2)] assms(2,3,4)
      str
    by (cases "e = []") (simp_all add: build_filename_def dotted_def)
  moreover have "file_basename_valid ?base" if "hd b \<noteq> 0xe5"
    using that assms(2) plain(1) basename_loop_legal [OF assms(2) legal(1)]
    by (auto simp: file_basename_valid_def hd_conv_nth nth_append)
  ultimately show ?thesis
    using f parts extension_legal [OF legal(2)] by (intro exI [of _ ?blk]) simp
qed

theorem filename_roundtrip_witness:
  "\<exists>blk. filename_from_path (cstr ''fs.log'' @ [0, 0]) fresh_block = Some blk
    \<and> build_filename (take 8 blk) (take 3 (drop 8 blk)) = Some (cstr ''fs.log'')"
proof -
  have "clean_block (dotted (cstr ''fs'') (cstr ''log'')) (cstr ''fs.log'' @ [0, 0])"
    unfolding clean_block_def by (intro exI [of _ "[0]"]) (simp add: cstr_def dotted_def)
  moreover have "\<forall>c \<in> set (cstr ''fs''). name_byte c" "\<forall>c \<in> set (cstr ''log''). name_byte c"
    by (simp_all add: cstr_def name_byte_def char_legal_in_filename_def)
  moreover have "dotted (cstr ''fs'') (cstr ''log'') = cstr ''fs.log''"
    by (simp add: cstr_def dotted_def)
  ultimately show ?thesis
    using filename_roundtrip [of "cstr ''fs''" "cstr ''log''" "cstr ''fs.log'' @ [0, 0]"]
    by (auto simp: cstr_def)
qed

text \<open>
  C30: an extension is copied without regard to its three byte field.  With four to 24 characters
  the rest of the directory entry is overwritten; with more the copy leaves the entry.
\<close>

theorem filename_long_extension:
  assumes "clean_block (dotted b e) mem" "b \<noteq> []" "length b < 8" "3 < length e"
    "\<forall>c \<in> set b. name_byte c" "\<forall>c \<in> set e. name_byte c"
  shows "if 24 < length e then filename_from_path mem fresh_block = None
    else \<exists>blk. filename_from_path mem fresh_block = Some blk \<and> blk ! 11 = e ! 3 \<and> blk ! 11 \<noteq> 0"
proof -
  have "e ! 3 \<in> set e" using assms(4) by simp
  then have "e ! 3 \<noteq> 0" using assms(6) by (auto simp: name_byte_def)
  moreover have "(b @ replicate (8 - length b) 0 @ e @ replicate (24 - length e) 0) ! 11 = e ! 3"
    using assms(3,4) by (auto simp: nth_append)
  ultimately show ?thesis
    using filename_from_path_dotted [OF assms(1,2,3,5,6)] by auto
qed

theorem filename_long_extension_witness:
  "\<exists>blk. filename_from_path (cstr ''a.html'' @ [0, 0]) fresh_block = Some blk \<and> blk ! 11 \<noteq> 0"
proof -
  have "clean_block (dotted (cstr ''a'') (cstr ''html'')) (cstr ''a.html'' @ [0, 0])"
    unfolding clean_block_def by (intro exI [of _ "[0]"]) (simp add: cstr_def dotted_def)
  moreover have "\<forall>c \<in> set (cstr ''a''). name_byte c" "\<forall>c \<in> set (cstr ''html''). name_byte c"
    by (simp_all add: cstr_def name_byte_def char_legal_in_filename_def)
  ultimately show ?thesis
    using filename_long_extension [of "cstr ''a''" "cstr ''html''" "cstr ''a.html'' @ [0, 0]"]
    by (auto simp: cstr_def)
qed

end
