(* ===== verification/Hierarchy_Tree.thy ===== *)
theory Hierarchy_Tree
  imports Prelude "HOL-Library.Tree"
begin

text \<open>
  Model of \<open>LAB4/main/esqueleto/hierarchy_tree.c\<close>: nodes that are at once the nodes of a binary
  search tree (\<open>left\<close>, \<open>right\<close>, \<open>size\<close>) and of a hierarchy (\<open>h_parent\<close>, \<open>h_children\<close>,
  \<open>h_next_sibling\<close>).  Nodes and the objects their \<open>data\<close> fields point to live in two stores,
  indexed by addresses; 0 is NULL and is never allocated.  Following a pointer that is NULL or
  has been freed is a fault (\<open>None\<close>).  Callbacks get the object store: a comparison reads two
  objects, a \<open>data_modify_fn\<close> returns the changed store or faults.
\<close>

type_synonym addr = nat

record h_node =
  h_data :: addr
  h_right :: addr
  h_left :: addr
  h_parent :: addr
  h_next_sibling :: addr
  h_children :: addr
  h_size :: int

record 'd h_state =
  h_nodes :: "addr \<rightharpoonup> h_node"
  h_objs :: "addr \<rightharpoonup> 'd"
  h_brk :: addr
  h_errno :: int

type_synonym 'd data_modify_fn = "addr \<Rightarrow> (addr \<rightharpoonup> 'd) \<Rightarrow> (addr \<rightharpoonup> 'd) option"

section \<open>Memory accesses\<close>

definition node_at :: "'d h_state \<Rightarrow> addr \<Rightarrow> h_node option" where
  "node_at s p = (if p = 0 then None else h_nodes s p)"

definition obj_at :: "'d h_state \<Rightarrow> addr \<Rightarrow> 'd option" where
  "obj_at s p = (if p = 0 then None else h_objs s p)"

definition update_node :: "addr \<Rightarrow> (h_node \<Rightarrow> h_node) \<Rightarrow> 'd h_state \<Rightarrow> 'd h_state option" where
  "update_node p f s = do { n \<leftarrow> node_at s p; Some (s\<lparr>h_nodes := (h_nodes s)(p \<mapsto> f n)\<rparr>) }"

definition free_node :: "addr \<Rightarrow> 'd h_state \<Rightarrow> 'd h_state option" where
  "free_node p s = do { n \<leftarrow> node_at s p; Some (s\<lparr>h_nodes := (h_nodes s)(p := None)\<rparr>) }"

definition apply_modify :: "'d data_modify_fn \<Rightarrow> addr \<Rightarrow> 'd h_state \<Rightarrow> 'd h_state option" where
  "apply_modify f p s = do { os \<leftarrow> f p (h_objs s); Some (s\<lparr>h_objs := os\<rparr>) }"

text \<open>The two callbacks the file system passes: freeing an object and changing it in place.\<close>

definition free_obj :: "'d data_modify_fn" where
  "free_obj p os = do { d \<leftarrow> os p; Some (os(p := None)) }"

definition modify_obj :: "('d \<Rightarrow> 'd) \<Rightarrow> 'd data_modify_fn" where
  "modify_obj f p os = (if p = 0 then Some os else do { d \<leftarrow> os p; Some (os(p \<mapsto> f d)) })"

section \<open>Construction and destruction\<close>

definition h_node_init :: "addr \<Rightarrow> addr \<Rightarrow> 'd h_state \<Rightarrow> (addr \<times> 'd h_state) option" where
  "h_node_init new_data hp s =
     (let new_node = h_brk s;
          n = \<lparr>h_data = new_data, h_right = 0, h_left = 0, h_parent = hp, h_next_sibling = 0,
               h_children = 0, h_size = 1\<rparr>;
          s1 = s\<lparr>h_brk := Suc (h_brk s)\<rparr>
      in if hp \<noteq> 0 then do {
           pn \<leftarrow> node_at s1 hp;
           Some (new_node, s1\<lparr>h_nodes := (h_nodes s1)
             (new_node \<mapsto> n\<lparr>h_next_sibling := h_children pn\<rparr>, hp \<mapsto> pn\<lparr>h_children := new_node\<rparr>)\<rparr>)
         }
         else Some (new_node, s1\<lparr>h_nodes := (h_nodes s1)(new_node \<mapsto> n)\<rparr>))"

partial_function (option) h_tree_destroy ::
  "'d data_modify_fn \<Rightarrow> addr \<Rightarrow> 'd h_state \<Rightarrow> 'd h_state option" where
  "h_tree_destroy data_destroy root s =
     (if root = 0 then Some s
      else do {
        n \<leftarrow> node_at s root;
        s1 \<leftarrow> apply_modify data_destroy (h_data n) s;
        n1 \<leftarrow> node_at s1 root;
        s2 \<leftarrow> (if h_right n1 \<noteq> 0 then h_tree_destroy data_destroy (h_right n1) s1 else Some s1);
        n2 \<leftarrow> node_at s2 root;
        s3 \<leftarrow> (if h_left n2 \<noteq> 0 then h_tree_destroy data_destroy (h_left n2) s2 else Some s2);
        free_node root s3
      })"

section \<open>Accessors\<close>

definition h_tree_size :: "addr \<Rightarrow> 'd h_state \<Rightarrow> int option" where
  "h_tree_size root s = (if root = 0 then Some 0 else do { n \<leftarrow> node_at s root; Some (h_size n) })"

definition h_tree_get_data :: "addr \<Rightarrow> 'd h_state \<Rightarrow> (addr \<times> 'd h_state) option" where
  "h_tree_get_data root s =
     (if root = 0 then Some (0, s\<lparr>h_errno := EINVAL\<rparr>)
      else do { n \<leftarrow> node_at s root; Some (h_data n, s) })"

definition h_tree_get_h_parent :: "addr \<Rightarrow> 'd h_state \<Rightarrow> addr option" where
  "h_tree_get_h_parent root s =
     (if root = 0 then Some 0 else do { n \<leftarrow> node_at s root; Some (h_parent n) })"

partial_function (option) h_tree_search ::
  "('d \<Rightarrow> 'k \<Rightarrow> int) \<Rightarrow> addr \<Rightarrow> 'k option \<Rightarrow> 'd h_state \<Rightarrow> (addr \<times> 'd h_state) option" where
  "h_tree_search data_cmp_key root key s =
     (case key of
        None \<Rightarrow> Some (0, s\<lparr>h_errno := EINVAL\<rparr>)
      | Some k \<Rightarrow>
          if root = 0 then Some (0, s)
          else do {
            n \<leftarrow> node_at s root;
            d \<leftarrow> obj_at s (h_data n);
            let smaller_data = data_cmp_key d k;
            if smaller_data < 0 then h_tree_search data_cmp_key (h_right n) key s
            else if smaller_data > 0 then h_tree_search data_cmp_key (h_left n) key s
            else Some (root, s)
          })"

section \<open>Insertion\<close>

definition update_size :: "addr \<Rightarrow> 'd h_state \<Rightarrow> 'd h_state option" where
  "update_size root s = do {
     n \<leftarrow> node_at s root;
     l \<leftarrow> h_tree_size (h_left n) s;
     r \<leftarrow> h_tree_size (h_right n) s;
     update_node root (\<lambda>n. n\<lparr>h_size := 1 + l + r\<rparr>) s
   }"

partial_function (option) h_tree_insert ::
  "('d \<Rightarrow> 'd \<Rightarrow> int) \<Rightarrow> addr \<Rightarrow> addr \<Rightarrow> addr \<Rightarrow> 'd h_state \<Rightarrow> (addr \<times> 'd h_state) option" where
  "h_tree_insert data_cmp root new_data hp s =
     (if new_data = 0 then Some (root, s\<lparr>h_errno := EINVAL\<rparr>)
      else if root = 0 then h_node_init new_data hp s
      else do {
        n \<leftarrow> node_at s root;
        d1 \<leftarrow> obj_at s new_data;
        d2 \<leftarrow> obj_at s (h_data n);
        let cmp = data_cmp d1 d2;
        s1 \<leftarrow> (if cmp > 0 then do {
                 (r, s') \<leftarrow> h_tree_insert data_cmp (h_right n) new_data hp s;
                 update_node root (\<lambda>n. n\<lparr>h_right := r\<rparr>) s'
               }
               else if cmp < 0 then do {
                 (l, s') \<leftarrow> h_tree_insert data_cmp (h_left n) new_data hp s;
                 update_node root (\<lambda>n. n\<lparr>h_left := l\<rparr>) s'
               }
               else Some s);
        s2 \<leftarrow> update_size root s1;
        Some (root, s2)
      })"

section \<open>Deletion\<close>

definition is_minimum :: "addr \<Rightarrow> 'd h_state \<Rightarrow> bool option" where
  "is_minimum root s = do { n \<leftarrow> node_at s root; Some (h_left n = 0) }"

definition swap_nodes :: "addr \<Rightarrow> addr \<Rightarrow> 'd h_state \<Rightarrow> 'd h_state option" where
  "swap_nodes old_file new_file s = do {
     old \<leftarrow> node_at s old_file;
     nw \<leftarrow> node_at s new_file;
     s1 \<leftarrow> update_node old_file (\<lambda>n. n\<lparr>h_left := h_left nw, h_right := h_right nw\<rparr>) s;
     s2 \<leftarrow> update_node new_file (\<lambda>n. n\<lparr>h_left := h_left old, h_right := h_right old\<rparr>) s1;
     s3 \<leftarrow> update_size new_file s2;
     update_size old_file s3
   }"

partial_function (option) remove_loop :: "addr \<Rightarrow> addr \<Rightarrow> 'd h_state \<Rightarrow> addr option" where
  "remove_loop h_child child_iterator s = do {
     n \<leftarrow> node_at s child_iterator;
     if h_next_sibling n \<noteq> h_child \<and> h_next_sibling n \<noteq> 0
     then remove_loop h_child (h_next_sibling n) s else Some child_iterator
   }"

definition remove_child_from_h :: "addr \<Rightarrow> 'd h_state \<Rightarrow> 'd h_state option" where
  "remove_child_from_h h_child s =
     (if h_child = 0 then Some s
      else do {
        c \<leftarrow> node_at s h_child;
        if h_parent c = 0 then Some s
        else do {
          pn \<leftarrow> node_at s (h_parent c);
          if h_children pn = 0 then Some (s\<lparr>h_errno := EINVAL\<rparr>)
          else if h_children pn = h_child
          then update_node (h_parent c) (\<lambda>n. n\<lparr>h_children := h_next_sibling c\<rparr>) s
          else do {
            child_iterator \<leftarrow> remove_loop h_child (h_children pn) s;
            update_node child_iterator (\<lambda>n. n\<lparr>h_next_sibling := h_next_sibling c\<rparr>) s
          }
        }
      })"

text \<open>The loop looking for the leftmost node; it moves \<open>minimum\<close> before \<open>minimum_parent\<close>.\<close>

partial_function (option) minimum_loop ::
  "addr \<Rightarrow> addr \<Rightarrow> 'd h_state \<Rightarrow> (addr \<times> addr \<times> 'd h_state) option" where
  "minimum_loop minimum minimum_parent s = do {
     m \<leftarrow> node_at s minimum;
     if h_left m = 0 then Some (minimum, minimum_parent, s)
     else do {
       s1 \<leftarrow> update_node (h_left m) (\<lambda>n. n\<lparr>h_size := h_size n - 1\<rparr>) s;
       minimum_loop (h_left m) (h_left m) s1
     }
   }"

partial_function (option) delete_root ::
  "'d data_modify_fn \<Rightarrow> addr \<Rightarrow> 'd h_state \<Rightarrow> (addr \<times> 'd h_state) option" where
  "delete_root data_destroy root s = do {
     n0 \<leftarrow> node_at s root;
     s \<leftarrow> (if h_data n0 \<noteq> 0 then apply_modify data_destroy (h_data n0) s else Some s);
     n \<leftarrow> node_at s root;
     if h_left n = 0 \<or> h_right n = 0 then do {
       let minimum = (if h_left n = 0 then h_right n else h_left n);
       s \<leftarrow> free_node root s;
       Some (minimum, s)
     }
     else do {
       let minimum_parent = h_right n;
       mp \<leftarrow> node_at s minimum_parent;
       if h_left mp = 0 then do {
         s \<leftarrow> update_node minimum_parent (\<lambda>m. m\<lparr>h_left := h_left n\<rparr>) s;
         s \<leftarrow> update_size minimum_parent s;
         s \<leftarrow> free_node root s;
         Some (minimum_parent, s)
       }
       else do {
         s \<leftarrow> update_node minimum_parent (\<lambda>m. m\<lparr>h_size := h_size m - 1\<rparr>) s;
         (minimum, minimum_parent, s) \<leftarrow> minimum_loop (h_left mp) minimum_parent s;
         s \<leftarrow> swap_nodes root minimum s;
         (l, s) \<leftarrow> delete_root data_destroy root s;
         s \<leftarrow> update_node minimum_parent (\<lambda>m. m\<lparr>h_left := l\<rparr>) s;
         Some (minimum, s)
       }
     }
   }"

partial_function (option) h_tree_delete ::
  "('d \<Rightarrow> 'k \<Rightarrow> int) \<Rightarrow> 'd data_modify_fn \<Rightarrow> addr \<Rightarrow> 'k option \<Rightarrow> 'd h_state
     \<Rightarrow> (addr \<times> 'd h_state) option" where
  "h_tree_delete data_cmp_key data_destroy root key s =
     (case key of
        None \<Rightarrow> Some (root, s)
      | Some k \<Rightarrow>
          if root = 0 then Some (root, s)
          else do {
            n \<leftarrow> node_at s root;
            d \<leftarrow> obj_at s (h_data n);
            let cmp = data_cmp_key d k;
            if cmp = 0 then do {
              s1 \<leftarrow> remove_child_from_h root s;
              delete_root data_destroy root s1
            }
            else do {
              s1 \<leftarrow> (if cmp < 0 then do {
                       (r, s') \<leftarrow> h_tree_delete data_cmp_key data_destroy (h_right n) key s;
                       update_node root (\<lambda>n. n\<lparr>h_right := r\<rparr>) s'
                     }
                     else do {
                       (l, s') \<leftarrow> h_tree_delete data_cmp_key data_destroy (h_left n) key s;
                       update_node root (\<lambda>n. n\<lparr>h_left := l\<rparr>) s'
                     });
              s2 \<leftarrow> update_size root s1;
              Some (root, s2)
            }
          })"

section \<open>Iterators\<close>

partial_function (option) h_tree_iterate_preorder ::
  "'d data_modify_fn \<Rightarrow> addr \<Rightarrow> 'd h_state \<Rightarrow> 'd h_state option" where
  "h_tree_iterate_preorder mod_fn root s =
     (if root = 0 then Some s
      else do {
        n \<leftarrow> node_at s root;
        s1 \<leftarrow> apply_modify mod_fn (h_data n) s;
        s2 \<leftarrow> h_tree_iterate_preorder mod_fn (h_left n) s1;
        h_tree_iterate_preorder mod_fn (h_right n) s2
      })"

partial_function (option) h_tree_iterate_h_ancestors ::
  "'d data_modify_fn \<Rightarrow> addr \<Rightarrow> 'd h_state \<Rightarrow> 'd h_state option" where
  "h_tree_iterate_h_ancestors mod_fn p s =
     (if p = 0 then Some s
      else do {
        n \<leftarrow> node_at s p;
        s1 \<leftarrow> apply_modify mod_fn (h_data n) s;
        h_tree_iterate_h_ancestors mod_fn (h_parent n) s1
      })"

text \<open>The output array and the position \<open>elem_array\<close> points to.\<close>

partial_function (option) h_tree_flatten_preorder ::
  "addr \<Rightarrow> addr list \<Rightarrow> nat \<Rightarrow> 'd h_state \<Rightarrow> addr list option" where
  "h_tree_flatten_preorder root elem_array i s =
     (if root = 0 then Some elem_array
      else do {
        n \<leftarrow> node_at s root;
        a1 \<leftarrow> array_set elem_array i (h_data n);
        a2 \<leftarrow> h_tree_flatten_preorder (h_left n) a1 (i + 1) s;
        l \<leftarrow> h_tree_size (h_left n) s;
        h_tree_flatten_preorder (h_right n) a2 (i + 1 + nat l) s
      })"

partial_function (option) flatten_children_loop ::
  "addr \<Rightarrow> addr list \<Rightarrow> nat \<Rightarrow> 'd h_state \<Rightarrow> addr list option" where
  "flatten_children_loop child_it elem_array i s =
     (if child_it = 0 then array_set elem_array i 0
      else do {
        n \<leftarrow> node_at s child_it;
        a1 \<leftarrow> array_set elem_array i (h_data n);
        flatten_children_loop (h_next_sibling n) a1 (i + 1) s
      })"

definition h_tree_flatten_h_children ::
  "addr \<Rightarrow> addr list \<Rightarrow> 'd h_state \<Rightarrow> addr list option" where
  "h_tree_flatten_h_children root elem_array s =
     (if root = 0 then Some elem_array
      else do { n \<leftarrow> node_at s root; flatten_children_loop (h_children n) elem_array 0 s })"

end
