(* ===== verification/Hierarchy_Insert.thy ===== *)
theory Hierarchy_Insert
  imports Hierarchy_Tree
begin

text \<open>
  The shape of the binary tree in the heap, searching and inserting, and the invariant of the
  hierarchy's lists of children.
\<close>

section \<open>The binary tree in the heap\<close>

definition links :: "'d h_state \<Rightarrow> addr \<Rightarrow> (addr \<times> addr \<times> int) option" where
  "links s a = map_option (\<lambda>n. (h_left n, h_right n, h_size n)) (h_nodes s a)"

text \<open>The fields a change of the binary tree leaves alone.\<close>

definition hview :: "'d h_state \<Rightarrow> addr \<Rightarrow> (addr \<times> addr \<times> addr \<times> addr) option" where
  "hview s a = map_option (\<lambda>n. (h_data n, h_parent n, h_next_sibling n, h_children n)) (h_nodes s a)"

fun root_of :: "addr tree \<Rightarrow> addr" where
  "root_of Leaf = 0"
| "root_of (Node l a r) = a"

fun tree_at :: "'d h_state \<Rightarrow> addr tree \<Rightarrow> bool" where
  "tree_at s Leaf = True"
| "tree_at s (Node l a r) \<longleftrightarrow> a \<noteq> 0 \<and> tree_at s l \<and> tree_at s r
     \<and> links s a = Some (root_of l, root_of r, int (size l + size r + 1))"

lemma tree_at_cong:
  "\<forall>a \<in> set_tree t. links s' a = links s a \<Longrightarrow> tree_at s' t = tree_at s t"
  by (induction t) auto

lemma tree_at_nonzero: "tree_at s t \<Longrightarrow> a \<in> set_tree t \<Longrightarrow> a \<noteq> 0 \<and> (\<exists>n. h_nodes s a = Some n)"
  by (induction t) (auto simp: links_def)

lemma root_of_in: "t \<noteq> Leaf \<Longrightarrow> root_of t \<in> set_tree t"
  by (cases t) auto

lemma root_of_zero: "tree_at s t \<Longrightarrow> root_of t = 0 \<longleftrightarrow> t = Leaf"
  by (cases t) auto

lemma size_at_root: "tree_at s t \<Longrightarrow> h_tree_size (root_of t) s = Some (int (size t))"
  by (cases t) (auto simp: h_tree_size_def node_at_def links_def)

lemma tree_at_node:
  assumes "tree_at s (Node l a r)"
  obtains n where "node_at s a = Some n" "h_nodes s a = Some n" "h_left n = root_of l"
    "h_right n = root_of r" "h_size n = int (size l + size r + 1)"
  using assms by (auto simp: links_def node_at_def)

section \<open>Searching\<close>

text \<open>The key stored at a node, and what it means for a tree to be searchable.\<close>

definition key_at :: "('d \<Rightarrow> 'k) \<Rightarrow> 'd h_state \<Rightarrow> addr \<Rightarrow> 'k" where
  "key_at key_of s a = key_of (the (h_objs s (h_data (the (h_nodes s a)))))"

definition data_ok :: "'d h_state \<Rightarrow> addr \<Rightarrow> bool" where
  "data_ok s a \<longleftrightarrow> (\<exists>n d. h_nodes s a = Some n \<and> h_data n \<noteq> 0 \<and> h_objs s (h_data n) = Some d)"

definition search_tree :: "('d \<Rightarrow> 'k::linorder) \<Rightarrow> 'd h_state \<Rightarrow> addr tree \<Rightarrow> bool" where
  "search_tree key_of s t \<longleftrightarrow> tree_at s t \<and> (\<forall>a \<in> set_tree t. data_ok s a)
     \<and> sorted_wrt (<) (map (key_at key_of s) (inorder t))"

text \<open>The reference searches and insertions on the shape of the tree.\<close>

fun tree_lookup :: "(addr \<Rightarrow> 'k::linorder) \<Rightarrow> addr tree \<Rightarrow> 'k \<Rightarrow> addr" where
  "tree_lookup kf Leaf k = 0"
| "tree_lookup kf (Node l a r) k =
     (if kf a < k then tree_lookup kf r k else if k < kf a then tree_lookup kf l k else a)"

fun tree_insert :: "(addr \<Rightarrow> 'k::linorder) \<Rightarrow> addr \<Rightarrow> 'k \<Rightarrow> addr tree \<Rightarrow> addr tree" where
  "tree_insert kf x k Leaf = Node Leaf x Leaf"
| "tree_insert kf x k (Node l a r) =
     (if k > kf a then Node l a (tree_insert kf x k r)
      else if k < kf a then Node (tree_insert kf x k l) a r
      else Node l a r)"

lemma search_tree_Node:
  "search_tree key_of s (Node l a r) \<longleftrightarrow> search_tree key_of s l \<and> search_tree key_of s r
     \<and> a \<noteq> 0 \<and> data_ok s a \<and> links s a = Some (root_of l, root_of r, int (size l + size r + 1))
     \<and> (\<forall>x \<in> set_tree l. key_at key_of s x < key_at key_of s a)
     \<and> (\<forall>x \<in> set_tree r. key_at key_of s a < key_at key_of s x)"
  by (auto simp: search_tree_def sorted_wrt_append intro: less_trans)

lemma search_tree_Leaf [simp]: "search_tree key_of s Leaf"
  by (simp add: search_tree_def)

lemma search_tree_distinct:
  assumes "search_tree key_of s t"
  shows "distinct (inorder t)"
proof -
  have "sorted_wrt (<) (map (key_at key_of s) (inorder t))"
    using assms by (simp add: search_tree_def)
  then have "distinct (map (key_at key_of s) (inorder t))"
    by (simp add: strict_sorted_iff)
  then show ?thesis by (simp add: distinct_map)
qed

lemma key_at_eq: "h_nodes s a = Some n \<Longrightarrow> h_objs s (h_data n) = Some d \<Longrightarrow> key_at key_of s a = key_of d"
  by (simp add: key_at_def)

lemma tree_lookup_cases:
  assumes "search_tree key_of s t"
  shows "(tree_lookup (key_at key_of s) t k \<in> set_tree t
        \<and> key_at key_of s (tree_lookup (key_at key_of s) t k) = k)
    \<or> (tree_lookup (key_at key_of s) t k = 0 \<and> (\<forall>a \<in> set_tree t. key_at key_of s a \<noteq> k))"
  using assms
proof (induction t)
  case (Node l a r)
  let ?kf = "key_at key_of s"
  from Node.prems have ord: "\<forall>x \<in> set_tree l. ?kf x < ?kf a" "\<forall>x \<in> set_tree r. ?kf a < ?kf x"
    and lr: "search_tree key_of s l" "search_tree key_of s r" by (auto simp: search_tree_Node)
  show ?case
  proof (cases "?kf a" k rule: linorder_cases)
    case less
    then have "tree_lookup ?kf (Node l a r) k = tree_lookup ?kf r k" by simp
    moreover have "\<forall>x \<in> set_tree l. ?kf x \<noteq> k" "?kf a \<noteq> k" using less ord by force+
    ultimately show ?thesis using Node.IH(2) [OF lr(2)] by auto
  next
    case greater
    then have "tree_lookup ?kf (Node l a r) k = tree_lookup ?kf l k" by auto
    moreover have "\<forall>x \<in> set_tree r. ?kf x \<noteq> k" "?kf a \<noteq> k" using greater ord by force+
    ultimately show ?thesis using Node.IH(1) [OF lr(1)] by auto
  qed auto
qed simp

lemma tree_insert_set:
  "set_tree (tree_insert kf x k t) \<subseteq> insert x (set_tree t)"
  by (induction t) auto

text \<open>The comparison functions order the objects by a key.\<close>

locale keyed_data =
  fixes data_cmp :: "'d \<Rightarrow> 'd \<Rightarrow> int"
    and data_cmp_key :: "'d \<Rightarrow> 'k::linorder \<Rightarrow> int"
    and key_of :: "'d \<Rightarrow> 'k"
  assumes cmp_less: "data_cmp d1 d2 < 0 \<longleftrightarrow> key_of d1 < key_of d2"
    and cmp_greater: "data_cmp d1 d2 > 0 \<longleftrightarrow> key_of d1 > key_of d2"
    and cmp_key_less: "data_cmp_key d k < 0 \<longleftrightarrow> key_of d < k"
    and cmp_key_greater: "data_cmp_key d k > 0 \<longleftrightarrow> key_of d > k"
begin

lemma search_is_lookup:
  "search_tree key_of s t \<Longrightarrow>
     h_tree_search data_cmp_key (root_of t) (Some k) s
       = Some (tree_lookup (key_at key_of s) t k, s)"
proof (induction t)
  case Leaf
  then show ?case by (subst h_tree_search.simps) simp
next
  case (Node l a r)
  then obtain n d where nd: "h_nodes s a = Some n" "h_data n \<noteq> 0" "h_objs s (h_data n) = Some d"
    by (auto simp: search_tree_Node data_ok_def)
  with Node show ?case
    by (subst h_tree_search.simps)
      (auto simp: search_tree_Node node_at_def obj_at_def links_def key_at_eq cmp_key_less
        cmp_key_greater)
qed

end

section \<open>Inserting\<close>

text \<open>Writing the links of one node and recomputing its size.\<close>

lemma relink:
  assumes "tree_at s l" "tree_at s r" "node_at s a = Some n" "a \<notin> set_tree l" "a \<notin> set_tree r"
    "h_left (f n) = root_of l" "h_right (f n) = root_of r"
    "h_data (f n) = h_data n" "h_parent (f n) = h_parent n" "h_next_sibling (f n) = h_next_sibling n"
    "h_children (f n) = h_children n"
  obtains s1 s' where "update_node a f s = Some s1" "update_size a s1 = Some s'"
    "tree_at s' (Node l a r)" "hview s' = hview s" "\<forall>b. b \<noteq> a \<longrightarrow> h_nodes s' b = h_nodes s b"
    "h_objs s' = h_objs s" "h_brk s' = h_brk s" "h_errno s' = h_errno s"
    "s' = s\<lparr>h_nodes := (h_nodes s)(a \<mapsto> (f n)\<lparr>h_size := int (size l + size r + 1)\<rparr>)\<rparr>"
proof -
  let ?s1 = "s\<lparr>h_nodes := (h_nodes s)(a \<mapsto> f n)\<rparr>"
  let ?s' = "s\<lparr>h_nodes := (h_nodes s)(a \<mapsto> (f n)\<lparr>h_size := int (size l + size r + 1)\<rparr>)\<rparr>"
  have a: "a \<noteq> 0" "h_nodes s a = Some n" using assms(3) by (auto simp: node_at_def split: if_splits)
  have "tree_at ?s1 l = tree_at s l" "tree_at ?s1 r = tree_at s r"
    "tree_at ?s' l = tree_at s l" "tree_at ?s' r = tree_at s r"
    using assms(4,5) by (intro tree_at_cong; auto simp: links_def)+
  with assms(1,2) have t: "tree_at ?s1 l" "tree_at ?s1 r" "tree_at ?s' l" "tree_at ?s' r"
    by simp_all
  have "hview ?s' = hview s" using assms a by (auto simp: hview_def)
  moreover have "update_size a ?s1 = Some ?s'"
    using assms(6,7) a size_at_root [OF t(1)] size_at_root [OF t(2)]
    by (simp add: update_size_def update_node_def node_at_def ac_simps)
  moreover have "tree_at ?s' (Node l a r)" using t a assms(6,7) by (simp add: links_def)
  moreover have "update_node a f s = Some ?s1" by (simp add: update_node_def assms(3))
  ultimately show thesis using that by fastforce
qed

text \<open>What linking a new node changes.\<close>

definition linked_view :: "'d h_state \<Rightarrow> addr \<Rightarrow> addr \<Rightarrow> addr \<Rightarrow> (addr \<times> addr \<times> addr \<times> addr) option" where
  "linked_view s x hp = (case hview s hp of
       Some (d, p, nx, ch) \<Rightarrow> if hp = 0 then (hview s)(h_brk s \<mapsto> (x, 0, 0, 0))
         else (hview s)(h_brk s \<mapsto> (x, hp, ch, 0), hp \<mapsto> (d, p, nx, h_brk s))
     | None \<Rightarrow> (hview s)(h_brk s \<mapsto> (x, 0, 0, 0)))"

definition store_ok :: "'d h_state \<Rightarrow> bool" where
  "store_ok s \<longleftrightarrow> h_brk s \<noteq> 0 \<and> (\<forall>a \<ge> h_brk s. h_nodes s a = None) \<and> h_nodes s 0 = None"

lemma h_node_init_spec:
  assumes "store_ok s" "hp = 0 \<or> h_nodes s hp \<noteq> None"
  obtains s' where "h_node_init x hp s = Some (h_brk s, s')" "hview s' = linked_view s x hp"
    "links s' (h_brk s) = Some (0, 0, 1)" "\<forall>a. a \<noteq> h_brk s \<longrightarrow> links s' a = links s a"
    "h_objs s' = h_objs s" "h_brk s' = Suc (h_brk s)" "h_errno s' = h_errno s"
proof -
  from assms have new: "h_nodes s (h_brk s) = None" "h_nodes s 0 = None" by (auto simp: store_ok_def)
  show thesis
  proof (cases "hp = 0")
    case True
    with new show thesis
      by (intro that [of "snd (the (h_node_init x hp s))"])
        (auto simp: h_node_init_def Let_def linked_view_def hview_def links_def)
  next
    case False
    with assms(2) obtain pn where "h_nodes s hp = Some pn" by auto
    moreover with new have "hp \<noteq> h_brk s" by auto
    ultimately show thesis using False new
      by (intro that [of "snd (the (h_node_init x hp s))"])
        (auto simp: h_node_init_def Let_def linked_view_def hview_def links_def node_at_def)
  qed
qed

lemma hview_nodes: "hview s' = linked_view s x hp \<Longrightarrow> h_nodes s a \<noteq> None \<Longrightarrow> h_nodes s' a \<noteq> None"
  by (drule fun_cong [of _ _ a]) (auto simp: linked_view_def hview_def split: option.splits prod.splits if_splits)

context keyed_data begin

lemma insert_new:
  assumes "search_tree key_of s t" "store_ok s" "hp = 0 \<or> h_nodes s hp \<noteq> None"
    "x \<noteq> 0" "h_objs s x = Some d" "\<forall>a \<in> set_tree t. key_at key_of s a \<noteq> key_of d"
  shows "\<exists>s'. h_tree_insert data_cmp (root_of t) x hp s
        = Some (root_of (tree_insert (key_at key_of s) (h_brk s) (key_of d) t), s')
    \<and> tree_at s' (tree_insert (key_at key_of s) (h_brk s) (key_of d) t)
    \<and> hview s' = linked_view s x hp \<and> (\<forall>a. a \<notin> set_tree t \<and> a \<noteq> h_brk s \<longrightarrow> links s' a = links s a)
    \<and> h_objs s' = h_objs s \<and> h_brk s' = Suc (h_brk s) \<and> h_errno s' = h_errno s"
  using assms(1,6)
proof (induction t)
  case Leaf
  obtain s' where "h_node_init x hp s = Some (h_brk s, s')" "hview s' = linked_view s x hp"
    "links s' (h_brk s) = Some (0, 0, 1)" "\<forall>a. a \<noteq> h_brk s \<longrightarrow> links s' a = links s a"
    "h_objs s' = h_objs s" "h_brk s' = Suc (h_brk s)" "h_errno s' = h_errno s"
    using h_node_init_spec [OF assms(2,3)] by blast
  with assms(2,4) show ?case
    by (subst h_tree_insert.simps) (simp add: store_ok_def)
next
  case (Node l a r)
  let ?kf = "key_at key_of s" and ?new = "h_brk s"
  from Node.prems obtain n d2 where n: "h_nodes s a = Some n" "h_data n \<noteq> 0" "h_objs s (h_data n) = Some d2"
    and a: "a \<noteq> 0" "h_left n = root_of l" "h_right n = root_of r"
    by (auto simp: search_tree_Node data_ok_def links_def)
  then have ka: "?kf a = key_of d2" by (simp add: key_at_eq)
  have t: "tree_at s (Node l a r)" "tree_at s l" "tree_at s r"
    using Node.prems by (simp_all add: search_tree_def)
  have fresh: "?new \<notin> set_tree (Node l a r)" "a \<noteq> ?new"
    using tree_at_nonzero [OF t(1), of ?new] assms(2) n by (auto simp: store_ok_def)
  have disj: "a \<notin> set_tree l" "a \<notin> set_tree r" "set_tree l \<inter> set_tree r = {}"
    using search_tree_distinct [OF Node.prems(1)] by auto
  consider "key_of d2 < key_of d" | "key_of d < key_of d2"
    using Node.prems(2) ka by (auto simp: neq_iff)
  then show ?case
  proof cases
    case 1
    let ?r = "tree_insert ?kf ?new (key_of d) r"
    obtain s1 where s1: "h_tree_insert data_cmp (root_of r) x hp s = Some (root_of ?r, s1)"
      "tree_at s1 ?r" "hview s1 = linked_view s x hp"
      "\<forall>b. b \<notin> set_tree r \<and> b \<noteq> ?new \<longrightarrow> links s1 b = links s b"
      "h_objs s1 = h_objs s" "h_brk s1 = Suc ?new" "h_errno s1 = h_errno s"
      using Node.IH(2) Node.prems by (auto simp: search_tree_Node)
    have la: "links s1 a = links s a" using s1(4) disj fresh by simp
    then obtain n1 where n1: "h_nodes s1 a = Some n1" "h_left n1 = root_of l"
      using n a by (auto simp: links_def)
    have l1: "tree_at s1 l"
      using s1(4) disj fresh t(2) by (subst tree_at_cong [of l s1 s]) auto
    have na: "a \<notin> set_tree ?r" using tree_insert_set [of ?kf ?new "key_of d" r] disj fresh by auto
    obtain s2 s' where s': "update_node a (\<lambda>n. n\<lparr>h_right := root_of ?r\<rparr>) s1 = Some s2"
      "update_size a s2 = Some s'" "tree_at s' (Node l a ?r)" "hview s' = hview s1"
      "\<forall>b. b \<noteq> a \<longrightarrow> h_nodes s' b = h_nodes s1 b" "h_objs s' = h_objs s1" "h_brk s' = h_brk s1"
      "h_errno s' = h_errno s1"
      by (rule relink [OF l1 s1(2) _ disj(1) na, of n1 "\<lambda>n. n\<lparr>h_right := root_of ?r\<rparr>"])
        (use n1 a in \<open>auto simp: node_at_def\<close>)
    have "\<forall>b. b \<notin> set_tree (Node l a r) \<and> b \<noteq> ?new \<longrightarrow> links s' b = links s b"
      using s'(5) s1(4) by (auto simp: links_def)
    moreover have "h_tree_insert data_cmp a x hp s = Some (a, s')"
      using 1 n a assms(4,5) s1(1) s'(1,2) cmp_greater [of d d2]
      by (subst h_tree_insert.simps) (simp add: node_at_def obj_at_def)
    ultimately show ?thesis using 1 s1 s' ka by (auto simp del: tree_at.simps)
  next
    case 2
    let ?l = "tree_insert ?kf ?new (key_of d) l"
    obtain s1 where s1: "h_tree_insert data_cmp (root_of l) x hp s = Some (root_of ?l, s1)"
      "tree_at s1 ?l" "hview s1 = linked_view s x hp"
      "\<forall>b. b \<notin> set_tree l \<and> b \<noteq> ?new \<longrightarrow> links s1 b = links s b"
      "h_objs s1 = h_objs s" "h_brk s1 = Suc ?new" "h_errno s1 = h_errno s"
      using Node.IH(1) Node.prems by (auto simp: search_tree_Node)
    have la: "links s1 a = links s a" using s1(4) disj fresh by simp
    then obtain n1 where n1: "h_nodes s1 a = Some n1" "h_right n1 = root_of r"
      using n a by (auto simp: links_def)
    have r1: "tree_at s1 r"
      using s1(4) disj fresh t(3) by (subst tree_at_cong [of r s1 s]) auto
    have na: "a \<notin> set_tree ?l" using tree_insert_set [of ?kf ?new "key_of d" l] disj fresh by auto
    obtain s2 s' where s': "update_node a (\<lambda>n. n\<lparr>h_left := root_of ?l\<rparr>) s1 = Some s2"
      "update_size a s2 = Some s'" "tree_at s' (Node ?l a r)" "hview s' = hview s1"
      "\<forall>b. b \<noteq> a \<longrightarrow> h_nodes s' b = h_nodes s1 b" "h_objs s' = h_objs s1" "h_brk s' = h_brk s1"
      "h_errno s' = h_errno s1"
      by (rule relink [OF s1(2) r1 _ na disj(2), of n1 "\<lambda>n. n\<lparr>h_left := root_of ?l\<rparr>"])
        (use n1 a in \<open>auto simp: node_at_def\<close>)
    have "\<forall>b. b \<notin> set_tree (Node l a r) \<and> b \<noteq> ?new \<longrightarrow> links s' b = links s b"
      using s'(5) s1(4) by (auto simp: links_def)
    moreover have "h_tree_insert data_cmp a x hp s = Some (a, s')"
      using 2 n a assms(4,5) s1(1) s'(1,2) cmp_less [of d d2] cmp_greater [of d d2]
      by (subst h_tree_insert.simps) (auto simp: node_at_def obj_at_def)
    ultimately show ?thesis using 2 s1 s' ka by (auto simp del: tree_at.simps)
  qed
qed

lemma insert_duplicate:
  assumes "search_tree key_of s t" "x \<noteq> 0" "h_objs s x = Some d"
    "\<exists>a \<in> set_tree t. key_at key_of s a = key_of d"
  shows "h_tree_insert data_cmp (root_of t) x hp s = Some (root_of t, s)"
  using assms(1,4)
proof (induction t)
  case (Node l a r)
  let ?kf = "key_at key_of s"
  from Node.prems obtain n d2 where n: "h_nodes s a = Some n" "h_data n \<noteq> 0" "h_objs s (h_data n) = Some d2"
    and a: "a \<noteq> 0" "h_left n = root_of l" "h_right n = root_of r" "h_size n = int (size l + size r + 1)"
    by (auto simp: search_tree_Node data_ok_def links_def)
  then have ka: "?kf a = key_of d2" by (simp add: key_at_eq)
  have t: "tree_at s l" "tree_at s r" using Node.prems by (simp_all add: search_tree_def)
  have same: "n\<lparr>h_size := 1 + int (size l) + int (size r)\<rparr> = n" using a by simp
  have keep: "n\<lparr>h_left := root_of l\<rparr> = n" "n\<lparr>h_right := root_of r\<rparr> = n" using a by simp_all
  have us: "update_size a s = Some s"
    using size_at_root [OF t(1)] size_at_root [OF t(2)] n a same
    by (simp add: update_size_def update_node_def node_at_def fun_upd_idem)
  have un: "update_node a (\<lambda>n. n\<lparr>h_left := root_of l\<rparr>) s = Some s"
    "update_node a (\<lambda>n. n\<lparr>h_right := root_of r\<rparr>) s = Some s"
    using n a keep by (simp_all add: update_node_def node_at_def fun_upd_idem)
  have rec: "key_of d2 < key_of d \<Longrightarrow> h_tree_insert data_cmp (root_of r) x hp s = Some (root_of r, s)"
    "key_of d < key_of d2 \<Longrightarrow> h_tree_insert data_cmp (root_of l) x hp s = Some (root_of l, s)"
    using Node.IH Node.prems ka by (auto simp: search_tree_Node)
  show ?case
    using n a(1-3) assms(2,3) rec us un cmp_greater [of d d2] cmp_less [of d d2]
    by (subst h_tree_insert.simps) (auto simp: node_at_def obj_at_def)
qed simp

end

section \<open>What insertion keeps\<close>

lemma linked_view_old:
  assumes "hview s' = linked_view s x hp" "h_nodes s a = Some n" "a \<noteq> h_brk s" "store_ok s"
  obtains n' where "h_nodes s' a = Some n'" "h_data n' = h_data n" "h_parent n' = h_parent n"
    "h_next_sibling n' = h_next_sibling n"
    "h_children n' = (if hp \<noteq> 0 \<and> a = hp then h_brk s else h_children n)"
proof -
  have "hview s' a = linked_view s x hp a" using assms(1) by simp
  with assms(2-4) show thesis using that
    by (cases "a = hp") (auto simp: linked_view_def hview_def store_ok_def split: option.splits if_splits)
qed

lemma linked_view_new:
  assumes "hview s' = linked_view s x hp" "store_ok s" "hp = 0 \<or> h_nodes s hp \<noteq> None"
  obtains n' where "h_nodes s' (h_brk s) = Some n'" "h_data n' = x" "h_parent n' = hp" "h_children n' = 0"
    "h_next_sibling n' = (if hp = 0 then 0 else h_children (the (h_nodes s hp)))"
proof -
  have "hview s' (h_brk s) = linked_view s x hp (h_brk s)" using assms(1) by simp
  with assms(2,3) show thesis using that
    by (auto simp: linked_view_def hview_def store_ok_def split: option.splits if_splits)
qed

lemma linked_view_only:
  "hview s' = linked_view s x hp \<Longrightarrow> h_nodes s' a = Some n' \<Longrightarrow> a = h_brk s \<or> h_nodes s a \<noteq> None"
  by (drule fun_cong [of _ _ a], cases "h_nodes s a")
    (auto simp: linked_view_def hview_def split: option.splits if_splits)

lemma tree_insert_inorder:
  assumes "sorted_wrt (<) (map kf (inorder t))" "\<forall>a \<in> set_tree t. kf a \<noteq> k"
  shows "\<exists>xs ys. inorder t = xs @ ys \<and> inorder (tree_insert kf x k t) = xs @ x # ys
    \<and> (\<forall>a \<in> set xs. kf a < k) \<and> (\<forall>a \<in> set ys. k < kf a)"
  using assms
proof (induction t)
  case (Node l a r)
  then have ord: "\<forall>x \<in> set_tree l. kf x < kf a" "\<forall>x \<in> set_tree r. kf a < kf x"
    by (auto simp: sorted_wrt_append)
  from Node.prems consider "kf a < k" | "k < kf a" by (auto simp: neq_iff)
  then show ?case
  proof cases
    case 1
    from Node obtain xs ys where "inorder r = xs @ ys" "inorder (tree_insert kf x k r) = xs @ x # ys"
      "\<forall>a \<in> set xs. kf a < k" "\<forall>a \<in> set ys. k < kf a" by (auto simp: sorted_wrt_append)
    with 1 ord show ?thesis
      by (intro exI [of _ "inorder l @ a # xs"] exI [of _ ys]) (auto intro: less_trans)
  next
    case 2
    from Node obtain xs ys where "inorder l = xs @ ys" "inorder (tree_insert kf x k l) = xs @ x # ys"
      "\<forall>a \<in> set xs. kf a < k" "\<forall>a \<in> set ys. k < kf a" by (auto simp: sorted_wrt_append)
    with 2 ord show ?thesis
      by (intro exI [of _ xs] exI [of _ "ys @ a # inorder r"]) (auto intro: less_trans)
  qed
qed simp

text \<open>The children of a node are a linked list of its own nodes.\<close>

fun sib_list :: "'d h_state \<Rightarrow> addr \<Rightarrow> addr list \<Rightarrow> bool" where
  "sib_list s p [] \<longleftrightarrow> p = 0"
| "sib_list s p (x # xs) \<longleftrightarrow> p = x \<and> x \<noteq> 0
     \<and> (case h_nodes s x of None \<Rightarrow> False | Some n \<Rightarrow> sib_list s (h_next_sibling n) xs)"

definition children_of :: "'d h_state \<Rightarrow> addr \<Rightarrow> addr list \<Rightarrow> bool" where
  "children_of s p cs \<longleftrightarrow> (\<exists>n. h_nodes s p = Some n \<and> sib_list s (h_children n) cs) \<and> distinct cs
     \<and> (\<forall>c. c \<in> set cs \<longleftrightarrow> (\<exists>n. h_nodes s c = Some n \<and> h_parent n = p \<and> c \<noteq> 0))"

definition hier_ok :: "'d h_state \<Rightarrow> bool" where
  "hier_ok s \<longleftrightarrow> (\<forall>p \<noteq> 0. h_nodes s p \<noteq> None \<longrightarrow> (\<exists>cs. children_of s p cs))
     \<and> (\<forall>c n. h_nodes s c = Some n \<longrightarrow> h_parent n = 0 \<or> h_nodes s (h_parent n) \<noteq> None)"

lemma children_of_mem:
  "children_of s p cs \<Longrightarrow> c \<in> set cs \<longleftrightarrow> (\<exists>n. h_nodes s c = Some n \<and> h_parent n = p \<and> c \<noteq> 0)"
  by (simp add: children_of_def)

lemma sib_list_unique: "sib_list s p xs \<Longrightarrow> sib_list s p ys \<Longrightarrow> xs = ys"
proof (induction xs arbitrary: p ys)
  case Nil
  then show ?case by (cases ys) auto
next
  case (Cons x xs)
  then show ?case by (cases ys) (auto split: option.splits)
qed

lemma sib_list_cong:
  assumes "\<forall>x \<in> set xs. map_option h_next_sibling (h_nodes s' x) = map_option h_next_sibling (h_nodes s x)"
  shows "sib_list s' p xs = sib_list s p xs"
  using assms by (induction xs arbitrary: p) (auto split: option.splits)

lemma linked_hier_ok:
  assumes v: "hview s' = linked_view s x hp" and "store_ok s" "hier_ok s" "hp = 0 \<or> h_nodes s hp \<noteq> None"
  shows "hier_ok s'" "hp \<noteq> 0 \<Longrightarrow> children_of s hp cs \<Longrightarrow> children_of s' hp (h_brk s # cs)"
    "p \<noteq> hp \<Longrightarrow> p \<noteq> 0 \<Longrightarrow> children_of s p cs \<Longrightarrow> children_of s' p cs" "children_of s' (h_brk s) []"
proof -
  let ?new = "h_brk s"
  have fresh: "h_nodes s ?new = None" "?new \<noteq> 0" "h_nodes s 0 = None"
    using assms(2) by (auto simp: store_ok_def)
  obtain nn where nn: "h_nodes s' ?new = Some nn" "h_parent nn = hp" "h_children nn = 0"
    "h_next_sibling nn = (if hp = 0 then 0 else h_children (the (h_nodes s hp)))"
    using linked_view_new [OF v assms(2,4)] by metis
  have hpn: "hp \<noteq> ?new" using assms(4) fresh by auto
  have next_old: "map_option h_next_sibling (h_nodes s' c) = map_option h_next_sibling (h_nodes s c)"
    and par_old: "map_option h_parent (h_nodes s' c) = map_option h_parent (h_nodes s c)"
    if "h_nodes s c \<noteq> None" for c
    using that fresh linked_view_old [OF v _ _ assms(2), of c] by (fastforce)+
  have sib: "sib_list s' q cs = sib_list s q cs" if "\<forall>c \<in> set cs. h_nodes s c \<noteq> None" for q cs
    using that next_old by (intro sib_list_cong) blast
  have mem: "(\<exists>n. h_nodes s' c = Some n \<and> h_parent n = p \<and> c \<noteq> 0) \<longleftrightarrow>
      (c = ?new \<and> p = hp) \<or> (\<exists>n. h_nodes s c = Some n \<and> h_parent n = p \<and> c \<noteq> 0)" for c p
  proof (cases "h_nodes s c")
    case None
    then show ?thesis using linked_view_only [OF v, of c] nn fresh by auto
  next
    case (Some n)
    then show ?thesis using par_old [of c] fresh by auto
  qed
  have "h_parent n \<noteq> ?new" if "h_nodes s c = Some n" for c n
    using assms(3) fresh that unfolding hier_ok_def by metis
  then show new: "children_of s' ?new []"
    unfolding children_of_def mem using nn hpn fresh by auto
  show at_hp: "children_of s' hp (?new # cs)" if "hp \<noteq> 0" "children_of s hp cs" for cs
  proof -
    note prem = that
    obtain pn where pn: "h_nodes s hp = Some pn" "sib_list s (h_children pn) cs" "distinct cs"
      "\<forall>c. c \<in> set cs \<longleftrightarrow> (\<exists>n. h_nodes s c = Some n \<and> h_parent n = hp \<and> c \<noteq> 0)"
      using prem(2) by (auto simp: children_of_def)
    obtain pn' where "h_nodes s' hp = Some pn'" "h_children pn' = ?new"
      using linked_view_old [OF v pn(1) hpn assms(2)] prem(1) by metis
    moreover have "sib_list s' (h_children pn) cs" using pn(2,4) by (subst sib) auto
    ultimately show ?thesis
      unfolding children_of_def mem using prem(1) pn fresh nn by auto
  qed
  show others: "children_of s' p cs" if "p \<noteq> hp" "p \<noteq> 0" "children_of s p cs" for p cs
  proof -
    note prem = that
    obtain pn where pn: "h_nodes s p = Some pn" "sib_list s (h_children pn) cs" "distinct cs"
      "\<forall>c. c \<in> set cs \<longleftrightarrow> (\<exists>n. h_nodes s c = Some n \<and> h_parent n = p \<and> c \<noteq> 0)"
      using prem(3) by (auto simp: children_of_def)
    obtain pn' where "h_nodes s' p = Some pn'" "h_children pn' = h_children pn"
      using linked_view_old [OF v pn(1) _ assms(2)] prem(1) pn(1) fresh by (metis option.distinct(1))
    moreover have "sib_list s' (h_children pn) cs" using pn(2,4) by (subst sib) auto
    ultimately show ?thesis unfolding children_of_def mem using prem(1) pn by auto
  qed
  have "\<exists>cs. children_of s' p cs" if "p \<noteq> 0" "h_nodes s' p \<noteq> None" for p
  proof -
    from that(2) linked_view_only [OF v, of p] have "p = ?new \<or> h_nodes s p \<noteq> None" by auto
    then show ?thesis using new at_hp others that(1) assms(3) unfolding hier_ok_def by metis
  qed
  moreover have "h_parent n = 0 \<or> h_nodes s' (h_parent n) \<noteq> None" if "h_nodes s' c = Some n" for c n
  proof (cases "c = ?new")
    case True
    with that nn assms(4) show ?thesis using hview_nodes [OF v] by auto
  next
    case False
    with that linked_view_only [OF v] obtain m where m: "h_nodes s c = Some m" by fastforce
    with par_old [of c] that have "h_parent n = h_parent m" by simp
    with m assms(3) hview_nodes [OF v] show ?thesis unfolding hier_ok_def by metis
  qed
  ultimately show "hier_ok s'" unfolding hier_ok_def by blast
qed

context keyed_data begin

lemma insert_keeps:
  assumes "search_tree key_of s t" "store_ok s" "hier_ok s" "hp = 0 \<or> h_nodes s hp \<noteq> None"
    "x \<noteq> 0" "h_objs s x = Some d" "\<forall>a \<in> set_tree t. key_at key_of s a \<noteq> key_of d"
  obtains s' t' where "h_tree_insert data_cmp (root_of t) x hp s = Some (root_of t', s')"
    "search_tree key_of s' t'" "store_ok s'" "hier_ok s'" "set_tree t' = insert (h_brk s) (set_tree t)"
    "h_brk s \<notin> set_tree t" "size t' = Suc (size t)" "hview s' = linked_view s x hp"
    "h_objs s' = h_objs s" "h_errno s' = h_errno s" "key_at key_of s' (h_brk s) = key_of d"
    "\<forall>a \<in> set_tree t. key_at key_of s' a = key_at key_of s a"
proof -
  let ?kf = "key_at key_of s"
  let ?t' = "tree_insert ?kf (h_brk s) (key_of d) t"
  obtain s' where s': "h_tree_insert data_cmp (root_of t) x hp s = Some (root_of ?t', s')"
    "tree_at s' ?t'" "hview s' = linked_view s x hp" "h_objs s' = h_objs s" "h_brk s' = Suc (h_brk s)"
    "h_errno s' = h_errno s"
    using insert_new [OF assms(1,2,4-7)] by blast
  have tr: "tree_at s t" "sorted_wrt (<) (map ?kf (inorder t))" "\<forall>a \<in> set_tree t. data_ok s a"
    using assms(1) by (auto simp: search_tree_def)
  obtain xs ys where xy: "inorder t = xs @ ys" "inorder ?t' = xs @ h_brk s # ys"
    "\<forall>a \<in> set xs. ?kf a < key_of d" "\<forall>a \<in> set ys. key_of d < ?kf a"
    using tree_insert_inorder [OF tr(2) assms(7)] by blast
  have fresh: "h_brk s \<notin> set_tree t"
    using tree_at_nonzero [OF tr(1), of "h_brk s"] assms(2) by (auto simp: store_ok_def)
  obtain nn where nn: "h_nodes s' (h_brk s) = Some nn" "h_data nn = x"
    using linked_view_new [OF s'(3) assms(2,4)] by metis
  have knew: "key_at key_of s' (h_brk s) = key_of d" using nn s'(4) assms(6) by (simp add: key_at_eq)
  have old: "key_at key_of s' a = ?kf a" "data_ok s' a" if "a \<in> set_tree t" for a
  proof -
    from that tr(3) obtain n e where n: "h_nodes s a = Some n" "h_data n \<noteq> 0" "h_objs s (h_data n) = Some e"
      by (auto simp: data_ok_def)
    moreover from that fresh have "a \<noteq> h_brk s" by auto
    ultimately obtain n' where "h_nodes s' a = Some n'" "h_data n' = h_data n"
      using linked_view_old [OF s'(3) _ _ assms(2)] by metis
    with n s'(4) show "key_at key_of s' a = ?kf a" "data_ok s' a"
      by (auto simp: key_at_def data_ok_def)
  qed
  have inT: "a \<in> set xs \<or> a \<in> set ys \<longleftrightarrow> a \<in> set_tree t" for a
    using arg_cong [OF xy(1), of set] by auto
  then have eqs: "map (key_at key_of s') xs = map ?kf xs" "map (key_at key_of s') ys = map ?kf ys"
    using old(1) by auto
  have "map (key_at key_of s') (inorder ?t') = map ?kf xs @ key_of d # map ?kf ys"
    by (simp only: xy(2) map_append list.map eqs knew)
  then have "sorted_wrt (<) (map (key_at key_of s') (inorder ?t'))"
    using tr(2) xy(1,3,4) by (auto simp: sorted_wrt_append)
  moreover have st: "set_tree ?t' = insert (h_brk s) (set_tree t)"
    using arg_cong [OF xy(2), of set] inT by auto
  moreover have "data_ok s' (h_brk s)" using nn assms(5,6) s'(4) by (auto simp: data_ok_def)
  ultimately have "search_tree key_of s' ?t'" using s'(2) old by (auto simp: search_tree_def)
  moreover have "store_ok s'"
  proof -
    have "h_nodes s' a = None" if "Suc (h_brk s) \<le> a" for a
      using that linked_view_only [OF s'(3), of a] assms(2)
      by (cases "h_nodes s' a") (auto simp: store_ok_def)
    moreover have "h_nodes s' 0 = None"
      using linked_view_only [OF s'(3), of 0] assms(2) by (cases "h_nodes s' 0") (auto simp: store_ok_def)
    ultimately show ?thesis using s'(5) by (auto simp: store_ok_def)
  qed
  moreover have "size ?t' = Suc (size t)"
    using arg_cong [OF xy(1), of length] arg_cong [OF xy(2), of length] by simp
  ultimately show thesis
    using that [OF s'(1)] s' st fresh linked_hier_ok(1) [OF s'(3) assms(2,3,4)] knew old by blast
qed

end

end
