(* ===== verification/Hierarchy_Delete.thy ===== *)
theory Hierarchy_Delete
  imports Hierarchy_Insert
begin

text \<open>
  Deleting from the tree: the shapes the code handles, the double destruction in the others, and
  the hierarchy after a deletion.  The iterators and the flattening functions.
\<close>

section \<open>Deleting\<close>

text \<open>
  What the code can delete: a node with at most one child, or whose right child has no left child.
\<close>

fun tree_join :: "addr tree \<Rightarrow> addr tree \<Rightarrow> addr tree option" where
  "tree_join Leaf r = Some r"
| "tree_join l Leaf = Some l"
| "tree_join l (Node Leaf m rr) = Some (Node l m rr)"
| "tree_join l (Node (Node _ _ _) m rr) = None"

fun tree_delete :: "(addr \<Rightarrow> 'k::linorder) \<Rightarrow> 'k \<Rightarrow> addr tree \<Rightarrow> addr tree option" where
  "tree_delete kf k Leaf = Some Leaf"
| "tree_delete kf k (Node l a r) =
     (if kf a < k then map_option (\<lambda>r'. Node l a r') (tree_delete kf k r)
      else if k < kf a then map_option (\<lambda>l'. Node l' a r) (tree_delete kf k l)
      else tree_join l r)"

lemma tree_join_inorder: "tree_join l r = Some t \<Longrightarrow> inorder t = inorder l @ inorder r"
  by (induction l r rule: tree_join.induct) auto

lemma tree_join_size: "tree_join l r = Some t \<Longrightarrow> size t = size l + size r"
  by (induction l r rule: tree_join.induct) auto

lemma filter_all: "\<forall>x \<in> set xs. P x \<Longrightarrow> filter P xs = xs" by simp

lemma tree_delete_inorder:
  assumes "sorted_wrt (<) (map kf (inorder t))" "tree_delete kf k t = Some t'"
  shows "inorder t' = filter (\<lambda>a. kf a \<noteq> k) (inorder t)"
  using assms
proof (induction t arbitrary: t')
  case (Node l a r)
  from Node.prems(1) have ord: "\<forall>x \<in> set_tree l. kf x < kf a" "\<forall>x \<in> set_tree r. kf a < kf x"
    and srt: "sorted_wrt (<) (map kf (inorder l))" "sorted_wrt (<) (map kf (inorder r))"
    by (simp_all add: sorted_wrt_append)
  show ?case
  proof (cases "kf a" k rule: linorder_cases)
    case less
    with ord have "\<forall>x \<in> set (inorder l). kf x \<noteq> k" by auto
    then have "filter (\<lambda>a. kf a \<noteq> k) (inorder l) = inorder l" by (rule filter_all)
    moreover from less Node.prems(2) obtain r' where "tree_delete kf k r = Some r'" "t' = Node l a r'"
      by auto
    moreover from this have "inorder r' = filter (\<lambda>a. kf a \<noteq> k) (inorder r)"
      using Node.IH(2) [OF srt(2)] by simp
    ultimately show ?thesis using less by simp
  next
    case equal
    with ord have "\<forall>x \<in> set (inorder l). kf x \<noteq> k" "\<forall>x \<in> set (inorder r). kf x \<noteq> k" by auto
    then have "filter (\<lambda>a. kf a \<noteq> k) (inorder l) = inorder l"
      "filter (\<lambda>a. kf a \<noteq> k) (inorder r) = inorder r" by (auto intro: filter_all)
    moreover from equal Node.prems(2) have "inorder t' = inorder l @ inorder r"
      by (simp add: tree_join_inorder)
    ultimately show ?thesis using equal by simp
  next
    case greater
    with ord have "\<forall>x \<in> set (inorder r). kf x \<noteq> k" by auto
    then have "filter (\<lambda>a. kf a \<noteq> k) (inorder r) = inorder r" by (rule filter_all)
    moreover from greater less_not_sym [OF greater] Node.prems(2) obtain l' where "tree_delete kf k l = Some l'" "t' = Node l' a r"
      by auto
    moreover from this have "inorder l' = filter (\<lambda>a. kf a \<noteq> k) (inorder l)"
      using Node.IH(1) [OF srt(1)] by simp
    ultimately show ?thesis using greater less_not_sym [OF greater] by simp
  qed
qed simp

lemma tree_delete_missing:
  "\<forall>a \<in> set_tree t. kf a \<noteq> k \<Longrightarrow> tree_delete kf k t = Some t"
  by (induction t) (auto simp: neq_iff)

lemma tree_delete_cong:
  "\<forall>a \<in> set_tree t. kf' a = kf a \<Longrightarrow> tree_delete kf' k t = tree_delete kf k t"
  by (induction t) auto

text \<open>
  The trees from which the code cannot delete the node a: a has a left subtree and the root of its right subtree
  has a left child.
\<close>

fun double_free_shape :: "addr tree \<Rightarrow> addr \<Rightarrow> bool" where
  "double_free_shape Leaf a = False"
| "double_free_shape (Node l b r) a =
     (if a = b then l \<noteq> Leaf \<and> (case r of Leaf \<Rightarrow> False | Node rl m rr \<Rightarrow> rl \<noteq> Leaf)
      else double_free_shape l a \<or> double_free_shape r a)"

lemma double_free_shape_in: "double_free_shape t a \<Longrightarrow> a \<in> set_tree t"
  by (induction t) (auto split: if_splits)

lemma tree_join_None:
  "tree_join l r = None \<longleftrightarrow> l \<noteq> Leaf \<and> (case r of Leaf \<Rightarrow> False | Node rl m rr \<Rightarrow> rl \<noteq> Leaf)"
  by (induction l r rule: tree_join.induct) auto

lemma tree_delete_None:
  assumes "sorted_wrt (<) (map kf (inorder t))" "a \<in> set_tree t"
  shows "tree_delete kf (kf a) t = None \<longleftrightarrow> double_free_shape t a"
  using assms
proof (induction t)
  case (Node l b r)
  from Node.prems(1) have ord: "\<forall>x \<in> set_tree l. kf x < kf b" "\<forall>x \<in> set_tree r. kf b < kf x"
    and srt: "sorted_wrt (<) (map kf (inorder l))" "sorted_wrt (<) (map kf (inorder r))"
    by (simp_all add: sorted_wrt_append)
  consider "a = b" | "a \<in> set_tree l" "a \<noteq> b" "kf a < kf b" "a \<notin> set_tree r"
    | "a \<in> set_tree r" "a \<noteq> b" "kf b < kf a" "a \<notin> set_tree l"
    using Node.prems(2) ord by fastforce
  then show ?case
  proof cases
    case 1
    then show ?thesis by (simp add: tree_join_None)
  next
    case 2
    then have "\<not> double_free_shape r a" using double_free_shape_in by blast
    then show ?thesis using 2 Node.IH(1) [OF srt(1) 2(1)] less_not_sym [OF 2(3)] by simp
  next
    case 3
    then have "\<not> double_free_shape l a" using double_free_shape_in by blast
    then show ?thesis using 3 Node.IH(2) [OF srt(2) 3(1)] by simp
  qed
qed simp

lemma tree_delete_set:
  assumes "sorted_wrt (<) (map kf (inorder t))" "tree_delete kf k t = Some t'"
  shows "set_tree t' = {a \<in> set_tree t. kf a \<noteq> k}"
proof -
  have "set (inorder t') = {a \<in> set (inorder t). kf a \<noteq> k}"
    by (simp add: tree_delete_inorder [OF assms])
  then show ?thesis by simp
qed

text \<open>Taking a node out of its parent's list changes no link of the binary tree.\<close>

definition same_tree :: "'d h_state \<Rightarrow> 'd h_state \<Rightarrow> bool" where
  "same_tree s s' \<longleftrightarrow> links s' = links s \<and> h_objs s' = h_objs s \<and> h_brk s' = h_brk s
     \<and> (\<forall>a. map_option h_data (h_nodes s' a) = map_option h_data (h_nodes s a))"

lemma same_tree_intros:
  "same_tree s s" "same_tree s (s\<lparr>h_errno := e\<rparr>)"
  "update_node p (\<lambda>n. n\<lparr>h_children := v\<rparr>) s = Some s' \<Longrightarrow> same_tree s s'"
  "update_node p (\<lambda>n. n\<lparr>h_next_sibling := v\<rparr>) s = Some s' \<Longrightarrow> same_tree s s'"
  by (auto simp: same_tree_def update_node_def links_def node_at_def split: if_splits)

lemma remove_child_same_tree:
  assumes "remove_child_from_h c s = Some s'"
  shows "same_tree s s'"
  using assms unfolding remove_child_from_h_def
  by (auto simp: same_tree_intros split: if_splits)

lemma same_tree_tree_at: "same_tree s s' \<Longrightarrow> tree_at s' t = tree_at s t"
  by (intro tree_at_cong) (simp add: same_tree_def)

lemma same_tree_node:
  assumes "same_tree s s1" "h_nodes s b = Some n"
  obtains n1 where "h_nodes s1 b = Some n1" "h_data n1 = h_data n"
proof -
  have "map_option h_data (h_nodes s1 b) = map_option h_data (h_nodes s b)"
    using assms(1) by (simp add: same_tree_def)
  with assms(2) that show thesis by (cases "h_nodes s1 b") auto
qed

text \<open>
  Removing the node at the root.  The data object is destroyed once; in the shape the code does
  not handle, the recursive call destroys it a second time.
\<close>

lemma minimum_loop_keeps:
  assumes "minimum_loop m mp s = Some (m', mp', s')"
  shows "h_objs s' = h_objs s \<and> (\<forall>a. map_option h_data (h_nodes s' a) = map_option h_data (h_nodes s a))"
proof -
  have "case r of (m', mp', s') \<Rightarrow>
      h_objs s' = h_objs s \<and> (\<forall>a. map_option h_data (h_nodes s' a) = map_option h_data (h_nodes s a))"
    if "minimum_loop m mp s = Some r" for r
    using that
  proof (induction rule: minimum_loop.raw_induct [rotated 1, consumes 1, case_names step])
    case (step rec m mp s r)
    from step(2) obtain n where n: "node_at s m = Some n" by auto
    show ?case
    proof (cases "h_left n = 0")
      case True
      with step(2) n show ?thesis by auto
    next
      case False
      with step(2) n obtain s1 where s1: "update_node (h_left n) (\<lambda>n. n\<lparr>h_size := h_size n - 1\<rparr>) s = Some s1"
        "rec (h_left n) (h_left n) s1 = Some r" by auto
      from step(1) [OF s1(2)] s1(1) show ?thesis
        by (auto simp: update_node_def node_at_def split: if_splits)
    qed
  qed
  from this [OF assms] show ?thesis by simp
qed

lemma swap_nodes_keeps:
  assumes "swap_nodes p q s = Some s'"
  shows "h_objs s' = h_objs s \<and> map_option h_data (h_nodes s' a) = map_option h_data (h_nodes s a)"
  using assms
  by (auto simp: swap_nodes_def update_size_def update_node_def node_at_def split: if_splits)

lemma delete_root_objs:
  assumes "h_nodes s a = Some n" "a \<noteq> 0" "h_data n \<noteq> 0" "h_objs s (h_data n) = None"
  shows "delete_root free_obj a s = None"
  using assms
  by (subst delete_root.simps) (simp add: node_at_def apply_modify_def free_obj_def)

lemma delete_root_join:
  assumes t: "tree_at s (Node l a r)" and dist: "distinct (inorder (Node l a r))"
    and n: "h_nodes s a = Some n" "h_data n \<noteq> 0" "h_objs s (h_data n) = Some d"
  shows "case tree_join l r of
      None \<Rightarrow> delete_root free_obj a s = None
    | Some t' \<Rightarrow> \<exists>s'. delete_root free_obj a s = Some (root_of t', s') \<and> tree_at s' t'
        \<and> hview s' = (hview s)(a := None) \<and> h_objs s' = (h_objs s)(h_data n := None)
        \<and> h_brk s' = h_brk s \<and> h_errno s' = h_errno s
        \<and> (\<forall>b. b \<notin> set_tree (Node l a r) \<longrightarrow> links s' b = links s b)"
proof -
  let ?s0 = "s\<lparr>h_objs := (h_objs s)(h_data n := None)\<rparr>"
  let ?free = "\<lambda>s. s\<lparr>h_nodes := (h_nodes s)(a := None)\<rparr>"
  have a: "a \<noteq> 0" "h_left n = root_of l" "h_right n = root_of r" using t n by (auto simp: links_def)
  have lr: "tree_at s l" "tree_at s r" using t by simp_all
  have disj: "a \<notin> set_tree l" "a \<notin> set_tree r" "set_tree l \<inter> set_tree r = {}" "distinct (inorder r)"
    using dist by auto
  have z: "root_of l = 0 \<longleftrightarrow> l = Leaf" "root_of r = 0 \<longleftrightarrow> r = Leaf"
    by (rule root_of_zero [OF lr(1)], rule root_of_zero [OF lr(2)])
  have keep: "tree_at (?free ?s0) u" if "tree_at s u" "a \<notin> set_tree u" for u
    using that by (subst tree_at_cong [of u _ s]) (auto simp: links_def)
  consider (one) "l = Leaf \<or> r = Leaf"
    | (minimal) ll b lr m rr where "l = Node ll b lr" "r = Node Leaf m rr"
    | (deep) ll b lr rl c rm m rr where "l = Node ll b lr" "r = Node (Node rl c rm) m rr"
  proof (cases l)
    case (Node ll b lr)
    note l = this
    show ?thesis
    proof (cases r)
      case (Node rl m rr)
      then show ?thesis using that l by (cases rl) simp_all
    qed (use that in simp)
  qed (use that in simp)
  then show ?thesis
  proof cases
    case one
    let ?t' = "if l = Leaf then r else l"
    have "delete_root free_obj a s = Some (root_of ?t', ?free ?s0)"
      using one n a z
      by (subst delete_root.simps)
        (auto simp: node_at_def apply_modify_def free_obj_def free_node_def Let_def)
    moreover have "tree_join l r = Some ?t'" using one by (cases l; cases r) auto
    moreover have "tree_at (?free ?s0) ?t'" using keep lr disj by auto
    ultimately show ?thesis using n by (auto simp: hview_def links_def)
  next
    case minimal
    then have m: "m \<noteq> 0" "m \<noteq> a" "m \<notin> set_tree l" "m \<notin> set_tree rr" "a \<notin> set_tree rr" "tree_at s rr"
      using lr disj by auto
    then obtain nm where nm: "h_nodes s m = Some nm" "h_left nm = 0" "h_right nm = root_of rr"
      using lr(2) minimal by (auto simp: links_def)
    have s0: "tree_at ?s0 l" "tree_at ?s0 rr" using lr m(6) by (subst tree_at_cong [of _ _ s]; auto simp: links_def)+
    obtain s1 s2 where s2: "update_node m (\<lambda>n. n\<lparr>h_left := root_of l\<rparr>) ?s0 = Some s1"
      "update_size m s1 = Some s2" "tree_at s2 (Node l m rr)" "hview s2 = hview ?s0"
      "\<forall>b. b \<noteq> m \<longrightarrow> h_nodes s2 b = h_nodes ?s0 b" "h_objs s2 = h_objs ?s0" "h_brk s2 = h_brk ?s0"
      "h_errno s2 = h_errno ?s0"
      by (rule relink [OF s0 _ m(3,4), of nm "\<lambda>n. n\<lparr>h_left := root_of l\<rparr>"])
        (use nm m in \<open>auto simp: node_at_def\<close>)
    have "delete_root free_obj a s = Some (m, ?free s2)"
      using minimal n nm a z m s2(1,2,5)
      by (subst delete_root.simps)
        (auto simp: node_at_def apply_modify_def free_obj_def free_node_def Let_def)
    moreover have "tree_at (?free s2) (Node l m rr)"
      using s2(3) m disj by (subst tree_at_cong [of _ _ s2]) (auto simp: links_def)
    moreover have "tree_join l r = Some (Node l m rr)" using minimal by simp
    moreover have "hview (?free s2) = (hview s)(a := None)"
    proof -
      have "hview (?free s2) = (hview s2)(a := None)" by (auto simp: hview_def)
      also have "hview s2 = hview s" unfolding s2(4) by (rule ext) (simp add: hview_def)
      finally show ?thesis .
    qed
    ultimately show ?thesis using s2 minimal by (auto simp: links_def)
  next
    case deep
    have "delete_root free_obj a s = None"
    proof (rule ccontr)
      assume "delete_root free_obj a s \<noteq> None"
      then obtain res where "delete_root free_obj a s = Some res" by auto
      then obtain s1 m' mp' s2 s3 res' where
        s1: "update_node (root_of r) (\<lambda>m. m\<lparr>h_size := h_size m - 1\<rparr>) ?s0 = Some s1"
        and s2: "minimum_loop c (root_of r) s1 = Some (m', mp', s2)"
        and s3: "swap_nodes a m' s2 = Some s3"
        and rec: "delete_root free_obj a s3 = Some res'"
        using n a z deep lr
        by (subst (asm) delete_root.simps)
          (auto simp: node_at_def apply_modify_def free_obj_def Let_def links_def)
      have "h_objs s3 = h_objs ?s0" "map_option h_data (h_nodes s3 a) = Some (h_data n)"
        using s1 minimum_loop_keeps [OF s2] swap_nodes_keeps [OF s3, of a] n
        by (auto simp: update_node_def node_at_def split: if_splits)
      then have "delete_root free_obj a s3 = None"
        using delete_root_objs [of s3 a] a n by auto
      with rec show False by simp
    qed
    with deep show ?thesis by simp
  qed
qed

lemma hview_cong: "hview s' a = hview s a \<Longrightarrow> h_nodes s a = Some n \<Longrightarrow>
    \<exists>n'. h_nodes s' a = Some n' \<and> h_data n' = h_data n \<and> h_parent n' = h_parent n
      \<and> h_next_sibling n' = h_next_sibling n \<and> h_children n' = h_children n"
  by (auto simp: hview_def)

context keyed_data begin

lemma delete_missing:
  assumes "search_tree key_of s t" "\<forall>a \<in> set_tree t. key_at key_of s a \<noteq> k"
  shows "h_tree_delete data_cmp_key data_destroy (root_of t) (Some k) s = Some (root_of t, s)"
  using assms
proof (induction t)
  case Leaf
  then show ?case by (subst h_tree_delete.simps) simp
next
  case (Node l a r)
  let ?kf = "key_at key_of s"
  from Node.prems obtain n d2 where n: "h_nodes s a = Some n" "h_data n \<noteq> 0" "h_objs s (h_data n) = Some d2"
    and a: "a \<noteq> 0" "h_left n = root_of l" "h_right n = root_of r" "h_size n = int (size l + size r + 1)"
    by (auto simp: search_tree_Node data_ok_def links_def)
  then have ka: "?kf a = key_of d2" by (simp add: key_at_eq)
  have t: "tree_at s l" "tree_at s r" using Node.prems by (simp_all add: search_tree_def)
  have same: "n\<lparr>h_size := 1 + int (size l) + int (size r)\<rparr> = n" using a by simp
  have keep: "n\<lparr>h_left := root_of l\<rparr> = n" "n\<lparr>h_right := root_of r\<rparr> = n" using a by simp_all
  have us: "update_size a s = Some s"
    using size_at_root [OF t(1)] size_at_root [OF t(2)] n a same
    by (simp add: update_size_def update_node_def node_at_def fun_upd_idem)
  have un: "update_node a (\<lambda>n. n\<lparr>h_left := root_of l\<rparr>) s = Some s"
    "update_node a (\<lambda>n. n\<lparr>h_right := root_of r\<rparr>) s = Some s"
    using n a keep by (simp_all add: update_node_def node_at_def fun_upd_idem)
  have rec: "h_tree_delete data_cmp_key data_destroy (root_of r) (Some k) s = Some (root_of r, s)"
    "h_tree_delete data_cmp_key data_destroy (root_of l) (Some k) s = Some (root_of l, s)"
    using Node.IH Node.prems by (auto simp: search_tree_Node)
  have "data_cmp_key d2 k \<noteq> 0"
    using Node.prems(2) ka cmp_key_less [of d2 k] cmp_key_greater [of d2 k] by auto
  then show ?case
    using n a(1-3) rec us un
    by (subst h_tree_delete.simps) (auto simp: node_at_def obj_at_def)
qed

lemma delete_found:
  assumes "search_tree key_of s t" "a \<in> set_tree t" "key_at key_of s a = k"
    "remove_child_from_h a s = Some s1" "h_nodes s a = Some na"
  shows "case tree_delete (key_at key_of s) k t of
      None \<Rightarrow> h_tree_delete data_cmp_key free_obj (root_of t) (Some k) s = None
    | Some t' \<Rightarrow> \<exists>s'. h_tree_delete data_cmp_key free_obj (root_of t) (Some k) s = Some (root_of t', s')
        \<and> tree_at s' t' \<and> hview s' = (hview s1)(a := None) \<and> h_objs s' = (h_objs s)(h_data na := None)
        \<and> h_brk s' = h_brk s \<and> h_errno s' = h_errno s1 \<and> (\<forall>b. b \<notin> set_tree t \<longrightarrow> links s' b = links s b)"
  using assms(1,2)
proof (induction t)
  case (Node l b r)
  let ?kf = "key_at key_of s"
  let ?del = "\<lambda>p. h_tree_delete data_cmp_key free_obj p (Some k) s"
  from Node.prems obtain n d2 where n: "h_nodes s b = Some n" "h_data n \<noteq> 0" "h_objs s (h_data n) = Some d2"
    and b: "b \<noteq> 0" "h_left n = root_of l" "h_right n = root_of r"
    and ord: "\<forall>x \<in> set_tree l. ?kf x < ?kf b" "\<forall>x \<in> set_tree r. ?kf b < ?kf x"
    by (auto simp: search_tree_Node data_ok_def links_def)
  then have kb: "?kf b = key_of d2" by (simp add: key_at_eq)
  have t: "tree_at s (Node l b r)" "tree_at s l" "tree_at s r"
    using Node.prems by (simp_all add: search_tree_def)
  have dist: "distinct (inorder (Node l b r))" by (rule search_tree_distinct [OF Node.prems(1)])
  then have disj: "b \<notin> set_tree l" "b \<notin> set_tree r" "set_tree l \<inter> set_tree r = {}" by auto
  have lr: "search_tree key_of s l" "search_tree key_of s r" using Node.prems(1) by (simp_all add: search_tree_Node)
  have srt: "sorted_wrt (<) (map ?kf (inorder l))" "sorted_wrt (<) (map ?kf (inorder r))"
    using lr by (simp_all add: search_tree_def)
  have st: "same_tree s s1" by (rule remove_child_same_tree [OF assms(4)])
  have b1: "hview s1 b \<noteq> None" using same_tree_node [OF st n(1)] by (auto simp: hview_def)
  consider (here) "a = b" | (right) "a \<in> set_tree r" "a \<noteq> b" | (left) "a \<in> set_tree l" "a \<noteq> b"
    using Node.prems(2) disj by auto
  then show ?case
  proof cases
    case here
    have k: "\<not> ?kf b < k" "\<not> k < ?kf b" "data_cmp_key d2 k = 0"
      using here assms(3) kb cmp_key_less [of d2 k] cmp_key_greater [of d2 k] by auto
    obtain n1 where n1: "h_nodes s1 b = Some n1" "h_data n1 = h_data n" "h_objs s1 = h_objs s"
      using same_tree_node [OF st n(1)] st by (auto simp: same_tree_def)
    have del: "?del b = delete_root free_obj b s1"
      using n b k assms(4) here by (subst h_tree_delete.simps) (simp add: node_at_def obj_at_def)
    have "tree_at s1 (Node l b r)" using same_tree_tree_at [OF st, of "Node l b r"] t(1) by blast
    from delete_root_join [OF this dist n1(1), of d2] n1 n
    show ?thesis using k del st here assms(5) by (auto simp: same_tree_def split: option.splits)
  next
    case right
    then have k: "?kf b < k" "\<not> k < ?kf b" "data_cmp_key d2 k < 0"
      using ord assms(3) kb cmp_key_less [of d2 k] by auto
    show ?thesis
    proof (cases "tree_delete ?kf k r")
      case None
      with Node.IH(2) [OF lr(2) right(1)] have "?del (root_of r) = None" by simp
      then have "?del b = None"
        using n b k by (subst h_tree_delete.simps) (simp add: node_at_def obj_at_def)
      with None k show ?thesis by simp
    next
      case (Some r')
      with Node.IH(2) [OF lr(2) right(1)] obtain s' where s': "?del (root_of r) = Some (root_of r', s')"
        "tree_at s' r'" "hview s' = (hview s1)(a := None)" "h_objs s' = (h_objs s)(h_data na := None)"
        "h_brk s' = h_brk s" "h_errno s' = h_errno s1" "\<forall>c. c \<notin> set_tree r \<longrightarrow> links s' c = links s c" by auto
      have sub: "b \<notin> set_tree r'" using tree_delete_set [OF srt(2) Some] disj by auto
      have l': "tree_at s' l" using s'(7) disj t(2) by (subst tree_at_cong [of l s' s]) auto
      have "links s' b = links s b" using s'(7) disj by auto
      then obtain n' where n': "h_nodes s' b = Some n'" "h_left n' = root_of l"
        using n b by (auto simp: links_def)
      obtain s2 s3 where s3: "update_node b (\<lambda>n. n\<lparr>h_right := root_of r'\<rparr>) s' = Some s2"
        "update_size b s2 = Some s3" "tree_at s3 (Node l b r')" "hview s3 = hview s'"
        "\<forall>c. c \<noteq> b \<longrightarrow> h_nodes s3 c = h_nodes s' c" "h_objs s3 = h_objs s'" "h_brk s3 = h_brk s'"
        "h_errno s3 = h_errno s'"
        by (rule relink [OF l' s'(2) _ disj(1) sub, of n' "\<lambda>n. n\<lparr>h_right := root_of r'\<rparr>"])
          (use n' b in \<open>auto simp: node_at_def\<close>)
      have "?del b = Some (b, s3)"
        using n b k s'(1) s3(1,2) by (subst h_tree_delete.simps) (simp add: node_at_def obj_at_def)
      moreover have "links s3 c = links s c" if "c \<notin> set_tree (Node l b r)" for c
        using that s3(5) s'(7) by (auto simp: links_def)
      ultimately show ?thesis using Some k s3 s' by (simp del: tree_at.simps)
    qed
  next
    case left
    then have k: "k < ?kf b" "\<not> ?kf b < k" "data_cmp_key d2 k > 0"
      using ord assms(3) kb cmp_key_greater [of d2 k] by auto
    show ?thesis
    proof (cases "tree_delete ?kf k l")
      case None
      with Node.IH(1) [OF lr(1) left(1)] have "?del (root_of l) = None" by simp
      then have "?del b = None"
        using n b k by (subst h_tree_delete.simps) (simp add: node_at_def obj_at_def)
      with None k show ?thesis by simp
    next
      case (Some l')
      with Node.IH(1) [OF lr(1) left(1)] obtain s' where s': "?del (root_of l) = Some (root_of l', s')"
        "tree_at s' l'" "hview s' = (hview s1)(a := None)" "h_objs s' = (h_objs s)(h_data na := None)"
        "h_brk s' = h_brk s" "h_errno s' = h_errno s1" "\<forall>c. c \<notin> set_tree l \<longrightarrow> links s' c = links s c" by auto
      have sub: "b \<notin> set_tree l'" using tree_delete_set [OF srt(1) Some] disj by auto
      have r': "tree_at s' r" using s'(7) disj t(3) by (subst tree_at_cong [of r s' s]) auto
      have "links s' b = links s b" using s'(7) disj by auto
      then obtain n' where n': "h_nodes s' b = Some n'" "h_right n' = root_of r"
        using n b by (auto simp: links_def)
      obtain s2 s3 where s3: "update_node b (\<lambda>n. n\<lparr>h_left := root_of l'\<rparr>) s' = Some s2"
        "update_size b s2 = Some s3" "tree_at s3 (Node l' b r)" "hview s3 = hview s'"
        "\<forall>c. c \<noteq> b \<longrightarrow> h_nodes s3 c = h_nodes s' c" "h_objs s3 = h_objs s'" "h_brk s3 = h_brk s'"
        "h_errno s3 = h_errno s'"
        by (rule relink [OF s'(2) r' _ sub disj(2), of n' "\<lambda>n. n\<lparr>h_left := root_of l'\<rparr>"])
          (use n' b in \<open>auto simp: node_at_def\<close>)
      have "?del b = Some (b, s3)"
        using n b k s'(1) s3(1,2) by (subst h_tree_delete.simps) (simp add: node_at_def obj_at_def)
      moreover have "links s3 c = links s c" if "c \<notin> set_tree (Node l b r)" for c
        using that s3(5) s'(7) by (auto simp: links_def)
      ultimately show ?thesis using Some k s3 s' by (simp del: tree_at.simps)
    qed
  qed
qed simp

end

section \<open>The hierarchy after a deletion\<close>

lemma remove_loop_finds:
  "sib_list s p (xs @ q # c # ys) \<Longrightarrow> c \<notin> set xs \<Longrightarrow> c \<noteq> q \<Longrightarrow> remove_loop c p s = Some q"
proof (induction xs arbitrary: p)
  case Nil
  then show ?case
    by (subst remove_loop.simps) (auto simp: node_at_def split: option.splits)
next
  case (Cons x xs)
  then obtain n where n: "h_nodes s x = Some n" "sib_list s (h_next_sibling n) (xs @ q # c # ys)" "p = x" "x \<noteq> 0"
    by (auto split: option.splits)
  moreover have "h_next_sibling n \<noteq> 0 \<and> h_next_sibling n \<noteq> c"
    using n(2) Cons.prems by (cases xs) auto
  moreover have "remove_loop c (h_next_sibling n) s = Some q" using Cons n by auto
  ultimately show ?case by (subst remove_loop.simps) (simp add: node_at_def)
qed

lemma sib_list_skip:
  assumes "sib_list s p (xs @ q # c # ys)" "distinct (xs @ q # c # ys)"
    "h_nodes s c = Some cn" "h_nodes s q = Some qn"
    "h_nodes s' q = Some qn'" "h_next_sibling qn' = h_next_sibling cn"
    "\<forall>x. x \<noteq> q \<and> x \<noteq> c \<longrightarrow> map_option h_next_sibling (h_nodes s' x) = map_option h_next_sibling (h_nodes s x)"
  shows "sib_list s' p (xs @ q # ys)"
  using assms(1,2)
proof (induction xs arbitrary: p)
  case Nil
  then have "sib_list s (h_next_sibling cn) ys" "p = q" "q \<noteq> 0" using assms(3,4) by auto
  moreover have "sib_list s' (h_next_sibling cn) ys = sib_list s (h_next_sibling cn) ys"
    using assms(7) Nil.prems(2) by (intro sib_list_cong) auto
  ultimately show ?case using assms(5,6) by simp
next
  case (Cons x xs)
  then obtain n where n: "h_nodes s x = Some n" "sib_list s (h_next_sibling n) (xs @ q # c # ys)" "p = x" "x \<noteq> 0"
    by (auto split: option.splits)
  moreover have "map_option h_next_sibling (h_nodes s' x) = map_option h_next_sibling (h_nodes s x)"
    using assms(7) Cons.prems(2) by auto
  ultimately show ?case using Cons by auto
qed

text \<open>
  Unlinking a childless node \<open>c\<close>: \<open>s1\<close> after \<open>remove_child_from_h\<close>, \<open>s'\<close> after freeing it.
\<close>

lemma remove_child_ok:
  assumes "hier_ok s" "h_nodes s c = Some n" "c \<noteq> 0"
  obtains s1 where "remove_child_from_h c s = Some s1"
    "\<forall>x. map_option h_parent (h_nodes s1 x) = map_option h_parent (h_nodes s x)"
    "\<forall>p cs. p \<noteq> 0 \<and> p \<noteq> c \<and> children_of s p cs \<longrightarrow>
       (\<exists>pn. h_nodes s1 p = Some pn \<and> sib_list (s1\<lparr>h_nodes := (h_nodes s1)(c := None)\<rparr>) (h_children pn) (removeAll c cs))"
proof (cases "h_parent n = 0")
  case True
  then have "remove_child_from_h c s = Some s"
    using assms by (simp add: remove_child_from_h_def node_at_def)
  moreover have "\<exists>pn. h_nodes s p = Some pn \<and> sib_list (s\<lparr>h_nodes := (h_nodes s)(c := None)\<rparr>) (h_children pn) (removeAll c cs)"
    if "p \<noteq> 0" "p \<noteq> c" "children_of s p cs" for p cs
  proof -
    have "c \<notin> set cs" using that assms(2) True by (auto simp: children_of_def)
    moreover from this have "sib_list (s\<lparr>h_nodes := (h_nodes s)(c := None)\<rparr>) q cs = sib_list s q cs" for q
      by (intro sib_list_cong) auto
    ultimately show ?thesis using that by (auto simp: children_of_def)
  qed
  ultimately show thesis using that by blast
next
  case False
  let ?p = "h_parent n"
  obtain pn where pn: "h_nodes s ?p = Some pn" using assms False by (fastforce simp: hier_ok_def)
  obtain cs where cs: "children_of s ?p cs" using assms(1) pn False by (fastforce simp: hier_ok_def)
  then have "c \<in> set cs" using assms by (auto simp: children_of_def)
  then obtain xs ys where split: "cs = xs @ c # ys" by (auto simp: in_set_conv_decomp)
  have sl: "sib_list s (h_children pn) (xs @ c # ys)" and dist: "distinct (xs @ c # ys)"
    using cs pn split by (auto simp: children_of_def)
  have notc: "c \<notin> set ds" if "children_of s q ds" "q \<noteq> ?p" for q ds
    using that assms(2) by (auto simp: children_of_def)
  have other: "sib_list s' q ds = sib_list s q ds"
    if "\<forall>x \<in> set ds. map_option h_next_sibling (h_nodes s' x) = map_option h_next_sibling (h_nodes s x)"
    for s' :: "'a h_state" and q ds using that by (rule sib_list_cong)
  show thesis
  proof (cases xs rule: rev_cases)
    case Nil
    let ?s1 = "s\<lparr>h_nodes := (h_nodes s)(?p \<mapsto> pn\<lparr>h_children := h_next_sibling n\<rparr>)\<rparr>"
    have "remove_child_from_h c s = Some ?s1"
      using sl Nil assms False pn by (simp add: remove_child_from_h_def node_at_def update_node_def)
    moreover have "\<exists>qn. h_nodes ?s1 q = Some qn
        \<and> sib_list (?s1\<lparr>h_nodes := (h_nodes ?s1)(c := None)\<rparr>) (h_children qn) (removeAll c ds)"
      if q: "q \<noteq> 0" "q \<noteq> c" "children_of s q ds" for q ds
    proof (cases "q = ?p")
      case True
      with q(3) pn have "sib_list s (h_children pn) ds" by (simp add: children_of_def)
      then have ds: "ds = c # ys" using sib_list_unique [OF _ sl] Nil by simp
      have "sib_list s (h_next_sibling n) ys" using sl Nil assms(2) by simp
      then have "sib_list (?s1\<lparr>h_nodes := (h_nodes ?s1)(c := None)\<rparr>) (h_next_sibling n) ys"
        using dist pn by (subst other) auto
      moreover have "removeAll c ds = ys" using ds dist Nil by simp
      ultimately show ?thesis using True by simp
    next
      case False
      have "sib_list (?s1\<lparr>h_nodes := (h_nodes ?s1)(c := None)\<rparr>) r ds = sib_list s r ds" for r
        using notc [OF q(3) False] pn by (intro other) auto
      then show ?thesis using q False notc [OF q(3) False] by (auto simp: children_of_def)
    qed
    ultimately show thesis using that [of ?s1] pn by auto
  next
    case (snoc xs' m)
    then obtain mn where mn: "h_nodes s m = Some mn" "h_parent mn = ?p" "m \<noteq> 0"
      using children_of_mem [OF cs, of m] split by auto
    let ?s1 = "s\<lparr>h_nodes := (h_nodes s)(m \<mapsto> mn\<lparr>h_next_sibling := h_next_sibling n\<rparr>)\<rparr>"
    let ?s2 = "?s1\<lparr>h_nodes := (h_nodes ?s1)(c := None)\<rparr>"
    have loop: "remove_loop c (h_children pn) s = Some m"
      using sl dist snoc by (intro remove_loop_finds [of s _ xs' m c ys]) auto
    have hd: "h_children pn \<noteq> 0" "h_children pn \<noteq> c"
      using sl dist snoc by (cases xs'; auto)+
    have "remove_child_from_h c s = Some ?s1"
      using loop hd assms False pn mn by (simp add: remove_child_from_h_def node_at_def update_node_def)
    moreover have "\<exists>qn. h_nodes ?s1 q = Some qn \<and> sib_list ?s2 (h_children qn) (removeAll c ds)"
      if q: "q \<noteq> 0" "q \<noteq> c" "children_of s q ds" for q ds
    proof -
      obtain qn where qn: "h_nodes s q = Some qn" "sib_list s (h_children qn) ds"
        using q(3) by (auto simp: children_of_def)
      have "sib_list ?s2 (h_children qn) (removeAll c ds)"
      proof (cases "q = ?p")
        case True
        with qn pn have "sib_list s (h_children pn) ds" by simp
        then have ds: "ds = xs' @ m # c # ys" using sib_list_unique [OF _ sl] snoc by simp
        have "removeAll c ds = xs' @ m # ys" using ds dist snoc by simp
        moreover have "sib_list ?s2 (h_children pn) (xs' @ m # ys)"
        proof (rule sib_list_skip [OF _ _ assms(2) mn(1)])
          show "sib_list s (h_children pn) (xs' @ m # c # ys)" "distinct (xs' @ m # c # ys)"
            using sl dist snoc by simp_all
          show "h_nodes ?s2 m = Some (mn\<lparr>h_next_sibling := h_next_sibling n\<rparr>)"
            using dist snoc by simp
        qed simp_all
        ultimately show ?thesis using True qn pn by simp
      next
        case False
        have "m \<notin> set ds" using children_of_mem [OF q(3), of m] mn False by simp
        then have "sib_list ?s2 (h_children qn) ds = sib_list s (h_children qn) ds"
          using notc [OF q(3) False] by (intro other) auto
        then show ?thesis using qn notc [OF q(3) False] by simp
      qed
      then show ?thesis using qn mn by auto
    qed
    ultimately show thesis using that [of ?s1] mn by auto
  qed
qed

lemma remove_child_errno:
  assumes "hier_ok s" "h_nodes s c = Some n" "c \<noteq> 0" "remove_child_from_h c s = Some s1"
  shows "h_errno s1 = h_errno s"
proof (cases "h_parent n = 0")
  case True
  then show ?thesis using assms by (simp add: remove_child_from_h_def node_at_def)
next
  case False
  let ?p = "h_parent n"
  obtain pn where pn: "h_nodes s ?p = Some pn" using assms False by (fastforce simp: hier_ok_def)
  obtain cs where cs: "children_of s ?p cs" using assms(1) pn False by (fastforce simp: hier_ok_def)
  then have "c \<in> set cs" "sib_list s (h_children pn) cs" using assms pn by (auto simp: children_of_def)
  then have "h_children pn \<noteq> 0" by (cases cs) auto
  then show ?thesis
    using assms False pn
    by (auto simp: remove_child_from_h_def node_at_def update_node_def split: if_splits)
qed

lemma unlink_hier_ok:
  assumes "hier_ok s" "h_nodes s c = Some n" "c \<noteq> 0" "children_of s c []"
    "remove_child_from_h c s = Some s1" "hview s' = (hview s1)(c := None)" "h_nodes s 0 = None"
  shows "hier_ok s'" "p \<noteq> 0 \<Longrightarrow> p \<noteq> c \<Longrightarrow> children_of s p cs \<Longrightarrow> children_of s' p (removeAll c cs)"
proof -
  from remove_child_ok [OF assms(1-3)] assms(5)
  have par: "map_option h_parent (h_nodes s1 x) = map_option h_parent (h_nodes s x)"
    and sib: "\<And>p cs. p \<noteq> 0 \<and> p \<noteq> c \<and> children_of s p cs \<longrightarrow> (\<exists>pn. h_nodes s1 p = Some pn
       \<and> sib_list (s1\<lparr>h_nodes := (h_nodes s1)(c := None)\<rparr>) (h_children pn) (removeAll c cs))" for x
    by (metis option.inject)+
  have at: "hview s' x = (if x = c then None else hview s1 x)" for x using assms(6) by simp
  have nxt: "map_option h_next_sibling (h_nodes s' x)
      = map_option h_next_sibling (h_nodes (s1\<lparr>h_nodes := (h_nodes s1)(c := None)\<rparr>) x)" for x
    using at [of x] by (cases "h_nodes s' x"; cases "h_nodes s1 x") (auto simp: hview_def split: if_splits)
  have par': "map_option h_parent (h_nodes s' x) = (if x = c then None else map_option h_parent (h_nodes s x))" for x
    using at [of x] par [of x] by (cases "h_nodes s' x"; cases "h_nodes s1 x") (auto simp: hview_def split: if_splits)
  have mem: "(\<exists>m. h_nodes s' x = Some m \<and> h_parent m = p \<and> x \<noteq> 0)
      \<longleftrightarrow> x \<noteq> c \<and> (\<exists>m. h_nodes s x = Some m \<and> h_parent m = p \<and> x \<noteq> 0)" for x p
    using par' [of x] by (cases "h_nodes s' x"; cases "h_nodes s x") (auto split: if_splits)
  show ch: "children_of s' p (removeAll c cs)" if "p \<noteq> 0" "p \<noteq> c" "children_of s p cs" for p cs
  proof -
    from sib that obtain pn where pn: "h_nodes s1 p = Some pn"
      "sib_list (s1\<lparr>h_nodes := (h_nodes s1)(c := None)\<rparr>) (h_children pn) (removeAll c cs)" by blast
    with at [of p] that(2) obtain pn' where "h_nodes s' p = Some pn'" "h_children pn' = h_children pn"
      by (auto simp: hview_def)
    moreover have "sib_list s' (h_children pn) (removeAll c cs)"
      using pn(2) sib_list_cong [of "removeAll c cs" s' "s1\<lparr>h_nodes := (h_nodes s1)(c := None)\<rparr>"] nxt by blast
    ultimately show ?thesis using that(3) unfolding children_of_def mem by (auto simp: distinct_removeAll)
  qed
  have "\<exists>cs. children_of s' p cs" if "p \<noteq> 0" "h_nodes s' p \<noteq> None" for p
  proof -
    from that(2) par' [of p] have "p \<noteq> c" "h_nodes s p \<noteq> None"
      by (cases "h_nodes s p"; auto split: if_splits)+
    then show ?thesis using ch that(1) assms(1) unfolding hier_ok_def by metis
  qed
  moreover have "h_parent m = 0 \<or> h_nodes s' (h_parent m) \<noteq> None" if "h_nodes s' x = Some m" for x m
  proof (cases "x = 0")
    case True
    with that par' [of x] assms(7) show ?thesis by (auto split: if_splits)
  next
    case False
    from that par' [of x] obtain m' where m': "h_nodes s x = Some m'" "h_parent m' = h_parent m"
      by (cases "h_nodes s x") (auto split: if_splits)
    moreover from this False assms(4) have "h_parent m \<noteq> c" by (auto simp: children_of_def)
    moreover have "h_parent m' = 0 \<or> h_nodes s (h_parent m') \<noteq> None"
      using m'(1) assms(1) unfolding hier_ok_def by blast
    ultimately show ?thesis using par' [of "h_parent m"] by (auto split: if_splits)
  qed
  ultimately show "hier_ok s'" unfolding hier_ok_def by blast
qed

context keyed_data begin

lemma delete_keeps:
  assumes "search_tree key_of s t" "store_ok s" "hier_ok s" "a \<in> set_tree t" "key_at key_of s a = k"
    "children_of s a []" "tree_delete (key_at key_of s) k t = Some t'" "h_nodes s a = Some na"
  obtains s' where "h_tree_delete data_cmp_key free_obj (root_of t) (Some k) s = Some (root_of t', s')"
    "search_tree key_of s' t'" "store_ok s'" "hier_ok s'" "set_tree t' = set_tree t - {a}"
    "h_nodes s' a = None" "h_objs s' = (h_objs s)(h_data na := None)"
    "\<forall>b \<in> set_tree t'. key_at key_of s' b = key_at key_of s b"
    "\<forall>p cs. p \<noteq> 0 \<and> p \<noteq> a \<and> children_of s p cs \<longrightarrow> children_of s' p (removeAll a cs)"
    "\<forall>b \<in> set_tree t'. map_option h_data (h_nodes s' b) = map_option h_data (h_nodes s b)"
    "h_errno s' = h_errno s"
proof -
  let ?kf = "key_at key_of s"
  have tr: "tree_at s t" "sorted_wrt (<) (map ?kf (inorder t))" "\<forall>b \<in> set_tree t. data_ok s b"
    using assms(1) by (auto simp: search_tree_def)
  have a0: "a \<noteq> 0" using tree_at_nonzero [OF tr(1) assms(4)] by simp
  obtain s1 where s1: "remove_child_from_h a s = Some s1"
    using remove_child_ok [OF assms(3,8) a0] by metis
  have st: "same_tree s s1" by (rule remove_child_same_tree [OF s1])
  obtain s' where s': "h_tree_delete data_cmp_key free_obj (root_of t) (Some k) s = Some (root_of t', s')"
    "tree_at s' t'" "hview s' = (hview s1)(a := None)" "h_objs s' = (h_objs s)(h_data na := None)"
    "h_brk s' = h_brk s" "h_errno s' = h_errno s"
    using delete_found [OF assms(1,4,5) s1 assms(8)] assms(7) remove_child_errno [OF assms(3,8) a0 s1] by auto
  have hier: "hier_ok s'" "\<forall>p cs. p \<noteq> 0 \<and> p \<noteq> a \<and> children_of s p cs \<longrightarrow> children_of s' p (removeAll a cs)"
    using unlink_hier_ok [OF assms(3,8) a0 assms(6) s1 s'(3)] assms(2) by (auto simp: store_ok_def)
  have inj: "inj_on ?kf (set_tree t)"
    using tr(2) by (simp add: strict_sorted_iff distinct_map)
  have set: "set_tree t' = set_tree t - {a}"
    using tree_delete_set [OF tr(2) assms(7)] inj assms(4,5) by (auto dest: inj_onD)
  have gone: "h_nodes s' a = None" using fun_cong [OF s'(3), of a] by (simp add: hview_def)
  have old: "key_at key_of s' b = ?kf b \<and> data_ok s' b
      \<and> map_option h_data (h_nodes s' b) = map_option h_data (h_nodes s b)" if b: "b \<in> set_tree t'" for b
  proof -
    from b set tr(3) obtain n d where n: "h_nodes s b = Some n" "h_data n \<noteq> 0" "h_objs s (h_data n) = Some d"
      by (auto simp: data_ok_def)
    obtain n1 where n1: "h_nodes s1 b = Some n1" "h_data n1 = h_data n" by (rule same_tree_node [OF st n(1)])
    have "b \<noteq> a" using b set by auto
    then have "hview s' b = hview s1 b" using s'(3) by simp
    from hview_cong [OF this n1(1)] obtain n' where n': "h_nodes s' b = Some n'" "h_data n' = h_data n"
      using n1(2) by auto
    have "?kf b \<noteq> ?kf a" using b set inj assms(4) by (auto dest: inj_onD)
    then have "h_data n \<noteq> h_data na" using n(1) assms(8) by (auto simp: key_at_def)
    with n n' s'(4) show ?thesis by (auto simp: key_at_def data_ok_def)
  qed
  have "map ?kf (inorder t') = map (key_at key_of s') (inorder t')" using old by simp
  moreover have "sorted_wrt (<) (map ?kf (inorder t'))"
    unfolding tree_delete_inorder [OF tr(2) assms(7)] using tr(2)
    by (auto simp: sorted_wrt_map intro: sorted_wrt_filter)
  ultimately have "sorted_wrt (<) (map (key_at key_of s') (inorder t'))" by (simp only:)
  then have "search_tree key_of s' t'" using s'(2) old unfolding search_tree_def by blast
  moreover have "h_nodes s' b = None" if "h_nodes s b = None" for b
  proof -
    have "map_option h_data (h_nodes s1 b) = None" using st that by (simp add: same_tree_def)
    then have "hview s' b = None" using s'(3) by (simp add: hview_def)
    then show ?thesis by (simp add: hview_def)
  qed
  then have "store_ok s'" using assms(2) s'(5) by (auto simp: store_ok_def)
  ultimately show thesis using that [OF s'(1)] hier set gone s'(4,6) old by blast
qed

end

section \<open>Walking the structure\<close>

fun anc_list :: "'d h_state \<Rightarrow> addr \<Rightarrow> addr list \<Rightarrow> bool" where
  "anc_list s p [] \<longleftrightarrow> p = 0"
| "anc_list s p (x # xs) \<longleftrightarrow> p = x \<and> x \<noteq> 0
     \<and> (case h_nodes s x of None \<Rightarrow> False | Some n \<Rightarrow> anc_list s (h_parent n) xs)"

definition data_of :: "'d h_state \<Rightarrow> addr \<Rightarrow> addr" where
  "data_of s a = h_data (the (h_nodes s a))"

lemma iterate_ancestors_spec:
  assumes "anc_list s p as" "\<forall>a \<in> set as. data_of s a \<noteq> 0 \<and> h_objs s (data_of s a) \<noteq> None"
    "distinct (map (data_of s) as)"
  shows "h_tree_iterate_h_ancestors (modify_obj f) p s = Some (s\<lparr>h_objs :=
    (\<lambda>q. if q \<in> data_of s ` set as then map_option f (h_objs s q) else h_objs s q)\<rparr>)"
  using assms
proof (induction as arbitrary: p s)
  case Nil
  then show ?case by (subst h_tree_iterate_h_ancestors.simps) simp
next
  case (Cons x xs)
  from Cons.prems(1) obtain n where n: "h_nodes s x = Some n" "anc_list s (h_parent n) xs" "p = x" "x \<noteq> 0"
    by (auto split: option.splits)
  with Cons.prems(2) obtain d where d: "h_data n \<noteq> 0" "h_objs s (h_data n) = Some d"
    by (auto simp: data_of_def)
  let ?s1 = "s\<lparr>h_objs := (h_objs s)(h_data n \<mapsto> f d)\<rparr>"
  have same: "data_of ?s1 = data_of s" by (simp add: data_of_def fun_eq_iff)
  have anc: "anc_list ?s1 q ys = anc_list s q ys" for q ys
    by (induction ys arbitrary: q) (auto split: option.splits)
  have dx: "data_of s x = h_data n" using n by (simp add: data_of_def)
  have out: "h_data n \<notin> data_of s ` set xs" using Cons.prems(3) dx by auto
  have "h_tree_iterate_h_ancestors (modify_obj f) (h_parent n) ?s1 = Some (?s1\<lparr>h_objs :=
    (\<lambda>q. if q \<in> data_of ?s1 ` set xs then map_option f (h_objs ?s1 q) else h_objs ?s1 q)\<rparr>)"
    using Cons.prems(2,3) n(2) out by (intro Cons.IH) (auto simp: anc same)
  moreover have "apply_modify (modify_obj f) (h_data n) s = Some ?s1"
    using d by (simp add: apply_modify_def modify_obj_def)
  moreover have "(\<lambda>q. if q \<in> data_of s ` set xs then map_option f (h_objs ?s1 q) else h_objs ?s1 q)
     = (\<lambda>q. if q \<in> data_of s ` set (x # xs) then map_option f (h_objs s q) else h_objs s q)"
    using out dx d by (auto simp: fun_eq_iff)
  ultimately show ?case
    using n by (subst h_tree_iterate_h_ancestors.simps) (simp add: node_at_def same)
qed

lemma flatten_children_spec:
  assumes "sib_list s p cs" "i + length cs < length arr"
  shows "flatten_children_loop p arr i s
    = Some (take i arr @ map (data_of s) cs @ 0 # drop (i + length cs + 1) arr)"
  using assms
proof (induction cs arbitrary: p i arr)
  case Nil
  then show ?case
    by (subst flatten_children_loop.simps) (simp add: array_set_def upd_conv_take_nth_drop)
next
  case (Cons x xs)
  then obtain n where n: "h_nodes s x = Some n" "sib_list s (h_next_sibling n) xs" "p = x" "x \<noteq> 0"
    by (auto split: option.splits)
  let ?arr = "arr[i := h_data n]"
  have "flatten_children_loop (h_next_sibling n) ?arr (Suc i) s
    = Some (take (Suc i) ?arr @ map (data_of s) xs @ 0 # drop (Suc i + length xs + 1) ?arr)"
    using Cons.IH [OF n(2), of "Suc i" ?arr] Cons.prems(2) by simp
  moreover have "take (Suc i) ?arr = take i arr @ [h_data n]"
    using Cons.prems(2) by (simp add: take_Suc_conv_app_nth)
  ultimately show ?case
    using n Cons.prems(2)
    by (subst flatten_children_loop.simps) (simp add: array_set_def node_at_def data_of_def)
qed

lemma flatten_preorder_spec:
  assumes "tree_at s t" "i + size t \<le> length arr"
  shows "h_tree_flatten_preorder (root_of t) arr i s
    = Some (take i arr @ map (data_of s) (preorder t) @ drop (i + size t) arr)"
  using assms
proof (induction t arbitrary: i arr)
  case Leaf
  then show ?case by (subst h_tree_flatten_preorder.simps) simp
next
  case (Node l a r)
  from Node.prems(1) obtain n where n: "node_at s a = Some n" "h_nodes s a = Some n" "h_left n = root_of l"
    "h_right n = root_of r" "a \<noteq> 0" "tree_at s l" "tree_at s r"
    by (auto simp: links_def node_at_def)
  let ?a1 = "arr[i := h_data n]"
  let ?a2 = "take (Suc i) ?a1 @ map (data_of s) (preorder l) @ drop (Suc i + size l) ?a1"
  have a2: "h_tree_flatten_preorder (root_of l) ?a1 (Suc i) s = Some ?a2"
    using Node.prems(2) by (intro Node.IH(1) [OF n(6)]) simp
  have len: "length ?a2 = length arr" using Node.prems(2) by simp
  have "h_tree_flatten_preorder (root_of r) ?a2 (Suc i + size l) s
    = Some (take (Suc i + size l) ?a2 @ map (data_of s) (preorder r) @ drop (Suc i + size l + size r) ?a2)"
    by (rule Node.IH(2) [OF n(7)], subst len) (use Node.prems(2) in simp)
  moreover have "take (Suc i + size l) ?a2 = take i arr @ h_data n # map (data_of s) (preorder l)"
    using Node.prems(2) by (simp add: take_Suc_conv_app_nth)
  moreover have "drop (Suc i + size l + size r) ?a2 = drop (i + size (Node l a r)) arr"
    using Node.prems(2) by (simp add: ac_simps)
  ultimately show ?case
    using n a2 Node.prems(2) size_at_root [OF n(6)]
    by (subst h_tree_flatten_preorder.simps)
      (simp add: array_set_def data_of_def del: append_assoc take_append drop_append length_append)
qed

end
