(* ===== verification/Fat_File.thy ===== *)
theory Fat_File
  imports Fat_Util Fat_Time Fat_Table Fat_Filename
begin

text \<open>
  Model of \<open>LAB4/main/esqueleto/fat_file.c\<close> and \<open>fat_file.h\<close>: directory entries and their 32-byte
  form on disk, the in-memory \<open>fat_file\<close>, and the operations on the data of files and the entries
  of directories.

  A function that changes a file returns the changed \<open>fat_file\<close>; the objects live in the store of
  the file tree.  The state of the volume is the pair of the mapped table and the volume file.
  The union of \<open>dir.nentries\<close> and \<open>file.num_clusters\<close> is one field, as it is in memory.
  Allocation never fails: every \<open>calloc\<close> succeeds.
\<close>

record fat_dir_entry =
  base_name :: "u8 list"
  extension :: "u8 list"
  attribs :: u8
  reserved :: u8
  create_time_fine_res :: u8
  create_time :: u16
  create_date :: u16
  last_access_date :: u16
  fat32_start_cluster_high :: u16
  last_modified_time :: u16
  last_modified_date :: u16
  start_cluster_low :: u16
  file_size :: u32

record fat_file =
  dentry :: "fat_dir_entry option"
  name :: cstring
  filepath :: cstring
  start_cluster :: u32
  nentries :: u32
  pos_in_parent :: u32
  num_times_opened :: "31 word"
  children_read :: bool

record disk =
  tab :: fat_table
  vio :: io

abbreviation (input) FILE_ATTRIBUTE_READONLY :: u8 where "FILE_ATTRIBUTE_READONLY \<equiv> 0x01"
abbreviation (input) FILE_ATTRIBUTE_VOLUME :: u8 where "FILE_ATTRIBUTE_VOLUME \<equiv> 0x08"
abbreviation (input) FILE_ATTRIBUTE_DIRECTORY :: u8 where "FILE_ATTRIBUTE_DIRECTORY \<equiv> 0x10"
abbreviation (input) FILE_ATTRIBUTE_ARCHIVE :: u8 where "FILE_ATTRIBUTE_ARCHIVE \<equiv> 0x20"
abbreviation (input) FAT_FILENAME_DELETED_CHAR :: u8 where "FAT_FILENAME_DELETED_CHAR \<equiv> 0xe5"

abbreviation errno :: "disk \<Rightarrow> int" where "errno d \<equiv> io_errno (vio d)"
abbreviation put_errno :: "int \<Rightarrow> disk \<Rightarrow> disk" where "put_errno e d \<equiv> d\<lparr>vio := set_errno e (vio d)\<rparr>"

section \<open>Directory entries as bytes\<close>

definition dentry_bytes :: "fat_dir_entry \<Rightarrow> u8 list" where
  "dentry_bytes d = base_name d @ extension d @ [attribs d, reserved d, create_time_fine_res d]
     @ le16_bytes (create_time d) @ le16_bytes (create_date d) @ le16_bytes (last_access_date d)
     @ le16_bytes (fat32_start_cluster_high d) @ le16_bytes (last_modified_time d)
     @ le16_bytes (last_modified_date d) @ le16_bytes (start_cluster_low d) @ le32_bytes (file_size d)"

definition dentry_of :: "u8 list \<Rightarrow> fat_dir_entry" where
  "dentry_of bs = \<lparr>base_name = take 8 bs, extension = take 3 (drop 8 bs), attribs = bs ! 11,
     reserved = bs ! 12, create_time_fine_res = bs ! 13, create_time = le16_of (drop 14 bs),
     create_date = le16_of (drop 16 bs), last_access_date = le16_of (drop 18 bs),
     fat32_start_cluster_high = le16_of (drop 20 bs), last_modified_time = le16_of (drop 22 bs),
     last_modified_date = le16_of (drop 24 bs), start_cluster_low = le16_of (drop 26 bs),
     file_size = le32_of (drop 28 bs)\<rparr>"

definition dentry_wf :: "fat_dir_entry \<Rightarrow> bool" where
  "dentry_wf d \<longleftrightarrow> length (base_name d) = 8 \<and> length (extension d) = 3"

section \<open>Time stamps and start clusters\<close>

definition fill_dentry_time_now ::
  "fat_dir_entry \<Rightarrow> bool \<Rightarrow> bool \<Rightarrow> int \<Rightarrow> int \<times> fat_dir_entry" where
  "fill_dentry_time_now dir_entry fill_create fill_modified now =
     (if \<not> (\<not> fill_create \<or> fill_modified) then (-1, dir_entry)
      else let (entry_date, entry_time) = fill_time now;
               e1 = (if fill_modified
                     then dir_entry\<lparr>last_modified_date := entry_date, last_modified_time := entry_time,
                            last_access_date := entry_date\<rparr>
                     else dir_entry\<lparr>last_access_date := entry_date\<rparr>);
               e2 = (if fill_create then e1\<lparr>create_date := last_modified_date e1,
                            create_time := last_modified_time e1\<rparr> else e1)
           in (0, e2))"

definition set_first_cluster :: "fat_dir_entry \<Rightarrow> u32 \<Rightarrow> fat_dir_entry" where
  "set_first_cluster dir_entry cluster =
     (let src = le32_bytes cluster
      in dir_entry\<lparr>start_cluster_low := le16_of (take 2 src),
           fat32_start_cluster_high := le16_of (drop 2 src)\<rparr>)"

definition file_start_cluster :: "fat_dir_entry \<Rightarrow> u32" where
  "file_start_cluster d =
     ucast (start_cluster_low d) OR push_bit 16 (ucast (fat32_start_cluster_high d))"

section \<open>Initializers\<close>

definition fat_file_init_empty :: "cstring \<Rightarrow> fat_file" where
  "fat_file_init_empty path = \<lparr>dentry = None, name = [], filepath = path, start_cluster = 0,
     nentries = 0, pos_in_parent = 0, num_times_opened = 0, children_read = False\<rparr>"

text \<open>The GNU \<open>basename\<close>: what follows the last separator.\<close>

definition basename :: "cstring \<Rightarrow> cstring" where
  "basename path = rev (takeWhile (\<lambda>c. c \<noteq> PATH_SEPARATOR) (rev path))"

text \<open>\<open>heap\<close>: the bytes behind the block \<open>strdup\<close> allocates for the copy of the path.\<close>

definition fat_file_init_direntry ::
  "u8 list \<Rightarrow> bool \<Rightarrow> cstring \<Rightarrow> u32 \<Rightarrow> int \<Rightarrow> fat_dir_entry option" where
  "fat_file_init_direntry heap is_dir path cluster now = do {
     blk \<leftarrow> filename_from_path (basename path @ 0 # heap) (replicate 32 0);
     let new_entry = (dentry_of blk)\<lparr>attribs := if is_dir then FILE_ATTRIBUTE_DIRECTORY
            else FILE_ATTRIBUTE_ARCHIVE, reserved := 0, create_time_fine_res := 0\<rparr>;
     let new_entry = snd (fill_dentry_time_now new_entry True True now);
     let new_entry = set_first_cluster new_entry cluster;
     Some (new_entry\<lparr>file_size := 0\<rparr>)
   }"

definition fat_file_init_orphan_dir ::
  "u8 list \<Rightarrow> cstring \<Rightarrow> u32 \<Rightarrow> disk \<Rightarrow> (fat_file option) option" where
  "fat_file_init_orphan_dir heap nm cluster d = do {
     orphan_entry \<leftarrow> fat_file_init_direntry heap True nm cluster (io_now (vio d));
     let orphan_dir = fat_file_init_empty nm;
     if errno d \<noteq> 0 then Some None
     else do {
       nm' \<leftarrow> build_filename (base_name orphan_entry) (extension orphan_entry);
       Some (Some (orphan_dir\<lparr>dentry := Some orphan_entry, name := nm', start_cluster := cluster\<rparr>))
     }
   }"

definition init_file_from_dentry :: "fat_dir_entry \<Rightarrow> fat_file \<Rightarrow> fat_file option" where
  "init_file_from_dentry de parent = do {
     nm \<leftarrow> build_filename (base_name de) (extension de);
     path \<leftarrow> filepath_from_name (filepath parent) nm;
     Some \<lparr>dentry = Some de, name = nm, filepath = path, start_cluster = file_start_cluster de,
       nentries = 0, pos_in_parent = nentries parent, num_times_opened = 0, children_read = False\<rparr>
   }"

definition set_next :: "u32 \<Rightarrow> u32 \<Rightarrow> disk \<Rightarrow> disk option" where
  "set_next c v d = do {
     (t, s) \<leftarrow> fat_table_set_next_cluster (tab d) c v (vio d);
     Some \<lparr>tab = t, vio = s\<rparr>
   }"

text \<open>The first test, \<open>errno < 0\<close>, is never true: \<open>errno\<close> is not negative.\<close>

definition fat_file_init ::
  "u8 list \<Rightarrow> bool \<Rightarrow> cstring \<Rightarrow> disk \<Rightarrow> (fat_file option \<times> disk) option" where
  "fat_file_init heap is_dir path d = do {
     let new_file = fat_file_init_empty path;
     if errno d < 0 then Some (None, d)
     else do {
       cluster \<leftarrow> fat_table_get_next_free_cluster (tab d);
       used \<leftarrow> fat_table_is_cluster_used (tab d) cluster;
       if used then Some (None, put_errno ENOSPC d)
       else do {
         de \<leftarrow> fat_file_init_direntry heap is_dir path cluster (io_now (vio d));
         nm \<leftarrow> build_filename (base_name de) (extension de);
         d1 \<leftarrow> set_next cluster FAT_CLUSTER_END_OF_CHAIN_MAX d;
         if errno d1 \<noteq> 0 then Some (None, d1)
         else Some (Some (new_file\<lparr>dentry := Some de, name := nm,
                start_cluster := file_start_cluster de\<rparr>), d1)
       }
     }
   }"

text \<open>\<open>strcmp\<close> compares unsigned bytes; only the sign of its result is used.\<close>

fun strcmp :: "cstring \<Rightarrow> cstring \<Rightarrow> int" where
  "strcmp [] [] = 0"
| "strcmp [] (y # ys) = -1"
| "strcmp (x # xs) [] = 1"
| "strcmp (x # xs) (y # ys) = (if x < y then -1 else if y < x then 1 else strcmp xs ys)"

definition fat_file_cmp :: "fat_file \<Rightarrow> fat_file \<Rightarrow> int" where
  "fat_file_cmp file1 file2 = strcmp (filepath file1) (filepath file2)"

definition fat_file_cmp_path :: "fat_file \<Rightarrow> cstring \<Rightarrow> int" where
  "fat_file_cmp_path file1 path = strcmp (filepath file1) path"

section \<open>File metadata\<close>

definition fat_file_is_directory :: "fat_file \<Rightarrow> bool" where
  "fat_file_is_directory file =
     (case dentry file of None \<Rightarrow> True | Some de \<Rightarrow> attribs de AND FILE_ATTRIBUTE_DIRECTORY \<noteq> 0)"

definition fat_file_inc_num_times_opened :: "fat_file \<Rightarrow> fat_file" where
  "fat_file_inc_num_times_opened file = file\<lparr>num_times_opened := num_times_opened file + 1\<rparr>"

definition fat_file_dec_num_times_opened :: "fat_file \<Rightarrow> fat_file" where
  "fat_file_dec_num_times_opened file = file\<lparr>num_times_opened := num_times_opened file - 1\<rparr>"

record stat =
  st_mode :: nat
  st_nlink :: nat
  st_size :: nat
  st_blocks :: nat
  st_blksize :: nat
  st_ctime :: int
  st_atime :: int
  st_mtime :: int

abbreviation (input) S_IFDIR :: nat where "S_IFDIR \<equiv> 0x4000"
abbreviation (input) S_IFREG :: nat where "S_IFREG \<equiv> 0x8000"

definition fat_file_to_stbuf :: "(tm \<Rightarrow> int) \<Rightarrow> fat_file \<Rightarrow> fat_table \<Rightarrow> stat option" where
  "fat_file_to_stbuf mktime file t = do {
     de \<leftarrow> dentry file;
     let size = unat (file_size de);
     Some \<lparr>st_mode = (if fat_file_is_directory file then S_IFDIR else S_IFREG) OR
             (if attribs de AND FILE_ATTRIBUTE_READONLY \<noteq> 0 then 0x16D else 0x1FF),
       st_nlink = 1, st_size = size,
       st_blocks = unat (fat_table_get_clusters_for_size t size),
       st_blksize = fat_table_bytes_per_cluster t,
       st_ctime = time_to_unix_time mktime (create_date de) (create_time de),
       st_atime = time_to_unix_time mktime (last_access_date de) 0,
       st_mtime = time_to_unix_time mktime (last_modified_date de) (last_modified_time de)\<rparr>
   }"

section \<open>Writing a directory entry\<close>

text \<open>
  The count \<open>pwrite\<close> returns is compared as an unsigned number, so the \<open>-1\<close> of a failed call does
  not take the error branch (the call itself has set \<open>errno\<close>).
\<close>

definition write_dir_entry :: "fat_file \<Rightarrow> fat_file \<Rightarrow> disk \<Rightarrow> disk option" where
  "write_dir_entry parent file d =
     (let t = tab d;
          chunk_size = fat_table_bytes_per_cluster t;
          parent_offset = fat_table_cluster_offset t (start_cluster parent);
          pos = unat (pos_in_parent file) * 32
      in if chunk_size \<le> pos then Some (put_errno ENOSPC d)
         else do {
           de \<leftarrow> dentry file;
           (written_bytes, s) \<leftarrow> sys_pwrite (dentry_bytes de) 0 32 (int pos + parent_offset) (vio d);
           let s = (if 0 \<le> written_bytes \<and> written_bytes < 32 then set_errno EIO s else s);
           Some (d\<lparr>vio := s\<rparr>)
         })"

definition fat_utime :: "fat_file \<Rightarrow> fat_file \<Rightarrow> int \<Rightarrow> int \<Rightarrow> disk \<Rightarrow> (fat_file \<times> disk) option" where
  "fat_utime file parent actime modtime d = do {
     de \<leftarrow> dentry file;
     let (accdate, acctime) = fill_time actime;
     let (moddate, modtime) = fill_time modtime;
     let file' = file\<lparr>dentry := Some (de\<lparr>last_access_date := accdate, last_modified_date := moddate,
           last_modified_time := modtime\<rparr>)\<rparr>;
     d' \<leftarrow> write_dir_entry parent file' d;
     Some (file', d')
   }"

definition fat_file_dentry_add_child ::
  "fat_file \<Rightarrow> fat_file \<Rightarrow> disk \<Rightarrow> (fat_file \<times> fat_file \<times> disk) option" where
  "fat_file_dentry_add_child parent child d = do {
     let n = nentries parent;
     let child = child\<lparr>pos_in_parent := n\<rparr>;
     d1 \<leftarrow> write_dir_entry parent child d;
     if errno d1 \<noteq> 0 then Some (parent, child, d1)
     else Some (parent\<lparr>nentries := nentries parent + 1\<rparr>, child, d1)
   }"

section \<open>Reading a directory\<close>

definition is_end_of_directory :: "fat_dir_entry \<Rightarrow> bool" where
  "is_end_of_directory de \<longleftrightarrow> base_name de ! 0 = 0"

definition ignore_dentry :: "fat_dir_entry \<Rightarrow> bool" where
  "ignore_dentry de \<longleftrightarrow> attribs de AND FILE_ATTRIBUTE_VOLUME \<noteq> 0
     \<or> \<not> file_basename_valid (base_name de) \<or> \<not> file_extension_valid (extension de)"

text \<open>\<open>dir_entries_processed\<close> starts at 0 for every cluster.\<close>

fun read_entries :: "fat_dir_entry list \<Rightarrow> u32 \<Rightarrow> fat_file \<Rightarrow> fat_file list \<Rightarrow>
    (fat_file \<times> fat_file list) option" where
  "read_entries [] processed dir elems = Some (dir, elems)"
| "read_entries (de # des) processed dir elems =
     (let dir = dir\<lparr>nentries := processed\<rparr>
      in if is_end_of_directory de then Some (dir\<lparr>children_read := True\<rparr>, elems)
         else if ignore_dentry de then read_entries des (processed + 1) dir elems
         else do {
           child \<leftarrow> init_file_from_dentry de dir;
           read_entries des (processed + 1) dir (elems @ [child])
         })"

text \<open>The 32-byte entries that fit in a buffer.\<close>

definition entries_of :: "u8 list \<Rightarrow> fat_dir_entry list" where
  "entries_of buffer = map (\<lambda>i. dentry_of (take 32 (drop (32 * i) buffer))) [0..<length buffer div 32]"

definition read_cluster_dir_entries ::
  "u8 list \<Rightarrow> fat_file \<Rightarrow> fat_file list \<Rightarrow> (fat_file \<times> fat_file list) option" where
  "read_cluster_dir_entries buffer dir elems = read_entries (entries_of buffer) 0 dir elems"

partial_function (option) read_children_loop ::
  "u32 \<Rightarrow> fat_file \<Rightarrow> fat_file list \<Rightarrow> disk \<Rightarrow> (fat_file list option \<times> fat_file \<times> disk) option" where
  "read_children_loop cur_cluster dir entry_list d =
     (if \<not> fat_table_cluster_is_valid cur_cluster
      then Some (Some entry_list, dir\<lparr>children_read := True\<rparr>, d)
      else do {
        let n = fat_table_bytes_per_cluster (tab d);
        (r, buf, s) \<leftarrow> full_pread (replicate n 0) n (fat_table_cluster_offset (tab d) cur_cluster) (vio d);
        let d1 = d\<lparr>vio := s\<rparr>;
        if r \<noteq> int n then Some (None, dir, put_errno EIO d1)
        else do {
          (dir', elems) \<leftarrow> read_cluster_dir_entries buf dir entry_list;
          next_cluster \<leftarrow> fat_table_get_next_cluster (tab d1) cur_cluster;
          read_children_loop next_cluster dir' elems d1
        }
      })"

definition fat_file_read_children ::
  "fat_file \<Rightarrow> disk \<Rightarrow> (fat_file list option \<times> fat_file \<times> disk) option" where
  "fat_file_read_children dir d =
     (if \<not> fat_table_is_valid_cluster_number (tab d) (start_cluster dir)
      then Some (None, dir, put_errno EIO d)
      else read_children_loop (start_cluster dir) dir [] d)"

section \<open>Reading and writing data\<close>

text \<open>
  \<open>pread_loop buf pos off remaining cluster\<close>: the position in the caller's buffer, the offset in
  the file and the bytes still wanted.
\<close>

partial_function (option) pread_loop ::
  "u8 list \<Rightarrow> nat \<Rightarrow> int \<Rightarrow> nat \<Rightarrow> u32 \<Rightarrow> disk \<Rightarrow> (nat \<times> u8 list \<times> disk) option" where
  "pread_loop buf pos off remaining cluster d =
     (if remaining = 0 \<or> \<not> fat_table_cluster_is_valid cluster then Some (remaining, buf, d)
      else do {
        let n = fat_table_get_cluster_remaining_bytes (tab d) remaining off;
        let cluster_off = fat_table_cluster_offset (tab d) cluster + int (fat_table_mask_offset off (tab d));
        (r, buf', s) \<leftarrow> full_pread_at buf pos n cluster_off (vio d);
        let d1 = d\<lparr>vio := s\<rparr>;
        if r \<noteq> int n then Some (remaining, buf', d1)
        else do {
          next_cluster \<leftarrow> fat_table_get_next_cluster (tab d1) cluster;
          pread_loop buf' (pos + n) (off + int n) (remaining - n) next_cluster d1
        }
      })"

definition fat_file_pread ::
  "fat_file \<Rightarrow> u8 list \<Rightarrow> nat \<Rightarrow> int \<Rightarrow> fat_file \<Rightarrow> disk \<Rightarrow> (int \<times> u8 list \<times> fat_file \<times> disk) option" where
  "fat_file_pread file buf sz off parent d = do {
     de \<leftarrow> dentry file;
     if off > uint (file_size de) then Some (0, buf, file, put_errno EOVERFLOW d)
     else do {
       let sz = min sz (nat (uint (file_size de) - off));
       if sz = 0 then Some (0, buf, file, d)
       else do {
         (cluster, s) \<leftarrow> fat_table_seek_cluster (tab d) (start_cluster file) off (vio d);
         let d1 = d\<lparr>vio := s\<rparr>;
         if errno d1 \<noteq> 0 then Some (0, buf, file, d1)
         else do {
           (remaining, buf', d2) \<leftarrow> pread_loop buf 0 off sz cluster d1;
           let file' = file\<lparr>dentry := Some (snd (fill_dentry_time_now de False False (io_now (vio d2))))\<rparr>;
           d3 \<leftarrow> write_dir_entry parent file' d2;
           Some (int sz - int remaining, buf', file', d3)
         }
       }
     }
   }"

partial_function (option) free_chain_loop :: "u32 \<Rightarrow> disk \<Rightarrow> disk option" where
  "free_chain_loop cluster d =
     (if \<not> fat_table_cluster_is_valid cluster then Some d
      else do {
        next_cluster \<leftarrow> fat_table_get_next_cluster (tab d) cluster;
        d1 \<leftarrow> set_next cluster FAT_CLUSTER_FREE d;
        free_chain_loop next_cluster d1
      })"

definition fat_file_truncate :: "fat_file \<Rightarrow> int \<Rightarrow> fat_file \<Rightarrow> disk \<Rightarrow> (fat_file \<times> disk) option" where
  "fat_file_truncate file off parent d = do {
     de \<leftarrow> dentry file;
     if off > uint (file_size de) then Some (file, d)
     else do {
       (last_cluster, s) \<leftarrow> fat_table_seek_cluster (tab d) (start_cluster file) off (vio d);
       let d1 = d\<lparr>vio := s\<rparr>;
       if errno d1 \<noteq> 0 then Some (file, d1)
       else do {
         next_cluster \<leftarrow> fat_table_get_next_cluster (tab d1) last_cluster;
         d2 \<leftarrow> set_next last_cluster FAT_CLUSTER_END_OF_CHAIN_MAX d1;
         if errno d2 \<noteq> 0 then Some (file, d2)
         else do {
           d3 \<leftarrow> free_chain_loop next_cluster d2;
           let de' = snd (fill_dentry_time_now (de\<lparr>file_size := word_of_int off\<rparr>) False True
                 (io_now (vio d3)));
           let file' = file\<lparr>dentry := Some de'\<rparr>;
           d4 \<leftarrow> write_dir_entry parent file' d3;
           Some (file', d4)
         }
       }
     }
   }"

definition next_or_new_cluster :: "u32 \<Rightarrow> disk \<Rightarrow> (u32 \<times> disk) option" where
  "next_or_new_cluster last_cluster d = do {
     next_cluster \<leftarrow> fat_table_get_next_cluster (tab d) last_cluster;
     if fat_table_cluster_is_EOC next_cluster then do {
       free \<leftarrow> fat_table_get_next_free_cluster (tab d);
       if fat_table_cluster_is_EOC free then Some (0, put_errno EIO d)
       else do {
         d1 \<leftarrow> set_next last_cluster free d;
         d2 \<leftarrow> set_next free FAT_CLUSTER_END_OF_CHAIN_MAX d1;
         Some (if errno d2 \<noteq> 0 then 0 else free, d2)
       }
     }
     else Some (next_cluster, d)
   }"

partial_function (option) pwrite_loop ::
  "u8 list \<Rightarrow> nat \<Rightarrow> int \<Rightarrow> int \<Rightarrow> u32 \<Rightarrow> disk \<Rightarrow> (int \<times> disk) option" where
  "pwrite_loop buf pos off remaining cluster d =
     (if remaining \<le> 0 then Some (remaining, d)
      else do {
        let n = fat_table_get_cluster_remaining_bytes (tab d) (nat remaining) off;
        let cluster_off = fat_table_cluster_offset (tab d) cluster + int (fat_table_mask_offset off (tab d));
        (r, s) \<leftarrow> full_pwrite_at buf pos n cluster_off (vio d);
        let d1 = d\<lparr>vio := s\<rparr>;
        let remaining = remaining - r;
        if r \<noteq> int n then Some (remaining, d1)
        else if remaining > 0 then do {
          (cluster', d2) \<leftarrow> next_or_new_cluster cluster d1;
          if errno d2 \<noteq> 0 \<or> \<not> fat_table_cluster_is_valid cluster' then Some (remaining, d2)
          else pwrite_loop buf (pos + n) (off + int n) remaining cluster' d2
        }
        else Some (remaining, d1)
      })"

definition fat_file_pwrite ::
  "fat_file \<Rightarrow> u8 list \<Rightarrow> nat \<Rightarrow> int \<Rightarrow> fat_file \<Rightarrow> disk \<Rightarrow> (int \<times> fat_file \<times> disk) option" where
  "fat_file_pwrite file buf sz off parent d = do {
     de \<leftarrow> dentry file;
     if off > uint (file_size de) then Some (0, file, put_errno EOVERFLOW d)
     else do {
       let starting_point = (if off \<noteq> 0 then off - 1 else 0);
       (cluster, s) \<leftarrow> fat_table_seek_cluster (tab d) (start_cluster file) starting_point (vio d);
       let d1 = d\<lparr>vio := s\<rparr>;
       (cluster, d2) \<leftarrow> (if off mod int (fat_table_bytes_per_cluster (tab d)) = 0 \<and> cluster \<noteq> 0 \<and> off \<noteq> 0
          then next_or_new_cluster cluster d1 else Some (cluster, d1));
       if errno d2 \<noteq> 0 then Some (- errno d2, file, d2)
       else do {
         (remaining, d3) \<leftarrow> pwrite_loop buf 0 off (int sz) cluster d2;
         let new_end = off + int sz - remaining;
         let de1 = (if new_end > uint (file_size de) then de\<lparr>file_size := word_of_int new_end\<rparr> else de);
         let de2 = snd (fill_dentry_time_now de1 False True (io_now (vio d3)));
         let file' = file\<lparr>dentry := Some de2\<rparr>;
         d4 \<leftarrow> write_dir_entry parent file' d3;
         Some (int sz - remaining, file', d4)
       }
     }
   }"

definition fat_file_delete :: "fat_file \<Rightarrow> fat_file \<Rightarrow> disk \<Rightarrow> (fat_file \<times> disk) option" where
  "fat_file_delete file parent d = do {
     next_cluster \<leftarrow> fat_table_get_next_cluster (tab d) (start_cluster file);
     d1 \<leftarrow> set_next (start_cluster file) FAT_CLUSTER_FREE d;
     if errno d1 \<noteq> 0 then Some (file, d1)
     else do {
       d2 \<leftarrow> free_chain_loop next_cluster d1;
       de \<leftarrow> dentry file;
       let de' = snd (fill_dentry_time_now (de\<lparr>file_size := 0\<rparr>) False True (io_now (vio d2)));
       let file' = file\<lparr>dentry := Some (de'\<lparr>base_name := (base_name de')[0 := FAT_FILENAME_DELETED_CHAR]\<rparr>)\<rparr>;
       d3 \<leftarrow> write_dir_entry parent file' d2;
       Some (file', d3)
     }
   }"

section \<open>Encoding and decoding\<close>

lemma take2_le16 [simp]: "le16_of (take 2 bs) = le16_of bs"
  by (simp add: le16_of_def)

lemma le16_of_append [simp]: "le16_of (le16_bytes w @ bs) = w"
proof -
  have "le16_of (le16_bytes w @ bs) = le16_of (take 2 (le16_bytes w @ bs))" by (rule take2_le16 [symmetric])
  then show ?thesis by simp
qed

lemma dentry_bytes_length [simp]: "dentry_wf d \<Longrightarrow> length (dentry_bytes d) = 32"
  by (simp add: dentry_bytes_def dentry_wf_def)

lemma drop_le16 [simp]: "drop (Suc (Suc n)) (le16_bytes w @ bs) = drop n bs"
  by (simp add: le16_bytes_def)

lemma dentry_of_bytes:
  assumes "dentry_wf d"
  shows "dentry_of (dentry_bytes d) = d"
proof -
  let ?b = "base_name d" and ?e = "extension d"
  have len: "length ?b = 8" "length ?e = 3" using assms by (auto simp: dentry_wf_def)
  let ?tail = "[attribs d, reserved d, create_time_fine_res d]
     @ le16_bytes (create_time d) @ le16_bytes (create_date d) @ le16_bytes (last_access_date d)
     @ le16_bytes (fat32_start_cluster_high d) @ le16_bytes (last_modified_time d)
     @ le16_bytes (last_modified_date d) @ le16_bytes (start_cluster_low d) @ le32_bytes (file_size d)"
  have bs: "dentry_bytes d = ?b @ ?e @ ?tail" by (simp add: dentry_bytes_def)
  have dr: "drop (11 + k) (dentry_bytes d) = drop k ?tail" for k
    unfolding bs using len by simp
  have nt: "dentry_bytes d ! (11 + k) = ?tail ! k" for k
    unfolding bs using len by (simp add: nth_append)
  have "take 8 (dentry_bytes d) = ?b" "take 3 (drop 8 (dentry_bytes d)) = ?e"
    unfolding bs using len by simp_all
  moreover have "dentry_bytes d ! 11 = attribs d" "dentry_bytes d ! 12 = reserved d"
    "dentry_bytes d ! 13 = create_time_fine_res d"
    using nt [of 0] nt [of 1] nt [of 2] by simp_all
  moreover have "le16_of (drop 14 (dentry_bytes d)) = create_time d"
    "le16_of (drop 16 (dentry_bytes d)) = create_date d"
    "le16_of (drop 18 (dentry_bytes d)) = last_access_date d"
    "le16_of (drop 20 (dentry_bytes d)) = fat32_start_cluster_high d"
    "le16_of (drop 22 (dentry_bytes d)) = last_modified_time d"
    "le16_of (drop 24 (dentry_bytes d)) = last_modified_date d"
    "le16_of (drop 26 (dentry_bytes d)) = start_cluster_low d"
    "le32_of (drop 28 (dentry_bytes d)) = file_size d"
    using dr [of 3] dr [of 5] dr [of 7] dr [of 9] dr [of 11] dr [of 13] dr [of 15] dr [of 17]
    by (simp_all add: eval_nat_numeral)
  ultimately show ?thesis by (simp add: dentry_of_def)
qed

lemma start_cluster_roundtrip_lib: "file_start_cluster (set_first_cluster d c) = c"
proof (rule bit_word_eqI)
  fix n
  assume "n < LENGTH(32)"
  then consider "n < 8" | "8 \<le> n" "n < 16" | "16 \<le> n" "n < 24" | "24 \<le> n" "n < 32"
    by fastforce
  then show "bit (file_start_cluster (set_first_cluster d c)) n = bit c n"
    by cases (auto simp: file_start_cluster_def set_first_cluster_def Let_def le16_of_def le32_bytes_def
        bit_simps)
qed

text \<open>
  A directory entry survives the trip to the disk, and the 32-bit start cluster survives
  being split over its two 16-bit fields without touching the rest of the entry.
\<close>

theorem dentry_roundtrip:
  assumes "dentry_wf de"
  shows "length (dentry_bytes de) = 32 \<and> dentry_of (dentry_bytes de) = de
    \<and> (\<forall>c. file_start_cluster (dentry_of (dentry_bytes (set_first_cluster de c))) = c
        \<and> base_name (set_first_cluster de c) = base_name de \<and> extension (set_first_cluster de c) = extension de
        \<and> file_size (set_first_cluster de c) = file_size de)"
proof -
  have "dentry_wf (set_first_cluster de c)" for c
    using assms by (simp add: dentry_wf_def set_first_cluster_def Let_def)
  moreover have "base_name (set_first_cluster de c) = base_name de"
    "extension (set_first_cluster de c) = extension de" "file_size (set_first_cluster de c) = file_size de" for c
    by (simp_all add: set_first_cluster_def Let_def)
  ultimately show ?thesis
    using assms by (simp add: dentry_of_bytes start_cluster_roundtrip_lib)
qed

theorem dentry_roundtrip_witness:
  "\<exists>de. base_name de = cstr ''README  '' \<and> dentry_of (dentry_bytes de) = de
    \<and> file_start_cluster (dentry_of (dentry_bytes (set_first_cluster de 0x12345))) = 0x12345"
proof -
  let ?de = "dentry_of (cstr ''README  TXT'' @ replicate 21 0)"
  have "dentry_wf ?de" by (simp add: dentry_wf_def dentry_of_def cstr_def)
  from dentry_roundtrip [OF this] show ?thesis
    by (intro exI [of _ ?de]) (simp add: dentry_of_def cstr_def)
qed

end
