(* ===== verification/Fat_Disk.thy ===== *)
theory Fat_Disk
  imports Fat_File
begin

text \<open>
  The volume as the file operations need it: a table that agrees with its copy on disk, data
  clusters inside the volume and apart from one another.  What one table write, the freeing of a
  chain and the writing of one directory entry do to such a volume.
\<close>

section \<open>A disk in good order\<close>

text \<open>
  The device completes what it is asked to do, possibly in several steps, but never in pieces
  smaller than a directory entry.
\<close>

definition steady :: "io \<Rightarrow> bool" where
  "steady s \<longleftrightarrow> (\<forall>r \<in> set (io_sched s). \<exists>k \<ge> 32. r = Upto k)"

definition data_end :: "fat_table \<Rightarrow> int" where
  "data_end t = data_start_offset t + int (unat (num_data_clusters t) * fat_table_bytes_per_cluster t)"

definition disk_ok :: "disk \<Rightarrow> bool" where
  "disk_ok d \<longleftrightarrow> table_wf (tab d) \<and> fat_mirror (tab d) (vio d) \<and> steady (vio d) \<and> errno d = 0
     \<and> fat_offset (tab d) + 4 * int (length (fat_map (tab d))) \<le> data_start_offset (tab d)
     \<and> data_end (tab d) \<le> int (length (io_bytes (vio d)))"

definition cluster_bytes :: "disk \<Rightarrow> u32 \<Rightarrow> u8 list" where
  "cluster_bytes d c = take (fat_table_bytes_per_cluster (tab d))
     (drop (nat (fat_table_cluster_offset (tab d) c)) (io_bytes (vio d)))"

text \<open>Only the table changes; the data of every cluster stays.\<close>

definition table_step :: "disk \<Rightarrow> disk \<Rightarrow> bool" where
  "table_step d d' \<longleftrightarrow> disk_ok d' \<and> length (fat_map (tab d')) = length (fat_map (tab d))
     \<and> tab d' = (tab d)\<lparr>fat_map := fat_map (tab d')\<rparr> \<and> io_now (vio d') = io_now (vio d)
     \<and> (\<forall>c. fat_table_is_valid_cluster_number (tab d) c \<longrightarrow> cluster_bytes d' c = cluster_bytes d c)"

lemma steady_short: "steady s \<Longrightarrow> short_only s"
  by (fastforce simp: steady_def short_only_def)

lemma steady_whole: "steady s \<Longrightarrow> whole_entry s"
  by (fastforce simp: steady_def whole_entry_def split: list.splits io_result.splits)

lemma steady_tl [simp]: "steady s \<Longrightarrow> io_sched s' = tl (io_sched s) \<Longrightarrow> steady s'"
  by (auto simp: steady_def dest: list.set_sel(2)) (metis list.sel(2) list.set_sel(2))

lemma steady_suffix: "steady s \<Longrightarrow> sched_suffix s s' \<Longrightarrow> steady s'"
  by (auto simp: steady_def sched_suffix_def dest!: in_set_dropD)

lemma cluster_offset_eq:
  assumes "table_wf t" "fat_table_is_valid_cluster_number t c"
  shows "fat_table_cluster_offset t c
    = data_start_offset t + int ((unat c - 2) * fat_table_bytes_per_cluster t)"
proof -
  have "2 \<le> unat c" using assms valid_number_unat by blast
  then have "unat (c - 2) = unat c - 2" by (simp add: unat_sub word_nat_simps)
  then have "uint (c - 2) = int (unat c - 2)" by (metis of_nat_unat ucast_id uint_nat)
  then show ?thesis
    by (simp add: fat_table_cluster_offset_def fat_table_bytes_per_cluster_def push_bit_eq_mult)
qed

lemma cluster_inside:
  assumes "disk_ok d" "fat_table_is_valid_cluster_number (tab d) c"
  shows "0 \<le> fat_table_cluster_offset (tab d) c"
    "fat_offset (tab d) + 4 * int (length (fat_map (tab d))) \<le> fat_table_cluster_offset (tab d) c"
    "nat (fat_table_cluster_offset (tab d) c) + fat_table_bytes_per_cluster (tab d) \<le> length (io_bytes (vio d))"
proof -
  let ?b = "fat_table_bytes_per_cluster (tab d)" and ?n = "unat (num_data_clusters (tab d))"
  have t: "table_wf (tab d)" using assms(1) by (simp add: disk_ok_def)
  have c: "2 \<le> unat c" "unat c < ?n + 2" using assms(2) valid_number_unat [OF t] by auto
  have off: "fat_table_cluster_offset (tab d) c = data_start_offset (tab d) + int ((unat c - 2) * ?b)"
    by (rule cluster_offset_eq [OF t assms(2)])
  have fat: "0 \<le> fat_offset (tab d)" using assms(1) by (simp add: disk_ok_def fat_mirror_def)
  show 2: "fat_offset (tab d) + 4 * int (length (fat_map (tab d))) \<le> fat_table_cluster_offset (tab d) c"
  proof -
    have "0 \<le> int ((unat c - 2) * ?b)" by simp
    moreover have "fat_offset (tab d) + 4 * int (length (fat_map (tab d))) \<le> data_start_offset (tab d)"
      using assms(1) by (simp add: disk_ok_def)
    ultimately show ?thesis unfolding off by linarith
  qed
  with fat show 1: "0 \<le> fat_table_cluster_offset (tab d) c" by linarith
  have "Suc (unat c - 2) * ?b \<le> ?n * ?b" using c by (intro mult_le_mono1) linarith
  then have "int ((unat c - 2) * ?b) + int ?b \<le> int (?n * ?b)" by (simp only: of_nat_add [symmetric] of_nat_le_iff) simp
  then have "fat_table_cluster_offset (tab d) c + int ?b \<le> int (length (io_bytes (vio d)))"
    unfolding off using assms(1) by (simp add: disk_ok_def data_end_def)
  with 1 show "nat (fat_table_cluster_offset (tab d) c) + ?b \<le> length (io_bytes (vio d))" by linarith
qed

lemma clusters_apart:
  assumes "disk_ok d" "fat_table_is_valid_cluster_number (tab d) c" "fat_table_is_valid_cluster_number (tab d) e" "c \<noteq> e"
  shows "nat (fat_table_cluster_offset (tab d) c) + fat_table_bytes_per_cluster (tab d) \<le> nat (fat_table_cluster_offset (tab d) e)
    \<or> nat (fat_table_cluster_offset (tab d) e) + fat_table_bytes_per_cluster (tab d) \<le> nat (fat_table_cluster_offset (tab d) c)"
proof -
  let ?b = "fat_table_bytes_per_cluster (tab d)"
  have t: "table_wf (tab d)" using assms(1) by (simp add: disk_ok_def)
  have s0: "0 \<le> data_start_offset (tab d)" using assms(1) by (simp add: disk_ok_def fat_mirror_def)
  have n: "nat (fat_table_cluster_offset (tab d) x) = nat (data_start_offset (tab d)) + (unat x - 2) * ?b"
    if "fat_table_is_valid_cluster_number (tab d) x" for x
    unfolding cluster_offset_eq [OF t that] using s0 by (simp add: nat_add_distrib nat_mult_distrib)
  have v: "2 \<le> unat c" "2 \<le> unat e" using assms valid_number_unat [OF t] by auto
  have "unat c \<noteq> unat e" using assms(4) by (metis word_unat_eq_iff)
  then have "unat c < unat e \<or> unat e < unat c" by linarith
  then have "Suc (unat c - 2) \<le> unat e - 2 \<or> Suc (unat e - 2) \<le> unat c - 2" using v by linarith
  then have "Suc (unat c - 2) * ?b \<le> (unat e - 2) * ?b \<or> Suc (unat e - 2) * ?b \<le> (unat c - 2) * ?b"
    using mult_le_mono1 by blast
  then show ?thesis unfolding n [OF assms(2)] n [OF assms(3)] by (elim disjE) simp_all
qed

lemma cluster_bytes_length:
  "disk_ok d \<Longrightarrow> fat_table_is_valid_cluster_number (tab d) c \<Longrightarrow>
     length (cluster_bytes d c) = fat_table_bytes_per_cluster (tab d)"
  using cluster_inside(3) [of d c] by (simp add: cluster_bytes_def)

lemma set_next_step:
  assumes "disk_ok d" "unat c < length (fat_map (tab d))"
  obtains d' where "set_next c v d = Some d'" "table_step d d'"
    "tab d' = (tab d)\<lparr>fat_map := (fat_map (tab d))[unat c := v]\<rparr>"
proof -
  have w: "table_wf (tab d)" "0 \<le> fat_offset (tab d)" "whole_entry (vio d)" "fat_mirror (tab d) (vio d)"
    and st: "steady (vio d)" "errno d = 0"
    using assms(1) by (auto simp: disk_ok_def fat_mirror_def steady_whole)
  show thesis
  proof (rule set_next_cases [OF w(1) assms(2) w(2,3), of v], goal_cases)
    case (1 s')
    let ?t' = "(tab d)\<lparr>fat_map := (fat_map (tab d))[unat c := v]\<rparr>" and ?off = "nat (fat_offset (tab d)) + 4 * unat c"
    let ?d' = "\<lparr>tab = ?t', vio = s'\<rparr>"
    have inside: "?off + length (le32_bytes v) \<le> length (io_bytes (vio d))"
      using w(4) assms(2) by (simp add: fat_mirror_def)
    have len: "length (io_bytes s') = length (io_bytes (vio d))" using 1 inside by simp
    have mir: "fat_mirror ?t' s'"
      using 1 w(4) by (intro mirror_after_write [OF w(4) assms(2)]) simp
    have ok: "disk_ok ?d'"
      using assms(1) 1 st len mir
      by (auto simp: disk_ok_def table_wf_def data_end_def fat_table_bytes_per_cluster_def)
    moreover have "cluster_bytes ?d' e = cluster_bytes d e" if "fat_table_is_valid_cluster_number (tab d) e" for e
    proof -
      have "?off + 4 \<le> nat (fat_table_cluster_offset (tab d) e)"
        using cluster_inside(1,2) [OF assms(1) that] w(2) assms(2) by linarith
      then show ?thesis
        using 1 inside cluster_inside(3) [OF assms(1) that]
        by (simp add: cluster_bytes_def fat_table_cluster_offset_def fat_table_bytes_per_cluster_def splice_other)
    qed
    ultimately have "table_step d ?d'" using 1 by (simp add: table_step_def)
    moreover have "set_next c v d = Some ?d'" using 1 by (simp add: set_next_def)
    ultimately show ?case using that [of ?d'] by simp
  next
    case (2 s')
    then obtain e where "Fail e \<in> set (io_sched (vio d))" by (metis list.set_sel(1))
    then show ?case using st by (auto simp: steady_def)
  qed
qed

lemma table_step_refl: "disk_ok d \<Longrightarrow> table_step d d"
  by (simp add: table_step_def)

lemma table_step_valid: "table_step d d' \<Longrightarrow>
    fat_table_is_valid_cluster_number (tab d') c = fat_table_is_valid_cluster_number (tab d) c"
  unfolding table_step_def using valid_number_update [where t = "tab d" and m = "fat_map (tab d')" and c = c] by metis

lemma table_step_bytes:
  assumes "table_step d d'"
  shows "fat_table_bytes_per_cluster (tab d') = fat_table_bytes_per_cluster (tab d)"
proof -
  have "fat_table_bytes_per_cluster (t\<lparr>fat_map := m\<rparr>) = fat_table_bytes_per_cluster t" for t m
    by (simp add: fat_table_bytes_per_cluster_def)
  then show ?thesis using assms unfolding table_step_def by metis
qed

lemma table_step_trans: "table_step d d' \<Longrightarrow> table_step d' d'' \<Longrightarrow> table_step d d''"
  using table_step_valid [of d d'] unfolding table_step_def
  by (metis fat_table.surjective fat_table.update_convs(1))

section \<open>Freeing chains\<close>

definition freed :: "u32 list \<Rightarrow> u32 list \<Rightarrow> u32 list" where
  "freed cs m = fold (\<lambda>c m. m[unat c := FAT_CLUSTER_FREE]) cs m"

lemma freed_Nil [simp]: "freed [] m = m"
  by (simp add: freed_def)

lemma freed_Cons [simp]: "freed (c # cs) m = freed cs (m[unat c := FAT_CLUSTER_FREE])"
  by (simp add: freed_def)

lemma freed_length [simp]: "length (freed cs m) = length m"
  by (induction cs arbitrary: m) simp_all

lemma freed_nth: "i < length m \<Longrightarrow> freed cs m ! i = (if i \<in> unat ` set cs then 0 else m ! i)"
  by (induction cs arbitrary: m) (auto simp: nth_list_update)

lemma fat_chain_freed:
  "set xs \<inter> set cs = {} \<Longrightarrow> fat_chain (t\<lparr>fat_map := freed cs (fat_map t)\<rparr>) c xs = fat_chain t c xs"
proof (induction cs arbitrary: t)
  case (Cons e es)
  have "fat_chain (t\<lparr>fat_map := freed (e # es) (fat_map t)\<rparr>) c xs
      = fat_chain (t\<lparr>fat_map := (fat_map t)[unat e := 0]\<rparr>) c xs"
    using Cons.IH [of "t\<lparr>fat_map := (fat_map t)[unat e := 0]\<rparr>"] Cons.prems by simp
  also have "\<dots> = fat_chain t c xs" using Cons.prems by (intro fat_chain_update_other) auto
  finally show ?case .
qed simp

lemma free_chain_loop_spec:
  assumes "disk_ok d" "fat_chain (tab d) c cs"
  shows "\<exists>d'. free_chain_loop c d = Some d' \<and> table_step d d'
    \<and> tab d' = (tab d)\<lparr>fat_map := freed cs (fat_map (tab d))\<rparr>"
  using assms
proof (induction cs arbitrary: c d)
  case Nil
  then show ?case by (subst free_chain_loop.simps) (simp add: table_step_refl)
next
  case (Cons x xs)
  have t: "table_wf (tab d)" using Cons.prems(1) by (simp add: disk_ok_def)
  from Cons.prems(2) obtain n where n: "c = x" "fat_table_is_valid_cluster_number (tab d) x"
    "fat_table_get_next_cluster (tab d) x = Some n" "fat_chain (tab d) n xs"
    by (auto split: option.splits)
  have x: "x \<notin> set xs" using fat_chain_distinct [OF Cons.prems(2) t] by simp
  obtain d1 where d1: "set_next x FAT_CLUSTER_FREE d = Some d1" "table_step d d1"
    "tab d1 = (tab d)\<lparr>fat_map := (fat_map (tab d))[unat x := FAT_CLUSTER_FREE]\<rparr>"
    using set_next_step [OF Cons.prems(1) valid_number_is_valid(2) [OF t n(2)]] by metis
  have "fat_chain (tab d1) n xs" unfolding d1(3) using n(4) x by (simp add: heap_simps)
  moreover have "disk_ok d1" using d1(2) by (simp add: table_step_def)
  ultimately obtain d' where d': "free_chain_loop n d1 = Some d'" "table_step d1 d'"
    "tab d' = (tab d1)\<lparr>fat_map := freed xs (fat_map (tab d1))\<rparr>" using Cons.IH by blast
  have "free_chain_loop c d = Some d'"
    using n d1(1) d'(1) valid_number_is_valid(1) [OF t n(2)]
    by (subst free_chain_loop.simps) simp
  moreover have "tab d' = (tab d)\<lparr>fat_map := freed (x # xs) (fat_map (tab d))\<rparr>"
    using d'(3) d1(3) by simp
  ultimately show ?case using table_step_trans [OF d1(2) d'(2)] by blast
qed

section \<open>Writing the entry of a file\<close>

text \<open>The place of entry number \<open>i\<close> in the first cluster of a directory.\<close>

definition entry_at :: "disk \<Rightarrow> u32 \<Rightarrow> nat \<Rightarrow> fat_dir_entry" where
  "entry_at d c i = dentry_of (take 32 (drop (32 * i) (cluster_bytes d c)))"

definition entries_fit :: "disk \<Rightarrow> bool" where
  "entries_fit d \<longleftrightarrow> 32 dvd fat_table_bytes_per_cluster (tab d)"

lemma disk_ok_write:
  assumes "disk_ok d" "io_bytes s' = splice_at (io_bytes (vio d)) off bs"
    "fat_offset (tab d) + 4 * int (length (fat_map (tab d))) \<le> int off"
    "off + length bs \<le> length (io_bytes (vio d))" "steady s'" "io_errno s' = 0"
  shows "disk_ok (d\<lparr>vio := s'\<rparr>)"
proof -
  have "take 4 (drop (nat (fat_offset (tab d)) + 4 * i) (io_bytes s'))
      = take 4 (drop (nat (fat_offset (tab d)) + 4 * i) (io_bytes (vio d)))"
    if "i < length (fat_map (tab d))" for i
    unfolding assms(2) using assms(1,3,4) that
    by (intro splice_other) (auto simp: disk_ok_def fat_mirror_def)
  then show ?thesis using assms by (simp add: disk_ok_def fat_mirror_def)
qed

text \<open>A write inside one data cluster changes those bytes and nothing else.\<close>

lemma write_in_cluster:
  assumes "disk_ok d" "fat_table_is_valid_cluster_number (tab d) p"
    "k + length bs \<le> fat_table_bytes_per_cluster (tab d)"
    "io_bytes s' = splice_at (io_bytes (vio d)) (nat (fat_table_cluster_offset (tab d) p) + k) bs"
    "steady s'" "io_errno s' = 0"
  shows "disk_ok (d\<lparr>vio := s'\<rparr>)"
    "cluster_bytes (d\<lparr>vio := s'\<rparr>) p = splice_at (cluster_bytes d p) k bs"
    "fat_table_is_valid_cluster_number (tab d) c \<Longrightarrow> c \<noteq> p \<Longrightarrow> cluster_bytes (d\<lparr>vio := s'\<rparr>) c = cluster_bytes d c"
proof -
  let ?b = "fat_table_bytes_per_cluster (tab d)" and ?co = "nat (fat_table_cluster_offset (tab d) p)"
  note ins = cluster_inside [OF assms(1,2)]
  have inside: "?co + k + length bs \<le> length (io_bytes (vio d))" using assms(3) ins(3) by linarith
  have "fat_offset (tab d) + 4 * int (length (fat_map (tab d))) \<le> int (?co + k)" using ins(1,2) by linarith
  then show ok: "disk_ok (d\<lparr>vio := s'\<rparr>)"
    using assms(5,6) inside by (intro disk_ok_write [OF assms(1,4)])
  show "cluster_bytes (d\<lparr>vio := s'\<rparr>) c = cluster_bytes d c"
    if "fat_table_is_valid_cluster_number (tab d) c" "c \<noteq> p" for c
  proof -
    have "nat (fat_table_cluster_offset (tab d) c) + ?b \<le> ?co + k
        \<or> ?co + k + length bs \<le> nat (fat_table_cluster_offset (tab d) c)"
      using clusters_apart [OF assms(1) that(1) assms(2) that(2)] assms(3) by linarith
    then show ?thesis
      using cluster_inside(3) [OF assms(1) that(1)] inside assms(4)
      by (simp add: cluster_bytes_def splice_other)
  qed
  show "cluster_bytes (d\<lparr>vio := s'\<rparr>) p = splice_at (cluster_bytes d p) k bs"
  proof (rule nth_equalityI)
    have cl: "length (cluster_bytes d p) = ?b" by (rule cluster_bytes_length [OF assms(1,2)])
    show eq: "length (cluster_bytes (d\<lparr>vio := s'\<rparr>) p) = length (splice_at (cluster_bytes d p) k bs)"
      using cluster_bytes_length [OF ok, of p] assms(2,3) cl by simp
    fix j
    assume "j < length (cluster_bytes (d\<lparr>vio := s'\<rparr>) p)"
    then have j: "j < ?b" using eq cl assms(3) by simp
    have "cluster_bytes (d\<lparr>vio := s'\<rparr>) p ! j = splice_at (io_bytes (vio d)) (?co + k) bs ! (?co + j)"
      using j ins(3) inside assms(4) by (simp add: cluster_bytes_def)
    also have "\<dots> = splice_at (cluster_bytes d p) k bs ! j"
      using j ins(3) inside cl assms(3)
      by (auto simp: nth_splice_inside cluster_bytes_def intro!: arg_cong2 [of _ _ _ _ nth])
    finally show "cluster_bytes (d\<lparr>vio := s'\<rparr>) p ! j = splice_at (cluster_bytes d p) k bs ! j" .
  qed
qed

lemma write_dir_entry_spec:
  assumes "disk_ok d" "entries_fit d" "fat_table_is_valid_cluster_number (tab d) (start_cluster parent)"
    "dentry file = Some de" "dentry_wf de"
    "unat (pos_in_parent file) * 32 < fat_table_bytes_per_cluster (tab d)"
  obtains d' where "write_dir_entry parent file d = Some d'" "disk_ok d'" "tab d' = tab d"
    "io_now (vio d') = io_now (vio d)"
    "cluster_bytes d' (start_cluster parent) = splice_at (cluster_bytes d (start_cluster parent))
       (unat (pos_in_parent file) * 32) (dentry_bytes de)"
    "\<forall>c. fat_table_is_valid_cluster_number (tab d) c \<and> c \<noteq> start_cluster parent
       \<longrightarrow> cluster_bytes d' c = cluster_bytes d c"
proof -
  let ?p = "start_cluster parent" and ?i = "unat (pos_in_parent file) * 32"
    and ?b = "fat_table_bytes_per_cluster (tab d)"
  let ?co = "nat (fat_table_cluster_offset (tab d) ?p)"
  let ?off = "?co + ?i"
  have room: "?i + 32 \<le> ?b"
  proof -
    from assms(2) obtain k where k: "?b = 32 * k" by (auto simp: entries_fit_def)
    with assms(6) have "unat (pos_in_parent file) < k" by simp
    then have "32 * Suc (unat (pos_in_parent file)) \<le> 32 * k" by (intro mult_le_mono2) simp
    then show ?thesis using k by simp
  qed
  note ins = cluster_inside [OF assms(1,3)]
  have st: "steady (vio d)" "errno d = 0" using assms(1) by (auto simp: disk_ok_def)
  have len: "length (dentry_bytes de) = 32" using assms(5) by simp
  have "nat (int i + x) = nat x + i" if "0 \<le> x" for i x using that by (simp add: nat_add_distrib)
  then have n: "nat (int ?i + fat_table_cluster_offset (tab d) ?p) = ?off" using ins(1) by blast
  have nn: "0 \<le> int ?i + fat_table_cluster_offset (tab d) ?p" using ins(1) by linarith
  let ?s = "(vio d)\<lparr>io_bytes := splice_at (io_bytes (vio d)) ?off (dentry_bytes de), io_sched := tl (io_sched (vio d))\<rparr>"
  have "sys_pwrite (dentry_bytes de) 0 32 (int ?i + fat_table_cluster_offset (tab d) ?p) (vio d) = Some (32, ?s)"
  proof (cases "io_sched (vio d)")
    case Nil
    with len nn n show ?thesis
      by (simp add: sys_pwrite_def next_outcome_def buf_load_def not_less del: of_nat_mult)
  next
    case (Cons r rs)
    with st obtain k where "r = Upto k" "32 \<le> k" by (auto simp: steady_def)
    with Cons len nn n show ?thesis
      by (simp add: sys_pwrite_def next_outcome_def buf_load_def min_def not_less del: of_nat_mult)
  qed
  then have w: "write_dir_entry parent file d = Some (d\<lparr>vio := ?s\<rparr>)"
    using assms(4,6) by (simp add: write_dir_entry_def Let_def)
  have "?i + length (dentry_bytes de) \<le> ?b" using room len by simp
  note wr = write_in_cluster [OF assms(1,3) this, of ?s]
  show thesis
  proof (rule that [OF w])
    show "disk_ok (d\<lparr>vio := ?s\<rparr>)" using wr(1) st by simp
    show "cluster_bytes (d\<lparr>vio := ?s\<rparr>) ?p = splice_at (cluster_bytes d ?p) ?i (dentry_bytes de)"
      using wr(2) st by simp
    show "\<forall>c. fat_table_is_valid_cluster_number (tab d) c \<and> c \<noteq> ?p
        \<longrightarrow> cluster_bytes (d\<lparr>vio := ?s\<rparr>) c = cluster_bytes d c"
      using wr(3) st by simp
  qed simp_all
qed

lemma write_dir_entry_ex:
  assumes "disk_ok d" "entries_fit d" "fat_table_is_valid_cluster_number (tab d) (start_cluster parent)"
    "dentry file = Some de" "dentry_wf de"
    "unat (pos_in_parent file) * 32 < fat_table_bytes_per_cluster (tab d)"
  shows "\<exists>d'. write_dir_entry parent file d = Some d' \<and> disk_ok d' \<and> tab d' = tab d
    \<and> cluster_bytes d' (start_cluster parent) = splice_at (cluster_bytes d (start_cluster parent))
        (unat (pos_in_parent file) * 32) (dentry_bytes de)
    \<and> (\<forall>c. fat_table_is_valid_cluster_number (tab d) c \<and> c \<noteq> start_cluster parent
        \<longrightarrow> cluster_bytes d' c = cluster_bytes d c)"
  using write_dir_entry_spec [OF assms] by metis

end
