(* ===== verification/Fat_File_Read.thy ===== *)
theory Fat_File_Read
  imports Fat_Disk
begin

text \<open>
  Reading, deleting and truncating the files of \<open>fat_file.c\<close>: the result in terms of the chain
  of the file and the data in it.  A small sample volume for the examples.
\<close>

section \<open>Reading data\<close>

definition content :: "disk \<Rightarrow> u32 list \<Rightarrow> u8 list" where
  "content d cs = concat (map (cluster_bytes d) cs)"

lemma content_simps [simp]: "content d [] = []" "content d (c # cs) = cluster_bytes d c @ content d cs"
  "content d (cs @ ds) = content d cs @ content d ds"
  by (simp_all add: content_def)

lemma content_cong: "\<forall>c \<in> set cs. cluster_bytes d' c = cluster_bytes d c \<Longrightarrow> content d' cs = content d cs"
  by (induction cs) simp_all

lemma content_length:
  "disk_ok d \<Longrightarrow> \<forall>c \<in> set cs. fat_table_is_valid_cluster_number (tab d) c \<Longrightarrow>
     length (content d cs) = length cs * fat_table_bytes_per_cluster (tab d)"
  by (induction cs) (simp_all add: cluster_bytes_length)

text \<open>A state in which only the schedule of the device has moved on.\<close>

definition after_reads :: "disk \<Rightarrow> disk \<Rightarrow> bool" where
  "after_reads d d' \<longleftrightarrow> (\<exists>s. d' = d\<lparr>vio := s\<rparr> \<and> sched_suffix (vio d) s)"

lemma after_reads_refl: "after_reads d d"
  unfolding after_reads_def by (rule exI [of _ "vio d"]) simp

lemma after_reads_trans: "after_reads d d' \<Longrightarrow> after_reads d' d'' \<Longrightarrow> after_reads d d''"
  unfolding after_reads_def by (fastforce dest: sched_suffix_trans)

lemma after_reads_keeps:
  assumes "after_reads d d'"
  shows "tab d' = tab d" "errno d' = errno d" "cluster_bytes d' = cluster_bytes d" "content d' = content d"
    "io_now (vio d') = io_now (vio d)" "disk_ok d \<Longrightarrow> disk_ok d'"
proof -
  obtain s where s: "d' = d\<lparr>vio := s\<rparr>" "sched_suffix (vio d) s" using assms by (auto simp: after_reads_def)
  then show "tab d' = tab d" "errno d' = errno d" "io_now (vio d') = io_now (vio d)" by (simp_all add: sched_suffixD)
  show cb: "cluster_bytes d' = cluster_bytes d" using s by (simp add: cluster_bytes_def fun_eq_iff sched_suffixD)
  show "content d' = content d" by (rule ext) (simp add: content_def cb)
  show "disk_ok d'" if "disk_ok d"
    using that s steady_suffix [of "vio d" s] by (simp add: disk_ok_def fat_mirror_def sched_suffixD)
qed

lemma drop_concat_cluster:
  assumes "k + n \<le> b"
  shows "take n (drop (off + k) xs) = take n (drop k (take b (drop off xs)))"
proof -
  have "drop k (take b (drop off xs)) = take (b - k) (drop (off + k) xs)"
    by (simp add: drop_take add.commute)
  then show ?thesis using assms by (simp add: min_absorb1)
qed

lemma pread_loop_step:
  assumes "remaining \<noteq> 0" "fat_table_cluster_is_valid c"
    "fat_table_get_cluster_remaining_bytes (tab d) remaining off = n"
    "full_pread_at buf pos n (fat_table_cluster_offset (tab d) c + int (fat_table_mask_offset off (tab d))) (vio d)
      = Some (int n, buf', s')"
    "fat_table_get_next_cluster (tab d) c = Some m"
  shows "pread_loop buf pos off remaining c d
    = pread_loop buf' (pos + n) (off + int n) (remaining - n) m (d\<lparr>vio := s'\<rparr>)"
  using assms by (subst pread_loop.simps) simp

lemma mod_past_end:
  assumes "x mod b = k" "k < (b :: nat)"
  shows "(x + (b - k)) mod b = 0"
proof -
  have "x + (b - k) = x div b * b + b" using assms div_mult_mod_eq [of x b] by linarith
  then show ?thesis by simp
qed

text \<open>The range read from a chain is the part in the first cluster and the rest.\<close>

lemma read_split:
  assumes "length xs = b" "k < b" "n = min (b - k) r" "n = r \<or> k' = 0"
  shows "take r (drop k (xs @ ys)) = take n (drop k xs) @ take (r - n) (drop k' ys)"
  using assms by (cases "r \<le> b - k") (auto simp: min_def)

lemma pread_loop_spec:
  assumes "disk_ok d" "fat_chain (tab d) c cs" "0 \<le> off"
    "nat off mod fat_table_bytes_per_cluster (tab d) + remaining \<le> length (content d cs) \<or> remaining = 0"
    "pos + remaining \<le> length buf"
  shows "\<exists>d'. pread_loop buf pos off remaining c d = Some (0, take pos buf
      @ take remaining (drop (nat off mod fat_table_bytes_per_cluster (tab d)) (content d cs))
      @ drop (pos + remaining) buf, d') \<and> after_reads d d'"
  using assms
proof (induction cs arbitrary: c off remaining pos buf d)
  case Nil
  then have "remaining = 0" by auto
  then show ?case by (subst pread_loop.simps) (simp add: after_reads_refl)
next
  case (Cons x xs)
  define b where "b = fat_table_bytes_per_cluster (tab d)"
  define k where "k = nat off mod b"
  define n where "n = min (b - k) remaining"
  define co where "co = fat_table_cluster_offset (tab d) x"
  define k' where "k' = nat (off + int n) mod b"
  show ?case
  proof (cases "remaining = 0")
    case True
    then show ?thesis by (subst pread_loop.simps) (simp add: after_reads_refl)
  next
    case False
    have t: "table_wf (tab d)" and st: "steady (vio d)" using Cons.prems(1) by (simp_all add: disk_ok_def)
    from Cons.prems(2) obtain m where x: "c = x" "fat_table_is_valid_cluster_number (tab d) x"
      "fat_table_get_next_cluster (tab d) x = Some m" "fat_chain (tab d) m xs"
      by (auto split: option.splits)
    have k: "k < b" by (simp add: k_def b_def)
    have ins: "0 \<le> co" "nat co + b \<le> length (io_bytes (vio d))"
      using cluster_inside [OF Cons.prems(1) x(2)] by (simp_all add: co_def b_def)
    have mk: "fat_table_mask_offset off (tab d) = k"
      using Cons.prems(3) by (simp add: mask_offset_mod k_def b_def)
    have rn: "fat_table_get_cluster_remaining_bytes (tab d) remaining off = n"
      by (simp add: fat_table_get_cluster_remaining_bytes_def mk n_def b_def)
    have cl: "length (cluster_bytes d x) = b" using cluster_bytes_length [OF Cons.prems(1) x(2)] by (simp add: b_def)
    have nk: "k + n \<le> b" "n \<le> remaining" using k by (auto simp: n_def)
    have off: "nat (co + int k) = nat co + k" "0 \<le> co + int k" using ins(1) by (auto simp: nat_add_distrib)
    have noff: "nat (off + int n) = nat off + n" using Cons.prems(3) by (simp add: nat_add_distrib)
    have data: "take n (drop (nat co + k) (io_bytes (vio d))) = take n (drop k (cluster_bytes d x))"
      unfolding cluster_bytes_def co_def [symmetric] b_def [symmetric] using nk(1) by (rule drop_concat_cluster)
    have bound: "pos + n \<le> length buf" using Cons.prems(5) nk(2) by linarith
    have fit: "nat (co + int k) + n \<le> length (io_bytes (vio d))" unfolding off(1) using ins(2) nk(1) by linarith
    obtain s' where s': "full_pread_at buf pos n (co + int k) (vio d)
        = Some (int n, take pos buf @ take n (drop k (cluster_bytes d x)) @ drop (pos + n) buf, s')"
      "sched_suffix (vio d) s'"
      by (rule full_pread_at_short [OF steady_short [OF st] bound off(2) fit])
        (rule that, simp_all only: off(1) data)
    define buf2 where "buf2 = take pos buf @ take n (drop k (cluster_bytes d x)) @ drop (pos + n) buf"
    have ld: "length (take n (drop k (cluster_bytes d x))) = n" using cl nk by simp
    have lb: "length buf2 = length buf" unfolding buf2_def using ld bound by simp
    define d1 where "d1 = d\<lparr>vio := s'\<rparr>"
    have ar: "after_reads d d1" using s'(2) by (auto simp: after_reads_def d1_def)
    note keeps = after_reads_keeps [OF ar]
    have step: "pread_loop buf pos off remaining c d
        = pread_loop buf2 (pos + n) (off + int n) (remaining - n) m d1"
      unfolding x(1) d1_def buf2_def
      by (rule pread_loop_step [OF False valid_number_is_valid(1) [OF t x(2)] rn _ x(3)])
        (unfold mk co_def [symmetric], rule s'(1))
    have k': "n = remaining \<or> k' = 0"
    proof (cases "remaining \<le> b - k")
      case False
      then have "n = b - k" by (simp add: n_def)
      then have "k' = 0" unfolding k'_def noff using mod_past_end [OF k_def [symmetric] k] by (simp only:)
      then show ?thesis ..
    qed (simp add: n_def)
    have split: "take remaining (drop k (content d (x # xs)))
        = take n (drop k (cluster_bytes d x)) @ take (remaining - n) (drop k' (content d xs))"
      unfolding content_simps by (rule read_split [OF cl k n_def k'])
    have room: "k' + (remaining - n) \<le> length (content d xs) \<or> remaining - n = 0"
      using k' Cons.prems(4) False cl k nk(1) unfolding content_simps k_def [symmetric] b_def [symmetric]
      by (auto simp: n_def min_def)
    have len: "pos + n + (remaining - n) \<le> length buf2" using lb Cons.prems(5) nk(2) by linarith
    have "0 \<le> off + int n" using Cons.prems(3) by linarith
    then obtain d' where d': "pread_loop buf2 (pos + n) (off + int n) (remaining - n) m d1
        = Some (0, take (pos + n) buf2 @ take (remaining - n) (drop k' (content d xs))
          @ drop (pos + n + (remaining - n)) buf2, d')" "after_reads d1 d'"
      using Cons.IH [of d1 m "off + int n" "remaining - n" "pos + n" buf2] keeps(6) [OF Cons.prems(1)] x(4) room len
      unfolding keeps(1,4) k'_def b_def by blast
    have "take (pos + n) buf2 = take pos buf @ take n (drop k (cluster_bytes d x))"
      unfolding buf2_def using ld bound by simp
    moreover have "drop (pos + n + (remaining - n)) buf2 = drop (pos + remaining) buf"
      unfolding buf2_def using ld bound nk(2) by (simp add: add.commute)
    ultimately have fin: "pread_loop buf2 (pos + n) (off + int n) (remaining - n) m d1
      = Some (0, take pos buf @ take remaining (drop k (content d (x # xs))) @ drop (pos + remaining) buf, d')"
      using d'(1) unfolding split by (simp only: append_assoc)
    show ?thesis unfolding b_def [symmetric] k_def [symmetric]
      by (intro exI conjI, rule trans [OF step fin], rule after_reads_trans [OF ar d'(2)])
  qed
qed

lemma write_dir_entry_total:
  assumes "dentry file = Some de" "dentry_wf de"
  obtains d' where "write_dir_entry parent file d = Some d'"
proof -
  have "\<exists>r s. sys_pwrite (dentry_bytes de) 0 32 off (vio d) = Some (r, s)" for off
    using assms(2) by (auto simp: sys_pwrite_def next_outcome_def buf_load_def split: list.splits io_result.splits)
  then show thesis using assms(1) that by (fastforce simp: write_dir_entry_def Let_def)
qed

lemma fill_now_keeps [simp]:
  "base_name (snd (fill_dentry_time_now de c m now)) = base_name de"
  "extension (snd (fill_dentry_time_now de c m now)) = extension de"
  "file_size (snd (fill_dentry_time_now de c m now)) = file_size de"
  "start_cluster_low (snd (fill_dentry_time_now de c m now)) = start_cluster_low de"
  "fat32_start_cluster_high (snd (fill_dentry_time_now de c m now)) = fat32_start_cluster_high de"
  "attribs (snd (fill_dentry_time_now de c m now)) = attribs de"
  by (simp_all add: fill_dentry_time_now_def fill_time_def Let_def)

lemma fill_now_wf [simp]: "dentry_wf (snd (fill_dentry_time_now de c m now)) = dentry_wf de"
  by (simp add: dentry_wf_def)

text \<open>A file whose clusters are \<open>cs\<close> and whose recorded size they can hold.\<close>

definition file_ok :: "disk \<Rightarrow> fat_file \<Rightarrow> u32 list \<Rightarrow> bool" where
  "file_ok d file cs \<longleftrightarrow> fat_chain (tab d) (start_cluster file) cs \<and> cs \<noteq> []
     \<and> (\<exists>de. dentry file = Some de \<and> dentry_wf de \<and> unat (file_size de) \<le> length (content d cs))"

lemma chain_drop:
  assumes "fat_chain t c cs" "n < length cs"
  shows "fat_chain t (cs ! n) (drop n cs)"
proof -
  have "cs = take n cs @ cs ! n # drop (Suc n) cs" using assms(2) by (simp add: id_take_nth_drop)
  with assms(1) have "fat_chain t c (take n cs @ cs ! n # drop (Suc n) cs)" by simp
  then have "fat_chain t (cs ! n) (cs ! n # drop (Suc n) cs)" by (rule fat_chain_suffix)
  then show ?thesis using assms(2) by (simp add: Cons_nth_drop_Suc)
qed

lemma content_drop:
  assumes "disk_ok d" "\<forall>c \<in> set cs. fat_table_is_valid_cluster_number (tab d) c" "n \<le> length cs"
  shows "content d (drop n cs) = drop (n * fat_table_bytes_per_cluster (tab d)) (content d cs)"
proof -
  have "content d cs = content d (take n cs) @ content d (drop n cs)"
    by (simp only: append_take_drop_id content_simps(3) [symmetric])
  moreover have "length (content d (take n cs)) = n * fat_table_bytes_per_cluster (tab d)"
    using assms by (subst content_length) (auto dest: in_set_takeD)
  ultimately show ?thesis by simp
qed

text \<open>Seeking an offset inside the file.\<close>

lemma file_seek:
  assumes "disk_ok d" "file_ok d file cs" "dentry file = Some de" "off \<le> unat (file_size de)"
  defines "q \<equiv> off div fat_table_bytes_per_cluster (tab d)"
  shows "\<forall>c \<in> set cs. fat_table_is_valid_cluster_number (tab d) c"
    "length (content d cs) = length cs * fat_table_bytes_per_cluster (tab d)"
    "\<not> int off > uint (file_size de)"
    "fat_table_seek_cluster (tab d) (start_cluster file) (int off) (vio d) =
      (if q < length cs then Some (cs ! q, vio d)
       else if q = length cs then Some (FAT_CLUSTER_END_OF_CHAIN_MAX, vio d)
       else Some (0, set_errno EOVERFLOW (vio d)))"
proof -
  let ?b = "fat_table_bytes_per_cluster (tab d)"
  have t: "table_wf (tab d)" using assms(1) by (simp add: disk_ok_def)
  have fo: "fat_chain (tab d) (start_cluster file) cs" using assms(2,3) by (auto simp: file_ok_def)
  show valid: "\<forall>c \<in> set cs. fat_table_is_valid_cluster_number (tab d) c"
    using fat_chain_validD [OF fo] by blast
  show "length (content d cs) = length cs * ?b" by (rule content_length [OF assms(1) valid])
  have "unat (file_size de) < 2 ^ LENGTH(32)" by (rule unsigned_less)
  then have "off < 2 ^ 32" using assms(4) by simp
  then have "q < 2 ^ 32" unfolding q_def using div_le_dividend [of off ?b] by linarith
  then show "fat_table_seek_cluster (tab d) (start_cluster file) (int off) (vio d) =
      (if q < length cs then Some (cs ! q, vio d)
       else if q = length cs then Some (FAT_CLUSTER_END_OF_CHAIN_MAX, vio d)
       else Some (0, set_errno EOVERFLOW (vio d)))"
    unfolding q_def using seek_cluster_chain_lib [OF t fo, of "int off" "vio d"] by (simp add: Let_def)
  show "\<not> int off > uint (file_size de)" using assms(4) by (metis of_nat_le_iff of_nat_unat ucast_id uint_nat linorder_not_le)
qed

lemma pread_data:
  assumes "disk_ok d" "file_ok d file cs" "dentry file = Some de" "off + n \<le> unat (file_size de)" "0 < n" "n \<le> length buf"
  obtains c d1 where "fat_table_seek_cluster (tab d) (start_cluster file) (int off) (vio d) = Some (c, vio d)"
    "pread_loop buf 0 (int off) n c d = Some (0, take n (drop off (content d cs)) @ drop n buf, d1)" "after_reads d d1"
proof -
  let ?b = "fat_table_bytes_per_cluster (tab d)" and ?q = "off div fat_table_bytes_per_cluster (tab d)"
  have fo: "fat_chain (tab d) (start_cluster file) cs" "unat (file_size de) \<le> length (content d cs)"
    using assms(2,3) by (auto simp: file_ok_def)
  note F = file_seek [OF assms(1-3), of off]
  have "off \<le> unat (file_size de)" using assms(4) by simp
  note F = F [OF this]
  have "off < length cs * ?b" using assms(4,5) fo(2) F(2) by linarith
  then have q: "?q < length cs" by (simp add: less_mult_imp_div_less)
  have cd: "content d (drop ?q cs) = drop (?q * ?b) (content d cs)"
    using q by (intro content_drop [OF assms(1) F(1)]) simp
  have dd: "drop (off mod ?b) (content d (drop ?q cs)) = drop off (content d cs)"
    unfolding cd drop_drop by (simp add: add.commute)
  have "?q * ?b + off mod ?b + n \<le> length (content d cs)" using fo(2) assms(4) unfolding div_mult_mod_eq by linarith
  then have "off mod ?b + n \<le> length (content d (drop ?q cs))" unfolding cd length_drop by linarith
  moreover have "0 + n \<le> length buf" using assms(6) by simp
  ultimately obtain d1 where d1: "pread_loop buf 0 (int off) n (cs ! ?q) d
      = Some (0, take n (drop off (content d cs)) @ drop n buf, d1)" "after_reads d d1"
    using pread_loop_spec [OF assms(1) chain_drop [OF fo(1) q], of "int off" n 0 buf] by (auto simp: dd)
  show thesis by (rule that [OF _ d1]) (use F(4) q in simp)
qed

text \<open>The entry of the file in its directory is written afterwards; the other entries stay.\<close>

lemma entry_at_splice:
  assumes "length (cluster_bytes d p) = b" "32 dvd b" "32 * j < b" "i * 32 < b"
    "cluster_bytes d' p = splice_at (cluster_bytes d p) (i * 32) (dentry_bytes de)" "dentry_wf de"
  shows "entry_at d' p j = (if j = i then de else entry_at d p j)"
proof -
  from assms(2) obtain m where m: "b = 32 * m" by auto
  with assms(3,4) have lt: "j < m" "i < m" by simp_all
  then have "32 * Suc j \<le> 32 * m" "32 * Suc i \<le> 32 * m" by (intro mult_le_mono2; simp)+
  then have fit: "32 * j + 32 \<le> b" "i * 32 + length (dentry_bytes de) \<le> length (cluster_bytes d p)"
    using m assms(1,6) by simp_all
  show ?thesis
  proof (cases "j = i")
    case True
    have "take (length (dentry_bytes de)) (drop (i * 32) (cluster_bytes d' p)) = dentry_bytes de"
      unfolding assms(5) by (rule splice_read_back)
    then show ?thesis using True assms(6) by (simp add: entry_at_def dentry_of_bytes mult.commute)
  next
    case False
    then have "32 * j + 32 \<le> i * 32 \<or> i * 32 + 32 \<le> 32 * j" by linarith
    then have "take 32 (drop (32 * j) (cluster_bytes d' p)) = take 32 (drop (32 * j) (cluster_bytes d p))"
      unfolding assms(5) using fit assms(1,6) by (intro splice_other) simp_all
    then show ?thesis using False by (simp add: entry_at_def)
  qed
qed

lemma entry_kept:
  assumes "disk_ok d" "entries_fit d" "fat_table_is_valid_cluster_number (tab d) (start_cluster parent)"
    "dentry file = Some de" "dentry_wf de" "unat (pos_in_parent file) * 32 < fat_table_bytes_per_cluster (tab d)"
  obtains d' where "write_dir_entry parent file d = Some d'" "disk_ok d'" "tab d' = tab d"
    "\<forall>j. 32 * j < fat_table_bytes_per_cluster (tab d) \<longrightarrow> entry_at d' (start_cluster parent) j
      = (if j = unat (pos_in_parent file) then de else entry_at d (start_cluster parent) j)"
    "\<forall>c. fat_table_is_valid_cluster_number (tab d) c \<and> c \<noteq> start_cluster parent \<longrightarrow> cluster_bytes d' c = cluster_bytes d c"
proof -
  let ?p = "start_cluster parent" and ?i = "unat (pos_in_parent file)"
  obtain d' where d': "write_dir_entry parent file d = Some d'" "disk_ok d'" "tab d' = tab d"
    "cluster_bytes d' ?p = splice_at (cluster_bytes d ?p) (?i * 32) (dentry_bytes de)"
    "\<forall>c. fat_table_is_valid_cluster_number (tab d) c \<and> c \<noteq> ?p \<longrightarrow> cluster_bytes d' c = cluster_bytes d c"
    using write_dir_entry_ex [OF assms] by blast
  have "32 dvd fat_table_bytes_per_cluster (tab d)" using assms(2) by (simp add: entries_fit_def)
  then have "entry_at d' ?p j = (if j = ?i then de else entry_at d ?p j)" if "32 * j < fat_table_bytes_per_cluster (tab d)" for j
    by (rule entry_at_splice [OF cluster_bytes_length [OF assms(1,3)] _ that assms(6) d'(4) assms(5)])
  with d' that show thesis by blast
qed

text \<open>
  C16: reading a file gives the bytes its cluster chain holds, cut at the size in its directory
  entry, however the device splits the transfers and wherever the range crosses clusters.  The
  table and every cluster but the directory's stay as they were; in the directory only the entry of
  the file is written again, with the new time of access and the same size and name.
\<close>

theorem fat_file_pread_content:
  assumes "disk_ok d" "entries_fit d" "file_ok d file cs" "dentry file = Some de"
    "off \<le> unat (file_size de)" "sz \<le> length buf"
    "fat_table_is_valid_cluster_number (tab d) (start_cluster parent)"
    "unat (pos_in_parent file) * 32 < fat_table_bytes_per_cluster (tab d)"
  shows "\<exists>file' d'. fat_file_pread file buf sz (int off) parent d
      = Some (int (min sz (unat (file_size de) - off)),
          take (min sz (unat (file_size de) - off)) (drop off (content d cs))
            @ drop (min sz (unat (file_size de) - off)) buf, file', d')
    \<and> disk_ok d' \<and> tab d' = tab d \<and> start_cluster file' = start_cluster file
    \<and> (\<exists>de'. dentry file' = Some de' \<and> file_size de' = file_size de \<and> base_name de' = base_name de
         \<and> extension de' = extension de)
    \<and> (\<forall>c. fat_table_is_valid_cluster_number (tab d) c \<and> c \<noteq> start_cluster parent
          \<longrightarrow> cluster_bytes d' c = cluster_bytes d c)
    \<and> (\<forall>j. 32 * j < fat_table_bytes_per_cluster (tab d) \<and> j \<noteq> unat (pos_in_parent file)
          \<longrightarrow> entry_at d' (start_cluster parent) j = entry_at d (start_cluster parent) j)
    \<and> (entry_at d' (start_cluster parent) (unat (pos_in_parent file)) = the (dentry file') \<or> d' = d)"
proof (cases "min sz (unat (file_size de) - off) = 0")
  case True
  then have "fat_file_pread file buf sz (int off) parent d = Some (0, buf, file, d)"
    using assms(4) file_seek(3) [OF assms(1,3-5)] by (simp add: fat_file_pread_def nat_diff_distrib')
  with True assms(1,4) show ?thesis by auto
next
  case False
  let ?n = "min sz (unat (file_size de) - off)" and ?p = "start_cluster parent"
  have sz: "nat (uint (file_size de) - int off) = unat (file_size de) - off" by (simp add: nat_diff_distrib')
  have e0: "errno d = 0" using assms(1) by (simp add: disk_ok_def)
  have "off + ?n \<le> unat (file_size de)" "0 < ?n" "?n \<le> length buf" using False assms(5,6) by auto
  then obtain c d1 where d1: "fat_table_seek_cluster (tab d) (start_cluster file) (int off) (vio d) = Some (c, vio d)"
    "pread_loop buf 0 (int off) ?n c d = Some (0, take ?n (drop off (content d cs)) @ drop ?n buf, d1)" "after_reads d d1"
    by (rule pread_data [OF assms(1,3,4)])
  note K = after_reads_keeps [OF d1(3)]
  define de' where "de' = snd (fill_dentry_time_now de False False (io_now (vio d1)))"
  define file' where "file' = file\<lparr>dentry := Some de'\<rparr>"
  have de': "dentry_wf de'" "file_size de' = file_size de" "base_name de' = base_name de" "extension de' = extension de"
    using assms(3,4) by (simp_all add: de'_def dentry_wf_def file_ok_def)
  have ents: "entry_at d1 q j = entry_at d q j" for q j by (simp add: entry_at_def K(3))
  have "entries_fit d1" using assms(2) by (simp add: entries_fit_def K(1))
  moreover have "fat_table_is_valid_cluster_number (tab d1) ?p" "dentry file' = Some de'"
    "unat (pos_in_parent file') * 32 < fat_table_bytes_per_cluster (tab d1)"
    using assms(7,8) by (simp_all add: file'_def K(1))
  ultimately obtain d2 where d2: "write_dir_entry parent file' d1 = Some d2" "disk_ok d2" "tab d2 = tab d1"
    "\<forall>j. 32 * j < fat_table_bytes_per_cluster (tab d1) \<longrightarrow> entry_at d2 ?p j
      = (if j = unat (pos_in_parent file') then de' else entry_at d1 ?p j)"
    "\<forall>c. fat_table_is_valid_cluster_number (tab d1) c \<and> c \<noteq> ?p \<longrightarrow> cluster_bytes d2 c = cluster_bytes d1 c"
    using entry_kept [OF K(6) [OF assms(1)], of parent file' de'] de'(1) by metis
  have "fat_file_pread file buf sz (int off) parent d
      = Some (int ?n, take ?n (drop off (content d cs)) @ drop ?n buf, file', d2)"
    using assms(4) file_seek(3) [OF assms(1,3-5)] d1(1,2) d2(1) e0
    by (simp add: fat_file_pread_def sz Let_def if_not_P [OF False] flip: de'_def file'_def)
  with d2 de' assms(8) show ?thesis
    by (intro exI [of _ file'] exI [of _ d2]) (simp add: K(1,3) ents file'_def mult.commute)
qed

text \<open>A small volume for the examples: a file in clusters 2 and 4, a directory in 3, 5 is free.\<close>

definition sample_map :: "u32 list" where
  "sample_map = [0x0FFFFFF8, 0x0FFFFFFF, 4, 0x0FFFFFFF, 0x0FFFFFFF, 0]"

definition sample_disk :: disk where
  "sample_disk = \<lparr>tab = \<lparr>fat_map = sample_map, fat_offset = 0, num_data_clusters = 4,
       data_start_offset = 24, cluster_order = 5\<rparr>,
     vio = \<lparr>io_bytes = concat (map le32_bytes sample_map) @ replicate 32 65 @ replicate 32 0
         @ replicate 32 66 @ replicate 32 0, io_sched = [], io_errno = 0, io_now = 0\<rparr>\<rparr>"

definition sample_entry :: fat_dir_entry where
  "sample_entry = (dentry_of (cstr ''A       TXT'' @ replicate 21 0))\<lparr>start_cluster_low := 2, file_size := 40\<rparr>"

definition sample_file :: fat_file where
  "sample_file = (fat_file_init_empty (cstr ''/A.TXT''))\<lparr>dentry := Some sample_entry, start_cluster := 2\<rparr>"

definition sample_dir :: fat_file where
  "sample_dir = (fat_file_init_empty (cstr ''/''))\<lparr>start_cluster := 3\<rparr>"

lemma sample_disk_ok: "disk_ok sample_disk" "entries_fit sample_disk"
proof -
  have "fat_mirror (tab sample_disk) (vio sample_disk)"
    by (rule fat_mirror_layout [where pre = "[]"]) (simp_all add: sample_disk_def)
  then show "disk_ok sample_disk"
    by (simp add: disk_ok_def table_wf_def steady_def data_end_def sample_disk_def sample_map_def
        fat_table_bytes_per_cluster_def length_entries)
  show "entries_fit sample_disk"
    by (simp add: entries_fit_def sample_disk_def fat_table_bytes_per_cluster_def)
qed

lemma sample_valid: "fat_table_is_valid_cluster_number (tab sample_disk) c \<longleftrightarrow> 2 \<le> c \<and> c < 6"
  by (simp add: fat_table_is_valid_cluster_number_def sample_disk_def)

lemma sample_sizes: "length (fat_map (tab sample_disk)) = 6" "fat_table_bytes_per_cluster (tab sample_disk) = 32"
  "errno sample_disk = 0" "num_data_clusters (tab sample_disk) = 4"
  by (simp_all add: sample_disk_def sample_map_def fat_table_bytes_per_cluster_def)

lemma sample_chain: "fat_chain (tab sample_disk) 2 [2, 4]" "fat_chain (tab sample_disk) 3 [3]"
  by (simp_all add: fat_table_get_next_cluster_def array_get_def fat_table_is_valid_cluster_number_def
      sample_disk_def sample_map_def)

lemma sample_entry_wf: "dentry_wf sample_entry" "file_size sample_entry = 40"
  by (simp_all add: sample_entry_def dentry_wf_def dentry_of_def cstr_def)

lemma sample_file_ok: "file_ok sample_disk sample_file [2, 4]" "dentry sample_file = Some sample_entry"
proof -
  show "dentry sample_file = Some sample_entry" by (simp add: sample_file_def)
  have "length (content sample_disk [2, 4]) = 2 * fat_table_bytes_per_cluster (tab sample_disk)"
    using content_length [OF sample_disk_ok(1), of "[2, 4]"] by (simp add: sample_valid)
  then have "length (content sample_disk [2, 4]) = 64"
    by (simp add: sample_disk_def fat_table_bytes_per_cluster_def)
  then show "file_ok sample_disk sample_file [2, 4]"
    using sample_chain(1) sample_entry_wf by (simp add: file_ok_def sample_file_def)
qed

theorem fat_file_pread_content_witness:
  "\<exists>file' d'. fat_file_pread sample_file (replicate 10 0) 10 30 sample_dir sample_disk
     = Some (10, take 10 (drop 30 (content sample_disk [2, 4])), file', d')
       \<and> cluster_bytes d' 2 = cluster_bytes sample_disk 2"
proof -
  have "start_cluster sample_dir = 3" "pos_in_parent sample_file = 0"
    by (simp_all add: sample_dir_def sample_file_def fat_file_init_empty_def)
  then show ?thesis
    using fat_file_pread_content [OF sample_disk_ok sample_file_ok, of 30 10 "replicate 10 0" sample_dir]
    by (auto simp: sample_entry_wf sample_valid sample_sizes)
qed

section \<open>Deleting and truncating\<close>

lemma chain_head_next:
  assumes "fat_chain t c (x # xs)"
  obtains n where "c = x" "fat_table_is_valid_cluster_number t x" "fat_table_get_next_cluster t x = Some n"
    "fat_chain t n xs"
  using assms by (auto split: option.splits)

lemma free_whole_chain:
  assumes "disk_ok d" "fat_chain (tab d) c (c # cs)"
  obtains n d1 d2 where "fat_table_get_next_cluster (tab d) c = Some n" "set_next c FAT_CLUSTER_FREE d = Some d1"
    "errno d1 = 0" "free_chain_loop n d1 = Some d2" "table_step d d2"
    "tab d2 = (tab d)\<lparr>fat_map := freed (c # cs) (fat_map (tab d))\<rparr>"
proof -
  have t: "table_wf (tab d)" using assms(1) by (simp add: disk_ok_def)
  obtain n where n: "fat_table_is_valid_cluster_number (tab d) c" "fat_table_get_next_cluster (tab d) c = Some n"
    "fat_chain (tab d) n cs" using chain_head_next [OF assms(2)] by metis
  have notin: "c \<notin> set cs" using fat_chain_distinct [OF assms(2) t] by simp
  obtain d1 where d1: "set_next c FAT_CLUSTER_FREE d = Some d1" "table_step d d1"
    "tab d1 = (tab d)\<lparr>fat_map := (fat_map (tab d))[unat c := FAT_CLUSTER_FREE]\<rparr>"
    using set_next_step [OF assms(1) valid_number_is_valid(2) [OF t n(1)]] by metis
  have "fat_chain (tab d1) n cs" unfolding d1(3) using n(3) notin by (simp add: heap_simps)
  then obtain d2 where d2: "free_chain_loop n d1 = Some d2" "table_step d1 d2"
    "tab d2 = (tab d1)\<lparr>fat_map := freed cs (fat_map (tab d1))\<rparr>"
    using free_chain_loop_spec d1(2) unfolding table_step_def by blast
  moreover have "errno d1 = 0" using d1(2) by (simp add: table_step_def disk_ok_def)
  ultimately show thesis using that [OF n(2) d1(1)] table_step_trans [OF d1(2) d2(2)] d1(3) by simp
qed

lemma deleted_ignored: "length (base_name de) = 8 \<Longrightarrow>
    ignore_dentry (de\<lparr>base_name := (base_name de)[0 := FAT_FILENAME_DELETED_CHAR]\<rparr>)"
  by (simp add: ignore_dentry_def file_basename_valid_def)

lemma fat_file_delete_lib:
  assumes "disk_ok d" "entries_fit d" "file_ok d file cs"
    "fat_table_is_valid_cluster_number (tab d) (start_cluster parent)"
    "unat (pos_in_parent file) * 32 < fat_table_bytes_per_cluster (tab d)"
  shows "\<exists>file' d'. fat_file_delete file parent d = Some (file', d') \<and> disk_ok d' \<and> entries_fit d'
    \<and> (\<forall>i < length (fat_map (tab d)). fat_map (tab d') ! i = (if i \<in> unat ` set cs then 0 else fat_map (tab d) ! i))
    \<and> (\<forall>c xs. set xs \<inter> set cs = {} \<longrightarrow> fat_chain (tab d') c xs = fat_chain (tab d) c xs)
    \<and> (\<forall>c. fat_table_is_valid_cluster_number (tab d) c \<and> c \<noteq> start_cluster parent \<longrightarrow> cluster_bytes d' c = cluster_bytes d c)
    \<and> ignore_dentry (entry_at d' (start_cluster parent) (unat (pos_in_parent file)))
    \<and> (\<forall>j. 32 * j < fat_table_bytes_per_cluster (tab d) \<and> j \<noteq> unat (pos_in_parent file) \<longrightarrow>
         entry_at d' (start_cluster parent) j = entry_at d (start_cluster parent) j)"
proof -
  let ?p = "start_cluster parent" and ?i = "unat (pos_in_parent file)"
  from assms(3) obtain de where fo: "fat_chain (tab d) (start_cluster file) cs" "cs \<noteq> []"
    "dentry file = Some de" "dentry_wf de" by (auto simp: file_ok_def)
  then obtain cs' where cs: "cs = start_cluster file # cs'" by (cases cs) auto
  obtain n d1 d2 where f: "fat_table_get_next_cluster (tab d) (start_cluster file) = Some n"
    "set_next (start_cluster file) FAT_CLUSTER_FREE d = Some d1" "errno d1 = 0" "free_chain_loop n d1 = Some d2"
    "table_step d d2" "tab d2 = (tab d)\<lparr>fat_map := freed cs (fat_map (tab d))\<rparr>"
    using free_whole_chain [OF assms(1)] fo(1) unfolding cs by metis
  let ?de = "snd (fill_dentry_time_now (de\<lparr>file_size := 0\<rparr>) False True (io_now (vio d2)))"
  let ?de' = "?de\<lparr>base_name := (base_name ?de)[0 := FAT_FILENAME_DELETED_CHAR]\<rparr>"
  let ?file' = "file\<lparr>dentry := Some ?de'\<rparr>"
  have wf: "dentry_wf (de\<lparr>file_size := 0\<rparr>)" using fo(4) by (simp add: dentry_wf_def)
  then have wf': "dentry_wf ?de'" using fill_now_wf [of "de\<lparr>file_size := 0\<rparr>"] by (simp add: dentry_wf_def)
  have b: "fat_table_bytes_per_cluster (tab d2) = fat_table_bytes_per_cluster (tab d)"
    using f(6) by (simp add: fat_table_bytes_per_cluster_def)
  have ok2: "disk_ok d2" using f(5) by (simp add: table_step_def)
  have fit2: "entries_fit d2" using assms(2) b by (simp add: entries_fit_def)
  have val2: "fat_table_is_valid_cluster_number (tab d2) c = fat_table_is_valid_cluster_number (tab d) c" for c
    by (rule table_step_valid [OF f(5)])
  obtain d3 where d3: "write_dir_entry parent ?file' d2 = Some d3" "disk_ok d3" "tab d3 = tab d2"
    "cluster_bytes d3 ?p = splice_at (cluster_bytes d2 ?p) (?i * 32) (dentry_bytes ?de')"
    "\<forall>c. fat_table_is_valid_cluster_number (tab d2) c \<and> c \<noteq> ?p \<longrightarrow> cluster_bytes d3 c = cluster_bytes d2 c"
    using write_dir_entry_ex [OF ok2 fit2, of parent ?file' ?de'] wf' assms(4,5) val2 b by auto
  have p2: "cluster_bytes d2 ?p = cluster_bytes d ?p" using f(5) assms(4) by (simp add: table_step_def)
  have entry: "entry_at d3 ?p j = (if j = ?i then ?de' else entry_at d ?p j)"
    if "32 * j < fat_table_bytes_per_cluster (tab d)" for j
    using entry_at_splice [OF cluster_bytes_length [OF assms(1,4)] _ that assms(5) d3(4) [unfolded p2] wf']
      assms(2) by (simp add: entries_fit_def)
  have "fat_file_delete file parent d = Some (?file', d3)"
    using f(1-4) fo(3) d3(1) by (simp add: fat_file_delete_def Let_def)
  moreover have "ignore_dentry (entry_at d3 ?p ?i)"
  proof -
    have "ignore_dentry ?de'" by (rule deleted_ignored) (use wf in \<open>simp add: dentry_wf_def\<close>)
    then show ?thesis using entry [of ?i] assms(5) by (simp only: mult.commute if_True simp_thms)
  qed
  moreover have "entries_fit d3" using fit2 d3(3) by (simp add: entries_fit_def)
  ultimately show ?thesis
    using d3 f(5,6) val2 entry by (intro exI [of _ ?file'] exI [of _ d3])
      (auto simp: freed_nth fat_chain_freed table_step_def)
qed

text \<open>
  C17: deleting a file frees exactly the clusters of its chain, leaves every other chain and the
  data of every other cluster alone, and marks the entry in the parent so that a later read of the
  directory skips it, without changing the other entries.
\<close>

theorem fat_file_delete_frees:
  assumes "disk_ok d" "entries_fit d" "file_ok d file cs"
    "fat_table_is_valid_cluster_number (tab d) (start_cluster parent)"
    "unat (pos_in_parent file) * 32 < fat_table_bytes_per_cluster (tab d)"
  shows "\<exists>file' d'. fat_file_delete file parent d = Some (file', d') \<and> disk_ok d'
    \<and> (\<forall>i < length (fat_map (tab d)). fat_map (tab d') ! i = (if i \<in> unat ` set cs then 0 else fat_map (tab d) ! i))
    \<and> (\<forall>c xs. set xs \<inter> set cs = {} \<longrightarrow> fat_chain (tab d') c xs = fat_chain (tab d) c xs)
    \<and> (\<forall>c. fat_table_is_valid_cluster_number (tab d) c \<and> c \<noteq> start_cluster parent \<longrightarrow> cluster_bytes d' c = cluster_bytes d c)
    \<and> ignore_dentry (entry_at d' (start_cluster parent) (unat (pos_in_parent file)))
    \<and> (\<forall>j. 32 * j < fat_table_bytes_per_cluster (tab d) \<and> j \<noteq> unat (pos_in_parent file) \<longrightarrow>
         entry_at d' (start_cluster parent) j = entry_at d (start_cluster parent) j)"
  using fat_file_delete_lib [OF assms] by blast

theorem fat_file_delete_frees_witness:
  "\<exists>file' d'. fat_file_delete sample_file sample_dir sample_disk = Some (file', d')
     \<and> fat_map (tab d') ! 2 = 0 \<and> fat_map (tab d') ! 4 = 0 \<and> fat_chain (tab d') 3 [3]"
proof -
  have dir: "start_cluster sample_dir = 3" "pos_in_parent sample_file = 0"
    by (simp_all add: sample_dir_def sample_file_def fat_file_init_empty_def)
  from fat_file_delete_frees [OF sample_disk_ok sample_file_ok(1), of sample_dir] obtain file' d'
    where r: "fat_file_delete sample_file sample_dir sample_disk = Some (file', d')"
      "\<forall>i < 6. fat_map (tab d') ! i = (if i \<in> unat ` set [2 :: u32, 4] then 0 else fat_map (tab sample_disk) ! i)"
      "\<forall>c xs. set xs \<inter> set [2, 4] = {} \<longrightarrow> fat_chain (tab d') c xs = fat_chain (tab sample_disk) c xs"
    by (auto simp: dir sample_valid sample_sizes)
  have "fat_chain (tab d') 3 [3]" using r(3) [rule_format, of "[3]" 3] sample_chain(2) by (simp del: fat_chain.simps)
  moreover have "fat_map (tab d') ! 2 = 0" "fat_map (tab d') ! 4 = 0" using r(2) by simp_all
  ultimately show ?thesis using r(1) by blast
qed

text \<open>The chain is cut behind the cluster \<open>x\<close> and the rest is freed.\<close>

lemma cut_and_free:
  assumes "disk_ok d" "fat_chain (tab d) c0 (keep @ x # rest)"
  obtains n d1 d2 where "fat_table_get_next_cluster (tab d) x = Some n" "set_next x FAT_CLUSTER_END_OF_CHAIN_MAX d = Some d1" "errno d1 = 0"
    "free_chain_loop n d1 = Some d2" "fat_chain (tab d2) c0 (keep @ [x])" "\<forall>c \<in> set rest. fat_map (tab d2) ! unat c = 0"
    "\<forall>c xs. set xs \<inter> set (keep @ x # rest) = {} \<longrightarrow> fat_chain (tab d2) c xs = fat_chain (tab d) c xs"
proof -
  have t: "table_wf (tab d)" using assms(1) by (simp add: disk_ok_def)
  note valid = fat_chain_validD [OF assms(2)]
  have dist: "distinct (keep @ x # rest)" by (rule fat_chain_distinct [OF assms(2) t])
  obtain n where n: "fat_table_is_valid_cluster_number (tab d) x" "fat_table_get_next_cluster (tab d) x = Some n"
    "fat_chain (tab d) n rest"
    using chain_head_next [OF fat_chain_suffix [OF assms(2)]] by metis
  obtain d1 where d1: "set_next x FAT_CLUSTER_END_OF_CHAIN_MAX d = Some d1" "table_step d d1"
    "tab d1 = (tab d)\<lparr>fat_map := (fat_map (tab d))[unat x := FAT_CLUSTER_END_OF_CHAIN_MAX]\<rparr>"
    using set_next_step [OF assms(1) valid_number_is_valid(2) [OF t n(1)]] by metis
  have ok1: "disk_ok d1" using d1(2) by (simp add: table_step_def)
  have "x \<notin> set rest" using dist by auto
  then have "fat_chain (tab d1) n rest" unfolding d1(3) using n(3) by (simp add: heap_simps)
  then obtain d2 where d2: "free_chain_loop n d1 = Some d2" "tab d2 = (tab d1)\<lparr>fat_map := freed rest (fat_map (tab d1))\<rparr>"
    using free_chain_loop_spec [OF ok1] by blast
  have "fat_chain (tab d1) c0 (keep @ [x])"
    unfolding d1(3) using fat_chain_cut [OF t assms(2)] dist by auto
  then have chain: "fat_chain (tab d2) c0 (keep @ [x])"
    unfolding d2(2) using dist by (subst fat_chain_freed) auto
  have frees: "\<forall>c \<in> set rest. fat_map (tab d2) ! unat c = 0"
    unfolding d2(2) d1(3) using valid_number_is_valid(2) [OF t] valid by (simp add: freed_nth)
  have other: "fat_chain (tab d2) c xs = fat_chain (tab d) c xs" if "set xs \<inter> set (keep @ x # rest) = {}" for c xs
  proof -
    have "fat_chain (tab d2) c xs = fat_chain (tab d1) c xs"
      unfolding d2(2) using that by (intro fat_chain_freed) auto
    also have "\<dots> = fat_chain (tab d) c xs"
      unfolding d1(3) using that by (intro fat_chain_update_other) auto
    finally show ?thesis .
  qed
  show thesis by (rule that [OF n(2) d1(1) _ d2(1) chain frees]) (use ok1 other in \<open>auto simp: disk_ok_def\<close>)
qed

text \<open>
  C31: truncating inside the chain keeps the clusters up to the one that holds the new end, frees
  the others and records the new size.  At the very end of a chain that the file fills completely
  the seek gives the end-of-chain mark, which is then used as an index into the table: the
  operation faults although the size does not change.
\<close>

theorem fat_file_truncate_chain:
  assumes "disk_ok d" "file_ok d file cs" "dentry file = Some de" "off \<le> unat (file_size de)"
    "length (fat_map (tab d)) < 0x0FFFFFFF"
  shows "if off div fat_table_bytes_per_cluster (tab d) < length cs
    then \<exists>file' d'. fat_file_truncate file (int off) parent d = Some (file', d')
      \<and> (let keep = Suc (off div fat_table_bytes_per_cluster (tab d)) in
           fat_chain (tab d') (start_cluster file) (take keep cs)
           \<and> (\<forall>c \<in> set (drop keep cs). fat_map (tab d') ! unat c = 0)
           \<and> (\<forall>c xs. set xs \<inter> set cs = {} \<longrightarrow> fat_chain (tab d') c xs = fat_chain (tab d) c xs))
      \<and> (\<exists>de'. dentry file' = Some de' \<and> file_size de' = word_of_nat off)
    else fat_file_truncate file (int off) parent d = None"
proof -
  let ?b = "fat_table_bytes_per_cluster (tab d)" and ?q = "off div fat_table_bytes_per_cluster (tab d)"
  note F = file_seek [OF assms(1-4)]
  have e0: "errno d = 0" using assms(1) by (simp add: disk_ok_def)
  show ?thesis
  proof (cases "?q < length cs")
    case False
    have "off \<le> length cs * ?b" using assms(2-4) F(2) by (auto simp: file_ok_def)
    then have "?q \<le> length cs * ?b div ?b" by (rule div_le_mono)
    then have q: "?q = length cs" using False by simp
    have "array_get (fat_map (tab d)) (unat FAT_CLUSTER_END_OF_CHAIN_MAX) = None"
      using assms(5) by (simp add: array_get_def)
    then have "fat_table_get_next_cluster (tab d) FAT_CLUSTER_END_OF_CHAIN_MAX = None"
      by (simp add: fat_table_get_next_cluster_def)
    then have "fat_file_truncate file (int off) parent d = None"
      using assms(3) F(3,4) e0 q by (simp add: fat_file_truncate_def Let_def)
    with False show ?thesis by simp
  next
    case True
    have cs: "cs = take ?q cs @ cs ! ?q # drop (Suc ?q) cs" by (rule id_take_nth_drop [OF True])
    have "fat_chain (tab d) (start_cluster file) (take ?q cs @ cs ! ?q # drop (Suc ?q) cs)"
      using assms(2,3) cs by (auto simp: file_ok_def)
    then obtain n d1 d2 where r: "fat_table_get_next_cluster (tab d) (cs ! ?q) = Some n"
      "set_next (cs ! ?q) FAT_CLUSTER_END_OF_CHAIN_MAX d = Some d1" "errno d1 = 0" "free_chain_loop n d1 = Some d2"
      "fat_chain (tab d2) (start_cluster file) (take ?q cs @ [cs ! ?q])" "\<forall>c \<in> set (drop (Suc ?q) cs). fat_map (tab d2) ! unat c = 0"
      "\<forall>c xs. set xs \<inter> set (take ?q cs @ cs ! ?q # drop (Suc ?q) cs) = {} \<longrightarrow> fat_chain (tab d2) c xs = fat_chain (tab d) c xs"
      by (rule cut_and_free [OF assms(1)])
    note other = r(7) [unfolded arg_cong [where f = set, OF cs, symmetric]]
    let ?de = "snd (fill_dentry_time_now (de\<lparr>file_size := word_of_int (int off)\<rparr>) False True (io_now (vio d2)))"
    let ?file' = "file\<lparr>dentry := Some ?de\<rparr>"
    have "dentry_wf ?de" using assms(2,3) by (auto simp: dentry_wf_def file_ok_def)
    then obtain d3 where d3: "write_dir_entry parent ?file' d2 = Some d3"
      using write_dir_entry_total [of ?file' ?de parent d2] by auto
    have tab3: "tab d3 = tab d2" using d3 by (auto simp: write_dir_entry_def Let_def split: if_splits)
    have run: "fat_file_truncate file (int off) parent d = Some (?file', d3)"
      using assms(3) F(3,4) True e0 r(1-4) d3 by (simp add: fat_file_truncate_def Let_def)
    show ?thesis using True run r(5,6) other by (auto simp: Let_def tab3 take_Suc_conv_app_nth)
  qed
qed

theorem fat_file_truncate_chain_witness:
  "\<exists>file' d'. fat_file_truncate sample_file 7 sample_dir sample_disk = Some (file', d')
     \<and> fat_chain (tab d') 2 [2] \<and> fat_map (tab d') ! 4 = 0"
proof -
  have "start_cluster sample_file = 2" by (simp add: sample_file_def)
  with fat_file_truncate_chain [OF sample_disk_ok(1) sample_file_ok, of 7 sample_dir]
  show ?thesis by (auto simp: sample_entry_wf sample_sizes Let_def simp del: fat_chain.simps)
qed

end
