(* ===== verification/Fat_Directory.thy ===== *)
theory Fat_Directory
  imports Fat_File_Read
begin

text \<open>
  Reading the entries of a directory and adding one (\<open>fat_file_read_children\<close>,
  \<open>fat_file_dentry_add_child\<close> of \<open>fat_file.c\<close>).
\<close>

section \<open>Directories\<close>

lemma filename_len_total: "n \<le> length xs \<Longrightarrow> \<exists>k \<le> n. filename_len xs n = Some k"
  by (induction n) (auto simp: array_get_def le_SucI)

lemma init_file_cases:
  assumes "dentry_wf de" "filepath dir \<noteq> []"
  shows "if last (filepath dir) = PATH_SEPARATOR
    then \<exists>child. init_file_from_dentry de dir = Some child \<and> dentry child = Some de \<and> pos_in_parent child = nentries dir
    else init_file_from_dentry de dir = None"
proof -
  from assms(1) obtain i j where "filename_len (base_name de) 8 = Some i" "filename_len (extension de) 3 = Some j"
    using filename_len_total [of 8 "base_name de"] filename_len_total [of 3 "extension de"]
    by (auto simp: dentry_wf_def)
  then have "\<exists>nm. build_filename (base_name de) (extension de) = Some nm"
    by (auto simp: build_filename_def)
  then obtain nm where "build_filename (base_name de) (extension de) = Some nm" ..
  then show ?thesis
    using filepath_from_name_cases [OF assms(2), of nm] by (simp add: init_file_from_dentry_def)
qed

text \<open>What a file read from a directory records of its entry.\<close>

definition entry_view :: "fat_file \<Rightarrow> fat_dir_entry option \<times> u32" where
  "entry_view f = (dentry f, pos_in_parent f)"

definition used_entries :: "nat \<Rightarrow> fat_dir_entry list \<Rightarrow> (fat_dir_entry option \<times> u32) list" where
  "used_entries m des = map (\<lambda>(i, de). (Some de, word_of_nat i))
     (filter (\<lambda>(i, de). \<not> ignore_dentry de) (enumerate m des))"

lemma read_entries_spec:
  assumes "\<forall>de \<in> set des. dentry_wf de \<and> \<not> is_end_of_directory de" "filepath dir \<noteq> []"
    "last (filepath dir) = PATH_SEPARATOR \<or> (\<forall>de \<in> set des. ignore_dentry de)"
  shows "\<exists>cs. read_entries (des @ rest) (word_of_nat m) dir elems
      = read_entries rest (word_of_nat (m + length des))
          (dir\<lparr>nentries := if des = [] then nentries dir else word_of_nat (m + length des - 1)\<rparr>) (elems @ cs)
    \<and> map entry_view cs = used_entries m des"
  using assms
proof (induction des arbitrary: m dir elems)
  case Nil
  then show ?case by (auto simp: used_entries_def)
next
  case (Cons de des)
  let ?dir = "dir\<lparr>nentries := word_of_nat m\<rparr>"
  have p: "filepath ?dir \<noteq> []" using Cons.prems(2) by simp
  have "\<exists>child. ignore_dentry de \<or> init_file_from_dentry de ?dir = Some child \<and> entry_view child = (Some de, word_of_nat m)"
    using init_file_cases [of de ?dir] Cons.prems by (auto simp: entry_view_def)
  then obtain child where
    c: "ignore_dentry de \<or> init_file_from_dentry de ?dir = Some child \<and> entry_view child = (Some de, word_of_nat m)" ..
  let ?new = "if ignore_dentry de then [] else [child]"
  obtain cs where cs: "read_entries (des @ rest) (word_of_nat (Suc m)) ?dir (elems @ ?new)
      = read_entries rest (word_of_nat (Suc m + length des))
          (?dir\<lparr>nentries := if des = [] then nentries ?dir else word_of_nat (Suc m + length des - 1)\<rparr>)
          ((elems @ ?new) @ cs)"
    "map entry_view cs = used_entries (Suc m) des"
    using Cons.IH [of ?dir "Suc m" "elems @ ?new"] Cons.prems(1,3) p by auto
  have "read_entries ((de # des) @ rest) (word_of_nat m) dir elems
      = read_entries (des @ rest) (word_of_nat (Suc m)) ?dir (elems @ ?new)"
    using Cons.prems(1) c by (auto simp: Let_def add.commute)
  moreover have "map entry_view (?new @ cs) = used_entries m (de # des)"
    using cs(2) c by (auto simp: used_entries_def)
  moreover have "?dir\<lparr>nentries := if des = [] then nentries ?dir else word_of_nat (Suc m + length des - 1)\<rparr>
      = dir\<lparr>nentries := word_of_nat (m + length (de # des) - 1)\<rparr>" by auto
  ultimately show ?case using cs(1) by (intro exI [of _ "?new @ cs"]) simp
qed

text \<open>With a path that does not end in the separator the first entry in use faults.\<close>

lemma read_entries_fault:
  assumes "\<forall>de \<in> set des. dentry_wf de \<and> \<not> is_end_of_directory de" "filepath dir \<noteq> []"
    "last (filepath dir) \<noteq> PATH_SEPARATOR" "\<exists>de \<in> set des. \<not> ignore_dentry de"
  shows "read_entries (des @ rest) m dir elems = None"
  using assms
proof (induction des arbitrary: m dir elems)
  case (Cons de des)
  show ?case
  proof (cases "ignore_dentry de")
    case True
    then show ?thesis using Cons by (simp add: Let_def)
  next
    case False
    then show ?thesis using Cons.prems init_file_cases [of de "dir\<lparr>nentries := m\<rparr>"] by (simp add: Let_def)
  qed
qed simp

lemma length_entries_of [simp]: "length (entries_of buf) = length buf div 32"
  by (simp add: entries_of_def)

lemma entries_of_nth: "i < length buf div 32 \<Longrightarrow> entries_of buf ! i = dentry_of (take 32 (drop (32 * i) buf))"
  by (simp add: entries_of_def)

lemma entries_of_wf: "de \<in> set (entries_of buf) \<Longrightarrow> dentry_wf de"
  by (auto simp: entries_of_def dentry_wf_def dentry_of_def)

text \<open>A directory that occupies one cluster, and the entries in it.\<close>

definition dir_entries :: "disk \<Rightarrow> fat_file \<Rightarrow> fat_dir_entry list" where
  "dir_entries d dir = entries_of (cluster_bytes d (start_cluster dir))"

lemma dir_entries_nth:
  "i < length (dir_entries d dir) \<Longrightarrow> dir_entries d dir ! i = entry_at d (start_cluster dir) i"
  by (simp add: dir_entries_def entry_at_def entries_of_nth)

lemma read_one_cluster:
  assumes "disk_ok d" "fat_chain (tab d) (start_cluster dir) [start_cluster dir]"
    "read_entries (dir_entries d dir) 0 dir [] = Some (dir', cs)"
  shows "\<exists>d'. fat_file_read_children dir d = Some (Some cs, dir'\<lparr>children_read := True\<rparr>, d') \<and> after_reads d d'"
proof -
  let ?c = "start_cluster dir" and ?b = "fat_table_bytes_per_cluster (tab d)"
  have t: "table_wf (tab d)" and st: "steady (vio d)" using assms(1) by (simp_all add: disk_ok_def)
  have c: "fat_table_is_valid_cluster_number (tab d) ?c"
    "fat_table_get_next_cluster (tab d) ?c = Some FAT_CLUSTER_END_OF_CHAIN_MAX"
    using assms(2) by (auto split: option.splits)
  note ins = cluster_inside [OF assms(1) c(1)]
  obtain s' where s': "full_pread (replicate ?b 0) ?b (fat_table_cluster_offset (tab d) ?c) (vio d)
      = Some (int ?b, cluster_bytes d ?c, s')" "sched_suffix (vio d) s'"
    using full_pread_short [OF steady_short [OF st], of ?b "replicate ?b 0" "fat_table_cluster_offset (tab d) ?c"]
      ins by (auto simp: cluster_bytes_def)
  let ?d1 = "d\<lparr>vio := s'\<rparr>"
  have "read_children_loop ?c dir [] d
      = read_children_loop FAT_CLUSTER_END_OF_CHAIN_MAX dir' cs ?d1"
    using s'(1) valid_number_is_valid(1) [OF t c(1)] c(2) assms(3)
    by (subst read_children_loop.simps)
      (simp add: read_cluster_dir_entries_def dir_entries_def Let_def)
  also have "\<dots> = Some (Some cs, dir'\<lparr>children_read := True\<rparr>, ?d1)"
    by (subst read_children_loop.simps) simp
  finally show ?thesis using c(1) s'(2) by (auto simp: fat_file_read_children_def after_reads_def)
qed

lemma read_one_cluster_fault:
  assumes "disk_ok d" "fat_table_is_valid_cluster_number (tab d) (start_cluster dir)"
    "read_entries (dir_entries d dir) 0 dir [] = None"
  shows "fat_file_read_children dir d = None"
proof -
  let ?c = "start_cluster dir" and ?b = "fat_table_bytes_per_cluster (tab d)"
  have t: "table_wf (tab d)" and st: "steady (vio d)" using assms(1) by (simp_all add: disk_ok_def)
  note ins = cluster_inside [OF assms(1,2)]
  obtain s' where s': "full_pread (replicate ?b 0) ?b (fat_table_cluster_offset (tab d) ?c) (vio d)
      = Some (int ?b, cluster_bytes d ?c, s')"
    using full_pread_short [OF steady_short [OF st], of ?b "replicate ?b 0" "fat_table_cluster_offset (tab d) ?c"]
      ins by (auto simp: cluster_bytes_def)
  then have "read_children_loop ?c dir [] d = None"
    using valid_number_is_valid(1) [OF t assms(2)] assms(3)
    by (subst read_children_loop.simps) (simp add: read_cluster_dir_entries_def dir_entries_def)
  then show ?thesis using assms(2) by (simp add: fat_file_read_children_def)
qed

lemma add_child_entry:
  assumes "disk_ok d" "entries_fit d" "fat_table_is_valid_cluster_number (tab d) (start_cluster parent)"
    "dentry child = Some de" "dentry_wf de" "unat (nentries parent) * 32 < fat_table_bytes_per_cluster (tab d)"
  shows "\<exists>d'. fat_file_dentry_add_child parent child d
        = Some (parent\<lparr>nentries := nentries parent + 1\<rparr>, child\<lparr>pos_in_parent := nentries parent\<rparr>, d')
    \<and> disk_ok d' \<and> tab d' = tab d
    \<and> (\<forall>j. 32 * j < fat_table_bytes_per_cluster (tab d) \<longrightarrow> entry_at d' (start_cluster parent) j
          = (if j = unat (nentries parent) then de else entry_at d (start_cluster parent) j))"
proof -
  let ?child = "child\<lparr>pos_in_parent := nentries parent\<rparr>"
  obtain d' where d': "write_dir_entry parent ?child d = Some d'" "disk_ok d'" "tab d' = tab d"
    "cluster_bytes d' (start_cluster parent) = splice_at (cluster_bytes d (start_cluster parent))
       (unat (nentries parent) * 32) (dentry_bytes de)"
    using write_dir_entry_ex [OF assms(1-3), of ?child de] assms(4-6) by auto
  have "errno d' = 0" using d'(2) by (simp add: disk_ok_def)
  then have "fat_file_dentry_add_child parent child d
      = Some (parent\<lparr>nentries := nentries parent + 1\<rparr>, ?child, d')"
    using d'(1) by (simp add: fat_file_dentry_add_child_def)
  moreover have "entry_at d' (start_cluster parent) j
      = (if j = unat (nentries parent) then de else entry_at d (start_cluster parent) j)"
    if "32 * j < fat_table_bytes_per_cluster (tab d)" for j
    using entry_at_splice [OF cluster_bytes_length [OF assms(1,3)] _ that assms(6) d'(4) assms(5)] assms(2)
    by (simp add: entries_fit_def)
  ultimately show ?thesis using d'(2,3) by blast
qed

lemma small_entries:
  assumes "disk_ok d" "k \<le> fat_table_bytes_per_cluster (tab d)"
  shows "unat (word_of_nat k :: u32) = k"
proof -
  have "unat (cluster_order (tab d)) \<le> 19" using assms(1) by (simp add: disk_ok_def table_wf_def)
  then have "(2 :: nat) ^ unat (cluster_order (tab d)) \<le> 2 ^ 19" by (intro power_increasing) auto
  then have "k < 2 ^ 32" using assms(2) by (simp add: fat_table_bytes_per_cluster_def)
  then show ?thesis by (simp add: unat_of_nat)
qed

lemma read_then_add:
  assumes "disk_ok d" "entries_fit d" "fat_chain (tab d) (start_cluster dir) [start_cluster dir]"
    "filepath dir \<noteq> []" "k < length (dir_entries d dir)" "is_end_of_directory (dir_entries d dir ! k)"
    "\<forall>i < k. \<not> is_end_of_directory (dir_entries d dir ! i)" "dentry child = Some de" "dentry_wf de"
    "last (filepath dir) = PATH_SEPARATOR \<or> (\<forall>i < k. ignore_dentry (dir_entries d dir ! i))"
  shows "\<exists>cs dir' d1. fat_file_read_children dir d = Some (Some cs, dir', d1)
    \<and> map entry_view cs = used_entries 0 (take k (dir_entries d dir))
    \<and> children_read dir' \<and> unat (nentries dir') = k
    \<and> (\<exists>dir'' child' d2. fat_file_dentry_add_child dir' child d1 = Some (dir'', child', d2)
        \<and> unat (nentries dir'') = Suc k \<and> pos_in_parent child' = word_of_nat k
        \<and> dir_entries d2 dir = (dir_entries d dir)[k := de])"
proof -
  let ?es = "dir_entries d dir" and ?b = "fat_table_bytes_per_cluster (tab d)"
  have v: "fat_table_is_valid_cluster_number (tab d) (start_cluster dir)" using assms(3) by simp
  have len: "length ?es = ?b div 32" by (simp add: dir_entries_def cluster_bytes_length [OF assms(1) v])
  have wf: "\<forall>e \<in> set ?es. dentry_wf e" by (auto simp: dir_entries_def entries_of_wf)
  have split: "?es = take k ?es @ ?es ! k # drop (Suc k) ?es" using assms(5) by (rule id_take_nth_drop)
  have pre: "\<forall>e \<in> set (take k ?es). dentry_wf e \<and> \<not> is_end_of_directory e"
    using wf assms(5,7) by (auto simp: in_set_conv_nth dest: in_set_takeD)
  have "\<forall>e \<in> set (take k ?es). ignore_dentry e" if "\<forall>i < k. ignore_dentry (?es ! i)"
    using that assms(5) by (auto simp: in_set_conv_nth)
  then have sep: "last (filepath dir) = PATH_SEPARATOR \<or> (\<forall>e \<in> set (take k ?es). ignore_dentry e)"
    using assms(10) by blast
  from read_entries_spec [OF pre assms(4) sep, where m = 0 and rest = "?es ! k # drop (Suc k) ?es" and elems = "[]"]
  obtain cs where cs: "map entry_view cs = used_entries 0 (take k ?es)"
    "read_entries ?es 0 dir [] = Some (dir\<lparr>nentries := word_of_nat k, children_read := True\<rparr>, cs)"
    using assms(5,6) by (subst (asm) split [symmetric]) (auto simp: min_def)
  let ?dir = "dir\<lparr>nentries := word_of_nat k, children_read := True\<rparr>"
  obtain d1 where d1: "fat_file_read_children dir d = Some (Some cs, ?dir, d1)" "after_reads d d1"
    using read_one_cluster [OF assms(1,3) cs(2)] by auto
  note keeps = after_reads_keeps [OF d1(2)]
  have k32: "32 * k < ?b" using assms(5) len by linarith
  have "Suc k \<le> ?b" using k32 by linarith
  then have small: "unat (word_of_nat k :: u32) = k" "unat (word_of_nat (Suc k) :: u32) = Suc k"
    using small_entries [OF assms(1)] by (meson Suc_leD)+
  obtain d2 where d2: "fat_file_dentry_add_child ?dir child d1
        = Some (?dir\<lparr>nentries := word_of_nat k + 1\<rparr>, child\<lparr>pos_in_parent := word_of_nat k\<rparr>, d2)"
    "disk_ok d2" "tab d2 = tab d"
    "\<forall>j. 32 * j < ?b \<longrightarrow> entry_at d2 (start_cluster dir) j = (if j = k then de else entry_at d1 (start_cluster dir) j)"
    using add_child_entry [OF keeps(6) [OF assms(1)], of ?dir child de] assms(2,8,9) v keeps(1) k32 small
    by (auto simp: entries_fit_def mult.commute)
  have "dir_entries d2 dir = ?es[k := de]"
  proof (rule nth_equalityI)
    have len2: "length (dir_entries d2 dir) = length ?es"
      using cluster_bytes_length [OF d2(2), of "start_cluster dir"] v d2(3) len by (simp add: dir_entries_def)
    then show "length (dir_entries d2 dir) = length (?es[k := de])" by simp
    fix j
    assume "j < length (dir_entries d2 dir)"
    then have j: "j < length ?es" "j < length (dir_entries d2 dir)" using len2 by simp_all
    then have "32 * j < ?b" using len by linarith
    then show "dir_entries d2 dir ! j = ?es[k := de] ! j"
      using j d2(4) keeps(3) by (simp add: dir_entries_nth nth_list_update entry_at_def)
  qed
  moreover have "unat (word_of_nat k + 1 :: u32) = Suc k" using small(2) by (simp add: add.commute)
  ultimately show ?thesis using d1(1) cs(1) d2(1) small(1) by (auto intro!: exI)
qed


lemma sample_dir_entries: "dir_entries sample_disk sample_dir ! 0 = dentry_of (replicate 32 0)"
  "length (dir_entries sample_disk sample_dir) = 1"
proof -
  have "cluster_bytes sample_disk 3 = replicate 32 0"
    by (simp add: cluster_bytes_def sample_disk_def sample_map_def fat_table_cluster_offset_def
        fat_table_bytes_per_cluster_def length_entries push_bit_eq_mult)
  then show "dir_entries sample_disk sample_dir ! 0 = dentry_of (replicate 32 0)"
    "length (dir_entries sample_disk sample_dir) = 1"
    by (simp_all add: dir_entries_def sample_dir_def fat_file_init_empty_def entries_of_def)
qed

lemma sample_dir_simps: "start_cluster sample_dir = 3" "filepath sample_dir = [0x2F]"
  by (simp_all add: sample_dir_def fat_file_init_empty_def cstr_def)

text \<open>A directory of two entries, one in use, whose path does not end in the separator.\<close>

definition sub_disk :: disk where
  "sub_disk = \<lparr>tab = \<lparr>fat_map = [0x0FFFFFF8, 0x0FFFFFFF, 0x0FFFFFFF], fat_offset = 0, num_data_clusters = 1,
       data_start_offset = 12, cluster_order = 6\<rparr>,
     vio = \<lparr>io_bytes = concat (map le32_bytes [0x0FFFFFF8, 0x0FFFFFFF, 0x0FFFFFFF]) @ (65 # replicate 31 0) @ replicate 32 0,
       io_sched = [], io_errno = 0, io_now = 0\<rparr>\<rparr>"

definition sub_dir :: fat_file where
  "sub_dir = (fat_file_init_empty (cstr ''/D''))\<lparr>start_cluster := 2\<rparr>"

lemma sub_disk_ok: "disk_ok sub_disk" "entries_fit sub_disk"
proof -
  have "fat_mirror (tab sub_disk) (vio sub_disk)"
    by (rule fat_mirror_layout [where pre = "[]"]) (simp_all add: sub_disk_def)
  then show "disk_ok sub_disk"
    by (simp add: disk_ok_def table_wf_def steady_def data_end_def sub_disk_def
        fat_table_bytes_per_cluster_def length_entries)
  show "entries_fit sub_disk"
    by (simp add: entries_fit_def sub_disk_def fat_table_bytes_per_cluster_def)
qed

lemma sub_dir_simps: "start_cluster sub_dir = 2" "filepath sub_dir = cstr ''/D''"
  by (simp_all add: sub_dir_def fat_file_init_empty_def)

lemma sub_dir_entries: "dir_entries sub_disk sub_dir = [dentry_of ((65 # replicate 31 0)), dentry_of (replicate 32 0)]"
proof -
  have "cluster_bytes sub_disk 2 = (65 # replicate 31 0) @ replicate 32 0"
    by (simp add: cluster_bytes_def sub_disk_def fat_table_cluster_offset_def
        fat_table_bytes_per_cluster_def length_entries push_bit_eq_mult)
  then show ?thesis by (simp add: dir_entries_def sub_dir_simps entries_of_def upt_rec)
qed

lemma sub_dir_chain: "fat_chain (tab sub_disk) 2 [2]"
  by (simp add: fat_table_get_next_cluster_def array_get_def fat_table_is_valid_cluster_number_def sub_disk_def)


text \<open>
  When every entry of the directory's cluster is in use there is no end mark to find, and the
  free position is taken to be that of the last entry: adding a file then overwrites the last
  entry of the directory instead of failing with \<open>ENOSPC\<close>.
\<close>

theorem full_directory_overwritten:
  assumes "disk_ok d" "entries_fit d" "fat_chain (tab d) (start_cluster dir) [start_cluster dir]"
    "filepath dir \<noteq> []" "dir_entries d dir \<noteq> []"
    "\<forall>e \<in> set (dir_entries d dir). \<not> is_end_of_directory e" "dentry child = Some de" "dentry_wf de"
    "last (filepath dir) = PATH_SEPARATOR"
  shows "\<exists>cs dir' d1. fat_file_read_children dir d = Some (Some cs, dir', d1)
    \<and> (\<exists>dir'' child' d2. fat_file_dentry_add_child dir' child d1 = Some (dir'', child', d2)
        \<and> errno d2 = 0 \<and> dir_entries d2 dir = butlast (dir_entries d dir) @ [de])"
proof -
  let ?es = "dir_entries d dir" and ?b = "fat_table_bytes_per_cluster (tab d)"
  define k where "k = length ?es - 1"
  have v: "fat_table_is_valid_cluster_number (tab d) (start_cluster dir)" using assms(3) by simp
  have len: "length ?es = ?b div 32" by (simp add: dir_entries_def cluster_bytes_length [OF assms(1) v])
  have k: "length ?es = Suc k" using assms(5) by (simp add: k_def)
  have wf: "\<forall>e \<in> set ?es. dentry_wf e \<and> \<not> is_end_of_directory e"
    using assms(6) by (auto simp: dir_entries_def entries_of_wf)
  from read_entries_spec [OF wf assms(4) disjI1 [OF assms(9)], where m = 0 and rest = "[]" and elems = "[]"]
  obtain cs where cs: "read_entries ?es 0 dir [] = Some (dir\<lparr>nentries := word_of_nat k\<rparr>, cs)"
    using assms(5) k by auto
  let ?dir = "dir\<lparr>nentries := word_of_nat k, children_read := True\<rparr>"
  obtain d1 where d1: "fat_file_read_children dir d = Some (Some cs, ?dir, d1)" "after_reads d d1"
    using read_one_cluster [OF assms(1,3) cs] by auto
  note keeps = after_reads_keeps [OF d1(2)]
  have k32: "32 * k < ?b" using k len by linarith
  then have small: "unat (word_of_nat k :: u32) = k" by (intro small_entries [OF assms(1)]) linarith
  obtain d2 where d2: "fat_file_dentry_add_child ?dir child d1
        = Some (?dir\<lparr>nentries := word_of_nat k + 1\<rparr>, child\<lparr>pos_in_parent := word_of_nat k\<rparr>, d2)"
    "disk_ok d2" "tab d2 = tab d"
    "\<forall>j. 32 * j < ?b \<longrightarrow> entry_at d2 (start_cluster dir) j = (if j = k then de else entry_at d1 (start_cluster dir) j)"
    using add_child_entry [OF keeps(6) [OF assms(1)], of ?dir child de] assms(2,7,8) v keeps(1) k32 small
    by (auto simp: entries_fit_def mult.commute)
  have "dir_entries d2 dir = butlast ?es @ [de]"
  proof (rule nth_equalityI)
    have len2: "length (dir_entries d2 dir) = length ?es"
      using cluster_bytes_length [OF d2(2), of "start_cluster dir"] v d2(3) len by (simp add: dir_entries_def)
    then show "length (dir_entries d2 dir) = length (butlast ?es @ [de])" using k by simp
    fix j
    assume "j < length (dir_entries d2 dir)"
    then have j: "j < length ?es" "j < length (dir_entries d2 dir)" using len2 by simp_all
    then have "32 * j < ?b" using len by linarith
    then show "dir_entries d2 dir ! j = (butlast ?es @ [de]) ! j"
      using j d2(4) keeps(3) k by (auto simp: dir_entries_nth nth_append nth_butlast entry_at_def)
  qed
  moreover have "errno d2 = 0" using d2(2) by (simp add: disk_ok_def)
  ultimately show ?thesis using d1(1) d2(1) by (auto intro!: exI)
qed

theorem full_directory_overwritten_witness:
  "\<exists>cs dir' d1. fat_file_read_children (sample_dir\<lparr>start_cluster := 4\<rparr>) sample_disk = Some (Some cs, dir', d1)
    \<and> (\<exists>dir'' child' d2. fat_file_dentry_add_child dir' sample_file d1 = Some (dir'', child', d2)
        \<and> errno d2 = 0 \<and> dir_entries d2 (sample_dir\<lparr>start_cluster := 4\<rparr>) = [sample_entry])"
proof -
  let ?dir = "sample_dir\<lparr>start_cluster := 4\<rparr>"
  have c: "fat_chain (tab sample_disk) 4 [4]"
    by (simp add: fat_table_get_next_cluster_def array_get_def fat_table_is_valid_cluster_number_def
        sample_disk_def sample_map_def)
  have "cluster_bytes sample_disk 4 = replicate 32 66"
    by (simp add: cluster_bytes_def sample_disk_def sample_map_def fat_table_cluster_offset_def
        fat_table_bytes_per_cluster_def length_entries push_bit_eq_mult)
  then have es: "dir_entries sample_disk ?dir = [dentry_of (replicate 32 66)]"
    by (simp add: dir_entries_def entries_of_def)
  then have "\<forall>e \<in> set (dir_entries sample_disk ?dir). \<not> is_end_of_directory e"
    by (simp add: is_end_of_directory_def dentry_of_def)
  with full_directory_overwritten [OF sample_disk_ok, of ?dir sample_file sample_entry] c es
  show ?thesis
    by (simp add: sample_dir_simps sample_file_ok sample_entry_wf del: fat_chain.simps)
qed

end
