(* ===== verification/Fat_File_Write.thy ===== *)
theory Fat_File_Write
  imports Fat_Directory
begin

text \<open>
  Writing data (\<open>fat_file_pwrite\<close>, \<open>next_or_new_cluster\<close> of \<open>fat_file.c\<close>): growing a chain by
  free clusters, and the content of the file after a write.
\<close>

section \<open>Writing data\<close>

text \<open>A chain all of whose clusters are marked as used in the table.\<close>

definition used_chain :: "fat_table \<Rightarrow> u32 \<Rightarrow> u32 list \<Rightarrow> bool" where
  "used_chain t c cs \<longleftrightarrow> fat_chain t c cs \<and> (\<forall>x \<in> set cs. fat_map t ! unat x \<noteq> 0)"

definition free_clusters :: "fat_table \<Rightarrow> u32 set" where
  "free_clusters t = {c. fat_table_is_valid_cluster_number t c \<and> fat_map t ! unat c = 0}"

lemma fat_chain_extend:
  assumes "table_wf t" "fat_chain t s (xs @ [c])" "fat_table_is_valid_cluster_number t f" "f \<notin> set (xs @ [c])"
    "unat f < length (fat_map t)"
  shows "fat_chain (t\<lparr>fat_map := (fat_map t)[unat c := f, unat f := FAT_CLUSTER_END_OF_CHAIN_MAX]\<rparr>) s (xs @ [c, f])"
proof -
  have dist: "distinct (xs @ [c])" by (rule fat_chain_distinct [OF assms(2,1)])
  let ?t1 = "t\<lparr>fat_map := (fat_map t)[unat c := f]\<rparr>"
  let ?t2 = "?t1\<lparr>fat_map := (fat_map ?t1)[unat f := FAT_CLUSTER_END_OF_CHAIN_MAX]\<rparr>"
  have same: "?t2 = t\<lparr>fat_map := (fat_map t)[unat c := f, unat f := FAT_CLUSTER_END_OF_CHAIN_MAX]\<rparr>" by simp
  have vc: "fat_table_is_valid_cluster_number t c" using fat_chain_validD [OF assms(2)] by simp
  have f: "fat_table_get_next_cluster ?t2 f = Some FAT_CLUSTER_END_OF_CHAIN_MAX"
    using assms(5) special_not_valid_number(2) [OF assms(1)]
    by (simp add: fat_table_get_next_cluster_def array_get_def fat_table_is_valid_cluster_number_def)
  have c: "fat_table_get_next_cluster ?t2 c = Some f"
    using get_next_update_other [of c f ?t1 FAT_CLUSTER_END_OF_CHAIN_MAX] assms(3,4)
      get_next_update_same [OF valid_number_is_valid(2) [OF assms(1) vc], of f] by auto
  have v2: "fat_table_is_valid_cluster_number ?t2 x = fat_table_is_valid_cluster_number t x" for x
    by (simp add: fat_table_is_valid_cluster_number_def)
  have other: "fat_table_get_next_cluster ?t2 x = fat_table_get_next_cluster t x" if "x \<in> set xs" for x
  proof -
    have "x \<noteq> c" "x \<noteq> f" using that dist assms(4) by auto
    then show ?thesis
      using get_next_update_other [of x f ?t1 FAT_CLUSTER_END_OF_CHAIN_MAX] get_next_update_other [of x c t f] by simp
  qed
  have "fat_chain ?t2 s (xs @ [c, f])" if "fat_chain t s (xs @ [c])" "\<forall>x \<in> set xs. fat_table_get_next_cluster ?t2 x = fat_table_get_next_cluster t x" for s xs
    using that
  proof (induction xs arbitrary: s)
    case Nil
    then show ?case using vc c f assms(3) by (simp only: append_Nil fat_chain.simps v2 option.case simp_thms)
  next
    case (Cons y ys)
    then show ?case by (auto simp del: fat_chain.simps(1) simp: valid_number_update split: option.splits)
  qed
  with other assms(2) show ?thesis unfolding same by blast
qed

lemma free_clusters_entry: "table_wf t \<Longrightarrow> c \<in> free_clusters t \<Longrightarrow> free_entry t (unat c) \<and> unat c < unat (num_data_clusters t) + 2"
  using valid_number_unat valid_number_is_valid(2) by (auto simp: free_clusters_def free_entry_def)

lemma next_or_new_extends:
  assumes "disk_ok d" "used_chain (tab d) s (xs @ [c])" "free_clusters (tab d) \<noteq> {}"
  obtains f d' where "next_or_new_cluster c d = Some (f, d')" "table_step d d'" "f \<in> free_clusters (tab d)"
    "tab d' = (tab d)\<lparr>fat_map := (fat_map (tab d))[unat c := f, unat f := FAT_CLUSTER_END_OF_CHAIN_MAX]\<rparr>"
    "used_chain (tab d') s (xs @ [c, f])" "f \<notin> set (xs @ [c])"
    "\<forall>g. f \<le> g \<or> g \<notin> free_clusters (tab d)"
proof -
  have t: "table_wf (tab d)" using assms(1) by (simp add: disk_ok_def)
  have ch: "fat_chain (tab d) s (xs @ [c])" and used: "\<forall>x \<in> set (xs @ [c]). fat_map (tab d) ! unat x \<noteq> 0"
    using assms(2) unfolding used_chain_def by blast+
  have vc: "fat_table_is_valid_cluster_number (tab d) c" using fat_chain_validD [OF ch] by simp
  have nc: "fat_table_get_next_cluster (tab d) c = Some FAT_CLUSTER_END_OF_CHAIN_MAX"
    using fat_chain_suffix [OF ch] by (auto split: option.splits)
  obtain g where g: "g \<in> free_clusters (tab d)" using assms(3) by auto
  obtain f where f: "fat_table_get_next_free_cluster (tab d) = Some f" "fat_table_is_valid_cluster_number (tab d) f"
    "fat_map (tab d) ! unat f = 0" "\<forall>j. 2 \<le> j \<and> j < unat f \<longrightarrow> fat_map (tab d) ! j \<noteq> 0"
    using next_free_some [OF t, of "unat g"] free_clusters_entry [OF t g] by metis
  have least: "f \<le> h \<or> h \<notin> free_clusters (tab d)" for h
    using f(4) free_clusters_entry [OF t, of h] by (auto simp: free_entry_def free_clusters_def word_nat_simps not_le)
  have notin: "f \<notin> set (xs @ [c])" using used f(3) by auto
  have lf: "unat f < length (fat_map (tab d))" and lc: "unat c < length (fat_map (tab d))"
    using valid_number_is_valid(2) [OF t] f(2) vc by auto
  obtain d1 where d1: "set_next c f d = Some d1" "table_step d d1" "tab d1 = (tab d)\<lparr>fat_map := (fat_map (tab d))[unat c := f]\<rparr>"
    using set_next_step [OF assms(1) lc] by metis
  have ok1: "disk_ok d1" using d1(2) by (simp add: table_step_def)
  obtain d2 where d2: "set_next f FAT_CLUSTER_END_OF_CHAIN_MAX d1 = Some d2" "table_step d1 d2"
    "tab d2 = (tab d1)\<lparr>fat_map := (fat_map (tab d1))[unat f := FAT_CLUSTER_END_OF_CHAIN_MAX]\<rparr>"
    using set_next_step [OF ok1, of f] lf d1(3) by auto
  have eoc: "fat_table_cluster_is_EOC FAT_CLUSTER_END_OF_CHAIN_MAX" by (simp add: fat_table_cluster_is_EOC_def)
  have "\<not> fat_table_cluster_is_EOC f"
    using valid_number_is_valid(1) [OF t f(2)] by (simp add: fat_table_cluster_is_valid_def)
  moreover have "errno d2 = 0" using d2(2) by (simp add: table_step_def disk_ok_def)
  ultimately have run: "next_or_new_cluster c d = Some (f, d2)"
    using nc f(1) d1(1) d2(1) eoc by (simp add: next_or_new_cluster_def)
  have tab2: "tab d2 = (tab d)\<lparr>fat_map := (fat_map (tab d))[unat c := f, unat f := FAT_CLUSTER_END_OF_CHAIN_MAX]\<rparr>"
    using d1(3) d2(3) by simp
  have chain2: "fat_chain (tab d2) s (xs @ [c, f])"
    unfolding tab2 by (rule fat_chain_extend [OF t ch f(2) notin lf])
  have f0: "f \<noteq> 0" using valid_number_is_valid(3) [OF t f(2)] .
  have "fat_map (tab d2) ! unat x \<noteq> 0" if "x \<in> set (xs @ [c, f])" for x
    using that used f0 lf lc unfolding tab2 by (auto simp: nth_list_update)
  then have "used_chain (tab d2) s (xs @ [c, f])" using chain2 unfolding used_chain_def by blast
  then show thesis
    using that [OF run table_step_trans [OF d1(2) d2(2)] _ tab2 _ notin] f(2,3) least by (simp add: free_clusters_def)
qed

lemma used_chain_facts:
  assumes "used_chain t s cs" "table_wf t"
  shows "distinct cs" "x \<in> set cs \<Longrightarrow> fat_table_is_valid_cluster_number t x" "set cs \<inter> free_clusters t = {}"
  using assms fat_chain_distinct fat_chain_validD by (auto simp: used_chain_def free_clusters_def)

lemma splice_parts:
  assumes "k + length bs \<le> length xs"
  shows "take (k + length bs) (splice_at xs k bs) = take k xs @ bs"
    "drop (k + length bs) (splice_at xs k bs) = drop (k + length bs) xs"
  using assms by (auto simp: splice_at_def)

text \<open>One round of the loop: the bytes that go into the current cluster.\<close>

lemma pwrite_round:
  assumes "disk_ok d" "fat_table_is_valid_cluster_number (tab d) c" "0 \<le> off" "0 < r" "pos + r \<le> length buf"
    "k = nat off mod fat_table_bytes_per_cluster (tab d)" "n = min (fat_table_bytes_per_cluster (tab d) - k) r"
  obtains d1 where "disk_ok d1" "tab d1 = tab d" "io_now (vio d1) = io_now (vio d)"
    "cluster_bytes d1 c = splice_at (cluster_bytes d c) k (take n (drop pos buf))"
    "\<forall>e. fat_table_is_valid_cluster_number (tab d) e \<and> e \<noteq> c \<longrightarrow> cluster_bytes d1 e = cluster_bytes d e"
    "pwrite_loop buf pos off (int r) c d = (if r = n then Some (0, d1)
       else Option.bind (next_or_new_cluster c d1) (\<lambda>(cluster', d2).
         if errno d2 \<noteq> 0 \<or> \<not> fat_table_cluster_is_valid cluster' then Some (int (r - n), d2)
         else pwrite_loop buf (pos + n) (off + int n) (int (r - n)) cluster' d2))"
proof -
  define b where "b = fat_table_bytes_per_cluster (tab d)"
  define co where "co = fat_table_cluster_offset (tab d) c"
  have st: "steady (vio d)" "errno d = 0" using assms(1) by (simp_all add: disk_ok_def)
  have k: "k < b" by (simp add: assms(6) b_def)
  have nk: "k + n \<le> b" "n \<le> r" using k by (auto simp: assms(7) b_def)
  have ins: "0 \<le> co" "nat co + b \<le> length (io_bytes (vio d))"
    using cluster_inside [OF assms(1,2)] by (simp_all add: co_def b_def)
  have mk: "fat_table_mask_offset off (tab d) = k" using assms(3) by (simp add: mask_offset_mod assms(6))
  have rn: "fat_table_get_cluster_remaining_bytes (tab d) r off = n"
    by (simp add: fat_table_get_cluster_remaining_bytes_def mk assms(7))
  have off: "nat (co + int k) = nat co + k" "0 \<le> co + int k" using ins(1) by (auto simp: nat_add_distrib)
  have bound: "pos + n \<le> length buf" using assms(5) nk(2) by linarith
  have fit: "nat (co + int k) \<le> length (io_bytes (vio d))" unfolding off(1) using ins(2) nk(1) by linarith
  obtain s' where s': "full_pwrite_at buf pos n (co + int k) (vio d)
      = Some (int n, s'\<lparr>io_bytes := splice_at (io_bytes (vio d)) (nat co + k) (take n (drop pos buf))\<rparr>)"
    "sched_suffix (vio d) s'"
    by (rule full_pwrite_at_short [OF steady_short [OF st(1)] bound off(2) fit]) (rule that, simp_all only: off(1))
  define s1 where "s1 = s'\<lparr>io_bytes := splice_at (io_bytes (vio d)) (nat co + k) (take n (drop pos buf))\<rparr>"
  define d1 where "d1 = d\<lparr>vio := s1\<rparr>"
  have ld: "length (take n (drop pos buf)) = n" using bound by simp
  have "steady s1" "io_errno s1 = 0" "io_now s1 = io_now (vio d)"
    using steady_suffix [OF st(1) s'(2)] sched_suffixD [OF s'(2)] st(2) by (simp_all add: s1_def steady_def)
  note s1 = this
  have "k + length (take n (drop pos buf)) \<le> fat_table_bytes_per_cluster (tab d)" using nk(1) ld by (simp add: b_def)
  note wr = write_in_cluster [OF assms(1,2) this, of s1]
  have sb: "io_bytes s1 = splice_at (io_bytes (vio d)) (nat (fat_table_cluster_offset (tab d) c) + k) (take n (drop pos buf))"
    by (simp add: s1_def co_def)
  have call: "full_pwrite_at buf pos n (fat_table_cluster_offset (tab d) c + int (fat_table_mask_offset off (tab d))) (vio d)
      = Some (int n, s1)" using s'(1) unfolding mk co_def s1_def .
  have "pwrite_loop buf pos off (int r) c d = (if r = n then Some (0, d1)
       else Option.bind (next_or_new_cluster c d1) (\<lambda>(cluster', d2).
         if errno d2 \<noteq> 0 \<or> \<not> fat_table_cluster_is_valid cluster' then Some (int (r - n), d2)
         else pwrite_loop buf (pos + n) (off + int n) (int (r - n)) cluster' d2))"
    using assms(4) nk(2)
    by (subst pwrite_loop.simps) (auto simp: rn call of_nat_diff [OF nk(2)] d1_def [symmetric] Let_def cong: if_cong)
  then show thesis
    using that [of d1] wr [OF sb s1(1,2)] s1(3) by (simp add: d1_def)
qed

text \<open>
  What a completed write leaves behind: the chain, possibly longer by clusters that were free, the
  data in it from \<open>k\<close> bytes into the cluster \<open>c\<close> on, and everything else as it was.
\<close>

definition written :: "disk \<Rightarrow> u32 \<Rightarrow> u32 list \<Rightarrow> u32 \<Rightarrow> u32 list \<Rightarrow> nat \<Rightarrow> u8 list \<Rightarrow> u32 list \<Rightarrow> disk \<Rightarrow> bool" where
  "written d s pre c post k bs new d' \<longleftrightarrow>
     disk_ok d' \<and> used_chain (tab d') s (pre @ c # post @ new) \<and> set new \<subseteq> free_clusters (tab d)
     \<and> take (k + length bs) (content d' (c # post @ new)) = take k (cluster_bytes d c) @ bs
     \<and> drop (k + length bs) (content d' (c # post)) = drop (k + length bs) (content d (c # post))
     \<and> (\<forall>e. fat_table_is_valid_cluster_number (tab d) e \<and> e \<notin> set (c # post @ new)
          \<longrightarrow> cluster_bytes d' e = cluster_bytes d e)
     \<and> tab d' = (tab d)\<lparr>fat_map := fat_map (tab d')\<rparr> \<and> io_now (vio d') = io_now (vio d)
     \<and> length (fat_map (tab d')) = length (fat_map (tab d))
     \<and> (\<forall>i. i \<notin> unat ` set (pre @ c # post @ new) \<longrightarrow> fat_map (tab d') ! i = fat_map (tab d) ! i)"

lemma written_Cons:
  assumes ok: "disk_ok d1" "tab d1 = tab d" "io_now (vio d1) = io_now (vio d)"
    and c1: "cluster_bytes d1 c = splice_at (cluster_bytes d c) k bs" "k + length bs = length (cluster_bytes d c)"
    and e1: "\<forall>e. fat_table_is_valid_cluster_number (tab d) e \<and> e \<noteq> c \<longrightarrow> cluster_bytes d1 e = cluster_bytes d e"
    and st: "table_step d1 d2" "post = p # ps \<and> new = new' \<and> d2 = d1 \<or> post = [] \<and> ps = [] \<and> new = p # new' \<and> p \<in> free_clusters (tab d)"
    and w: "written d2 s (pre @ [c]) p ps 0 bs' new' d'"
    and fr: "free_clusters (tab d2) \<subseteq> free_clusters (tab d)" "c \<notin> free_clusters (tab d)" "distinct (c # post)"
    and mp: "\<forall>i. i \<notin> unat ` set [c, p] \<longrightarrow> fat_map (tab d2) ! i = fat_map (tab d1) ! i"
    and v: "fat_table_is_valid_cluster_number (tab d) c" "fat_table_is_valid_cluster_number (tab d) p"
  shows "written d s pre c post k (bs @ bs') new d'"
proof -
  have v2: "fat_table_is_valid_cluster_number (tab d2) e = fat_table_is_valid_cluster_number (tab d) e" for e
    using table_step_valid [OF st(1)] ok(2) by simp
  have cb2: "cluster_bytes d2 e = cluster_bytes d1 e" if "fat_table_is_valid_cluster_number (tab d) e" for e
    using st(1) that ok(2) by (simp add: table_step_def)
  note W = w [unfolded written_def]
  have lists: "c # post @ new = c # p # ps @ new'" "pre @ c # post @ new = (pre @ [c]) @ p # ps @ new'"
    using st(2) by auto
  have sub: "set new' \<subseteq> free_clusters (tab d)" using W fr(1) by blast
  have "c \<notin> set (p # ps @ new')" using fr(2,3) st(2) sub by auto
  then have "cluster_bytes d' c = cluster_bytes d2 c" using W v(1) v2 by auto
  then have cd: "cluster_bytes d' c = splice_at (cluster_bytes d c) k bs" using cb2 v(1) c1(1) by simp
  have full: "splice_at (cluster_bytes d c) k bs = take k (cluster_bytes d c) @ bs" "length (cluster_bytes d' c) = k + length bs"
    using splice_parts [of k bs "cluster_bytes d c"] c1(2) cd by simp_all
  have tk: "take (0 + length bs') (content d' (p # ps @ new')) = take 0 (cluster_bytes d2 p) @ bs'" using W by blast
  have "take (k + length (bs @ bs')) (content d' (c # post @ new)) = take k (cluster_bytes d c) @ bs @ bs'"
    unfolding lists(1) using tk full cd by simp
  moreover have "drop (k + length (bs @ bs')) (content d' (c # post)) = drop (k + length (bs @ bs')) (content d (c # post))"
  proof (cases "post = []")
    case True
    then show ?thesis using full(2) c1(2) by simp
  next
    case False
    then have ps: "post = p # ps" "d2 = d1" using st(2) by auto
    have dr: "drop (0 + length bs') (content d' (p # ps)) = drop (0 + length bs') (content d2 (p # ps))" using W by blast
    have "x \<noteq> c \<and> fat_table_is_valid_cluster_number (tab d) x" if "x \<in> set (p # ps)" for x
    proof -
      have "used_chain (tab d') s ((pre @ [c]) @ p # ps @ new')" using W by blast
      then have "fat_table_is_valid_cluster_number (tab d') x"
        using that fat_chain_validD unfolding used_chain_def by fastforce
      moreover have "tab d' = (tab d2)\<lparr>fat_map := fat_map (tab d')\<rparr>" using W by blast
      ultimately have "fat_table_is_valid_cluster_number (tab d2) x" by (metis valid_number_update)
      then show ?thesis using that fr(3) ps v2 by auto
    qed
    then have "content d2 (p # ps) = content d (p # ps)" using e1 ps(2) by (intro content_cong) blast
    then have eq: "drop (length bs') (content d' (p # ps)) = drop (length bs') (content d (p # ps))"
      using dr by simp
    have "drop (k + length (bs @ bs')) (xs @ ys) = drop (length bs') ys" if "length xs = k + length bs"
      for xs ys :: "u8 list" using that by simp
    then show ?thesis using full(2) c1(2) eq unfolding content_simps(2) [of _ c] ps(1) by metis
  qed
  moreover have "cluster_bytes d' e = cluster_bytes d e"
    if "fat_table_is_valid_cluster_number (tab d) e" "e \<notin> set (c # post @ new)" for e
  proof -
    have "e \<notin> set (p # ps @ new')" "e \<noteq> c" using that(2) unfolding lists(1) by auto
    then have "cluster_bytes d' e = cluster_bytes d2 e" using W that(1) v2 by blast
    also have "\<dots> = cluster_bytes d e" using cb2 e1 that(1) \<open>e \<noteq> c\<close> by simp
    finally show ?thesis .
  qed
  moreover have "tab d' = (tab d)\<lparr>fat_map := fat_map (tab d')\<rparr>" "length (fat_map (tab d')) = length (fat_map (tab d))"
    "io_now (vio d') = io_now (vio d)"
  proof -
    have "tab d2 = (tab d)\<lparr>fat_map := fat_map (tab d2)\<rparr>" "tab d' = (tab d2)\<lparr>fat_map := fat_map (tab d')\<rparr>"
      using W st(1) ok(2) by (auto simp: table_step_def)
    then show "tab d' = (tab d)\<lparr>fat_map := fat_map (tab d')\<rparr>"
      by (metis fat_table.surjective fat_table.update_convs(1))
    show "length (fat_map (tab d')) = length (fat_map (tab d))" "io_now (vio d') = io_now (vio d)"
      using W st(1) ok(2,3) by (simp_all add: table_step_def)
  qed
  moreover have "set new \<subseteq> free_clusters (tab d)" using st(2) sub by auto
  moreover have "fat_map (tab d') ! i = fat_map (tab d) ! i" if "i \<notin> unat ` set (pre @ c # post @ new)" for i
  proof -
    have "i \<notin> unat ` set [c, p]" using that unfolding lists(2) by auto
    then have "fat_map (tab d2) ! i = fat_map (tab d) ! i" using mp ok(2) by simp
    moreover have "fat_map (tab d') ! i = fat_map (tab d2) ! i" using W that unfolding lists(2) by blast
    ultimately show ?thesis by simp
  qed
  moreover have "disk_ok d'" "used_chain (tab d') s (pre @ c # post @ new)" using W unfolding lists(2) by blast+
  ultimately show ?thesis unfolding written_def by blast
qed

lemma written_single:
  assumes "disk_ok d1" "tab d1 = tab d" "io_now (vio d1) = io_now (vio d)"
    "cluster_bytes d1 c = splice_at (cluster_bytes d c) k bs" "k + length bs \<le> length (cluster_bytes d c)"
    "\<forall>e. fat_table_is_valid_cluster_number (tab d) e \<and> e \<noteq> c \<longrightarrow> cluster_bytes d1 e = cluster_bytes d e"
    "used_chain (tab d) s (pre @ c # post)" "table_wf (tab d)"
  shows "written d s pre c post k bs [] d1"
proof -
  have "distinct (pre @ c # post)" "\<forall>x \<in> set post. fat_table_is_valid_cluster_number (tab d) x"
    using used_chain_facts [OF assms(7,8)] by auto
  then have "content d1 post = content d post" using assms(6) by (intro content_cong) auto
  then show ?thesis
    using assms splice_parts [OF assms(5)] by (auto simp: written_def)
qed

lemma free_clusters_after:
  assumes "table_wf (tab d)" "f \<in> free_clusters (tab d)" "c \<notin> free_clusters (tab d)"
    "unat c < length (fat_map (tab d))"
    "tab d' = (tab d)\<lparr>fat_map := (fat_map (tab d))[unat c := f, unat f := FAT_CLUSTER_END_OF_CHAIN_MAX]\<rparr>"
  shows "free_clusters (tab d') = free_clusters (tab d) - {f}"
proof -
  have f: "f \<noteq> 0" "unat f < length (fat_map (tab d))"
    using assms(1,2) valid_number_is_valid by (auto simp: free_clusters_def)
  have "e \<in> free_clusters (tab d') \<longleftrightarrow> e \<in> free_clusters (tab d) - {f}" for e
  proof -
    have v: "fat_table_is_valid_cluster_number (tab d') e = fat_table_is_valid_cluster_number (tab d) e"
      unfolding assms(5) by (rule valid_number_update)
    consider "e = f" | "e = c" "e \<noteq> f" | "e \<noteq> f" "e \<noteq> c" by blast
    then show ?thesis
    proof cases
      case 1
      then show ?thesis using f unfolding free_clusters_def assms(5) by simp
    next
      case 2
      then have "unat c \<noteq> unat f" by (metis word_unat_eq_iff)
      then have "fat_map (tab d') ! unat e = f" using 2 assms(4) unfolding assms(5) by simp
      then show ?thesis using 2 f(1) assms(3) unfolding free_clusters_def by auto
    next
      case 3
      then have "unat e \<noteq> unat f" "unat e \<noteq> unat c" by (metis word_unat_eq_iff)+
      then have "fat_map (tab d') ! unat e = fat_map (tab d) ! unat e" unfolding assms(5) by simp
      then show ?thesis using 3 v unfolding free_clusters_def by auto
    qed
  qed
  then show ?thesis by blast
qed

lemma finite_free [simp]: "finite (free_clusters t)"
  by (rule finite_subset [of _ UNIV]) auto

lemma pwrite_loop_spec:
  assumes "disk_ok d" "used_chain (tab d) s (pre @ c # post)" "0 \<le> off" "0 < r" "pos + r \<le> length buf"
    "nat off mod fat_table_bytes_per_cluster (tab d) + r
       \<le> (length (c # post) + card (free_clusters (tab d))) * fat_table_bytes_per_cluster (tab d)"
  shows "\<exists>d' new. pwrite_loop buf pos off (int r) c d = Some (0, d')
    \<and> written d s pre c post (nat off mod fat_table_bytes_per_cluster (tab d)) (take r (drop pos buf)) new d'"
  using assms
proof (induction r arbitrary: pos off c pre post d rule: less_induct)
  case (less r)
  define b where "b = fat_table_bytes_per_cluster (tab d)"
  define k where "k = nat off mod b"
  define n where "n = min (b - k) r"
  have kd: "k = nat off mod fat_table_bytes_per_cluster (tab d)"
    and nd: "n = min (fat_table_bytes_per_cluster (tab d) - k) r" by (simp_all add: k_def n_def b_def)
  have t: "table_wf (tab d)" using less.prems(1) by (simp add: disk_ok_def)
  note uc = used_chain_facts [OF less.prems(2) t]
  have vc: "fat_table_is_valid_cluster_number (tab d) c" using uc(2) by simp
  have k: "k < b" by (simp add: k_def b_def)
  have cl: "length (cluster_bytes d c) = b" using cluster_bytes_length [OF less.prems(1) vc] by (simp add: b_def)
  obtain d1 where d1: "disk_ok d1" "tab d1 = tab d" "io_now (vio d1) = io_now (vio d)"
    "cluster_bytes d1 c = splice_at (cluster_bytes d c) k (take n (drop pos buf))"
    "\<forall>e. fat_table_is_valid_cluster_number (tab d) e \<and> e \<noteq> c \<longrightarrow> cluster_bytes d1 e = cluster_bytes d e"
    "pwrite_loop buf pos off (int r) c d = (if r = n then Some (0, d1)
       else Option.bind (next_or_new_cluster c d1) (\<lambda>(cluster', d2).
         if errno d2 \<noteq> 0 \<or> \<not> fat_table_cluster_is_valid cluster' then Some (int (r - n), d2)
         else pwrite_loop buf (pos + n) (off + int n) (int (r - n)) cluster' d2))"
    by (rule pwrite_round [OF less.prems(1) vc less.prems(3,4,5) kd nd]) (rule that)
  have ld: "length (take n (drop pos buf)) = n" using less.prems(5) by (simp add: n_def)
  show ?case unfolding b_def [symmetric] k_def [symmetric]
  proof (cases "r = n")
    case True
    then have "k + length (take n (drop pos buf)) \<le> length (cluster_bytes d c)" using ld cl k by (simp add: n_def)
    then show "\<exists>d' new. pwrite_loop buf pos off (int r) c d = Some (0, d') \<and> written d s pre c post k (take r (drop pos buf)) new d'"
      using written_single [OF d1(1-4) _ d1(5) less.prems(2) t] d1(6) True by auto
  next
    case False
    then have n: "n = b - k" "n < r" "0 < n" using k by (auto simp: n_def)
    have k0: "nat (off + int n) mod b = 0"
      using mod_past_end [OF k_def [symmetric] k] less.prems(3) n(1) by (simp add: nat_add_distrib)
    have noff: "0 \<le> off + int n" using less.prems(3) by simp
    have full: "k + length (take n (drop pos buf)) = length (cluster_bytes d c)" using ld cl k n(1) by simp
    have bound: "pos + n + (r - n) \<le> length buf" using less.prems(5) n(2) by linarith
    have bs: "take r (drop pos buf) = take n (drop pos buf) @ take (r - n) (drop (pos + n) buf)"
      using n(2) by (metis add.commute drop_drop le_add_diff_inverse less_imp_le take_add)
    have dist: "distinct (c # post)" using uc(1) by simp
    have cf: "c \<notin> free_clusters (tab d)" using uc(3) by auto
    show "\<exists>d' new. pwrite_loop buf pos off (int r) c d = Some (0, d') \<and> written d s pre c post k (take r (drop pos buf)) new d'"
    proof (cases post)
      case (Cons p ps)
      have vp: "fat_table_is_valid_cluster_number (tab d) p" using uc(2) Cons by simp
      have "fat_chain (tab d) s ((pre @ [c]) @ p # ps)" using less.prems(2) Cons by (simp add: used_chain_def)
      have "fat_table_get_next_cluster (tab d) c = Some p"
        using fat_chain_suffix [of "tab d" s pre c post] less.prems(2) Cons
        by (auto simp: used_chain_def split: option.splits)
      moreover have val: "fat_table_cluster_is_valid p" by (rule valid_number_is_valid(1) [OF t vp])
      ultimately have nxt: "next_or_new_cluster c d1 = Some (p, d1)"
        using d1(2) by (simp add: next_or_new_cluster_def fat_table_cluster_is_valid_def)
      have "k + r \<le> (length (c # post) + card (free_clusters (tab d))) * b"
        using less.prems(6) by (simp add: k_def b_def)
      then have room: "0 + (r - n) \<le> (length (p # ps) + card (free_clusters (tab d))) * b"
        using n k Cons by simp
      obtain d' new where IH: "pwrite_loop buf (pos + n) (off + int n) (int (r - n)) p d1 = Some (0, d')"
        "written d1 s (pre @ [c]) p ps 0 (take (r - n) (drop (pos + n) buf)) new d'"
        using less.IH [OF _ d1(1) _ noff _ bound, of "pre @ [c]" p ps] n(2,3) less.prems(2) Cons room k0
        unfolding d1(2) b_def by auto
      have "errno d1 = 0" using d1(1) by (simp add: disk_ok_def)
      then have "pwrite_loop buf pos off (int r) c d = Some (0, d')"
        using d1(6) False nxt IH(1) val by simp
      moreover have "written d s pre c post k (take n (drop pos buf) @ take (r - n) (drop (pos + n) buf)) new d'"
        by (rule written_Cons [OF d1(1-4) full d1(5) table_step_refl [OF d1(1)] _ IH(2) _ cf dist _ vc vp])
          (use Cons d1(2) in auto)
      ultimately show ?thesis unfolding bs by blast
    next
      case Nil
      have "k + r \<le> (length (c # post) + card (free_clusters (tab d))) * b"
        using less.prems(6) by (simp add: k_def b_def)
      then have room: "r - n \<le> card (free_clusters (tab d)) * b" using n k Nil by simp
      then have ne: "free_clusters (tab d) \<noteq> {}" using n(2) by auto
      have uc1: "used_chain (tab d1) s (pre @ [c])" using less.prems(2) Nil d1(2) by simp
      obtain f d2 where f: "next_or_new_cluster c d1 = Some (f, d2)" "table_step d1 d2" "f \<in> free_clusters (tab d)"
        "tab d2 = (tab d)\<lparr>fat_map := (fat_map (tab d))[unat c := f, unat f := FAT_CLUSTER_END_OF_CHAIN_MAX]\<rparr>"
        "used_chain (tab d2) s (pre @ [c, f])"
        using next_or_new_extends [OF d1(1) uc1] ne unfolding d1(2) by metis
      have vf: "fat_table_is_valid_cluster_number (tab d) f" using f(3) by (simp add: free_clusters_def)
      have val: "fat_table_cluster_is_valid f" by (rule valid_number_is_valid(1) [OF t vf])
      have ok2: "disk_ok d2" using f(2) by (simp add: table_step_def)
      have fc: "free_clusters (tab d2) = free_clusters (tab d) - {f}"
        by (rule free_clusters_after [OF t f(3) cf valid_number_is_valid(2) [OF t vc] f(4)])
      have b2: "fat_table_bytes_per_cluster (tab d2) = b"
        using f(4) by (simp add: b_def fat_table_bytes_per_cluster_def)
      have "card (free_clusters (tab d)) = Suc (card (free_clusters (tab d2)))"
        unfolding fc by (rule card.remove [OF finite_free f(3)])
      then have room2: "0 + (r - n) \<le> (length [f] + card (free_clusters (tab d2))) * b" using room by simp
      obtain d' new where IH: "pwrite_loop buf (pos + n) (off + int n) (int (r - n)) f d2 = Some (0, d')"
        "written d2 s (pre @ [c]) f [] 0 (take (r - n) (drop (pos + n) buf)) new d'"
        using less.IH [OF _ ok2 _ noff _ bound, of "pre @ [c]" f "[]"] n(2,3) f(5) room2 k0
        unfolding b2 by auto
      have "errno d2 = 0" using ok2 by (simp add: disk_ok_def)
      then have "pwrite_loop buf pos off (int r) c d = Some (0, d')"
        using d1(6) False f(1) IH(1) val by simp
      moreover have "written d s pre c post k (take n (drop pos buf) @ take (r - n) (drop (pos + n) buf)) (f # new) d'"
        by (rule written_Cons [OF d1(1-4) full d1(5) f(2) _ IH(2) _ cf dist _ vc vf])
          (use Nil d1(2) f(3,4) fc in auto)
      ultimately show ?thesis unfolding bs by blast
    qed
  qed
qed

text \<open>Where a write starts: the cluster of the offset, taken from the chain or added to it.\<close>

definition write_start :: "disk \<Rightarrow> u32 \<Rightarrow> u32 list \<Rightarrow> nat \<Rightarrow> u32 list \<Rightarrow> u32 \<Rightarrow> u32 list \<Rightarrow> u32 list \<Rightarrow> disk \<Rightarrow> bool" where
  "write_start d s cs off pre c post new d1 \<longleftrightarrow>
     table_step d d1 \<and> used_chain (tab d1) s (pre @ c # post) \<and> pre @ c # post = cs @ new
     \<and> length pre * fat_table_bytes_per_cluster (tab d) + off mod fat_table_bytes_per_cluster (tab d) = off
     \<and> set new \<subseteq> free_clusters (tab d) \<and> free_clusters (tab d1) = free_clusters (tab d) - set new
     \<and> (new \<noteq> [] \<longrightarrow> pre = cs \<and> post = [])
     \<and> (\<forall>i. i \<notin> unat ` set (cs @ new) \<longrightarrow> fat_map (tab d1) ! i = fat_map (tab d) ! i)"

lemma write_start_inside:
  assumes "disk_ok d" "used_chain (tab d) s cs" "q < length cs"
    "q = off div fat_table_bytes_per_cluster (tab d)"
  shows "write_start d s cs off (take q cs) (cs ! q) (drop (Suc q) cs) [] d"
proof -
  have "take q cs @ cs ! q # drop (Suc q) cs = cs" using assms(3) by (simp add: id_take_nth_drop [symmetric])
  moreover have "length (take q cs) = q" using assms(3) by simp
  ultimately show ?thesis
    using assms table_step_refl [OF assms(1)] by (simp add: write_start_def)
qed

lemma write_start_new:
  assumes "disk_ok d" "used_chain (tab d) s cs" "cs \<noteq> []" "free_clusters (tab d) \<noteq> {}"
    "off = length cs * fat_table_bytes_per_cluster (tab d)"
  obtains f d1 where "next_or_new_cluster (last cs) d = Some (f, d1)" "write_start d s cs off cs f [] [f] d1"
proof -
  have t: "table_wf (tab d)" using assms(1) by (simp add: disk_ok_def)
  have cs: "butlast cs @ [last cs] = cs" using assms(3) by simp
  obtain f d1 where f: "next_or_new_cluster (last cs) d = Some (f, d1)" "table_step d d1" "f \<in> free_clusters (tab d)"
    "tab d1 = (tab d)\<lparr>fat_map := (fat_map (tab d))[unat (last cs) := f, unat f := FAT_CLUSTER_END_OF_CHAIN_MAX]\<rparr>"
    "used_chain (tab d1) s (butlast cs @ [last cs, f])"
    using next_or_new_extends [OF assms(1), of s "butlast cs" "last cs"] assms(2,4) cs by metis
  note uc = used_chain_facts [OF assms(2) t]
  have last: "last cs \<in> set cs" using assms(3) by simp
  then have lf: "last cs \<notin> free_clusters (tab d)" using uc(3) by blast
  have "free_clusters (tab d1) = free_clusters (tab d) - {f}"
    by (rule free_clusters_after [OF t f(3) lf valid_number_is_valid(2) [OF t uc(2) [OF last]] f(4)])
  moreover have "used_chain (tab d1) s (cs @ [f])"
    using f(5) cs by (metis append_Cons append_Nil append_assoc)
  moreover have "fat_map (tab d1) ! i = fat_map (tab d) ! i" if "i \<notin> unat ` set (cs @ [f])" for i
  proof -
    have "i \<noteq> unat f" "i \<noteq> unat (last cs)" using that last by auto
    then show ?thesis unfolding f(4) by simp
  qed
  ultimately have "write_start d s cs off cs f [] [f] d1"
    using f(2,3) assms(5) by (simp add: write_start_def)
  then show thesis by (rule that [OF f(1)])
qed

lemma write_start_ex:
  assumes "disk_ok d" "used_chain (tab d) s cs" "cs \<noteq> []"
    "off \<le> length cs * fat_table_bytes_per_cluster (tab d)"
    "off < (length cs + card (free_clusters (tab d))) * fat_table_bytes_per_cluster (tab d)" "off < 2 ^ 32"
  obtains pre c post new d1 where "write_start d s cs off pre c post new d1"
    "Option.bind (fat_table_seek_cluster (tab d) s (if int off \<noteq> 0 then int off - 1 else 0) (vio d))
       (\<lambda>(cluster, s). if int off mod int (fat_table_bytes_per_cluster (tab d)) = 0 \<and> cluster \<noteq> 0 \<and> int off \<noteq> 0
          then next_or_new_cluster cluster (d\<lparr>vio := s\<rparr>) else Some (cluster, d\<lparr>vio := s\<rparr>)) = Some (c, d1)"
proof -
  define b where "b = fat_table_bytes_per_cluster (tab d)"
  define q where "q = off div b"
  have t: "table_wf (tab d)" using assms(1) by (simp add: disk_ok_def)
  have ch: "fat_chain (tab d) s cs" using assms(2) by (simp add: used_chain_def)
  have b0: "0 < b" by (simp add: b_def)
  have offq: "q * b + off mod b = off" by (simp add: q_def)
  have seek: "fat_table_seek_cluster (tab d) s (int n) (vio d) = Some (cs ! (n div b), vio d)"
    if "n < length cs * b" "n < 2 ^ 32" for n
  proof -
    have "n div b < length cs" using that(1) by (simp add: less_mult_imp_div_less)
    moreover have "n div b < 2 ^ 32" using that(2) div_le_dividend [of n b] by linarith
    ultimately show ?thesis
      using seek_cluster_chain_lib [OF t ch, of "int n" "vio d"] by (simp add: Let_def b_def)
  qed
  have vd: "d\<lparr>vio := vio d\<rparr> = d" by simp
  have inside: "write_start d s cs off (take q cs) (cs ! q) (drop (Suc q) cs) [] d" if "q < length cs"
    by (rule write_start_inside [OF assms(1,2) that]) (simp add: q_def b_def)
  show thesis
  proof (cases "off mod b = 0 \<and> off \<noteq> 0")
    case False
    have lt: "q < length cs"
    proof (cases "off = 0")
      case True
      then show ?thesis using assms(3) by (simp add: q_def)
    next
      case False
      with \<open>\<not> (off mod b = 0 \<and> off \<noteq> 0)\<close> have "q * b < off" using offq by linarith
      then have "q * b < length cs * b" using assms(4) unfolding b_def by linarith
      then show ?thesis by simp
    qed
    have pos: "0 < length cs * b" using b0 assms(3) by simp
    have sk: "fat_table_seek_cluster (tab d) s (if int off \<noteq> 0 then int off - 1 else 0) (vio d) = Some (cs ! q, vio d)"
    proof (cases "off = 0")
      case True
      then show ?thesis using seek [of 0] pos by (simp add: q_def)
    next
      case nz: False
      then have m: "off mod b \<noteq> 0" using False by simp
      have eq: "off - 1 = q * b + (off mod b - 1)" using offq m by linarith
      have "off mod b - 1 < b" using mod_less_divisor [OF b0, of off] by linarith
      then have "(off - 1) div b = q" unfolding eq using b0 by simp
      moreover have "off - 1 < length cs * b" "off - 1 < 2 ^ 32" using assms(4,6) nz by (simp_all add: b_def)
      moreover have "int off - 1 = int (off - 1)" using nz by simp
      ultimately show ?thesis using seek [of "off - 1"] nz by simp
    qed
    have test: "(int off mod int (fat_table_bytes_per_cluster (tab d)) = 0 \<and> cs ! q \<noteq> 0 \<and> int off \<noteq> 0) = False"
      using False by (auto simp: b_def zmod_int [symmetric])
    show thesis
      by (rule that [OF inside [OF lt]]) (simp only: sk test if_False bind.bind_lunit case_prod_conv vd)
  next
    case True
    then have q: "q * b = off" "0 < q" using offq by (auto intro: gr0I)
    then have "off - 1 = (q - 1) * b + (b - 1)" using b0 by (cases q) (auto simp: algebra_simps)
    moreover have "b - 1 < b" using b0 by simp
    ultimately have dv: "(off - 1) div b = q - 1" by (metis add.commute div_less div_mult_self1 add_0_right less_nat_zero_code)
    have "q * b \<le> length cs * b" using q(1) assms(4) by (simp add: b_def)
    then have lq: "q \<le> length cs" using b0 by simp
    have "off - 1 < length cs * b" using assms(4) True unfolding b_def by linarith
    moreover have "off - 1 < 2 ^ 32" "int off - 1 = int (off - 1)" using assms(6) True by simp_all
    ultimately have sk: "fat_table_seek_cluster (tab d) s (if int off \<noteq> 0 then int off - 1 else 0) (vio d)
        = Some (cs ! (q - 1), vio d)"
      using seek [of "off - 1"] dv True by simp
    have prev: "cs ! (q - 1) \<in> set cs" using q(2) lq by simp
    have v: "fat_table_is_valid_cluster_number (tab d) (cs ! (q - 1))" by (rule fat_chain_validD [OF ch prev])
    have nz: "cs ! (q - 1) \<noteq> 0" by (rule valid_number_is_valid(3) [OF t v])
    have test: "int off mod int (fat_table_bytes_per_cluster (tab d)) = 0 \<and> cs ! (q - 1) \<noteq> 0 \<and> int off \<noteq> 0"
      using True nz by (simp add: b_def zmod_int [symmetric])
    show thesis
    proof (cases "q < length cs")
      case lt: True
      have split: "cs = take (q - 1) cs @ cs ! (q - 1) # cs ! q # drop (Suc q) cs"
        using lt q(2) by (metis Cons_nth_drop_Suc One_nat_def Suc_pred append_take_drop_id less_imp_diff_less)
      have vq: "fat_table_is_valid_cluster_number (tab d) (cs ! q)" using fat_chain_validD [OF ch] lt by simp
      have "fat_chain (tab d) (cs ! (q - 1)) (cs ! (q - 1) # cs ! q # drop (Suc q) cs)"
        using fat_chain_suffix [of "tab d" s "take (q - 1) cs"] ch split by metis
      then have "fat_table_get_next_cluster (tab d) (cs ! (q - 1)) = Some (cs ! q)"
        by (auto split: option.splits)
      moreover have "\<not> fat_table_cluster_is_EOC (cs ! q)"
        using valid_number_is_valid(1) [OF t vq] by (simp add: fat_table_cluster_is_valid_def)
      ultimately have "next_or_new_cluster (cs ! (q - 1)) d = Some (cs ! q, d)"
        by (simp add: next_or_new_cluster_def)
      then show thesis
        by (intro that [OF inside [OF lt]]) (simp only: sk bind.bind_lunit case_prod_conv vd if_P [OF test])
    next
      case False
      then have ql: "q = length cs" using lq by simp
      then have off: "off = length cs * fat_table_bytes_per_cluster (tab d)" using q(1) by (simp add: b_def)
      then have ne: "free_clusters (tab d) \<noteq> {}" using assms(5) by auto
      have "last cs = cs ! (q - 1)" using assms(3) ql by (simp add: last_conv_nth)
      with write_start_new [OF assms(1-3) ne off] obtain f d1 where
        "next_or_new_cluster (cs ! (q - 1)) d = Some (f, d1)" "write_start d s cs off cs f [] [f] d1" by metis
      then show thesis
        by (intro that [of cs f "[]" "[f]" d1]) (simp_all only: sk bind.bind_lunit case_prod_conv vd if_P [OF test])
    qed
  qed
qed

lemma written_content:
  assumes "disk_ok d" "write_start d s cs off pre c post new0 d1"
    "written d1 s pre c post (off mod fat_table_bytes_per_cluster (tab d)) bs new d2"
    "off \<le> length cs * fat_table_bytes_per_cluster (tab d)" "used_chain (tab d) s cs"
  shows "take (off + length bs) (content d2 (cs @ new0 @ new)) = take off (content d cs) @ bs"
    "drop (off + length bs) (content d2 cs) = drop (off + length bs) (content d cs)"
proof -
  define b where "b = fat_table_bytes_per_cluster (tab d)"
  define k where "k = off mod b"
  note S = assms(2) [unfolded write_start_def] and W = assms(3) [unfolded written_def]
  have t: "table_wf (tab d)" using assms(1) by (simp add: disk_ok_def)
  have ok1: "disk_ok d1" using S by (simp add: table_step_def)
  have b1: "fat_table_bytes_per_cluster (tab d1) = b" using table_step_bytes S by (simp add: b_def)
  have ch: "pre @ c # post = cs @ new0" and off: "length pre * b + k = off"
    and kb: "k < b" using S by (simp_all add: b_def k_def)
  have uc1: "used_chain (tab d1) s (pre @ c # post)" using S by blast
  note f1 = used_chain_facts [OF uc1]
  have t1: "table_wf (tab d1)" using ok1 by (simp add: disk_ok_def)
  have vd: "fat_table_is_valid_cluster_number (tab d1) e = fat_table_is_valid_cluster_number (tab d) e" for e
    using table_step_valid S by blast
  have same1: "content d1 xs = content d xs" if "set xs \<subseteq> set (cs @ new0)" for xs
    using S f1(2) [OF t1] that vd unfolding table_step_def ch by (intro content_cong) blast
  have uc2: "used_chain (tab d2) s (pre @ c # post @ new)" using W by blast
  have "disk_ok d2" using W by blast
  then have dist: "distinct (pre @ c # post @ new)" using used_chain_facts(1) [OF uc2] by (simp add: disk_ok_def)
  have p2: "content d2 pre = content d1 pre"
  proof (rule content_cong, rule ballI)
    fix x assume x: "x \<in> set pre"
    then have "x \<notin> set (c # post @ new)" using dist by auto
    moreover have "fat_table_is_valid_cluster_number (tab d1) x" using f1(2) [OF t1] x by simp
    ultimately show "cluster_bytes d2 x = cluster_bytes d1 x" using W by blast
  qed
  have lp: "length (content d1 pre) = length pre * b"
    using content_length [OF ok1, of pre] f1(2) [OF t1] b1 by simp
  have tk: "take (k + length bs) (content d2 (c # post @ new)) = take k (cluster_bytes d1 c) @ bs"
    and dr: "drop (k + length bs) (content d2 (c # post)) = drop (k + length bs) (content d1 (c # post))"
    using W by (simp_all add: k_def b_def)
  have lens: "off + length bs = length (content d1 pre) + (k + length bs)" using off lp by simp
  have lc: "length (cluster_bytes d1 c) = b"
    using cluster_bytes_length [OF ok1] f1(2) [OF t1, of c] b1 by simp
  have lcs: "length (content d cs) = length cs * b"
    using content_length [OF assms(1)] used_chain_facts(2) [OF assms(5) t] by (simp add: b_def)
  have all: "cs @ new0 @ new = pre @ c # post @ new" using ch by (metis append_Cons append_assoc)
  have "take off (content d1 (pre @ c # post)) = content d1 pre @ take k (cluster_bytes d1 c)"
    unfolding off [symmetric] using lp lc kb by simp
  moreover have "take off (content d1 (pre @ c # post)) = take off (content d cs)"
    using same1 [of "cs @ new0"] assms(4) lcs unfolding ch by (simp add: b_def)
  ultimately have head: "take off (content d cs) = content d1 pre @ take k (cluster_bytes d1 c)" by simp
  have "take (off + length bs) (content d2 (pre @ c # post @ new))
      = content d1 pre @ take (k + length bs) (content d2 (c # post @ new))"
    unfolding lens content_simps(3) [of _ pre] p2 by simp
  then show "take (off + length bs) (content d2 (cs @ new0 @ new)) = take off (content d cs) @ bs"
    unfolding all head tk by simp
  show "drop (off + length bs) (content d2 cs) = drop (off + length bs) (content d cs)"
  proof (cases "new0 = []")
    case True
    have "drop (off + length bs) (content d2 (pre @ c # post)) = drop (off + length bs) (content d1 (pre @ c # post))"
      unfolding lens content_simps(3) [of _ pre] p2 using dr by simp
    then show ?thesis using same1 [of cs] True unfolding ch by simp
  next
    case False
    then have "pre = cs" using S by blast
    then have "length (content d2 cs) = length (content d cs)" using p2 lp lcs by simp
    moreover have "length (content d cs) \<le> off" using off lcs \<open>pre = cs\<close> by simp
    ultimately show ?thesis by simp
  qed
qed

lemma write_start_room:
  assumes "write_start d s cs off pre c post new d1" "used_chain (tab d) s cs" "table_wf (tab d)"
  shows "length pre + (length (c # post) + card (free_clusters (tab d1))) = length cs + card (free_clusters (tab d))"
proof -
  note S = assms(1) [unfolded write_start_def]
  have sub: "set new \<subseteq> free_clusters (tab d)" using S by blast
  have "table_wf (tab d1)" using S by (simp add: table_step_def disk_ok_def)
  then have "distinct (pre @ c # post)" using used_chain_facts(1) S by blast
  then have "distinct (cs @ new)" using S by simp
  then have "card (set new) = length new" by (simp add: distinct_card)
  moreover have "card (free_clusters (tab d1)) = card (free_clusters (tab d)) - card (set new)"
    using S sub by (simp add: card_Diff_subset)
  moreover have "card (set new) \<le> card (free_clusters (tab d))" by (rule card_mono [OF finite_free sub])
  moreover have "length pre + length (c # post) = length cs + length new"
    using S by (metis length_append)
  ultimately show ?thesis by linarith
qed

text \<open>The data part of a write: the chain is sought, extended and filled.\<close>

definition data_written :: "disk \<Rightarrow> u32 \<Rightarrow> u32 list \<Rightarrow> nat \<Rightarrow> u8 list \<Rightarrow> u32 list \<Rightarrow> disk \<Rightarrow> bool" where
  "data_written d s cs off data new d2 \<longleftrightarrow> disk_ok d2 \<and> set new \<subseteq> free_clusters (tab d) \<and> used_chain (tab d2) s (cs @ new)
     \<and> take (off + length data) (content d2 (cs @ new)) = take off (content d cs) @ data
     \<and> drop (off + length data) (content d2 cs) = drop (off + length data) (content d cs)
     \<and> (\<forall>e. fat_table_is_valid_cluster_number (tab d2) e = fat_table_is_valid_cluster_number (tab d) e)
     \<and> fat_table_bytes_per_cluster (tab d2) = fat_table_bytes_per_cluster (tab d)
     \<and> (\<forall>e. fat_table_is_valid_cluster_number (tab d) e \<and> e \<notin> set (cs @ new) \<longrightarrow> cluster_bytes d2 e = cluster_bytes d e)
     \<and> (\<forall>i. i \<notin> unat ` set (cs @ new) \<longrightarrow> fat_map (tab d2) ! i = fat_map (tab d) ! i)"

lemma data_written_join:
  assumes "disk_ok d" "used_chain (tab d) s cs" "off \<le> length cs * fat_table_bytes_per_cluster (tab d)"
    and w: "write_start d s cs off pre c post new0 d1"
    and l: "written d1 s pre c post (off mod fat_table_bytes_per_cluster (tab d)) data new1 d2"
  shows "data_written d s cs off data (new0 @ new1) d2"
proof -
  note S = w [unfolded write_start_def] and W = l [unfolded written_def]
  have all: "cs @ new0 @ new1 = pre @ c # post @ new1" using S by (metis append_Cons append_assoc)
  note cont = written_content [OF assms(1) w l assms(3,2)]
  have vd1: "fat_table_is_valid_cluster_number (tab d1) e = fat_table_is_valid_cluster_number (tab d) e" for e
    using table_step_valid S by blast
  have tab2: "tab d2 = (tab d1)\<lparr>fat_map := fat_map (tab d2)\<rparr>" using W by blast
  have vd2: "fat_table_is_valid_cluster_number (tab d2) e = fat_table_is_valid_cluster_number (tab d) e" for e
    using valid_number_update [where t = "tab d1" and m = "fat_map (tab d2)" and c = e] tab2 vd1 by metis
  have "fat_table_bytes_per_cluster (tab d1) = fat_table_bytes_per_cluster (tab d)" using table_step_bytes S by simp
  then have b2: "fat_table_bytes_per_cluster (tab d2) = fat_table_bytes_per_cluster (tab d)"
    using tab2 by (metis fat_table.select_convs(5) fat_table.surjective fat_table.update_convs(1) fat_table_bytes_per_cluster_def)
  have others: "cluster_bytes d2 e = cluster_bytes d e"
    if "fat_table_is_valid_cluster_number (tab d) e" "e \<notin> set (cs @ new0 @ new1)" for e
  proof -
    have "e \<notin> set (c # post @ new1)" using that(2) all by auto
    then have "cluster_bytes d2 e = cluster_bytes d1 e" using W that(1) vd1 by blast
    also have "\<dots> = cluster_bytes d e" using S that(1) by (simp add: table_step_def)
    finally show ?thesis .
  qed
  have maps: "fat_map (tab d2) ! i = fat_map (tab d) ! i" if "i \<notin> unat ` set (cs @ new0 @ new1)" for i
  proof -
    have "fat_map (tab d2) ! i = fat_map (tab d1) ! i" using W that unfolding all by blast
    also have "\<dots> = fat_map (tab d) ! i" using S that by auto
    finally show ?thesis .
  qed
  have "set (new0 @ new1) \<subseteq> free_clusters (tab d)" "used_chain (tab d2) s (cs @ new0 @ new1)" "disk_ok d2"
    using S W unfolding all by auto
  then show ?thesis unfolding data_written_def using cont vd2 b2 others maps by blast
qed

lemma pwrite_data:
  assumes "disk_ok d" "used_chain (tab d) s cs" "cs \<noteq> []" "off \<le> length cs * fat_table_bytes_per_cluster (tab d)"
    "0 < sz" "sz \<le> length buf" "off + sz < 2 ^ 32"
    "off + sz \<le> (length cs + card (free_clusters (tab d))) * fat_table_bytes_per_cluster (tab d)"
  obtains cl s1 c d1 d2 new where
    "fat_table_seek_cluster (tab d) s (if int off \<noteq> 0 then int off - 1 else 0) (vio d) = Some (cl, s1)"
    "(if int off mod int (fat_table_bytes_per_cluster (tab d)) = 0 \<and> cl \<noteq> 0 \<and> int off \<noteq> 0
        then next_or_new_cluster cl (d\<lparr>vio := s1\<rparr>) else Some (cl, d\<lparr>vio := s1\<rparr>)) = Some (c, d1)"
    "errno d1 = 0" "pwrite_loop buf 0 (int off) (int sz) c d1 = Some (0, d2)" "data_written d s cs off (take sz buf) new d2"
proof -
  let ?b = "fat_table_bytes_per_cluster (tab d)"
  have t: "table_wf (tab d)" using assms(1) by (simp add: disk_ok_def)
  have "off < (length cs + card (free_clusters (tab d))) * ?b" "off < 2 ^ 32"
    using assms(5,7,8) by linarith+
  then obtain pre c post new0 d1 where w: "write_start d s cs off pre c post new0 d1"
    and start: "Option.bind (fat_table_seek_cluster (tab d) s (if int off \<noteq> 0 then int off - 1 else 0) (vio d))
       (\<lambda>(cluster, s). if int off mod int ?b = 0 \<and> cluster \<noteq> 0 \<and> int off \<noteq> 0
          then next_or_new_cluster cluster (d\<lparr>vio := s\<rparr>) else Some (cluster, d\<lparr>vio := s\<rparr>)) = Some (c, d1)"
    by (rule write_start_ex [OF assms(1,2,3,4)]) (rule that)
  note S = w [unfolded write_start_def]
  have ok1: "disk_ok d1" using S by (simp add: table_step_def)
  have b1: "fat_table_bytes_per_cluster (tab d1) = ?b" using table_step_bytes S by simp
  have "length pre * ?b + off mod ?b + sz \<le> (length pre + (length (c # post) + card (free_clusters (tab d1)))) * ?b"
    using assms(8) S unfolding write_start_room [OF w assms(2) t] by simp
  then have room: "off mod ?b + sz \<le> (length (c # post) + card (free_clusters (tab d1))) * ?b"
    by (simp add: distrib_right)
  have uc1: "used_chain (tab d1) s (pre @ c # post)" using S by blast
  obtain d2 new1 where loop: "pwrite_loop buf 0 (int off) (int sz) c d1 = Some (0, d2)"
    "written d1 s pre c post (off mod ?b) (take sz buf) new1 d2"
    using pwrite_loop_spec [OF ok1 uc1, of "int off" sz 0 buf] assms(5,6) room by (auto simp: b1)
  show thesis
    using start ok1 loop(1) data_written_join [OF assms(1,2,4) w loop(2)] that
    by (auto simp only: bind_eq_Some_conv split_paired_Ex case_prod_conv disk_ok_def)
qed

text \<open>The entry of the file in its directory is written afterwards, outside the chain.\<close>

lemma entry_written:
  assumes "disk_ok d2" "entries_fit d2" "dentry file' = Some de" "dentry_wf de"
    "fat_table_is_valid_cluster_number (tab d2) (start_cluster parent)"
    "unat (pos_in_parent file') * 32 < fat_table_bytes_per_cluster (tab d2)"
  obtains d3 where "write_dir_entry parent file' d2 = Some d3" "disk_ok d3" "tab d3 = tab d2"
    "entry_at d3 (start_cluster parent) (unat (pos_in_parent file')) = de"
    "\<forall>e. fat_table_is_valid_cluster_number (tab d2) e \<and> e \<noteq> start_cluster parent \<longrightarrow> cluster_bytes d3 e = cluster_bytes d2 e"
proof -
  let ?p = "start_cluster parent"
  obtain d3 where d3: "write_dir_entry parent file' d2 = Some d3" "disk_ok d3" "tab d3 = tab d2"
    "cluster_bytes d3 ?p = splice_at (cluster_bytes d2 ?p) (unat (pos_in_parent file') * 32) (dentry_bytes de)"
    "\<forall>e. fat_table_is_valid_cluster_number (tab d2) e \<and> e \<noteq> ?p \<longrightarrow> cluster_bytes d3 e = cluster_bytes d2 e"
    using write_dir_entry_ex [OF assms(1), of parent file' de] assms(2-6) by (auto simp: entries_fit_def)
  have "32 dvd fat_table_bytes_per_cluster (tab d2)" using assms(2) by (simp add: entries_fit_def)
  moreover have "length (cluster_bytes d2 ?p) = fat_table_bytes_per_cluster (tab d2)"
    by (rule cluster_bytes_length [OF assms(1,5)])
  ultimately have "entry_at d3 ?p (unat (pos_in_parent file')) = de"
    using entry_at_splice [of d2 ?p "fat_table_bytes_per_cluster (tab d2)" "unat (pos_in_parent file')" "unat (pos_in_parent file')" d3 de]
      d3(4) assms(4,6) by (simp add: mult.commute)
  then show thesis using that d3 by blast
qed

lemma grown_size:
  assumes "off + sz < 2 ^ 32"
  shows "unat (file_size (if int off + int sz > uint (file_size de) then de\<lparr>file_size := word_of_int (int off + int sz)\<rparr> else de))
    = max (unat (file_size de)) (off + sz)"
proof -
  have "unat (word_of_int (int off + int sz) :: u32) = off + sz"
    using assms by (simp add: unat_of_nat flip: of_nat_add)
  moreover have "uint (file_size de) < int off + int sz \<longleftrightarrow> unat (file_size de) < off + sz"
    by (metis of_nat_add of_nat_less_iff of_nat_unat ucast_id uint_nat)
  ultimately show ?thesis by auto
qed

text \<open>
  C3: writing inside a file or at its end stores the bytes, all of them, in the chain of the
  file, which grows by free clusters as far as needed; the rest of the content stays, the size
  becomes the larger of the old one and the end of the write, and the entry in the parent records
  it.  No other cluster and no other entry of the table changes.
\<close>

theorem fat_file_pwrite_content:
  assumes "disk_ok d" "entries_fit d" "file_ok d file cs" "used_chain (tab d) (start_cluster file) cs"
    "dentry file = Some de" "off \<le> unat (file_size de)" "0 < sz" "sz \<le> length buf" "off + sz < 2 ^ 32"
    "off + sz \<le> (length cs + card (free_clusters (tab d))) * fat_table_bytes_per_cluster (tab d)"
    "fat_table_is_valid_cluster_number (tab d) (start_cluster parent)" "start_cluster parent \<notin> set cs"
    "start_cluster parent \<notin> free_clusters (tab d)"
    "unat (pos_in_parent file) * 32 < fat_table_bytes_per_cluster (tab d)"
  shows "\<exists>file' d' new de'. fat_file_pwrite file buf sz (int off) parent d = Some (int sz, file', d')
    \<and> disk_ok d' \<and> set new \<subseteq> free_clusters (tab d) \<and> used_chain (tab d') (start_cluster file') (cs @ new)
    \<and> take (off + sz) (content d' (cs @ new)) = take off (content d cs) @ take sz buf
    \<and> drop (off + sz) (content d' cs) = drop (off + sz) (content d cs)
    \<and> dentry file' = Some de' \<and> unat (file_size de') = max (unat (file_size de)) (off + sz)
    \<and> entry_at d' (start_cluster parent) (unat (pos_in_parent file)) = de'
    \<and> (\<forall>e. fat_table_is_valid_cluster_number (tab d) e \<and> e \<notin> set (start_cluster parent # cs @ new)
          \<longrightarrow> cluster_bytes d' e = cluster_bytes d e)
    \<and> (\<forall>i. i \<notin> unat ` set (cs @ new) \<longrightarrow> fat_map (tab d') ! i = fat_map (tab d) ! i)"
proof -
  let ?b = "fat_table_bytes_per_cluster (tab d)" and ?p = "start_cluster parent"
  have t: "table_wf (tab d)" using assms(1) by (simp add: disk_ok_def)
  have fo: "cs \<noteq> []" "dentry_wf de" "unat (file_size de) \<le> length (content d cs)"
    using assms(3,5) by (auto simp: file_ok_def)
  have "length (content d cs) = length cs * ?b"
    by (rule content_length [OF assms(1)]) (use used_chain_facts(2) [OF assms(4) t] in blast)
  then have offl: "off \<le> length cs * ?b" using fo(3) assms(6) by simp
  obtain cl s1 c d1 d2 new where run: "fat_table_seek_cluster (tab d) (start_cluster file) (if int off \<noteq> 0 then int off - 1 else 0) (vio d) = Some (cl, s1)"
    "(if int off mod int ?b = 0 \<and> cl \<noteq> 0 \<and> int off \<noteq> 0 then next_or_new_cluster cl (d\<lparr>vio := s1\<rparr>) else Some (cl, d\<lparr>vio := s1\<rparr>)) = Some (c, d1)"
    "(errno d1 \<noteq> 0) = False" "pwrite_loop buf 0 (int off) (int sz) c d1 = Some (0, d2)"
    and dw: "data_written d (start_cluster file) cs off (take sz buf) new d2"
    by (rule pwrite_data [OF assms(1,4) fo(1) offl assms(7-10)]) simp
  have ls: "length (take sz buf) = sz" using assms(8) by simp
  note W = dw [unfolded data_written_def ls]
  define de1 where "de1 = (if int off + int sz > uint (file_size de) then de\<lparr>file_size := word_of_int (int off + int sz)\<rparr> else de)"
  define de2 where "de2 = snd (fill_dentry_time_now de1 False True (io_now (vio d2)))"
  define file' where "file' = file\<lparr>dentry := Some de2\<rparr>"
  have de2: "dentry_wf de2" "unat (file_size de2) = max (unat (file_size de)) (off + sz)"
    using fo(2) grown_size [OF assms(9), of de] by (simp_all add: de2_def de1_def dentry_wf_def)
  have "dentry file' = Some de2" "pos_in_parent file' = pos_in_parent file" by (simp_all add: file'_def)
  moreover have "entries_fit d2" using assms(2) W by (simp add: entries_fit_def)
  ultimately obtain d3 where d3: "write_dir_entry parent file' d2 = Some d3" "disk_ok d3" "tab d3 = tab d2"
    "entry_at d3 ?p (unat (pos_in_parent file)) = de2"
    "\<forall>e. fat_table_is_valid_cluster_number (tab d2) e \<and> e \<noteq> ?p \<longrightarrow> cluster_bytes d3 e = cluster_bytes d2 e"
    using entry_written [of d2 file' de2 parent] W de2(1) assms(11,14) by metis
  have le: "\<not> int off > uint (file_size de)" using assms(6)
    by (metis of_nat_le_iff of_nat_unat ucast_id uint_nat linorder_not_le)
  have call: "fat_file_pwrite file buf sz (int off) parent d = Some (int sz, file', d3)"
    unfolding fat_file_pwrite_def Let_def assms(5) bind.bind_lunit if_not_P [OF le] run(1) case_prod_conv run(2,3) if_False run(4) diff_zero
      de1_def [symmetric] de2_def [symmetric] file'_def [symmetric] d3(1) by (rule refl)
  have "content d3 xs = content d2 xs" if "set xs \<subseteq> set (cs @ new)" for xs
  proof (rule content_cong, intro ballI)
    fix e assume e: "e \<in> set xs"
    then have "e \<noteq> ?p" using that assms(12,13) W by auto
    moreover have "fat_table_is_valid_cluster_number (tab d2) e"
      using used_chain_facts(2) [of "tab d2" "start_cluster file" "cs @ new" e] W that e by (auto simp: disk_ok_def)
    ultimately show "cluster_bytes d3 e = cluster_bytes d2 e" using d3(5) by blast
  qed
  then show ?thesis
    by (intro exI [of _ file'] exI [of _ d3] exI [of _ new] exI [of _ de2] conjI allI impI)
      (use call d3 W de2(2) in \<open>auto simp: file'_def\<close>)
qed

lemma sample_used: "used_chain (tab sample_disk) (start_cluster sample_file) [2, 4]"
  "3 \<notin> free_clusters (tab sample_disk)" "1 \<le> card (free_clusters (tab sample_disk))"
proof -
  show "used_chain (tab sample_disk) (start_cluster sample_file) [2, 4]"
    using sample_chain(1) by (simp add: used_chain_def sample_file_def) (simp add: sample_disk_def sample_map_def)
  show "3 \<notin> free_clusters (tab sample_disk)"
    by (simp add: free_clusters_def sample_disk_def sample_map_def)
  have "5 \<in> free_clusters (tab sample_disk)"
    by (simp add: free_clusters_def sample_valid) (simp add: sample_disk_def sample_map_def)
  then have "0 < card (free_clusters (tab sample_disk))" by (auto simp: card_gt_0_iff)
  then show "1 \<le> card (free_clusters (tab sample_disk))" by simp
qed

theorem fat_file_pwrite_content_witness:
  "\<exists>file' d' new. fat_file_pwrite sample_file (replicate 30 67) 30 40 sample_dir sample_disk = Some (30, file', d')
     \<and> take 70 (content d' ([2, 4] @ new)) = take 40 (content sample_disk [2, 4]) @ replicate 30 67"
proof -
  have start: "start_cluster sample_dir = 3" "pos_in_parent sample_file = 0"
    by (simp_all add: sample_dir_def sample_file_def fat_file_init_empty_def)
  have "40 + 30 \<le> (length [2 :: u32, 4] + card (free_clusters (tab sample_disk))) * fat_table_bytes_per_cluster (tab sample_disk)"
    using sample_used(3) by (simp add: sample_sizes)
  then show ?thesis
    using fat_file_pwrite_content [OF sample_disk_ok sample_file_ok(1) sample_used(1) sample_file_ok(2),
        where off = 40 and sz = 30 and buf = "replicate 30 67" and parent = sample_dir] sample_used(2)
    by (auto simp: sample_entry_wf start sample_valid sample_sizes)
qed

end
