(* ===== verification/Fat_FS_Tree.thy ===== *)
theory Fat_FS_Tree
  imports Hierarchy_Delete Fat_File
begin

text \<open>
  Model of \<open>LAB4/main/esqueleto/fat_fs_tree.c\<close>: the tree of the files of a volume, a wrapper
  around the hierarchy tree with the callbacks for \<open>fat_file\<close> objects.  The contract of the
  hierarchy tree is instantiated here with the order of the paths, and the operations are shown
  to implement a finite map from paths to files.
\<close>

type_synonym file_heap = "fat_file h_state"

record fat_tree =
  file_tree :: addr
  file_cmp :: "fat_file \<Rightarrow> fat_file \<Rightarrow> int"
  file_destroy :: "fat_file data_modify_fn"
  file_cmp_key :: "fat_file \<Rightarrow> cstring \<Rightarrow> int"

section \<open>Operations\<close>

definition fat_tree_init :: fat_tree where
  "fat_tree_init = \<lparr>file_tree = 0, file_cmp = fat_file_cmp, file_destroy = free_obj,
     file_cmp_key = fat_file_cmp_path\<rparr>"

definition fat_tree_destroy :: "fat_tree option \<Rightarrow> file_heap \<Rightarrow> file_heap option" where
  "fat_tree_destroy tree s =
     (case tree of None \<Rightarrow> Some s
      | Some t \<Rightarrow> if file_tree t \<noteq> 0 then h_tree_destroy (file_destroy t) (file_tree t) s else Some s)"

definition fat_tree_size :: "fat_tree option \<Rightarrow> file_heap \<Rightarrow> int option" where
  "fat_tree_size tree s = (case tree of None \<Rightarrow> Some (-1) | Some t \<Rightarrow> h_tree_size (file_tree t) s)"

definition fat_tree_insert ::
  "fat_tree option \<Rightarrow> addr \<Rightarrow> addr \<Rightarrow> file_heap \<Rightarrow> (fat_tree option \<times> file_heap) option" where
  "fat_tree_insert tree parent new_file s =
     (case tree of None \<Rightarrow> Some (None, s\<lparr>h_errno := EINVAL\<rparr>)
      | Some t \<Rightarrow>
          if new_file = 0 then Some (None, s\<lparr>h_errno := EINVAL\<rparr>)
          else do {
            (r, s') \<leftarrow> h_tree_insert (file_cmp t) (file_tree t) new_file parent s;
            Some (Some (t\<lparr>file_tree := r\<rparr>), s')
          })"

definition fat_tree_node_search :: "fat_tree \<Rightarrow> cstring option \<Rightarrow> file_heap \<Rightarrow> (addr \<times> file_heap) option" where
  "fat_tree_node_search t key s = h_tree_search (file_cmp_key t) (file_tree t) key s"

definition fat_tree_search ::
  "fat_tree option \<Rightarrow> cstring option \<Rightarrow> file_heap \<Rightarrow> (addr \<times> file_heap) option" where
  "fat_tree_search tree key s =
     (case tree of None \<Rightarrow> Some (0, s)
      | Some t \<Rightarrow>
          if key = None \<or> file_tree t = 0 then Some (0, s)
          else do { (node, s') \<leftarrow> fat_tree_node_search t key s; h_tree_get_data node s' })"

definition fat_tree_get_file :: "addr \<Rightarrow> file_heap \<Rightarrow> (addr \<times> file_heap) option" where
  "fat_tree_get_file node s = h_tree_get_data node s"

definition fat_tree_get_parent :: "addr \<Rightarrow> file_heap \<Rightarrow> (addr \<times> file_heap) option" where
  "fat_tree_get_parent node s = do { p \<leftarrow> h_tree_get_h_parent node s; h_tree_get_data p s }"

definition fat_tree_inc_num_times_opened :: "addr \<Rightarrow> file_heap \<Rightarrow> file_heap option" where
  "fat_tree_inc_num_times_opened node s =
     h_tree_iterate_h_ancestors (modify_obj fat_file_inc_num_times_opened) node s"

definition fat_tree_dec_num_times_opened :: "addr \<Rightarrow> file_heap \<Rightarrow> file_heap option" where
  "fat_tree_dec_num_times_opened node s =
     h_tree_iterate_h_ancestors (modify_obj fat_file_dec_num_times_opened) node s"

definition fat_tree_delete ::
  "fat_tree option \<Rightarrow> cstring option \<Rightarrow> file_heap \<Rightarrow> (fat_tree option \<times> file_heap) option" where
  "fat_tree_delete tree key s =
     (case tree of None \<Rightarrow> Some (None, s\<lparr>h_errno := EINVAL\<rparr>)
      | Some t \<Rightarrow>
          if key = None \<or> file_tree t = 0 then Some (Some t, s)
          else do {
            (r, s') \<leftarrow> h_tree_delete (file_cmp_key t) (file_destroy t) (file_tree t) key s;
            Some (Some (t\<lparr>file_tree := r\<rparr>), s')
          })"

definition fat_tree_iterate_preorder ::
  "fat_tree option \<Rightarrow> fat_file data_modify_fn \<Rightarrow> file_heap \<Rightarrow> file_heap option" where
  "fat_tree_iterate_preorder tree mod_fn s =
     (case tree of None \<Rightarrow> Some s | Some t \<Rightarrow> h_tree_iterate_preorder mod_fn (file_tree t) s)"

text \<open>The arrays are results of the operations; \<open>None\<close> inside is the NULL pointer.\<close>

definition fat_tree_flatten_preorder :: "fat_tree option \<Rightarrow> file_heap \<Rightarrow> (addr list option) option" where
  "fat_tree_flatten_preorder tree s =
     (case tree of None \<Rightarrow> Some None
      | Some t \<Rightarrow> do {
          n \<leftarrow> h_tree_size (file_tree t) s;
          if n = 0 then Some None
          else do {
            elem_array \<leftarrow> h_tree_flatten_preorder (file_tree t) (replicate (nat n) 0) 0 s;
            Some (Some elem_array)
          }
        })"

definition fat_tree_flatten_h_children :: "addr \<Rightarrow> file_heap \<Rightarrow> (addr list option \<times> file_heap) option" where
  "fat_tree_flatten_h_children dir_node s =
     (if dir_node = 0 then Some (None, s)
      else do {
        n \<leftarrow> h_tree_size dir_node s;
        if n = 0 then Some (None, s)
        else do {
          (p, s) \<leftarrow> fat_tree_get_file dir_node s;
          dir \<leftarrow> obj_at s p;
          let tree_size = sint (nentries dir);
          elem_array \<leftarrow> h_tree_flatten_h_children dir_node (replicate (nat (tree_size + 1)) 0) s;
          Some (Some elem_array, s)
        }
      })"

section \<open>The order of the paths\<close>

lemma strcmp_less: "strcmp xs ys < 0 \<longleftrightarrow> xs < ys"
  by (induction xs ys rule: strcmp.induct) (auto simp: neq_iff)

lemma strcmp_greater: "strcmp xs ys > 0 \<longleftrightarrow> ys < xs"
  by (induction xs ys rule: strcmp.induct) (auto simp: neq_iff)

interpretation fat_files: keyed_data fat_file_cmp fat_file_cmp_path filepath
  by unfold_locales (simp_all add: fat_file_cmp_def fat_file_cmp_path_def strcmp_less strcmp_greater)

section \<open>The map from paths to files\<close>

definition file_at :: "file_heap \<Rightarrow> addr \<Rightarrow> fat_file" where
  "file_at s a = the (h_objs s (data_of s a))"

definition path_map :: "file_heap \<Rightarrow> addr tree \<Rightarrow> cstring \<Rightarrow> fat_file option" where
  "path_map s T = map_of (map (\<lambda>a. (filepath (file_at s a), file_at s a)) (inorder T))"

definition tree_inv :: "fat_tree \<Rightarrow> file_heap \<Rightarrow> addr tree \<Rightarrow> bool" where
  "tree_inv t s T \<longleftrightarrow> t = fat_tree_init\<lparr>file_tree := root_of T\<rparr> \<and> search_tree filepath s T
     \<and> store_ok s \<and> hier_ok s"

lemma key_at_file: "key_at filepath s a = filepath (file_at s a)"
  by (simp add: key_at_def file_at_def data_of_def)

lemma path_map_iff:
  assumes "search_tree filepath s T"
  shows "path_map s T k = Some f \<longleftrightarrow> (\<exists>a \<in> set_tree T. key_at filepath s a = k \<and> file_at s a = f)"
proof -
  have "sorted_wrt (<) (map (key_at filepath s) (inorder T))" using assms by (simp add: search_tree_def)
  moreover have "key_at filepath s = (\<lambda>a. filepath (file_at s a))" by (rule ext) (rule key_at_file)
  ultimately have "distinct (map (\<lambda>a. filepath (file_at s a)) (inorder T))"
    by (simp only: strict_sorted_iff)
  then have "distinct (map fst (map (\<lambda>a. (filepath (file_at s a), file_at s a)) (inorder T)))"
    by (simp add: comp_def)
  then show ?thesis unfolding path_map_def by (subst map_of_eq_Some_iff) (auto simp: key_at_file)
qed

lemma path_map_None:
  assumes "search_tree filepath s T"
  shows "path_map s T k = None \<longleftrightarrow> (\<forall>a \<in> set_tree T. key_at filepath s a \<noteq> k)"
  using path_map_iff [OF assms, of k] by (cases "path_map s T k") auto

lemma tree_inv_facts:
  assumes "tree_inv t s T"
  shows "file_tree t = root_of T" "file_cmp t = fat_file_cmp" "file_destroy t = free_obj"
    "file_cmp_key t = fat_file_cmp_path" "search_tree filepath s T" "store_ok s" "hier_ok s"
    "t\<lparr>file_tree := x\<rparr> = fat_tree_init\<lparr>file_tree := x\<rparr>"
  using assms by (simp_all add: tree_inv_def fat_tree_init_def)

lemma node_in_tree:
  assumes "search_tree filepath s T" "a \<in> set_tree T"
  obtains n where "h_nodes s a = Some n" "h_data n \<noteq> 0" "h_objs s (h_data n) = Some (file_at s a)" "a \<noteq> 0"
    "data_of s a = h_data n"
proof -
  have ok: "data_ok s a" and tr: "tree_at s T" using assms by (auto simp: search_tree_def)
  have "a \<noteq> 0" using tree_at_nonzero [OF tr assms(2)] by blast
  with ok show thesis by (auto simp: data_ok_def file_at_def data_of_def intro: that)
qed


lemma fat_tree_search_lib:
  assumes "tree_inv t s T"
  shows "case path_map s T k of
      None \<Rightarrow> \<exists>s'. fat_tree_search (Some t) (Some k) s = Some (0, s') \<and> fat_tree_node_search t (Some k) s = Some (0, s)
    | Some f \<Rightarrow> \<exists>a p. fat_tree_search (Some t) (Some k) s = Some (p, s) \<and> p \<noteq> 0 \<and> h_objs s p = Some f
        \<and> a \<in> set_tree T \<and> fat_tree_node_search t (Some k) s = Some (a, s) \<and> fat_tree_get_file a s = Some (p, s)"
proof -
  note I = tree_inv_facts [OF assms]
  have ns: "fat_tree_node_search t (Some k) s = Some (tree_lookup (key_at filepath s) T k, s)"
    using fat_files.search_is_lookup [OF I(5)] I(1,4) by (simp add: fat_tree_node_search_def)
  show ?thesis
  proof (cases "path_map s T k")
    case None
    then have "tree_lookup (key_at filepath s) T k = 0"
      using tree_lookup_cases [OF I(5), of k] path_map_None [OF I(5), of k] by blast
    then show ?thesis using None ns by (simp add: fat_tree_search_def h_tree_get_data_def)
  next
    case (Some f)
    then obtain b where b: "b \<in> set_tree T" "key_at filepath s b = k" "file_at s b = f"
      using path_map_iff [OF I(5)] by blast
    let ?a = "tree_lookup (key_at filepath s) T k"
    have a: "?a \<in> set_tree T" "key_at filepath s ?a = k" using tree_lookup_cases [OF I(5), of k] b by auto
    then have fa: "file_at s ?a = f" using Some path_map_iff [OF I(5), of k "file_at s ?a"] by auto
    obtain n where n: "h_nodes s ?a = Some n" "h_data n \<noteq> 0" "h_objs s (h_data n) = Some f" "?a \<noteq> 0"
      using node_in_tree [OF I(5) a(1)] fa by metis
    have get: "h_tree_get_data ?a s = Some (h_data n, s)"
      using n(1,4) by (simp add: h_tree_get_data_def node_at_def)
    have "file_tree t \<noteq> 0" using a(1) root_of_zero [of s T] I(1,5) by (auto simp: search_tree_def)
    then show ?thesis using Some ns a(1) get n(2,3) by (simp add: fat_tree_search_def fat_tree_get_file_def)
  qed
qed

lemma data_kept:
  fixes s s' :: file_heap
  assumes "\<forall>b \<in> set_tree T. map_option h_data (h_nodes s' b) = map_option h_data (h_nodes s b)" "b \<in> set_tree T"
    "search_tree filepath s T"
  shows "data_of s' b = data_of s b"
proof -
  obtain n where n: "h_nodes s b = Some n" by (rule node_in_tree [OF assms(3,2)])
  then have "map_option h_data (h_nodes s' b) = Some (h_data n)" using assms(1,2) by simp
  then obtain n' where "h_nodes s' b = Some n'" "h_data n' = h_data n" by auto
  then show ?thesis using n by (simp add: data_of_def)
qed

lemma fat_tree_insert_lib:
  assumes "tree_inv t s T" "parent = 0 \<or> parent \<in> set_tree T" "x \<noteq> 0" "h_objs s x = Some f"
  shows "if path_map s T (filepath f) \<noteq> None then fat_tree_insert (Some t) parent x s = Some (Some t, s)
    else \<exists>t' s' T' a. fat_tree_insert (Some t) parent x s = Some (Some t', s') \<and> tree_inv t' s' T'
      \<and> path_map s' T' = (path_map s T)(filepath f \<mapsto> f) \<and> h_objs s' = h_objs s
      \<and> set_tree T' = insert a (set_tree T) \<and> a \<notin> set_tree T \<and> fat_tree_get_file a s' = Some (x, s') \<and> children_of s' a []
      \<and> (parent \<noteq> 0 \<longrightarrow> (\<forall>cs. children_of s parent cs \<longrightarrow> children_of s' parent (a # cs)))
      \<and> (\<forall>q cs. q \<noteq> 0 \<and> q \<noteq> parent \<and> children_of s q cs \<longrightarrow> children_of s' q cs)"
proof -
  note I = tree_inv_facts [OF assms(1)]
  show ?thesis
  proof (cases "path_map s T (filepath f) = None")
    case False
    then have "\<exists>a \<in> set_tree T. key_at filepath s a = filepath f"
      using path_map_None [OF I(5), of "filepath f"] by simp
    then have "h_tree_insert fat_file_cmp (root_of T) x parent s = Some (root_of T, s)"
      by (rule fat_files.insert_duplicate [OF I(5) assms(3,4)])
    moreover have "t\<lparr>file_tree := root_of T\<rparr> = t" using assms(1) by (simp add: tree_inv_def)
    ultimately show ?thesis using False I assms(3) by (simp add: fat_tree_insert_def)
  next
    case True
    then have fresh: "\<forall>a \<in> set_tree T. key_at filepath s a \<noteq> filepath f"
      using path_map_None [OF I(5), of "filepath f"] by simp
    have par: "parent = 0 \<or> h_nodes s parent \<noteq> None"
      using assms(2) by (auto elim: node_in_tree [OF I(5)])
    obtain s' T' where s': "h_tree_insert fat_file_cmp (root_of T) x parent s = Some (root_of T', s')"
      "search_tree filepath s' T'" "store_ok s'" "hier_ok s'" "set_tree T' = insert (h_brk s) (set_tree T)"
      "h_brk s \<notin> set_tree T" "hview s' = linked_view s x parent" "h_objs s' = h_objs s"
      "key_at filepath s' (h_brk s) = filepath f"
      by (rule fat_files.insert_keeps [OF I(5-7) par assms(3,4) fresh]) (rule that)
    let ?t' = "t\<lparr>file_tree := root_of T'\<rparr>"
    have run: "fat_tree_insert (Some t) parent x s = Some (Some ?t', s')"
      using I assms(3) s'(1) by (simp add: fat_tree_insert_def)
    have inv: "tree_inv ?t' s' T'" using s'(2-4) I(8) by (simp add: tree_inv_def)
    obtain nn where nn: "h_nodes s' (h_brk s) = Some nn" "h_data nn = x"
      using linked_view_new [OF s'(7) I(6) par] by metis
    have fnew: "file_at s' (h_brk s) = f" using nn s'(8) assms(4) by (simp add: file_at_def data_of_def)
    have fold: "file_at s' b = file_at s b" if b: "b \<in> set_tree T" for b
    proof -
      obtain n where n: "h_nodes s b = Some n" by (rule node_in_tree [OF I(5) b])
      have "b \<noteq> h_brk s" using b s'(6) by auto
      then obtain n' where "h_nodes s' b = Some n'" "h_data n' = h_data n"
        using linked_view_old [OF s'(7) n _ I(6)] by metis
      then show ?thesis using n s'(8) by (simp add: file_at_def data_of_def)
    qed
    have "path_map s' T' k = ((path_map s T)(filepath f \<mapsto> f)) k" for k
    proof -
      have "path_map s' T' k = Some g \<longleftrightarrow> (if k = filepath f then Some f else path_map s T k) = Some g" for g
      proof -
        have "path_map s' T' k = Some g \<longleftrightarrow> (filepath f = k \<and> f = g) \<or> (\<exists>b \<in> set_tree T. key_at filepath s b = k \<and> file_at s b = g)"
          unfolding path_map_iff [OF s'(2)] s'(5) using fnew fold by (simp add: key_at_file)
        then show ?thesis using path_map_iff [OF I(5), of k g] fresh by auto
      qed
      then show ?thesis by (metis fun_upd_apply option.exhaust)
    qed
    then have map: "path_map s' T' = (path_map s T)(filepath f \<mapsto> f)" by (rule ext)
    have "fat_tree_get_file (h_brk s) s' = Some (x, s')"
      using nn I(6) by (simp add: fat_tree_get_file_def h_tree_get_data_def node_at_def store_ok_def)
    then show ?thesis
      using True run inv map s'(5,6,8) linked_hier_ok(2-4) [OF s'(7) I(6,7) par] by auto
  qed
qed

text \<open>
  C7: inserting a file.  If the path is new the tree represents the old files and the new one,
  found under its path, and in the hierarchy the new file becomes the first child of its directory
  while the children of all other nodes stay; if the path exists nothing changes.  All invariants
  of the tree are kept.
\<close>

theorem fat_tree_insert_refines:
  assumes "tree_inv t s T" "parent = 0 \<or> parent \<in> set_tree T" "x \<noteq> 0" "h_objs s x = Some f"
  shows "if path_map s T (filepath f) \<noteq> None then fat_tree_insert (Some t) parent x s = Some (Some t, s)
    else \<exists>t' s' T' a. fat_tree_insert (Some t) parent x s = Some (Some t', s') \<and> tree_inv t' s' T'
      \<and> path_map s' T' = (path_map s T)(filepath f \<mapsto> f) \<and> h_objs s' = h_objs s
      \<and> set_tree T' = insert a (set_tree T) \<and> a \<notin> set_tree T \<and> fat_tree_get_file a s' = Some (x, s') \<and> children_of s' a []
      \<and> (parent \<noteq> 0 \<longrightarrow> (\<forall>cs. children_of s parent cs \<longrightarrow> children_of s' parent (a # cs)))
      \<and> (\<forall>q cs. q \<noteq> 0 \<and> q \<noteq> parent \<and> children_of s q cs \<longrightarrow> children_of s' q cs)"
  by (rule fat_tree_insert_lib [OF assms])

text \<open>An empty tree over a heap with a root directory and two files in it.\<close>

definition sample_heap :: file_heap where
  "sample_heap = \<lparr>h_nodes = Map.empty, h_objs = [1 \<mapsto> (fat_file_init_empty (cstr ''/''))\<lparr>nentries := 1\<rparr>,
     2 \<mapsto> fat_file_init_empty (cstr ''/b''), 3 \<mapsto> fat_file_init_empty (cstr ''/a'')], h_brk = 1, h_errno = 0\<rparr>"

lemma sample_heap_inv: "tree_inv fat_tree_init sample_heap Leaf"
  by (simp add: tree_inv_def fat_tree_init_def store_ok_def hier_ok_def sample_heap_def)

theorem fat_tree_insert_refines_witness:
  "\<exists>t' s' T'. fat_tree_insert (Some fat_tree_init) 0 1 sample_heap = Some (Some t', s')
     \<and> tree_inv t' s' T' \<and> path_map s' T' = [cstr ''/'' \<mapsto> (fat_file_init_empty (cstr ''/''))\<lparr>nentries := 1\<rparr>]"
proof -
  have "h_objs sample_heap 1 = Some ((fat_file_init_empty (cstr ''/''))\<lparr>nentries := 1\<rparr>)"
    by (simp add: sample_heap_def)
  moreover have "path_map sample_heap Leaf = Map.empty" by (simp add: path_map_def fun_eq_iff)
  ultimately show ?thesis
    using fat_tree_insert_refines [OF sample_heap_inv, of 0 1] by (simp add: fat_file_init_empty_def) blast
qed

section \<open>Deleting a file\<close>

lemma fat_tree_delete_lib:
  assumes "tree_inv t s T" "path_map s T k \<noteq> None \<longrightarrow> a \<in> set_tree T \<and> key_at filepath s a = k \<and> children_of s a []"
  shows "if path_map s T k = None then fat_tree_delete (Some t) (Some k) s = Some (Some t, s)
    else case tree_delete (key_at filepath s) k T of
        None \<Rightarrow> fat_tree_delete (Some t) (Some k) s = None
      | Some T' \<Rightarrow> \<exists>t' s'. fat_tree_delete (Some t) (Some k) s = Some (Some t', s') \<and> tree_inv t' s' T'
          \<and> path_map s' T' = (path_map s T)(k := None) \<and> h_objs s' = (h_objs s)(data_of s a := None) \<and> h_errno s' = h_errno s
          \<and> (\<forall>p cs. p \<noteq> 0 \<and> p \<noteq> a \<and> children_of s p cs \<longrightarrow> children_of s' p (removeAll a cs))"
proof (cases "path_map s T k = None")
  case True
  note I = tree_inv_facts [OF assms(1)]
  have "\<forall>b \<in> set_tree T. key_at filepath s b \<noteq> k" using True path_map_None [OF I(5), of k] by simp
  then have "h_tree_delete fat_file_cmp_path free_obj (root_of T) (Some k) s = Some (root_of T, s)"
    by (rule fat_files.delete_missing [OF I(5)])
  moreover have "t\<lparr>file_tree := root_of T\<rparr> = t" using assms(1) by (simp add: tree_inv_def)
  ultimately show ?thesis using True I by (simp add: fat_tree_delete_def)
next
  case False
  note I = tree_inv_facts [OF assms(1)]
  have a: "a \<in> set_tree T" "key_at filepath s a = k" "children_of s a []" using assms(2) False by auto
  obtain n where n: "h_nodes s a = Some n" "h_data n \<noteq> 0" "a \<noteq> 0" "data_of s a = h_data n"
    using node_in_tree [OF I(5) a(1)] by metis
  have nz: "file_tree t \<noteq> 0" using a(1) root_of_zero [of s T] I(1,5) by (auto simp: search_tree_def)
  show ?thesis
  proof (cases "tree_delete (key_at filepath s) k T")
    case None
    obtain s1 where "remove_child_from_h a s = Some s1" using remove_child_ok [OF I(7) n(1,3)] by metis
    from fat_files.delete_found [OF I(5) a(1,2) this n(1)] None
    have "h_tree_delete fat_file_cmp_path free_obj (root_of T) (Some k) s = None" by simp
    then show ?thesis using False None I nz by (simp add: fat_tree_delete_def)
  next
    case (Some T')
    obtain s' where s': "h_tree_delete fat_file_cmp_path free_obj (root_of T) (Some k) s = Some (root_of T', s')"
      "search_tree filepath s' T'" "store_ok s'" "hier_ok s'" "set_tree T' = set_tree T - {a}"
      "h_objs s' = (h_objs s)(h_data n := None)"
      "\<forall>b \<in> set_tree T'. key_at filepath s' b = key_at filepath s b"
      "\<forall>p cs. p \<noteq> 0 \<and> p \<noteq> a \<and> children_of s p cs \<longrightarrow> children_of s' p (removeAll a cs)"
      "\<forall>b \<in> set_tree T'. map_option h_data (h_nodes s' b) = map_option h_data (h_nodes s b)"
      "h_errno s' = h_errno s"
      by (rule fat_files.delete_keeps [OF I(5-7) a Some n(1)]) (rule that)
    let ?t' = "t\<lparr>file_tree := root_of T'\<rparr>"
    have run: "fat_tree_delete (Some t) (Some k) s = Some (Some ?t', s')"
      using I nz s'(1) by (simp add: fat_tree_delete_def)
    have inv: "tree_inv ?t' s' T'" using s'(2-4) I(8) by (simp add: tree_inv_def)
    have uniq: "b = a" if "b \<in> set_tree T" "key_at filepath s b = k" for b
    proof -
      have "distinct (map (key_at filepath s) (inorder T))"
        using I(5) by (simp add: search_tree_def strict_sorted_iff)
      then have "inj_on (key_at filepath s) (set_tree T)" by (simp add: distinct_map)
      then show ?thesis using a(1,2) that by (auto dest: inj_onD)
    qed
    have fold: "file_at s' b = file_at s b" if b: "b \<in> set_tree T'" for b
    proof -
      have bT: "b \<in> set_tree T" "b \<noteq> a" using b s'(5) by auto
      obtain m where m: "h_nodes s b = Some m" "h_objs s (h_data m) = Some (file_at s b)" "data_of s b = h_data m"
        using node_in_tree [OF I(5) bT(1)] by metis
      have "data_of s' b = data_of s b"
      proof -
        have "map_option h_data (h_nodes s' b) = Some (h_data m)" using s'(9) b m(1) by simp
        then show ?thesis using m(3) by (auto simp: data_of_def)
      qed
      moreover have "h_data m \<noteq> h_data n"
        using uniq [OF bT(1)] bT(2) m n(1) a(2) by (auto simp: key_at_def)
      ultimately show ?thesis using m s'(6) by (simp add: file_at_def)
    qed
    have "path_map s' T' q = ((path_map s T)(k := None)) q" for q
    proof -
      have "path_map s' T' q = Some g \<longleftrightarrow> (q \<noteq> k \<and> path_map s T q = Some g)" for g
      proof -
        have "path_map s' T' q = Some g \<longleftrightarrow> (\<exists>b \<in> set_tree T - {a}. key_at filepath s b = q \<and> file_at s b = g)"
          unfolding path_map_iff [OF s'(2)] s'(5) using fold s'(5) by (auto simp: key_at_file)
        then show ?thesis using path_map_iff [OF I(5), of q g] uniq a(1,2) by blast
      qed
      then show ?thesis by (metis fun_upd_apply option.exhaust)
    qed
    then have "path_map s' T' = (path_map s T)(k := None)" by (rule ext)
    then show ?thesis using False Some run inv s'(6,8,10) n(4) by auto
  qed
qed

lemma fat_tree_delete_by_shape:
  assumes "tree_inv t s T" "a \<in> set_tree T" "key_at filepath s a = k" "children_of s a []"
  shows "if double_free_shape T a then fat_tree_delete (Some t) (Some k) s = None
    else \<exists>T' t' s'. fat_tree_delete (Some t) (Some k) s = Some (Some t', s') \<and> tree_inv t' s' T'
      \<and> path_map s' T' = (path_map s T)(k := None) \<and> h_objs s' = (h_objs s)(data_of s a := None) \<and> h_errno s' = h_errno s
      \<and> (\<forall>p cs. p \<noteq> 0 \<and> p \<noteq> a \<and> children_of s p cs \<longrightarrow> children_of s' p (removeAll a cs))"
proof -
  have st: "search_tree filepath s T" using assms(1) by (simp add: tree_inv_def)
  then have "sorted_wrt (<) (map (key_at filepath s) (inorder T))" by (simp add: search_tree_def)
  then have shape: "tree_delete (key_at filepath s) k T = None \<longleftrightarrow> double_free_shape T a"
    using tree_delete_None [of "key_at filepath s" T a] assms(2,3) by simp
  have "path_map s T k \<noteq> None" using path_map_None [OF st, of k] assms(2,3) by blast
  from fat_tree_delete_lib [OF assms(1), of k a, unfolded if_not_P [OF this]] assms(2-4)
  have lib: "case tree_delete (key_at filepath s) k T of
        None \<Rightarrow> fat_tree_delete (Some t) (Some k) s = None
      | Some T' \<Rightarrow> \<exists>t' s'. fat_tree_delete (Some t) (Some k) s = Some (Some t', s') \<and> tree_inv t' s' T'
          \<and> path_map s' T' = (path_map s T)(k := None) \<and> h_objs s' = (h_objs s)(data_of s a := None) \<and> h_errno s' = h_errno s
          \<and> (\<forall>p cs. p \<noteq> 0 \<and> p \<noteq> a \<and> children_of s p cs \<longrightarrow> children_of s' p (removeAll a cs))"
    by blast
  show ?thesis
  proof (cases "tree_delete (key_at filepath s) k T")
    case None
    then show ?thesis using lib shape by simp
  next
    case (Some T')
    then have shape': "\<not> double_free_shape T a" using shape by simp
    show ?thesis unfolding if_not_P [OF shape'] using lib [unfolded Some option.case] by blast
  qed
qed


text \<open>
  Four files of which the one at the root of the binary tree has the shape that is not handled:
  deleting it faults.
\<close>

definition four_node :: "addr \<Rightarrow> addr \<Rightarrow> addr \<Rightarrow> int \<Rightarrow> h_node" where
  "four_node x l r n = \<lparr>h_data = x, h_right = r, h_left = l, h_parent = 0, h_next_sibling = 0,
     h_children = 0, h_size = n\<rparr>"

definition four_heap :: file_heap where
  "four_heap = \<lparr>h_nodes = [1 \<mapsto> four_node 11 2 3 4, 2 \<mapsto> four_node 12 0 0 1, 3 \<mapsto> four_node 13 4 0 2, 4 \<mapsto> four_node 14 0 0 1],
     h_objs = [11 \<mapsto> fat_file_init_empty (cstr ''/b''), 12 \<mapsto> fat_file_init_empty (cstr ''/a''),
       13 \<mapsto> fat_file_init_empty (cstr ''/d''), 14 \<mapsto> fat_file_init_empty (cstr ''/c'')], h_brk = 5, h_errno = 0\<rparr>"

definition four_tree :: "addr tree" where
  "four_tree = Node (Node Leaf 2 Leaf) 1 (Node (Node Leaf 4 Leaf) 3 Leaf)"

lemma four_keys: "key_at filepath four_heap 1 = cstr ''/b''" "key_at filepath four_heap 2 = cstr ''/a''"
  "key_at filepath four_heap 3 = cstr ''/d''" "key_at filepath four_heap 4 = cstr ''/c''"
  by (simp_all add: key_at_def four_heap_def four_node_def fat_file_init_empty_def)

lemma four_inv: "tree_inv (fat_tree_init\<lparr>file_tree := 1\<rparr>) four_heap four_tree"
proof -
  have "tree_at four_heap four_tree"
    by (simp add: four_tree_def four_heap_def four_node_def links_def)
  moreover have "\<forall>a \<in> set_tree four_tree. data_ok four_heap a"
    by (simp add: four_tree_def data_ok_def four_heap_def four_node_def)
  moreover have "sorted_wrt (<) (map (key_at filepath four_heap) (inorder four_tree))"
    by (simp add: four_tree_def four_keys [unfolded One_nat_def] cstr_def)
  ultimately have "search_tree filepath four_heap four_tree" by (simp add: search_tree_def)
  moreover have "hier_ok four_heap"
    unfolding hier_ok_def children_of_def
    by (auto simp: four_heap_def four_node_def intro!: exI [of _ "[]"] split: if_splits)
  ultimately show ?thesis
    by (simp add: tree_inv_def four_tree_def store_ok_def) (simp add: four_heap_def)
qed


section \<open>Counting open files and listing directories\<close>

lemma anc_list_unique: "anc_list s p xs \<Longrightarrow> anc_list s p ys \<Longrightarrow> xs = ys"
proof (induction xs arbitrary: p ys)
  case Nil
  then show ?case by (cases ys) auto
next
  case (Cons x xs)
  then show ?case by (cases ys) (auto split: option.splits)
qed

lemma anc_list_suffix: "anc_list s p (xs @ x # ys) \<Longrightarrow> anc_list s x (x # ys)"
proof (induction xs arbitrary: p)
  case (Cons a xs)
  from Cons.prems obtain n :: h_node where "anc_list s (h_parent n) (xs @ x # ys)"
    by (cases "h_nodes s a") auto
  then show ?case by (rule Cons.IH)
qed simp

lemma anc_list_distinct: "anc_list s p xs \<Longrightarrow> distinct xs"
proof (rule ccontr)
  assume a: "anc_list s p xs" "\<not> distinct xs"
  then obtain us vs ws x where x: "xs = us @ [x] @ vs @ [x] @ ws" using not_distinct_decomp by blast
  have "anc_list s x (x # vs @ x # ws)" using anc_list_suffix [of s p us x "vs @ x # ws"] a(1) x by simp
  moreover have "anc_list s x (x # ws)" using anc_list_suffix [of s p "us @ x # vs" x ws] a(1) x by simp
  ultimately have "x # vs @ x # ws = x # ws" by (rule anc_list_unique)
  then have "length (vs @ x # ws) = length ws" by simp
  then show False by simp
qed

lemma data_inj:
  assumes "search_tree filepath s T" "set as \<subseteq> set_tree T" "distinct as"
  shows "distinct (map (data_of s) as)"
proof -
  have "inj_on (key_at filepath s) (set_tree T)"
    using assms(1) by (simp add: search_tree_def strict_sorted_iff distinct_map)
  moreover have "key_at filepath s a = filepath (the (h_objs s (data_of s a)))" for a
    by (simp add: key_at_def data_of_def)
  ultimately have "inj_on (data_of s) (set_tree T)" by (auto simp: inj_on_def)
  then show ?thesis using assms(2,3) by (auto simp: distinct_map intro: inj_on_subset)
qed

lemma flatten_children_short:
  assumes "sib_list s p cs" "i \<le> length arr" "length arr \<le> i + length cs"
  shows "flatten_children_loop p arr i s = None"
  using assms
proof (induction cs arbitrary: p i arr)
  case Nil
  then show ?case by (subst flatten_children_loop.simps) (simp add: array_set_def)
next
  case (Cons x xs)
  then obtain n where n: "h_nodes s x = Some n" "sib_list s (h_next_sibling n) xs" "p = x" "x \<noteq> 0"
    by (auto split: option.splits)
  show ?case
  proof (cases "i < length arr")
    case True
    then show ?thesis using n Cons.IH [OF n(2), of "Suc i" "arr[i := h_data n]"] Cons.prems(3)
      by (subst flatten_children_loop.simps) (simp add: node_at_def array_set_def)
  next
    case False
    then show ?thesis using n by (subst flatten_children_loop.simps) (simp add: node_at_def array_set_def)
  qed
qed

lemma inc_num_spec:
  assumes "tree_inv t s T" "anc_list s a as" "set as \<subseteq> set_tree T"
    "f \<in> {fat_file_inc_num_times_opened, fat_file_dec_num_times_opened}"
  obtains s' where "h_tree_iterate_h_ancestors (modify_obj f) a s = Some s'" "tree_inv t s' T"
    "h_nodes s' = h_nodes s"
    "h_objs s' = (\<lambda>q. if q \<in> data_of s ` set as then map_option f (h_objs s q) else h_objs s q)"
    "path_map s' T = (\<lambda>k. if k \<in> key_at filepath s ` set as then map_option f (path_map s T k) else path_map s T k)"
    "h_brk s' = h_brk s" "h_errno s' = h_errno s"
proof -
  note I = tree_inv_facts [OF assms(1)]
  have fp: "filepath (f x) = filepath x" for x
    using assms(4) by (auto simp: fat_file_inc_num_times_opened_def fat_file_dec_num_times_opened_def)
  define s' where "s' = s\<lparr>h_objs := (\<lambda>q. if q \<in> data_of s ` set as then map_option f (h_objs s q) else h_objs s q)\<rparr>"
  have dist: "distinct (map (data_of s) as)"
    by (rule data_inj [OF I(5) assms(3) anc_list_distinct [OF assms(2)]])
  have "\<forall>b \<in> set as. data_of s b \<noteq> 0 \<and> h_objs s (data_of s b) \<noteq> None"
  proof
    fix b assume "b \<in> set as"
    with assms(3) have "b \<in> set_tree T" by auto
    then show "data_of s b \<noteq> 0 \<and> h_objs s (data_of s b) \<noteq> None"
      by (rule node_in_tree [OF I(5)]) simp
  qed
  note run = iterate_ancestors_spec [OF assms(2) this dist, of f, folded s'_def]
  have inj: "data_of s b \<in> data_of s ` set as \<longleftrightarrow> b \<in> set as" if "b \<in> set_tree T" for b
  proof
    assume "data_of s b \<in> data_of s ` set as"
    then obtain c where c: "c \<in> set as" "data_of s b = data_of s c" by auto
    then have "c \<in> set_tree T" using assms(3) by auto
    show "b \<in> set as"
    proof (rule ccontr)
      assume "b \<notin> set as"
      with c have "distinct [b, c]" by auto
      from data_inj [OF I(5) _ this] that \<open>c \<in> set_tree T\<close> c(2) show False by simp
    qed
  qed simp
  have dt: "data_of s' b = data_of s b" for b by (simp add: data_of_def s'_def)
  have fa: "file_at s' b = (if b \<in> set as then f (file_at s b) else file_at s b)" if "b \<in> set_tree T" for b
  proof -
    have "h_objs s (data_of s b) = Some (file_at s b)" by (rule node_in_tree [OF I(5) that]) simp
    moreover have "h_objs s' (data_of s b) = (if b \<in> set as then map_option f (h_objs s (data_of s b)) else h_objs s (data_of s b))"
      using inj [OF that] by (simp add: s'_def)
    ultimately have "h_objs s' (data_of s b) = (if b \<in> set as then Some (f (file_at s b)) else Some (file_at s b))"
      by simp
    then show ?thesis by (simp add: file_at_def [of s'] dt)
  qed
  have ka: "key_at filepath s' b = key_at filepath s b" if "b \<in> set_tree T" for b
    using fa [OF that] fp by (simp add: key_at_file)
  have "data_ok s' b" if "b \<in> set_tree T" for b
  proof -
    have "data_ok s b" using I(5) that by (simp add: search_tree_def)
    then show ?thesis unfolding data_ok_def s'_def by (auto split: if_splits)
  qed
  moreover have "tree_at s' T = tree_at s T" by (intro tree_at_cong) (simp add: links_def s'_def)
  moreover have eq: "map (key_at filepath s') (inorder T) = map (key_at filepath s) (inorder T)"
    using ka by (intro map_cong) auto
  have "sorted_wrt (<) (map (key_at filepath s') (inorder T))"
    unfolding eq using I(5) by (simp add: search_tree_def)
  ultimately have st: "search_tree filepath s' T" using I(5) by (simp add: search_tree_def)
  have hs: "sib_list s' p xs = sib_list s p xs" for p xs by (intro sib_list_cong) (simp add: s'_def)
  have "hier_ok s' = hier_ok s" by (simp add: hier_ok_def children_of_def hs) (simp add: s'_def)
  then have inv: "tree_inv t s' T" using assms(1) st by (simp add: tree_inv_def store_ok_def s'_def)
  have "path_map s' T k = (if k \<in> key_at filepath s ` set as then map_option f (path_map s T k) else path_map s T k)" for k
  proof -
    let ?r = "if k \<in> key_at filepath s ` set as then map_option f (path_map s T k) else path_map s T k"
    have "distinct (map (key_at filepath s) (inorder T))"
      using I(5) by (simp add: search_tree_def strict_sorted_iff)
    then have kinj: "inj_on (key_at filepath s) (set_tree T)" by (simp add: distinct_map)
    have "path_map s' T k = Some g \<longleftrightarrow> ?r = Some g" for g
    proof -
      have "path_map s' T k = Some g \<longleftrightarrow> (\<exists>b \<in> set_tree T. key_at filepath s b = k
          \<and> (if b \<in> set as then f (file_at s b) else file_at s b) = g)"
        unfolding path_map_iff [OF st] using ka fa by auto
      moreover have "b \<in> set as \<longleftrightarrow> k \<in> key_at filepath s ` set as" if "b \<in> set_tree T" "key_at filepath s b = k" for b
        using kinj that assms(3) by (auto dest: inj_onD)
      ultimately have "path_map s' T k = Some g \<longleftrightarrow> (\<exists>b \<in> set_tree T. key_at filepath s b = k
          \<and> (if k \<in> key_at filepath s ` set as then f (file_at s b) else file_at s b) = g)" by auto
      then show ?thesis
        by (cases "k \<in> key_at filepath s ` set as") (auto simp: map_option_eq_Some path_map_iff [OF I(5), of k])
    qed
    then show ?thesis by (metis option.exhaust)
  qed
  then have "path_map s' T = (\<lambda>k. if k \<in> key_at filepath s ` set as then map_option f (path_map s T k) else path_map s T k)"
    by (rule ext)
  then show thesis using that [OF run inv] by (simp add: s'_def)
qed

text \<open>
  Opening a file counts it and all its ancestor directories as opened once more, changes
  nothing else of any file, and closing it takes the tree back to exactly the state before.
\<close>

theorem open_count_roundtrip:
  assumes "tree_inv t s T" "anc_list s a as" "set as \<subseteq> set_tree T"
  shows "\<exists>s'. fat_tree_inc_num_times_opened a s = Some s' \<and> tree_inv t s' T
    \<and> path_map s' T = (\<lambda>k. if k \<in> key_at filepath s ` set as
        then map_option (\<lambda>f. f\<lparr>num_times_opened := num_times_opened f + 1\<rparr>) (path_map s T k) else path_map s T k)
    \<and> fat_tree_dec_num_times_opened a s' = Some s"
proof -
  obtain s' where s': "fat_tree_inc_num_times_opened a s = Some s'" "tree_inv t s' T" "h_nodes s' = h_nodes s"
    "h_objs s' = (\<lambda>q. if q \<in> data_of s ` set as then map_option fat_file_inc_num_times_opened (h_objs s q) else h_objs s q)"
    "path_map s' T = (\<lambda>k. if k \<in> key_at filepath s ` set as then map_option fat_file_inc_num_times_opened (path_map s T k) else path_map s T k)"
    "h_brk s' = h_brk s" "h_errno s' = h_errno s"
    by (rule inc_num_spec [OF assms, of fat_file_inc_num_times_opened, folded fat_tree_inc_num_times_opened_def])
      (simp, rule that)
  have dt: "data_of s' = data_of s" by (rule ext) (simp add: data_of_def s'(3))
  have "anc_list s' p xs = anc_list s p xs" for p xs
    by (induction xs arbitrary: p) (auto simp: s'(3) split: option.splits)
  then have anc: "anc_list s' a as" using assms(2) by simp
  obtain s2 where s2: "fat_tree_dec_num_times_opened a s' = Some s2" "h_nodes s2 = h_nodes s'"
    "h_objs s2 = (\<lambda>q. if q \<in> data_of s' ` set as then map_option fat_file_dec_num_times_opened (h_objs s' q) else h_objs s' q)"
    "h_brk s2 = h_brk s'" "h_errno s2 = h_errno s'"
    by (rule inc_num_spec [OF s'(2) anc assms(3), of fat_file_dec_num_times_opened,
        folded fat_tree_dec_num_times_opened_def]) (simp, rule that)
  have "fat_file_dec_num_times_opened (fat_file_inc_num_times_opened f) = f" for f
    by (simp add: fat_file_dec_num_times_opened_def fat_file_inc_num_times_opened_def)
  then have "map_option fat_file_dec_num_times_opened (map_option fat_file_inc_num_times_opened x) = x" for x
    by (cases x) simp_all
  then have "h_objs s2 = h_objs s" unfolding s2(3) dt s'(4) by (simp add: fun_eq_iff)
  then have "s2 = s" using s2 s' by simp
  moreover have "fat_file_inc_num_times_opened = (\<lambda>f. f\<lparr>num_times_opened := num_times_opened f + 1\<rparr>)"
    by (rule ext) (rule fat_file_inc_num_times_opened_def)
  ultimately show ?thesis using s'(1,2,5) s2(1) by metis
qed

theorem open_count_roundtrip_witness:
  "\<exists>s'. fat_tree_inc_num_times_opened 1 four_heap = Some s' \<and> fat_tree_dec_num_times_opened 1 s' = Some four_heap"
proof -
  have "anc_list four_heap 1 [1]" by (simp add: four_heap_def four_node_def)
  moreover have "set [1] \<subseteq> set_tree four_tree" by (simp add: four_tree_def)
  ultimately show ?thesis using open_count_roundtrip [OF four_inv] by blast
qed

lemma fat_tree_list_lib:
  assumes "tree_inv t s T" "a \<in> set_tree T" "children_of s a cs" "unat (nentries (file_at s a)) < 2 ^ 31"
  shows "fat_tree_flatten_h_children a s =
    (if length cs \<le> unat (nentries (file_at s a))
     then Some (Some (map (data_of s) cs @ replicate (Suc (unat (nentries (file_at s a))) - length cs) 0), s)
     else None)"
proof -
  note I = tree_inv_facts [OF assms(1)]
  obtain n where n: "h_nodes s a = Some n" "h_data n \<noteq> 0" "h_objs s (h_data n) = Some (file_at s a)" "a \<noteq> 0"
    using node_in_tree [OF I(5) assms(2)] by metis
  have size: "h_size n \<noteq> 0"
  proof -
    have "tree_at s T" using I(5) by (simp add: search_tree_def)
    then have "0 < h_size n" using assms(2) n(1)
      by (induction T) (auto simp: links_def)
    then show ?thesis by simp
  qed
  let ?N = "unat (nentries (file_at s a))"
  have N: "nat (sint (nentries (file_at s a)) + 1) = Suc ?N"
    by (simp add: sint_small [OF assms(4)] nat_add_distrib)
  have sib: "sib_list s (h_children n) cs" using assms(3) n(1) by (auto simp: children_of_def)
  have run: "fat_tree_flatten_h_children a s
      = map_option (\<lambda>arr. (Some arr, s)) (flatten_children_loop (h_children n) (replicate (Suc ?N) 0) 0 s)"
    using n size N
    by (cases "flatten_children_loop (h_children n) (replicate (Suc ?N) 0) 0 s")
      (simp_all add: fat_tree_flatten_h_children_def h_tree_size_def node_at_def fat_tree_get_file_def
        h_tree_get_data_def obj_at_def h_tree_flatten_h_children_def)
  show ?thesis
  proof (cases "length cs \<le> ?N")
    case True
    then have "flatten_children_loop (h_children n) (replicate (Suc ?N) 0) 0 s
        = Some (map (data_of s) cs @ 0 # drop (length cs + 1) (replicate (Suc ?N) 0))"
      using flatten_children_spec [OF sib, of 0 "replicate (Suc ?N) 0"] by simp
    moreover have "0 # drop (length cs + 1) (replicate (Suc ?N) 0) = replicate (Suc ?N - length cs) (0 :: addr)"
      using True by (simp add: Suc_diff_le)
    ultimately show ?thesis using run True by simp
  next
    case False
    then have "flatten_children_loop (h_children n) (replicate (Suc ?N) 0) 0 s = None"
      by (intro flatten_children_short [OF sib]) simp_all
    then show ?thesis using run False by simp
  qed
qed

text \<open>
  Listing a directory gives the files that are its children, the newest first, and a NULL
  behind them.  The array has room for \<open>nentries\<close> files: when the directory has more children
  than that the listing writes behind its end.
\<close>

theorem fat_tree_list_children:
  assumes "tree_inv t s T" "a \<in> set_tree T" "children_of s a cs" "unat (nentries (file_at s a)) < 2 ^ 31"
  shows "fat_tree_flatten_h_children a s =
    (if length cs \<le> unat (nentries (file_at s a))
     then Some (Some (map (data_of s) cs @ replicate (Suc (unat (nentries (file_at s a))) - length cs) 0), s)
     else None)"
  by (rule fat_tree_list_lib [OF assms])

theorem fat_tree_list_children_witness:
  "fat_tree_flatten_h_children 1 four_heap = Some (Some [0], four_heap)"
proof -
  have "children_of four_heap 1 []"
    unfolding children_of_def by (auto simp: four_heap_def four_node_def split: if_splits)
  moreover have "(1 :: addr) \<in> set_tree four_tree" by (simp add: four_tree_def)
  moreover have "nentries (file_at four_heap 1) = 0"
    by (simp add: file_at_def data_of_def four_heap_def four_node_def fat_file_init_empty_def)
  ultimately show ?thesis using fat_tree_list_children [OF four_inv, of 1 "[]"] by simp
qed

end
