(* ===== verification/Fat_Volume.thy ===== *)
theory Fat_Volume
  imports Fat_FS_Tree Fat_File_Write
begin

text \<open>
  Model of \<open>LAB4/main/esqueleto/fat_volume.c\<close> and of the option handling in \<open>fat_fuse.c\<close>: reading
  the boot sector, mapping the table, and mounting a volume with the root directory in its tree.

  The 128 bytes of the boot sector are read at their offsets in the packed struct.  The system's
  page size and the largest size \<open>mmap\<close> accepts are parameters.  Allocation never fails.
\<close>

record fat_volume =
  mount_flags :: int
  max_allocated_files :: nat
  oem_name :: cstring
  bytes_per_sector :: u16
  sector_order :: u16
  sectors_per_cluster :: u8
  sectors_per_cluster_order :: u8
  reserved_sectors :: u16
  num_tables :: u8
  max_root_entries :: u16
  media_descriptor :: u8
  total_sectors :: u32
  sectors_per_fat :: u32
  sectors_per_track :: u16
  num_heads :: u16
  hidden_sectors :: u32
  drive_description :: u16
  version :: u16
  root_dir_start_cluster :: u32
  fs_info_sector :: u16
  alt_boot_sector :: u16
  physical_drive_num :: u8
  extended_boot_sig :: u8
  volume_id :: u32
  volume_label :: cstring
  fs_type :: cstring
  table :: fat_table

text \<open>The zeroed structure \<open>calloc\<close> gives.\<close>

definition fresh_volume :: fat_volume where
  "fresh_volume = \<lparr>mount_flags = 0, max_allocated_files = 0, oem_name = [], bytes_per_sector = 0,
     sector_order = 0, sectors_per_cluster = 0, sectors_per_cluster_order = 0, reserved_sectors = 0,
     num_tables = 0, max_root_entries = 0, media_descriptor = 0, total_sectors = 0, sectors_per_fat = 0,
     sectors_per_track = 0, num_heads = 0, hidden_sectors = 0, drive_description = 0, version = 0,
     root_dir_start_cluster = 0, fs_info_sector = 0, alt_boot_sector = 0, physical_drive_num = 0,
     extended_boot_sig = 0, volume_id = 0, volume_label = [], fs_type = [],
     table = \<lparr>fat_map = [], fat_offset = 0, num_data_clusters = 0, data_start_offset = 0, cluster_order = 0\<rparr>\<rparr>"

abbreviation (input) FAT_MOUNT_FLAG_READONLY :: int where "FAT_MOUNT_FLAG_READONLY \<equiv> 1"
abbreviation (input) FAT_MOUNT_FLAG_READWRITE :: int where "FAT_MOUNT_FLAG_READWRITE \<equiv> 2"

section \<open>The boot sector\<close>

definition byte_at :: "u8 list \<Rightarrow> nat \<Rightarrow> u8" where "byte_at bs i = bs ! i"
definition le16_at :: "u8 list \<Rightarrow> nat \<Rightarrow> u16" where "le16_at bs i = le16_of (drop i bs)"
definition le32_at :: "u8 list \<Rightarrow> nat \<Rightarrow> u32" where "le32_at bs i = le32_of (drop i bs)"
definition chars_at :: "u8 list \<Rightarrow> nat \<Rightarrow> nat \<Rightarrow> cstring" where
  "chars_at bs i n = remove_trailing_spaces (cstring_at (take n (drop i bs) @ [0]))"

text \<open>The readers return the changed structure, or the error number they set.\<close>

definition read_dos_2_0_bpb :: "fat_volume \<Rightarrow> u8 list \<Rightarrow> int + fat_volume" where
  "read_dos_2_0_bpb v bs =
     (let bps = le16_at bs 11;
          v = v\<lparr>bytes_per_sector := bps, sector_order := of_nat (bsr (unat bps))\<rparr>
      in if \<not> is_power_of_2 (ucast bps) \<or> sector_order v < 5 \<or> sector_order v > 12 then Inl EINVAL
         else
           let spc = byte_at bs 13;
               v = v\<lparr>sectors_per_cluster := spc, sectors_per_cluster_order := of_nat (bsr (unat spc))\<rparr>
           in if \<not> is_power_of_2 (ucast spc) \<or> sectors_per_cluster_order v > 7 then Inl EINVAL
              else
                let v = v\<lparr>table := (table v)\<lparr>cluster_order := sector_order v + ucast (sectors_per_cluster_order v)\<rparr>,
                      reserved_sectors := le16_at bs 14, num_tables := byte_at bs 16\<rparr>
                in if num_tables v \<noteq> 1 \<and> num_tables v \<noteq> 2 then Inl EINVAL
                   else Inr (v\<lparr>max_root_entries := le16_at bs 17, total_sectors := ucast (le16_at bs 19),
                        media_descriptor := byte_at bs 21, sectors_per_fat := ucast (le16_at bs 22)\<rparr>))"

definition read_dos_3_31_bpb :: "fat_volume \<Rightarrow> u8 list \<Rightarrow> fat_volume" where
  "read_dos_3_31_bpb v bs =
     v\<lparr>sectors_per_track := le16_at bs 24, num_heads := le16_at bs 26, hidden_sectors := le32_at bs 28\<rparr>"

definition read_nonfat32_ebpb :: "fat_volume \<Rightarrow> u8 list \<Rightarrow> fat_volume" where
  "read_nonfat32_ebpb v bs =
     v\<lparr>physical_drive_num := byte_at bs 64, extended_boot_sig := byte_at bs 66, volume_id := le32_at bs 67,
       volume_label := chars_at bs 71 11, fs_type := chars_at bs 82 8\<rparr>"

definition read_fat32_ebpb :: "fat_volume \<Rightarrow> u8 list \<Rightarrow> int + fat_volume" where
  "read_fat32_ebpb v bs =
     (let spf = le32_at bs 36;
          ord = unat (sector_order v);
          v1 = (if spf \<noteq> 0 then v\<lparr>sectors_per_fat := spf\<rparr> else v)
      in if spf \<noteq> 0 \<and> drop_bit ord (push_bit ord (ucast spf :: u64)) \<noteq> ucast spf then Inl EINVAL
         else
           let v2 = v1\<lparr>drive_description := le16_at bs 40, version := le16_at bs 42\<rparr>
           in if version v2 \<noteq> 0 then Inl EINVAL
              else
                let v3 = v2\<lparr>root_dir_start_cluster := le32_at bs 44\<rparr>
                in if root_dir_start_cluster v3 = 0 then Inl EINVAL
                   else
                     let fsi = le16_at bs 48;
                         v4 = v3\<lparr>alt_boot_sector := le16_at bs 50,
                               fs_info_sector := if fsi = 0xffff then 0 else fsi\<rparr>
                     in if fs_info_sector v4 \<noteq> 0 \<and> sector_order v4 < 9 then Inl EINVAL else Inr v4)"

text \<open>
  \<open>total_sectors - reserved_sectors - ...\<close> is computed in 32 unsigned bits and is not made up
  from the 32-bit sector count of the FAT32 header.
\<close>

definition count_clusters :: "fat_volume \<Rightarrow> u32" where
  "count_clusters v =
     (let root_sectors = drop_bit (unat (sector_order v)) (push_bit 5 (ucast (max_root_entries v) :: u32));
          num_data_sectors = total_sectors v - ucast (reserved_sectors v) - root_sectors
      in drop_bit (unat (sectors_per_cluster_order v)) num_data_sectors)"

definition read_boot_sector :: "fat_volume \<Rightarrow> io \<Rightarrow> (fat_volume option \<times> io) option" where
  "read_boot_sector v s = do {
     (r, buf, s) \<leftarrow> full_pread (replicate 128 0) 128 0 s;
     if r \<noteq> 128 then Some (None, s)
     else
       let v = v\<lparr>oem_name := chars_at buf 3 8\<rparr>
       in case read_dos_2_0_bpb v buf of
            Inl e \<Rightarrow> Some (None, set_errno e s)
          | Inr v \<Rightarrow>
              case read_fat32_ebpb (read_dos_3_31_bpb v buf) buf of
                Inl e \<Rightarrow> Some (None, set_errno e s)
              | Inr v \<Rightarrow>
                  let v = read_nonfat32_ebpb v buf
                  in Some (Some (v\<lparr>table := (table v)\<lparr>num_data_clusters := count_clusters v\<rparr>\<rparr>), s)
   }"

section \<open>Mapping the table\<close>

text \<open>
  What a private mapping of \<open>len\<close> bytes at the page \<open>off\<close> makes accessible: whole pages of the
  file, the last one filled up with zeros; pages behind the end of the file cannot be accessed.
\<close>

definition mapped_bytes :: "nat \<Rightarrow> nat \<Rightarrow> nat \<Rightarrow> u8 list \<Rightarrow> u8 list" where
  "mapped_bytes page off len bs =
     (let round_up = (\<lambda>n. (n + page - 1) div page * page)
      in take (round_up len) (drop off (bs @ replicate (round_up (length bs) - length bs) 0)))"

definition words_of :: "u8 list \<Rightarrow> u32 list" where
  "words_of bs = map (\<lambda>i. le32_of (drop (4 * i) bs)) [0..<length bs div 4]"

definition map_fat :: "int \<Rightarrow> nat \<Rightarrow> fat_volume \<Rightarrow> io \<Rightarrow> fat_volume option \<times> io" where
  "map_fat page_size max_map v s =
     (if page_size \<le> 0 \<or> \<not> is_power_of_2 (word_of_int page_size) \<or> page_size > 2 ^ 31 then (None, set_errno EINVAL s)
      else
        let off = push_bit (unat (sector_order v)) (uint (reserved_sectors v));
            aligned = off AND NOT (page_size - 1);
            fat_size_bytes = push_bit (unat (sector_order v)) (ucast (sectors_per_fat v) :: u64);
            aligned_size = fat_size_bytes + word_of_int (off - aligned)
        in if aligned_size < fat_size_bytes then (None, set_errno EINVAL s)
           else if aligned_size = 0 then (None, set_errno EINVAL s)
           else if unat aligned_size > max_map then (None, set_errno 12 s)
           else (Some (v\<lparr>table := (table v)\<lparr>
                   fat_map := words_of (drop (nat (off - aligned))
                     (mapped_bytes (nat page_size) (nat aligned) (unat aligned_size) (io_bytes s))),
                   fat_offset := off\<rparr>\<rparr>), s))"

section \<open>Mounting\<close>

text \<open>
  The state of a mounted volume: what the boot sector says, the file tree and its heap, the next
  free address for a \<open>fat_file\<close> object, and the disk, whose table is the one of the volume.
\<close>

record mounted =
  vol :: fat_volume
  vtree :: "fat_tree option"
  heap :: file_heap
  obj_brk :: addr
  dsk :: disk

definition init_file_tree :: "u8 list \<Rightarrow> fat_volume \<Rightarrow> io \<Rightarrow> (mounted option) option" where
  "init_file_tree heap_bytes v s = do {
     let d = \<lparr>tab = table v, vio = s\<rparr>;
     root \<leftarrow> fat_file_init_orphan_dir heap_bytes (cstr ''/'') (root_dir_start_cluster v) d;
     case root of
       None \<Rightarrow> Some None
     | Some root_dir \<Rightarrow> do {
         (t, h) \<leftarrow> fat_tree_insert (Some fat_tree_init) 0 1
            \<lparr>h_nodes = Map.empty, h_objs = [1 \<mapsto> root_dir], h_brk = 1, h_errno = errno d\<rparr>;
         Some (Some \<lparr>vol = v, vtree = t, heap = h, obj_brk = 2, dsk = put_errno (h_errno h) d\<rparr>)
       }
   }"

text \<open>\<open>file\<close> is the volume file, or \<open>None\<close> when it cannot be opened.\<close>

definition fat_volume_mount ::
  "int \<Rightarrow> nat \<Rightarrow> u8 list \<Rightarrow> io option \<Rightarrow> int \<Rightarrow> (mounted option) option" where
  "fat_volume_mount page_size max_map heap_bytes file flags =
     (case file of None \<Rightarrow> Some None
      | Some s \<Rightarrow> do {
          (r, s) \<leftarrow> read_boot_sector fresh_volume s;
          case r of None \<Rightarrow> Some None
          | Some v \<Rightarrow>
              (case map_fat page_size max_map v s of
                 (None, _) \<Rightarrow> Some None
               | (Some v, s) \<Rightarrow>
                   let sectors = ucast (num_tables v) * sectors_per_fat v + ucast (reserved_sectors v)
                         + drop_bit (unat (sector_order v) - 5) (ucast (max_root_entries v)) :: u32;
                       v = v\<lparr>mount_flags := flags, max_allocated_files := 100,
                         table := (table v)\<lparr>data_start_offset := push_bit (unat (sector_order v)) (uint sectors)\<rparr>\<rparr>
                   in init_file_tree heap_bytes v s)
        })"

definition fat_volume_unmount :: "mounted \<Rightarrow> file_heap option" where
  "fat_volume_unmount m = fat_tree_destroy (vtree m) (heap m)"

section \<open>The arguments of the program\<close>

text \<open>
  \<open>opts\<close>: the characters \<open>getopt_long\<close> returns in turn; \<open>args\<close>: the arguments left.  The result is
  the exit code, or the volume, the mount flags and the argument vector for FUSE.
\<close>

fun fat_fuse_options :: "string \<Rightarrow> int \<times> bool \<times> bool \<Rightarrow> nat + int \<times> bool \<times> bool" where
  "fat_fuse_options [] st = Inr st"
| "fat_fuse_options (c # cs) (flags, debug, fg) =
     (if c = CHR ''d'' then fat_fuse_options cs (flags, True, fg)
      else if c = CHR ''f'' then fat_fuse_options cs (flags, debug, True)
      else if c = CHR ''h'' then Inl 0
      else if c = CHR ''r'' then fat_fuse_options cs (FAT_MOUNT_FLAG_READONLY, debug, fg)
      else Inl 2)"

definition fat_fuse_args :: "string \<Rightarrow> string list \<Rightarrow> nat + string \<times> int \<times> string list" where
  "fat_fuse_args opts args =
     (case fat_fuse_options opts (FAT_MOUNT_FLAG_READWRITE, False, False) of
        Inl code \<Rightarrow> Inl code
      | Inr (flags, debug, fg) \<Rightarrow>
          (case args of
             [volume, mountpoint] \<Rightarrow>
               Inr (volume, flags, [''fat-fuse'', ''-s''] @ (if flags AND FAT_MOUNT_FLAG_READONLY \<noteq> 0 then [''-o'', ''ro''] else [])
                 @ (if fg then [''-f''] else []) @ (if debug then [''-d''] else []) @ [mountpoint])
           | _ \<Rightarrow> Inl 2))"

section \<open>What a mounted volume looks like\<close>

lemma unat_bsr16: "unat (of_nat (bsr (unat (w :: u16))) :: u16) = bsr (unat w)"
proof -
  have "bsr (unat w) < 2 ^ 16"
  proof (cases "unat w = 0")
    case False
    moreover have "unat w < 2 ^ 16" using unsigned_less [of w] by simp
    ultimately have "bsr (unat w) < 16" using bsr_less by blast
    then show ?thesis by simp
  qed (simp add: bsr.simps)
  then show ?thesis by (simp add: unat_of_nat)
qed

lemma unat_bsr8: "unat (of_nat (bsr (unat (w :: u8))) :: u8) = bsr (unat w)"
proof -
  have "bsr (unat w) < 2 ^ 8"
  proof (cases "unat w = 0")
    case False
    moreover have "unat w < 2 ^ 8" using unsigned_less [of w] by simp
    ultimately have "bsr (unat w) < 8" using bsr_less by blast
    then show ?thesis by simp
  qed (simp add: bsr.simps)
  then show ?thesis by (simp add: unat_of_nat)
qed

lemma dos_2_0_fields:
  assumes "read_dos_2_0_bpb v bs = Inr v'"
  shows "unat (bytes_per_sector v') = 2 ^ unat (sector_order v')" "5 \<le> unat (sector_order v')"
    "unat (sector_order v') \<le> 12" "unat (sectors_per_cluster v') = 2 ^ unat (sectors_per_cluster_order v')"
    "unat (sectors_per_cluster_order v') \<le> 7" "num_tables v' = 1 \<or> num_tables v' = 2"
    "cluster_order (table v') = sector_order v' + ucast (sectors_per_cluster_order v')"
    "total_sectors v' = ucast (le16_at bs 19)"
proof -
  let ?bps = "le16_at bs 11" and ?spc = "byte_at bs 13"
  have a: "is_power_of_2 (ucast ?bps)" "\<not> (of_nat (bsr (unat ?bps)) :: u16) < 5" "\<not> (of_nat (bsr (unat ?bps)) :: u16) > 12"
    and b: "is_power_of_2 (ucast ?spc)" "\<not> (of_nat (bsr (unat ?spc)) :: u8) > 7"
    and c: "byte_at bs 16 = 1 \<or> byte_at bs 16 = 2"
    and f: "bytes_per_sector v' = ?bps" "sector_order v' = of_nat (bsr (unat ?bps))" "sectors_per_cluster v' = ?spc"
      "sectors_per_cluster_order v' = of_nat (bsr (unat ?spc))" "num_tables v' = byte_at bs 16"
      "cluster_order (table v') = of_nat (bsr (unat ?bps)) + ucast (of_nat (bsr (unat ?spc)) :: u8)"
      "total_sectors v' = ucast (le16_at bs 19)"
    using assms by (auto simp: read_dos_2_0_bpb_def Let_def split: if_splits)
  have u: "unat (ucast ?bps :: u64) = unat ?bps" "unat (ucast ?spc :: u64) = unat ?spc"
    by (simp_all add: unat_ucast_up)
  have pb: "unat ?bps = 2 ^ bsr (unat ?bps)" "unat ?spc = 2 ^ bsr (unat ?spc)"
    using power_of_2_bsr [OF a(1)] power_of_2_bsr [OF b(1)] unfolding u by blast+
  show "unat (bytes_per_sector v') = 2 ^ unat (sector_order v')"
    unfolding f(1,2) unat_bsr16 by (rule pb(1))
  show "unat (sectors_per_cluster v') = 2 ^ unat (sectors_per_cluster_order v')"
    unfolding f(3,4) unat_bsr8 by (rule pb(2))
  show "5 \<le> unat (sector_order v')" "unat (sector_order v') \<le> 12"
    using a(2,3) unfolding f(2) by (simp_all add: word_nat_simps not_less)
  show "unat (sectors_per_cluster_order v') \<le> 7"
    using b(2) unfolding f(4) by (simp add: word_nat_simps not_less)
  show "num_tables v' = 1 \<or> num_tables v' = 2" "total_sectors v' = ucast (le16_at bs 19)" using c f(5,7) by simp_all
  show "cluster_order (table v') = sector_order v' + ucast (sectors_per_cluster_order v')"
    unfolding f(6,2,4) by (rule refl)
qed

lemma boot_sector_fields:
  assumes "read_boot_sector v s = Some (Some v', s')"
  obtains bs v1 where "read_dos_2_0_bpb (v\<lparr>oem_name := chars_at bs 3 8\<rparr>) bs = Inr v1"
    "bytes_per_sector v' = bytes_per_sector v1" "sector_order v' = sector_order v1"
    "sectors_per_cluster v' = sectors_per_cluster v1" "sectors_per_cluster_order v' = sectors_per_cluster_order v1"
    "num_tables v' = num_tables v1" "cluster_order (table v') = cluster_order (table v1)"
    "total_sectors v' = total_sectors v1" "reserved_sectors v' = reserved_sectors v1"
    "max_root_entries v' = max_root_entries v1"
    "root_dir_start_cluster v' \<noteq> 0" "version v' = 0" "fs_info_sector v' \<noteq> 0 \<longrightarrow> 9 \<le> sector_order v'"
    "num_data_clusters (table v') = count_clusters v'"
proof -
  from assms obtain bs v1 v2 where v1: "read_dos_2_0_bpb (v\<lparr>oem_name := chars_at bs 3 8\<rparr>) bs = Inr v1"
    and v2: "read_fat32_ebpb (read_dos_3_31_bpb v1 bs) bs = Inr v2"
    and v': "v' = (read_nonfat32_ebpb v2 bs)\<lparr>table := (table (read_nonfat32_ebpb v2 bs))
            \<lparr>num_data_clusters := count_clusters (read_nonfat32_ebpb v2 bs)\<rparr>\<rparr>"
    by (auto simp: read_boot_sector_def Let_def split: if_splits sum.splits)
  have "bytes_per_sector v2 = bytes_per_sector v1" "sector_order v2 = sector_order v1" "table v2 = table v1"
    "sectors_per_cluster v2 = sectors_per_cluster v1" "sectors_per_cluster_order v2 = sectors_per_cluster_order v1"
    "num_tables v2 = num_tables v1" "total_sectors v2 = total_sectors v1" "reserved_sectors v2 = reserved_sectors v1"
    "max_root_entries v2 = max_root_entries v1" "root_dir_start_cluster v2 \<noteq> 0" "version v2 = 0"
    "fs_info_sector v2 \<noteq> 0 \<longrightarrow> 9 \<le> sector_order v2"
    using v2 by (auto simp: read_fat32_ebpb_def read_dos_3_31_bpb_def Let_def not_less split: if_splits)
  then show thesis
    by (intro that [OF v1]) (simp_all add: v' read_nonfat32_ebpb_def count_clusters_def Let_def)
qed

text \<open>
  A boot sector that is accepted describes sectors of 32 to 4096 bytes and clusters of 1 to
  128 sectors, all powers of two that the stored orders describe, so that a cluster has at most
  2 to the power 19 bytes and the shifts by the orders stay within their types; there are one or
  two tables, a root directory, and an information sector only with sectors of 512 bytes or more.
\<close>

theorem boot_sector_geometry:
  assumes "read_boot_sector fresh_volume s = Some (Some v, s')"
  shows "unat (bytes_per_sector v) = 2 ^ unat (sector_order v) \<and> 5 \<le> unat (sector_order v) \<and> unat (sector_order v) \<le> 12
    \<and> unat (sectors_per_cluster v) = 2 ^ unat (sectors_per_cluster_order v) \<and> unat (sectors_per_cluster_order v) \<le> 7
    \<and> fat_table_bytes_per_cluster (table v) = unat (bytes_per_sector v) * unat (sectors_per_cluster v)
    \<and> unat (cluster_order (table v)) \<le> 19 \<and> num_tables v \<in> {1, 2} \<and> root_dir_start_cluster v \<noteq> 0 \<and> version v = 0
    \<and> (fs_info_sector v = 0 \<or> 512 \<le> unat (bytes_per_sector v))"
proof -
  obtain bs v1 where r: "read_dos_2_0_bpb (fresh_volume\<lparr>oem_name := chars_at bs 3 8\<rparr>) bs = Inr v1"
    and eq: "bytes_per_sector v = bytes_per_sector v1" "sector_order v = sector_order v1"
    "sectors_per_cluster v = sectors_per_cluster v1" "sectors_per_cluster_order v = sectors_per_cluster_order v1"
    "num_tables v = num_tables v1" "cluster_order (table v) = cluster_order (table v1)"
    and more: "root_dir_start_cluster v \<noteq> 0" "version v = 0" "fs_info_sector v \<noteq> 0 \<longrightarrow> 9 \<le> sector_order v"
    by (rule boot_sector_fields [OF assms]) (rule that)
  note f = dos_2_0_fields [OF r, folded eq]
  have "unat (ucast (sectors_per_cluster_order v) :: u16) = unat (sectors_per_cluster_order v)"
    by (simp add: unat_ucast_up)
  then have co: "unat (cluster_order (table v)) = unat (sector_order v) + unat (sectors_per_cluster_order v)"
    unfolding f(7) using f(3,5) by (simp add: unat_word_ariths)
  have fs: "512 \<le> unat (bytes_per_sector v)" if "fs_info_sector v \<noteq> 0"
  proof -
    have "9 \<le> unat (sector_order v)" using more(3) that by (simp add: word_nat_simps)
    then have "(2 :: nat) ^ 9 \<le> 2 ^ unat (sector_order v)" by (rule power_increasing) simp
    then show ?thesis using f(1) by simp
  qed
  show ?thesis
    using f(1-6) more(1,2) fs co unfolding fat_table_bytes_per_cluster_def co by (auto simp: power_add)
qed

text \<open>
  C32: the number of data clusters is computed from the 16-bit sector count alone.  On a FAT32
  volume, which has 0 there, the subtraction of the reserved sectors wraps around: whatever the
  size of the volume, tens of millions of cluster numbers count as valid.
\<close>

theorem cluster_count_wraps:
  assumes "read_boot_sector fresh_volume s = Some (Some v, s')" "total_sectors v = 0" "max_root_entries v = 0"
    "3 \<le> unat (reserved_sectors v)"
  shows "unat (num_data_clusters (table v)) = (2 ^ 32 - unat (reserved_sectors v)) div unat (sectors_per_cluster v)
    \<and> (\<forall>c. 2 \<le> c \<and> c < 33000000 \<longrightarrow> fat_table_is_valid_cluster_number (table v) c)"
proof -
  obtain bs v1 where r: "read_dos_2_0_bpb (fresh_volume\<lparr>oem_name := chars_at bs 3 8\<rparr>) bs = Inr v1"
    and eq: "bytes_per_sector v = bytes_per_sector v1" "sector_order v = sector_order v1"
    "sectors_per_cluster v = sectors_per_cluster v1" "sectors_per_cluster_order v = sectors_per_cluster_order v1"
    and nc: "num_data_clusters (table v) = count_clusters v"
    by (rule boot_sector_fields [OF assms(1)]) (rule that)
  note f = dos_2_0_fields [OF r, folded eq]
  let ?r = "ucast (reserved_sectors v) :: u32" and ?q = "unat (sectors_per_cluster v)"
  have ur: "unat ?r = unat (reserved_sectors v)" by (simp add: unat_ucast_up)
  have r0: "3 \<le> unat (reserved_sectors v)" "unat (reserved_sectors v) < 2 ^ 16"
    using assms(4) unsigned_less [of "reserved_sectors v"] by simp_all
  have "count_clusters v = drop_bit (unat (sectors_per_cluster_order v)) (- ?r)"
    using assms(2,3) by (simp add: count_clusters_def Let_def)
  then have "unat (num_data_clusters (table v)) = unat (- ?r) div 2 ^ unat (sectors_per_cluster_order v)"
    unfolding nc by (simp only: unat_drop_bit_eq) (simp only: drop_bit_eq_div)
  moreover have "unat (- ?r) = 2 ^ 32 - unat ?r"
    by (rule unat_uminus32) (use r0(1) ur in linarith)
  ultimately have num: "unat (num_data_clusters (table v)) = (2 ^ 32 - unat (reserved_sectors v)) div ?q"
    using ur f(4) by simp
  have "?q \<le> 2 ^ 7" unfolding f(4) using f(5) by (intro power_increasing) simp_all
  moreover have q0: "0 < ?q" unfolding f(4) by simp
  ultimately have "(2 ^ 32 - unat (reserved_sectors v)) div 2 ^ 7 \<le> (2 ^ 32 - unat (reserved_sectors v)) div ?q"
    by (intro div_le_mono2) simp_all
  moreover have "33000000 * 2 ^ 7 \<le> 2 ^ 32 - unat (reserved_sectors v)" using r0(2) by simp
  then have "33000000 \<le> (2 ^ 32 - unat (reserved_sectors v)) div 2 ^ 7"
    by (subst less_eq_div_iff_mult_less_eq) simp_all
  ultimately have big: "33000000 \<le> unat (num_data_clusters (table v))" using num by linarith
  have "(2 ^ 32 - unat (reserved_sectors v)) div ?q \<le> 2 ^ 32 - unat (reserved_sectors v)" by (rule div_le_dividend)
  also have "\<dots> \<le> 2 ^ 32 - 3" using r0(1) by (rule diff_le_mono2)
  finally have "unat (num_data_clusters (table v)) + 2 < 2 ^ 32" unfolding num by simp
  then have "unat (num_data_clusters (table v) + 2) = unat (num_data_clusters (table v)) + 2"
    by (simp add: unat_word_ariths)
  then have "fat_table_is_valid_cluster_number (table v) c" if "2 \<le> c \<and> c < 33000000" for c
    using that big by (simp add: fat_table_is_valid_cluster_number_def word_nat_simps)
  with num show ?thesis by blast
qed

text \<open>A boot sector of a small FAT32 volume: 512-byte sectors, one per cluster, 32 reserved, two tables.\<close>

definition sample_boot :: "u8 list" where
  "sample_boot = replicate 11 0 @ [0, 2, 1, 32, 0, 2, 0, 0, 0, 0, 0xF8, 0, 0] @ replicate 12 0
     @ [10, 0, 0, 0, 0, 0, 0, 0, 2, 0, 0, 0] @ replicate 80 0"

definition sample_volume_file :: io where
  "sample_volume_file = \<lparr>io_bytes = sample_boot, io_sched = [], io_errno = 0, io_now = 0\<rparr>"

lemma sample_boot_fields: "le16_at sample_boot 11 = 512" "byte_at sample_boot 13 = 1" "le16_at sample_boot 14 = 32"
  "byte_at sample_boot 16 = 2" "le16_at sample_boot 17 = 0" "le16_at sample_boot 19 = 0" "le32_at sample_boot 36 = 10"
  "le16_at sample_boot 42 = 0" "le32_at sample_boot 44 = 2" "le16_at sample_boot 48 = 0" "length sample_boot = 128"
  by (simp_all add: le16_at_def byte_at_def le32_at_def sample_boot_def le16_of_def le32_of_def nth_append)

lemma sample_boot_read:
  "\<exists>v s'. read_boot_sector fresh_volume sample_volume_file = Some (Some v, s')
     \<and> total_sectors v = 0 \<and> max_root_entries v = 0 \<and> reserved_sectors v = 32 \<and> sectors_per_cluster v = 1
     \<and> bytes_per_sector v = 512"
proof -
  have "short_only sample_volume_file" by (simp add: short_only_def sample_volume_file_def)
  then obtain s' where rd: "full_pread (replicate 128 0) 128 0 sample_volume_file = Some (128, sample_boot, s')"
    using sample_boot_fields(11)
    by (elim full_pread_short [of _ 128 "replicate 128 0" 0]) (auto simp: sample_volume_file_def)
  have p: "is_power_of_2 (ucast (512 :: u16))" "is_power_of_2 (ucast (1 :: u8))" by (simp_all add: is_power_of_2_def)
  have b: "bsr 512 = 9" "bsr (Suc 0) = 0" by (simp_all add: bsr.simps)
  have r2: "\<exists>v. read_dos_2_0_bpb u sample_boot = Inr v \<and> sector_order v = 9 \<and> total_sectors v = 0 \<and> max_root_entries v = 0
      \<and> reserved_sectors v = 32 \<and> sectors_per_cluster v = 1 \<and> bytes_per_sector v = 512" for u
    using p b by (simp add: read_dos_2_0_bpb_def sample_boot_fields)
  then obtain v1 where v1: "read_dos_2_0_bpb (fresh_volume\<lparr>oem_name := chars_at sample_boot 3 8\<rparr>) sample_boot = Inr v1"
    "sector_order v1 = 9" "total_sectors v1 = 0" "max_root_entries v1 = 0" "reserved_sectors v1 = 32"
    "sectors_per_cluster v1 = 1" "bytes_per_sector v1 = 512" by blast
  have "\<exists>v. read_fat32_ebpb (read_dos_3_31_bpb v1 sample_boot) sample_boot = Inr v \<and> total_sectors v = 0
      \<and> max_root_entries v = 0 \<and> reserved_sectors v = 32 \<and> sectors_per_cluster v = 1 \<and> bytes_per_sector v = 512"
    using v1(2-) by (simp add: read_fat32_ebpb_def read_dos_3_31_bpb_def sample_boot_fields)
  then show ?thesis
    using rd v1(1) by (auto simp: read_boot_sector_def read_nonfat32_ebpb_def Let_def)
qed

theorem boot_sector_geometry_witness:
  "\<exists>v s'. read_boot_sector fresh_volume sample_volume_file = Some (Some v, s')
     \<and> fat_table_bytes_per_cluster (table v) = 512"
proof -
  obtain v s' where v: "read_boot_sector fresh_volume sample_volume_file = Some (Some v, s')"
    "sectors_per_cluster v = 1" "bytes_per_sector v = 512" using sample_boot_read by blast
  then show ?thesis using boot_sector_geometry [OF v(1)] by auto
qed

theorem cluster_count_wraps_witness:
  "\<exists>v s'. read_boot_sector fresh_volume sample_volume_file = Some (Some v, s')
     \<and> unat (num_data_clusters (table v)) = 2 ^ 32 - 32 \<and> fat_table_is_valid_cluster_number (table v) 20000000"
proof -
  obtain v s' where v: "read_boot_sector fresh_volume sample_volume_file = Some (Some v, s')"
    "total_sectors v = 0" "max_root_entries v = 0" "reserved_sectors v = 32" "sectors_per_cluster v = 1"
    using sample_boot_read by blast
  have "3 \<le> unat (reserved_sectors v)" using v(4) by simp
  from cluster_count_wraps [OF v(1-3) this] v show ?thesis by auto
qed

end
