(* ===== verification/Fat_Fuse_Ops.thy ===== *)
theory Fat_Fuse_Ops
  imports Fat_Volume
begin

text \<open>
  Model of \<open>LAB4/main/esqueleto/fat_fuse_ops.c\<close> and \<open>big_brother.c\<close>: the operations FUSE calls on
  paths and handles, and the hidden directory with the log of the activity.

  \<open>errno\<close> is one variable: an operation on the heap of the tree starts with the value the disk
  operations left and passes its own on.  A handle (\<open>fi->fh\<close>) is the address of a tree node.
  What the program takes from outside is a record of parameters: \<open>mktime\<close>, the formatted local
  time, the login name, and the bytes behind a block on the C heap.
\<close>

record env =
  e_mktime :: "tm \<Rightarrow> int"
  e_now_str :: "int \<Rightarrow> cstring"
  e_login :: cstring
  e_heap :: "u8 list"

section \<open>Objects, nodes and errno\<close>

abbreviation m_errno :: "mounted \<Rightarrow> int" where "m_errno m \<equiv> errno (dsk m)"

definition set_m_errno :: "int \<Rightarrow> mounted \<Rightarrow> mounted" where
  "set_m_errno e m = m\<lparr>dsk := put_errno e (dsk m)\<rparr>"

definition on_heap :: "(file_heap \<Rightarrow> ('a \<times> file_heap) option) \<Rightarrow> mounted \<Rightarrow> ('a \<times> mounted) option" where
  "on_heap f m = do {
     (r, h) \<leftarrow> f ((heap m)\<lparr>h_errno := m_errno m\<rparr>);
     Some (r, m\<lparr>heap := h, dsk := put_errno (h_errno h) (dsk m)\<rparr>)
   }"

definition on_heap_proc :: "(file_heap \<Rightarrow> file_heap option) \<Rightarrow> mounted \<Rightarrow> mounted option" where
  "on_heap_proc f m = do { (_, m) \<leftarrow> on_heap (\<lambda>h. do { h' \<leftarrow> f h; Some ((), h') }) m; Some m }"

definition read_obj :: "addr \<Rightarrow> mounted \<Rightarrow> fat_file option" where
  "read_obj p m = obj_at (heap m) p"

definition write_obj :: "addr \<Rightarrow> fat_file \<Rightarrow> mounted \<Rightarrow> mounted" where
  "write_obj p f m = m\<lparr>heap := (heap m)\<lparr>h_objs := (h_objs (heap m))(p \<mapsto> f)\<rparr>\<rparr>"

definition new_obj :: "fat_file \<Rightarrow> mounted \<Rightarrow> addr \<times> mounted" where
  "new_obj f m = (obj_brk m, (write_obj (obj_brk m) f m)\<lparr>obj_brk := Suc (obj_brk m)\<rparr>)"

definition search_node :: "cstring \<Rightarrow> mounted \<Rightarrow> (addr \<times> mounted) option" where
  "search_node path m = do { t \<leftarrow> vtree m; on_heap (fat_tree_node_search t (Some path)) m }"

definition insert_node :: "addr \<Rightarrow> addr \<Rightarrow> mounted \<Rightarrow> mounted option" where
  "insert_node parent file m = do {
     (t, m) \<leftarrow> on_heap (fat_tree_insert (vtree m) parent file) m;
     Some (m\<lparr>vtree := t\<rparr>)
   }"

definition delete_node :: "cstring \<Rightarrow> mounted \<Rightarrow> mounted option" where
  "delete_node path m = do {
     (t, m) \<leftarrow> on_heap (fat_tree_delete (vtree m) (Some path)) m;
     Some (m\<lparr>vtree := t\<rparr>)
   }"

fun insert_all :: "addr \<Rightarrow> fat_file list \<Rightarrow> mounted \<Rightarrow> mounted option" where
  "insert_all dir_node [] m = Some m"
| "insert_all dir_node (f # fs) m =
     (let (p, m) = new_obj f m in do { m \<leftarrow> insert_node dir_node p m; insert_all dir_node fs m })"

text \<open>The data operations on the objects two pointers refer to.\<close>

definition obj_pwrite :: "addr \<Rightarrow> u8 list \<Rightarrow> nat \<Rightarrow> int \<Rightarrow> addr \<Rightarrow> mounted \<Rightarrow> (int \<times> mounted) option" where
  "obj_pwrite file buf sz off parent m = do {
     f \<leftarrow> read_obj file m;
     p \<leftarrow> read_obj parent m;
     (r, f, d) \<leftarrow> fat_file_pwrite f buf sz off p (dsk m);
     Some (r, write_obj file f (m\<lparr>dsk := d\<rparr>))
   }"

definition obj_read_children :: "addr \<Rightarrow> mounted \<Rightarrow> (fat_file list \<times> mounted) option" where
  "obj_read_children dir m = do {
     f \<leftarrow> read_obj dir m;
     (children, f, d) \<leftarrow> fat_file_read_children f (dsk m);
     Some (case children of None \<Rightarrow> [] | Some xs \<Rightarrow> xs, write_obj dir f (m\<lparr>dsk := d\<rparr>))
   }"

definition obj_add_child :: "addr \<Rightarrow> addr \<Rightarrow> mounted \<Rightarrow> mounted option" where
  "obj_add_child parent child m = do {
     p \<leftarrow> read_obj parent m;
     c \<leftarrow> read_obj child m;
     (p, c, d) \<leftarrow> fat_file_dentry_add_child p c (dsk m);
     Some (write_obj child c (write_obj parent p (m\<lparr>dsk := d\<rparr>)))
   }"

section \<open>The log directory\<close>

definition BB_DIRNAME :: cstring where "BB_DIRNAME = cstr ''/bb''"
definition BB_LOG_FILE :: cstring where "BB_LOG_FILE = cstr ''/bb/fs.log''"

text \<open>\<open>strncmp\<close>: the end of a list is the NUL of the string.\<close>

fun strncmp :: "nat \<Rightarrow> u8 list \<Rightarrow> u8 list \<Rightarrow> int" where
  "strncmp 0 xs ys = 0"
| "strncmp (Suc n) xs ys =
     (let x = (case xs of [] \<Rightarrow> 0 | c # _ \<Rightarrow> c); y = (case ys of [] \<Rightarrow> 0 | c # _ \<Rightarrow> c)
      in if x \<noteq> y then uint x - uint y else if x = 0 then 0 else strncmp n (tl xs) (tl ys))"

definition bb_is_log_file_dentry :: "fat_dir_entry \<Rightarrow> bool" where
  "bb_is_log_file_dentry de \<longleftrightarrow>
     strncmp 3 (cstr ''fs'') (base_name de) = 0 \<and> strncmp 3 (cstr ''log'') (extension de) = 0"

definition bb_is_log_filepath :: "cstring \<Rightarrow> bool" where
  "bb_is_log_filepath path \<longleftrightarrow> strncmp 8 BB_LOG_FILE path = 0"

definition bb_is_log_dirpath :: "cstring \<Rightarrow> bool" where
  "bb_is_log_dirpath path \<longleftrightarrow> strncmp 15 BB_DIRNAME path = 0"

partial_function (option) bad_sector_loop :: "fat_table \<Rightarrow> u32 \<Rightarrow> u32 option" where
  "bad_sector_loop t c = do {
     entry \<leftarrow> array_get (fat_map t) (unat c);
     if \<not> fat_table_cluster_is_bad_sector entry \<and> unat c < 0x0FFFFFF8 div (fat_table_bytes_per_cluster t * 8)
     then bad_sector_loop t (c + 1) else Some c
   }"

definition search_bb_orphan_dir_cluster :: "mounted \<Rightarrow> (u32 \<times> mounted) option" where
  "search_bb_orphan_dir_cluster m = do {
     let t = tab (dsk m);
     c \<leftarrow> bad_sector_loop t 3;
     entry \<leftarrow> array_get (fat_map t) (unat c);
     if \<not> fat_table_cluster_is_bad_sector entry then Some (0, m)
     else do {
       (_, buf, s) \<leftarrow> full_pread (replicate 32 0) 32 (fat_table_cluster_offset t c) (vio (dsk m));
       let d = (dsk m)\<lparr>vio := s\<rparr>;
       if \<not> bb_is_log_file_dentry (dentry_of buf) then do {
         d \<leftarrow> set_next c FAT_CLUSTER_FREE d;
         Some (0, m\<lparr>dsk := d\<rparr>)
       }
       else Some (c, m\<lparr>dsk := d\<rparr>)
     }
   }"

text \<open>The object of a new orphan directory, 0 when \<open>errno\<close> made its creation fail.\<close>

definition new_orphan_dir :: "env \<Rightarrow> u32 \<Rightarrow> mounted \<Rightarrow> (addr \<times> mounted) option" where
  "new_orphan_dir env c m = do {
     r \<leftarrow> fat_file_init_orphan_dir (e_heap env) BB_DIRNAME c (dsk m);
     Some (case r of None \<Rightarrow> (0, m) | Some f \<Rightarrow> new_obj f m)
   }"

definition bb_create_new_orphan_dir :: "env \<Rightarrow> mounted \<Rightarrow> (int \<times> mounted) option" where
  "bb_create_new_orphan_dir env m = do {
     let m = set_m_errno 0 m;
     c \<leftarrow> fat_table_get_next_free_cluster (tab (dsk m));
     d \<leftarrow> set_next c FAT_CLUSTER_BAD_SECTOR (dsk m);
     (dir, m) \<leftarrow> new_orphan_dir env c (m\<lparr>dsk := d\<rparr>);
     (root_node, m) \<leftarrow> search_node (cstr ''/'') m;
     m \<leftarrow> insert_node root_node dir m;
     Some (- m_errno m, m)
   }"

definition bb_init_log_dir :: "env \<Rightarrow> u32 \<Rightarrow> mounted \<Rightarrow> (int \<times> mounted) option" where
  "bb_init_log_dir env c m = do {
     let m = set_m_errno 0 m;
     if c = 0 then do {
       (e, m) \<leftarrow> bb_create_new_orphan_dir env m;
       Some (- e, set_m_errno e m)
     }
     else do {
       let off = fat_table_cluster_offset (tab (dsk m)) c;
       (_, buf, s) \<leftarrow> full_pread (replicate 32 0) 32 off (vio (dsk m));
       (dir, m) \<leftarrow> new_orphan_dir env c (m\<lparr>dsk := (dsk m)\<lparr>vio := s\<rparr>\<rparr>);
       (_, s) \<leftarrow> full_pwrite buf 32 off (vio (dsk m));
       let m = m\<lparr>dsk := (dsk m)\<lparr>vio := s\<rparr>\<rparr>;
       (root_node, m) \<leftarrow> search_node (cstr ''/'') m;
       m \<leftarrow> insert_node root_node dir m;
       (dir_node, m) \<leftarrow> search_node BB_DIRNAME m;
       (children, m) \<leftarrow> obj_read_children dir m;
       m \<leftarrow> insert_all dir_node children m;
       Some (- m_errno m, m)
     }
   }"

section \<open>Creating files and directories\<close>

definition dirname :: "cstring \<Rightarrow> cstring" where
  "dirname path =
     (let last = dropWhile (\<lambda>c. c = PATH_SEPARATOR) (rev path);
          rest = dropWhile (\<lambda>c. c \<noteq> PATH_SEPARATOR) last;
          dir = dropWhile (\<lambda>c. c = PATH_SEPARATOR) rest
      in if dir \<noteq> [] then rev dir
         else if path \<noteq> [] \<and> hd path = PATH_SEPARATOR then [PATH_SEPARATOR] else cstr ''.'')"

definition fat_fuse_mkdir :: "env \<Rightarrow> cstring \<Rightarrow> mounted \<Rightarrow> (int \<times> mounted) option" where
  "fat_fuse_mkdir env path m = do {
     let m = set_m_errno 0 m;
     (parent_node, m) \<leftarrow> search_node (dirname path) m;
     if parent_node = 0 then Some (- ENOENT, set_m_errno ENOENT m)
     else do {
       (parent, m) \<leftarrow> on_heap (fat_tree_get_file parent_node) m;
       p \<leftarrow> read_obj parent m;
       if \<not> fat_file_is_directory p then Some (- ENOTDIR, set_m_errno ENOTDIR m)
       else do {
         (r, d) \<leftarrow> fat_file_init (e_heap env) True path (dsk m);
         let m = m\<lparr>dsk := d\<rparr>;
         if m_errno m \<noteq> 0 then Some (- m_errno m, m)
         else do {
           f \<leftarrow> r;
           let (new_file, m) = new_obj f m;
           m \<leftarrow> insert_node parent_node new_file m;
           m \<leftarrow> obj_add_child parent new_file m;
           Some (- m_errno m, m)
         }
       }
     }
   }"

text \<open>
  In \<open>fat_fuse_mknod\<close> the test \<open>errno < 0\<close> is never true; a failed \<open>fat_file_init\<close> reaches
  \<open>fat_file_dentry_add_child\<close> with a NULL file.
\<close>

definition fat_fuse_mknod :: "env \<Rightarrow> cstring \<Rightarrow> mounted \<Rightarrow> (int \<times> mounted) option" where
  "fat_fuse_mknod env path m = do {
     let m = set_m_errno 0 m;
     (parent_node, m) \<leftarrow> search_node (dirname path) m;
     if parent_node = 0 then Some (- ENOENT, set_m_errno ENOENT m)
     else do {
       (parent, m) \<leftarrow> on_heap (fat_tree_get_file parent_node) m;
       p \<leftarrow> read_obj parent m;
       if \<not> fat_file_is_directory p then Some (- ENOTDIR, set_m_errno ENOTDIR m)
       else do {
         (r, d) \<leftarrow> fat_file_init (e_heap env) False path (dsk m);
         let m = m\<lparr>dsk := d\<rparr>;
         if m_errno m < 0 then Some (- m_errno m, m)
         else do {
           let (new_file, m) = (case r of None \<Rightarrow> (0, m) | Some f \<Rightarrow> new_obj f m);
           m \<leftarrow> insert_node parent_node new_file m;
           m \<leftarrow> obj_add_child parent new_file m;
           Some (- m_errno m, m)
         }
       }
     }
   }"

definition create_log_file :: "env \<Rightarrow> mounted \<Rightarrow> (int \<times> mounted) option" where
  "create_log_file env m = do {
     let m = set_m_errno 0 m;
     (dir_cluster, m) \<leftarrow> search_bb_orphan_dir_cluster m;
     (e, m) \<leftarrow> bb_init_log_dir env dir_cluster m;
     let m = set_m_errno e m;
     if e \<noteq> 0 then Some (e, m)
     else if dir_cluster = 0 then do {
       (r, m) \<leftarrow> fat_fuse_mknod env BB_LOG_FILE m;
       Some (if r \<noteq> 0 then m_errno m else 0, m)
     }
     else Some (0, m)
   }"

text \<open>The message is put together in a buffer of 100 bytes.\<close>

definition fat_fuse_log_activity :: "env \<Rightarrow> cstring \<Rightarrow> fat_file \<Rightarrow> mounted \<Rightarrow> (int \<times> mounted) option" where
  "fat_fuse_log_activity env operation_type file m = do {
     let buf = e_now_str env (io_now (vio (dsk m))) @ [9] @ e_login env @ [9] @ filepath file @ [9] @ operation_type @ [10];
     guard (length buf < 100);
     if filepath file \<noteq> BB_LOG_FILE then do {
       (node, m) \<leftarrow> search_node BB_LOG_FILE m;
       if node = 0 then Some (- m_errno m, m)
       else do {
         (log_file, m) \<leftarrow> on_heap (fat_tree_get_file node) m;
         f \<leftarrow> read_obj log_file m;
         if fat_file_is_directory f then Some (- EISDIR, m)
         else do {
           (parent, m) \<leftarrow> on_heap (fat_tree_get_parent node) m;
           de \<leftarrow> dentry f;
           obj_pwrite log_file buf (length buf) (uint (file_size de)) parent m
         }
       }
     }
     else Some (0, m)
   }"

section \<open>Attributes, opening and closing\<close>

definition fat_fuse_fgetattr :: "env \<Rightarrow> addr \<Rightarrow> mounted \<Rightarrow> (int \<times> stat option \<times> mounted) option" where
  "fat_fuse_fgetattr env fh m = do {
     (p, m) \<leftarrow> on_heap (fat_tree_get_file fh) m;
     f \<leftarrow> read_obj p m;
     st \<leftarrow> fat_file_to_stbuf (e_mktime env) f (tab (dsk m));
     Some (0, Some st, m)
   }"

definition fat_fuse_getattr :: "env \<Rightarrow> cstring \<Rightarrow> mounted \<Rightarrow> (int \<times> stat option \<times> mounted) option" where
  "fat_fuse_getattr env path m = do {
     (p, m) \<leftarrow> on_heap (fat_tree_search (vtree m) (Some path)) m;
     if p = 0 then Some (- ENOENT, None, set_m_errno ENOENT m)
     else do {
       f \<leftarrow> read_obj p m;
       st \<leftarrow> fat_file_to_stbuf (e_mktime env) f (tab (dsk m));
       Some (0, Some st, m)
     }
   }"

text \<open>The result carries the handle stored in \<open>fi->fh\<close>, if one is stored.\<close>

definition fat_fuse_open :: "cstring \<Rightarrow> mounted \<Rightarrow> (int \<times> addr option \<times> mounted) option" where
  "fat_fuse_open path m = do {
     (node, m) \<leftarrow> search_node path m;
     if node = 0 then Some (- m_errno m, None, m)
     else do {
       (p, m) \<leftarrow> on_heap (fat_tree_get_file node) m;
       f \<leftarrow> read_obj p m;
       if fat_file_is_directory f then Some (- EISDIR, None, m)
       else do {
         m \<leftarrow> on_heap_proc (fat_tree_inc_num_times_opened node) m;
         Some (0, Some node, m)
       }
     }
   }"

definition fat_fuse_opendir :: "cstring \<Rightarrow> mounted \<Rightarrow> (int \<times> addr option \<times> mounted) option" where
  "fat_fuse_opendir path m = do {
     (node, m) \<leftarrow> search_node path m;
     if node = 0 then Some (- m_errno m, None, m)
     else do {
       (p, m) \<leftarrow> on_heap (fat_tree_get_file node) m;
       f \<leftarrow> read_obj p m;
       if \<not> fat_file_is_directory f then Some (- ENOTDIR, None, m)
       else do {
         m \<leftarrow> on_heap_proc (fat_tree_inc_num_times_opened node) m;
         Some (0, Some node, m)
       }
     }
   }"

definition fat_fuse_release :: "addr \<Rightarrow> mounted \<Rightarrow> (int \<times> mounted) option" where
  "fat_fuse_release fh m = do { m \<leftarrow> on_heap_proc (fat_tree_dec_num_times_opened fh) m; Some (0, m) }"

definition fat_fuse_releasedir :: "addr \<Rightarrow> mounted \<Rightarrow> (int \<times> mounted) option" where
  "fat_fuse_releasedir fh m = do { m \<leftarrow> on_heap_proc (fat_tree_dec_num_times_opened fh) m; Some (0, m) }"

section \<open>Listing directories\<close>

definition fat_fuse_read_children :: "env \<Rightarrow> addr \<Rightarrow> mounted \<Rightarrow> mounted option" where
  "fat_fuse_read_children env dir_node m = do {
     let m = set_m_errno 0 m;
     (dir, m) \<leftarrow> on_heap (fat_tree_get_file dir_node) m;
     (children, m) \<leftarrow> obj_read_children dir m;
     m \<leftarrow> insert_all dir_node children m;
     (log_file, m) \<leftarrow> on_heap (fat_tree_search (vtree m) (Some BB_LOG_FILE)) m;
     if log_file = 0 then do { (_, m) \<leftarrow> create_log_file env m; Some m } else Some m
   }"

text \<open>\<open>filler\<close> adds a name to the reply, which has room for so many; it returns 1 when it is full.\<close>

definition filler :: "nat \<Rightarrow> cstring \<Rightarrow> cstring list \<Rightarrow> nat \<times> cstring list" where
  "filler room nm names = (if length names < room then (0, names @ [nm]) else (1, names))"

partial_function (option) readdir_loop ::
  "nat \<Rightarrow> addr list \<Rightarrow> nat \<Rightarrow> cstring list \<Rightarrow> mounted \<Rightarrow> (int \<times> cstring list) option" where
  "readdir_loop room children i names m = do {
     child \<leftarrow> array_get children i;
     if child = 0 then Some (0, names)
     else do {
       f \<leftarrow> read_obj child m;
       let (error, names') = (if filepath f \<noteq> BB_DIRNAME then filler room (name f) names else (0, names));
       if error \<noteq> 0 then Some (- m_errno m, names')
       else readdir_loop room children (i + 1) names' m
     }
   }"

definition fat_fuse_readdir :: "env \<Rightarrow> nat \<Rightarrow> addr \<Rightarrow> mounted \<Rightarrow> (int \<times> cstring list \<times> mounted) option" where
  "fat_fuse_readdir env room fh m = do {
     let m = set_m_errno 0 m;
     (dir, m) \<leftarrow> on_heap (fat_tree_get_file fh) m;
     let (e1, names) = filler room (cstr ''.'') [];
     if e1 \<noteq> 0 then Some (- m_errno m, names, m)
     else do {
       let (e2, names) = filler room (cstr ''..'') names;
       if e2 \<noteq> 0 then Some (- m_errno m, names, m)
       else do {
         f \<leftarrow> read_obj dir m;
         if \<not> fat_file_is_directory f then Some (- ENOTDIR, names, set_m_errno ENOTDIR m)
         else do {
           m \<leftarrow> (if \<not> children_read f then fat_fuse_read_children env fh m else Some m);
           if \<not> children_read f \<and> m_errno m < 0 then Some (- m_errno m, names, m)
           else do {
             (r, m) \<leftarrow> on_heap (fat_tree_flatten_h_children fh) m;
             children \<leftarrow> r;
             (ret, names) \<leftarrow> readdir_loop room children 0 names m;
             Some (ret, names, m)
           }
         }
       }
     }
   }"

section \<open>Reading and writing\<close>

definition fat_fuse_read :: "env \<Rightarrow> u8 list \<Rightarrow> nat \<Rightarrow> int \<Rightarrow> addr \<Rightarrow> mounted \<Rightarrow> (int \<times> u8 list \<times> mounted) option" where
  "fat_fuse_read env buf sz off fh m = do {
     let m = set_m_errno 0 m;
     (file, m) \<leftarrow> on_heap (fat_tree_get_file fh) m;
     (parent, m) \<leftarrow> on_heap (fat_tree_get_parent fh) m;
     f \<leftarrow> read_obj file m;
     p \<leftarrow> read_obj parent m;
     (bytes_read, buf, f, d) \<leftarrow> fat_file_pread f buf sz off p (dsk m);
     let m = write_obj file f (m\<lparr>dsk := d\<rparr>);
     if m_errno m \<noteq> 0 then Some (- m_errno m, buf, m)
     else do {
       (_, m) \<leftarrow> fat_fuse_log_activity env (cstr ''read'') f m;
       Some (bytes_read, buf, m)
     }
   }"

definition fat_fuse_write :: "env \<Rightarrow> u8 list \<Rightarrow> nat \<Rightarrow> int \<Rightarrow> addr \<Rightarrow> mounted \<Rightarrow> (int \<times> mounted) option" where
  "fat_fuse_write env buf sz off fh m = do {
     (file, m) \<leftarrow> on_heap (fat_tree_get_file fh) m;
     (parent, m) \<leftarrow> on_heap (fat_tree_get_parent fh) m;
     if sz = 0 then Some (0, m)
     else do {
       f \<leftarrow> read_obj file m;
       de \<leftarrow> dentry f;
       if off > uint (file_size de) then Some (- EOVERFLOW, m)
       else do {
         (_, m) \<leftarrow> fat_fuse_log_activity env (cstr ''write'') f m;
         obj_pwrite file buf sz off parent m
       }
     }
   }"

section \<open>Times, truncation and removal\<close>

definition fat_fuse_utime :: "cstring \<Rightarrow> int \<Rightarrow> int \<Rightarrow> mounted \<Rightarrow> (int \<times> mounted) option" where
  "fat_fuse_utime path actime modtime m = do {
     let m = set_m_errno 0 m;
     (node, m) \<leftarrow> search_node path m;
     if node = 0 \<or> m_errno m \<noteq> 0 then Some (- ENOENT, set_m_errno ENOENT m)
     else do {
       (parent, m) \<leftarrow> on_heap (fat_tree_get_parent node) m;
       if parent = 0 \<or> m_errno m \<noteq> 0 then Some (0, m)
       else do {
         (file, m) \<leftarrow> on_heap (fat_tree_get_file node) m;
         f \<leftarrow> read_obj file m;
         p \<leftarrow> read_obj parent m;
         (f, d) \<leftarrow> fat_utime f p actime modtime (dsk m);
         let m = write_obj file f (m\<lparr>dsk := d\<rparr>);
         Some (- m_errno m, m)
       }
     }
   }"

definition fat_fuse_truncate :: "cstring \<Rightarrow> int \<Rightarrow> mounted \<Rightarrow> (int \<times> mounted) option" where
  "fat_fuse_truncate path off m = do {
     let m = set_m_errno 0 m;
     (node, m) \<leftarrow> search_node path m;
     if node = 0 \<or> m_errno m \<noteq> 0 then Some (- ENOENT, set_m_errno ENOENT m)
     else do {
       (file, m) \<leftarrow> on_heap (fat_tree_get_file node) m;
       f \<leftarrow> read_obj file m;
       if fat_file_is_directory f then Some (- EISDIR, m)
       else do {
         (parent, m) \<leftarrow> on_heap (fat_tree_get_parent node) m;
         m \<leftarrow> on_heap_proc (fat_tree_inc_num_times_opened node) m;
         f \<leftarrow> read_obj file m;
         p \<leftarrow> read_obj parent m;
         (f, d) \<leftarrow> fat_file_truncate f off p (dsk m);
         let m = write_obj file f (m\<lparr>dsk := d\<rparr>);
         Some (- m_errno m, m)
       }
     }
   }"

definition fat_fuse_unlink :: "cstring \<Rightarrow> mounted \<Rightarrow> (int \<times> mounted) option" where
  "fat_fuse_unlink path m = do {
     let m = set_m_errno 0 m;
     (node, m) \<leftarrow> search_node path m;
     if node = 0 \<or> m_errno m \<noteq> 0 then Some (- ENOENT, set_m_errno ENOENT m)
     else do {
       (file, m) \<leftarrow> on_heap (fat_tree_get_file node) m;
       f \<leftarrow> read_obj file m;
       if fat_file_is_directory f then Some (- EISDIR, m)
       else do {
         (parent, m) \<leftarrow> on_heap (fat_tree_get_parent node) m;
         p \<leftarrow> read_obj parent m;
         (f, d) \<leftarrow> fat_file_delete f p (dsk m);
         m \<leftarrow> delete_node path (write_obj file f (m\<lparr>dsk := d\<rparr>));
         Some (- m_errno m, m)
       }
     }
   }"

definition fat_fuse_rmdir :: "cstring \<Rightarrow> mounted \<Rightarrow> (int \<times> mounted) option" where
  "fat_fuse_rmdir path m = do {
     let m = set_m_errno 0 m;
     (node, m) \<leftarrow> search_node path m;
     if node = 0 \<or> m_errno m \<noteq> 0 then Some (- ENOENT, set_m_errno ENOENT m)
     else do {
       (file, m) \<leftarrow> on_heap (fat_tree_get_file node) m;
       f \<leftarrow> read_obj file m;
       if \<not> fat_file_is_directory f then Some (- ENOTDIR, set_m_errno ENOTDIR m)
       else do {
         (r, m) \<leftarrow> on_heap (fat_tree_flatten_h_children node) m;
         children \<leftarrow> r;
         first \<leftarrow> array_get children 0;
         if first \<noteq> 0 then Some (- EISDIR, set_m_errno EISDIR m)
         else do {
           (parent, m) \<leftarrow> on_heap (fat_tree_get_parent node) m;
           p \<leftarrow> read_obj parent m;
           (f, d) \<leftarrow> fat_file_delete f p (dsk m);
           m \<leftarrow> delete_node path (write_obj file f (m\<lparr>dsk := d\<rparr>));
           Some (- m_errno m, m)
         }
       }
     }
   }"

end
