(* ===== verification/Fat_Fuse_Props.thy ===== *)
theory Fat_Fuse_Props
  imports Fat_Fuse_Ops
begin

text \<open>
  What the FUSE operations of \<open>fat_fuse_ops.c\<close> do to a mounted volume: removal of files and
  directories, creation of directories, and the effect of \<open>errno\<close> values left by an earlier call.
\<close>

section \<open>The tree under changes of errno\<close>

lemma errno_irrelevant [simp]:
  "tree_inv t (s\<lparr>h_errno := e\<rparr>) T = tree_inv t s T" "path_map (s\<lparr>h_errno := e\<rparr>) T = path_map s T"
  "file_at (s\<lparr>h_errno := e\<rparr>) = file_at s" "data_of (s\<lparr>h_errno := e\<rparr>) = data_of s"
  "children_of (s\<lparr>h_errno := e\<rparr>) p cs = children_of s p cs" "key_at kf (s\<lparr>h_errno := e\<rparr>) = key_at kf s"
proof -
  let ?s = "s\<lparr>h_errno := e\<rparr>"
  have links: "links ?s = links s" by (rule ext) (simp add: links_def)
  have tree: "tree_at ?s T = tree_at s T" by (intro tree_at_cong) (simp add: links)
  show dt: "data_of ?s = data_of s" by (rule ext) (simp add: data_of_def)
  show fa: "file_at ?s = file_at s" by (rule ext) (simp add: file_at_def dt)
  show key: "key_at kf ?s = key_at kf s" for kf :: "fat_file \<Rightarrow> 'k" by (rule ext) (simp add: key_at_def)
  have sib: "sib_list ?s q xs = sib_list s q xs" for q xs by (intro sib_list_cong) simp
  show ch: "children_of ?s p cs = children_of s p cs" for p cs by (simp add: children_of_def sib)
  have "search_tree filepath ?s T = search_tree filepath s T"
    by (simp add: search_tree_def tree key data_ok_def)
  moreover have "hier_ok ?s = hier_ok s" by (simp add: hier_ok_def ch)
  ultimately show "tree_inv t ?s T = tree_inv t s T" by (simp add: tree_inv_def store_ok_def)
  show "path_map ?s T = path_map s T" by (simp add: path_map_def fa)
qed

definition sync :: "mounted \<Rightarrow> mounted" where
  "sync m = m\<lparr>heap := (heap m)\<lparr>h_errno := m_errno m\<rparr>\<rparr>"

lemma sync_simps [simp]: "dsk (sync m) = dsk m" "vtree (sync m) = vtree m" "obj_brk (sync m) = obj_brk m"
  "heap (sync m) = (heap m)\<lparr>h_errno := m_errno m\<rparr>" "vol (sync m) = vol m" "sync (sync m) = sync m"
  by (simp_all add: sync_def)

lemma on_heap_pure:
  "f ((heap m)\<lparr>h_errno := m_errno m\<rparr>) = Some (r, (heap m)\<lparr>h_errno := m_errno m\<rparr>) \<Longrightarrow> on_heap f m = Some (r, sync m)"
  by (simp add: on_heap_def sync_def)

text \<open>A mounted volume whose tree is in order and whose disk is, apart from an old error number.\<close>

definition mounted_ok :: "mounted \<Rightarrow> addr tree \<Rightarrow> bool" where
  "mounted_ok m T \<longleftrightarrow> (\<exists>t. vtree m = Some t \<and> tree_inv t (heap m) T) \<and> disk_ok (put_errno 0 (dsk m))
     \<and> entries_fit (dsk m) \<and> obj_brk m \<noteq> 0 \<and> (\<forall>q \<ge> obj_brk m. h_objs (heap m) q = None)"

lemma mounted_ok_sync [simp]: "mounted_ok (sync m) T = mounted_ok m T"
  by (simp add: mounted_ok_def)

lemma set_errno_simps [simp]: "heap (set_m_errno e m) = heap m" "vtree (set_m_errno e m) = vtree m"
  "obj_brk (set_m_errno e m) = obj_brk m" "dsk (set_m_errno e m) = put_errno e (dsk m)"
  by (simp_all add: set_m_errno_def)

lemma mounted_ok_errno [simp]: "mounted_ok (set_m_errno e m) T = mounted_ok m T"
  by (simp add: mounted_ok_def entries_fit_def)

lemma read_obj_sync [simp]: "read_obj p (sync m) = read_obj p m"
  by (simp add: read_obj_def obj_at_def)

lemma search_found:
  assumes "mounted_ok m T" "a \<in> set_tree T" "key_at filepath (heap m) a = path"
  shows "search_node path m = Some (a, sync m)"
proof -
  obtain t where t: "vtree m = Some t" "tree_inv t (heap m) T" using assms(1) by (auto simp: mounted_ok_def)
  let ?s = "(heap m)\<lparr>h_errno := m_errno m\<rparr>"
  have inv: "tree_inv t ?s T" using t(2) by simp
  note I = tree_inv_facts [OF inv]
  have "fat_tree_node_search t (Some path) ?s = Some (tree_lookup (key_at filepath ?s) T path, ?s)"
    using fat_files.search_is_lookup [OF I(5)] I(1,4) by (simp add: fat_tree_node_search_def)
  moreover have "tree_lookup (key_at filepath ?s) T path = a"
  proof -
    let ?b = "tree_lookup (key_at filepath ?s) T path"
    have "?b \<in> set_tree T" "key_at filepath ?s ?b = path"
      using tree_lookup_cases [OF I(5), of path] assms(2,3) by auto
    moreover have "inj_on (key_at filepath ?s) (set_tree T)"
      using I(5) by (simp add: search_tree_def strict_sorted_iff distinct_map)
    ultimately show ?thesis using assms(2,3) by (auto dest: inj_onD)
  qed
  ultimately show ?thesis using t(1) by (simp add: search_node_def on_heap_pure)
qed

lemma search_missing:
  assumes "mounted_ok m T" "path_map (heap m) T path = None"
  shows "search_node path m = Some (0, sync m)"
proof -
  obtain t where t: "vtree m = Some t" "tree_inv t (heap m) T" using assms(1) by (auto simp: mounted_ok_def)
  then have "tree_inv t ((heap m)\<lparr>h_errno := m_errno m\<rparr>) T" by simp
  from fat_tree_search_lib [OF this, of path] t(1) assms(2) show ?thesis
    by (auto simp: search_node_def on_heap_pure)
qed

lemma get_file_sync:
  assumes "mounted_ok m T" "a \<in> set_tree T"
  shows "on_heap (fat_tree_get_file a) m = Some (data_of (heap m) a, sync m)"
    "read_obj (data_of (heap m) a) m = Some (file_at (heap m) a)" "data_of (heap m) a \<noteq> 0"
proof -
  obtain t where "tree_inv t (heap m) T" using assms(1) by (auto simp: mounted_ok_def)
  then have "search_tree filepath (heap m) T" by (simp add: tree_inv_def)
  from node_in_tree [OF this assms(2)] obtain n where n: "h_nodes (heap m) a = Some n" "h_data n \<noteq> 0" "a \<noteq> 0"
    "h_objs (heap m) (h_data n) = Some (file_at (heap m) a)" "data_of (heap m) a = h_data n" by metis
  then show "on_heap (fat_tree_get_file a) m = Some (data_of (heap m) a, sync m)"
    by (intro on_heap_pure) (simp add: fat_tree_get_file_def h_tree_get_data_def node_at_def)
  show "read_obj (data_of (heap m) a) m = Some (file_at (heap m) a)" "data_of (heap m) a \<noteq> 0"
    using n by (simp_all add: read_obj_def obj_at_def)
qed

lemma get_parent_sync:
  assumes "mounted_ok m T" "a \<in> set_tree T" "pa \<in> set_tree T" "children_of (heap m) pa cs" "a \<in> set cs"
  shows "on_heap (fat_tree_get_parent a) m = Some (data_of (heap m) pa, sync m)"
proof -
  obtain t where "tree_inv t (heap m) T" using assms(1) by (auto simp: mounted_ok_def)
  then have st: "search_tree filepath (heap m) T" by (simp add: tree_inv_def)
  from assms(4,5) obtain n where n: "h_nodes (heap m) a = Some n" "h_parent n = pa" "a \<noteq> 0"
    using children_of_mem [OF assms(4)] by metis
  from node_in_tree [OF st assms(3)] obtain pn where "h_nodes (heap m) pa = Some pn" "pa \<noteq> 0"
    "data_of (heap m) pa = h_data pn" by metis
  with n show ?thesis
    by (intro on_heap_pure) (simp add: fat_tree_get_parent_def h_tree_get_h_parent_def h_tree_get_data_def node_at_def)
qed

section \<open>Changing one file object\<close>

definition put_file :: "addr \<Rightarrow> fat_file \<Rightarrow> file_heap \<Rightarrow> file_heap" where
  "put_file a f s = s\<lparr>h_objs := (h_objs s)(data_of s a \<mapsto> f)\<rparr>"

lemma put_file_inv:
  assumes "tree_inv t s T" "a \<in> set_tree T" "filepath f = filepath (file_at s a)"
  shows "tree_inv t (put_file a f s) T" "path_map (put_file a f s) T = (path_map s T)(filepath f \<mapsto> f)"
    "b \<in> set_tree T \<Longrightarrow> file_at (put_file a f s) b = (if b = a then f else file_at s b)"
    "b \<in> set_tree T \<Longrightarrow> key_at filepath (put_file a f s) b = key_at filepath s b"
    "data_of (put_file a f s) = data_of s" "children_of (put_file a f s) p cs = children_of s p cs"
proof -
  let ?s = "put_file a f s"
  note I = tree_inv_facts [OF assms(1)]
  have nodes: "h_nodes ?s = h_nodes s" by (simp add: put_file_def)
  show dt: "data_of ?s = data_of s" by (rule ext) (simp add: data_of_def nodes)
  have inj: "data_of s b = data_of s a \<longleftrightarrow> b = a" if "b \<in> set_tree T" for b
    using data_inj [OF I(5), of "[a, b]"] assms(2) that by (cases "b = a") auto
  show fa: "file_at ?s b = (if b = a then f else file_at s b)" if "b \<in> set_tree T" for b
    using inj [OF that] unfolding file_at_def dt by (simp add: put_file_def)
  show ka: "key_at filepath ?s b = key_at filepath s b" if "b \<in> set_tree T" for b
    using fa [OF that] assms(3) by (simp add: key_at_file)
  have sib: "sib_list ?s q xs = sib_list s q xs" for q xs by (intro sib_list_cong) (simp add: nodes)
  show ch: "children_of ?s p cs = children_of s p cs" for p cs by (simp add: children_of_def sib nodes)
  have "data_ok ?s b" if "b \<in> set_tree T" for b
  proof -
    have "data_ok s b" using I(5) that by (simp add: search_tree_def)
    then show ?thesis by (auto simp: data_ok_def put_file_def)
  qed
  moreover have "tree_at ?s T" using I(5) by (subst tree_at_cong [of T ?s s]) (simp_all add: links_def nodes search_tree_def)
  moreover have eq: "map (key_at filepath ?s) (inorder T) = map (key_at filepath s) (inorder T)"
    using ka by (intro map_cong) auto
  have "sorted_wrt (<) (map (key_at filepath ?s) (inorder T))" unfolding eq using I(5) by (simp add: search_tree_def)
  ultimately have st: "search_tree filepath ?s T" by (simp add: search_tree_def)
  moreover have "hier_ok ?s = hier_ok s" by (simp add: hier_ok_def ch nodes)
  ultimately show "tree_inv t ?s T" using assms(1) by (simp add: tree_inv_def store_ok_def) (simp add: put_file_def)
  have uniq: "b = a" if "b \<in> set_tree T" "key_at filepath s b = filepath f" for b
  proof -
    have "inj_on (key_at filepath s) (set_tree T)"
      using I(5) by (simp add: search_tree_def strict_sorted_iff distinct_map)
    moreover have "key_at filepath s a = filepath f" using assms(3) by (simp add: key_at_file)
    ultimately show ?thesis using inj_onD [of "key_at filepath s" "set_tree T" b a] that assms(2) by simp
  qed
  have "path_map ?s T k = Some g \<longleftrightarrow> ((path_map s T)(filepath f \<mapsto> f)) k = Some g" for k g
  proof -
    have "path_map ?s T k = Some g \<longleftrightarrow> (\<exists>b \<in> set_tree T. key_at filepath s b = k \<and> (if b = a then f else file_at s b) = g)"
      unfolding path_map_iff [OF st] using ka fa by auto
    also have "\<dots> \<longleftrightarrow> (if k = filepath f then f = g else \<exists>b \<in> set_tree T. key_at filepath s b = k \<and> file_at s b = g)"
    proof (cases "k = filepath f")
      case True
      have "b \<in> set_tree T \<and> key_at filepath s b = k \<longleftrightarrow> b = a" for b
        using uniq [of b] True assms(2,3) key_at_file [of s a] by metis
      then show ?thesis using True by metis
    next
      case False
      then have "b \<noteq> a" if "key_at filepath s b = k" for b using that assms(3) by (auto simp: key_at_file)
      then show ?thesis using False by auto
    qed
    finally show ?thesis using path_map_iff [OF I(5), of k g] by auto
  qed
  then show "path_map ?s T = (path_map s T)(filepath f \<mapsto> f)"
    by (intro ext) (metis option.exhaust)
qed

lemma write_obj_put: "write_obj (data_of (heap m) a) f m = m\<lparr>heap := put_file a f (heap m)\<rparr>"
  by (simp add: write_obj_def put_file_def)

section \<open>Removing files and directories\<close>

text \<open>What \<open>fat_fuse_unlink\<close> and \<open>fat_fuse_rmdir\<close> do once they have decided to remove a node.\<close>

definition remove_file :: "cstring \<Rightarrow> addr \<Rightarrow> addr \<Rightarrow> mounted \<Rightarrow> (int \<times> mounted) option" where
  "remove_file path node file m = do {
     f \<leftarrow> read_obj file m;
     (parent, m) \<leftarrow> on_heap (fat_tree_get_parent node) m;
     p \<leftarrow> read_obj parent m;
     (f, d) \<leftarrow> fat_file_delete f p (dsk m);
     m \<leftarrow> delete_node path (write_obj file f (m\<lparr>dsk := d\<rparr>));
     Some (- m_errno m, m)
   }"

text \<open>A node of the tree and its directory, both with entries and chains in order.\<close>

definition removable :: "mounted \<Rightarrow> addr tree \<Rightarrow> addr \<Rightarrow> addr \<Rightarrow> addr list \<Rightarrow> u32 list \<Rightarrow> bool" where
  "removable m T a pa cs xs \<longleftrightarrow> a \<in> set_tree T \<and> pa \<in> set_tree T \<and> children_of (heap m) pa cs \<and> a \<in> set cs
     \<and> children_of (heap m) a [] \<and> file_ok (put_errno 0 (dsk m)) (file_at (heap m) a) xs
     \<and> fat_table_is_valid_cluster_number (tab (dsk m)) (start_cluster (file_at (heap m) pa))
     \<and> unat (pos_in_parent (file_at (heap m) a)) * 32 < fat_table_bytes_per_cluster (tab (dsk m))"

definition removed :: "mounted \<Rightarrow> addr tree \<Rightarrow> addr \<Rightarrow> addr \<Rightarrow> u32 list \<Rightarrow> addr tree \<Rightarrow> mounted \<Rightarrow> bool" where
  "removed m T a pa xs T' m' \<longleftrightarrow> mounted_ok m' T'
     \<and> path_map (heap m') T' = (path_map (heap m) T)(key_at filepath (heap m) a := None)
     \<and> (\<forall>p cs. p \<noteq> 0 \<and> p \<noteq> a \<and> children_of (heap m) p cs \<longrightarrow> children_of (heap m') p (removeAll a cs))
     \<and> (\<forall>i < length (fat_map (tab (dsk m))). fat_map (tab (dsk m')) ! i
          = (if i \<in> unat ` set xs then 0 else fat_map (tab (dsk m)) ! i))
     \<and> (\<forall>c. fat_table_is_valid_cluster_number (tab (dsk m)) c \<and> c \<noteq> start_cluster (file_at (heap m) pa)
          \<longrightarrow> cluster_bytes (dsk m') c = cluster_bytes (dsk m) c)
     \<and> ignore_dentry (entry_at (dsk m') (start_cluster (file_at (heap m) pa)) (unat (pos_in_parent (file_at (heap m) a))))
     \<and> (\<forall>j. 32 * j < fat_table_bytes_per_cluster (tab (dsk m)) \<and> j \<noteq> unat (pos_in_parent (file_at (heap m) a)) \<longrightarrow>
          entry_at (dsk m') (start_cluster (file_at (heap m) pa)) j = entry_at (dsk m) (start_cluster (file_at (heap m) pa)) j)"

lemma remove_file_spec:
  assumes "mounted_ok m T" "disk_ok (dsk m)" "removable m T a pa cs xs" "key_at filepath (heap m) a = path"
  shows "if double_free_shape T a then remove_file path a (data_of (heap m) a) m = None
    else \<exists>T' m'. remove_file path a (data_of (heap m) a) m = Some (0, m') \<and> removed m T a pa xs T' m'"
proof -
  let ?h = "heap m" and ?f = "file_at (heap m) a" and ?p = "file_at (heap m) pa"
  note R = assms(3) [unfolded removable_def]
  obtain t where t: "vtree m = Some t" "tree_inv t ?h T" using assms(1) by (auto simp: mounted_ok_def)
  have e0: "m_errno m = 0" using assms(2) by (simp add: disk_ok_def)
  have pe: "put_errno 0 (dsk m) = dsk m" using e0 by simp
  obtain f' d' where d': "fat_file_delete ?f ?p (dsk m) = Some (f', d')" "disk_ok d'" "entries_fit d'"
    "\<forall>i < length (fat_map (tab (dsk m))). fat_map (tab d') ! i = (if i \<in> unat ` set xs then 0 else fat_map (tab (dsk m)) ! i)"
    "\<forall>c. fat_table_is_valid_cluster_number (tab (dsk m)) c \<and> c \<noteq> start_cluster ?p \<longrightarrow> cluster_bytes d' c = cluster_bytes (dsk m) c"
    "ignore_dentry (entry_at d' (start_cluster ?p) (unat (pos_in_parent ?f)))"
    "\<forall>j. 32 * j < fat_table_bytes_per_cluster (tab (dsk m)) \<and> j \<noteq> unat (pos_in_parent ?f) \<longrightarrow>
       entry_at d' (start_cluster ?p) j = entry_at (dsk m) (start_cluster ?p) j"
    using fat_file_delete_lib [OF assms(2), of ?f xs ?p] R assms(1) pe by (auto simp: mounted_ok_def)
  have fp: "filepath f' = filepath ?f"
    using d'(1) by (auto simp: fat_file_delete_def Let_def split: if_splits)
  define h1 where "h1 = put_file a f' (?h\<lparr>h_errno := m_errno m\<rparr>)"
  have a: "a \<in> set_tree T" using R by blast
  have inv0: "tree_inv t (?h\<lparr>h_errno := m_errno m\<rparr>) T" using t(2) by simp
  note P = put_file_inv [OF inv0 a, of f', folded h1_def]
  have keys: "\<forall>b \<in> set_tree T. key_at filepath h1 b = key_at filepath ?h b" using P(4) fp by simp
  have inv1: "tree_inv t h1 T" using P(1) fp by simp
  have m1: "write_obj (data_of ?h a) f' ((sync m)\<lparr>dsk := d'\<rparr>) = (sync m)\<lparr>dsk := d', heap := h1\<rparr>"
    using write_obj_put [of "(sync m)\<lparr>dsk := d'\<rparr>" a f'] by (simp add: h1_def)
  have inv2: "tree_inv t (h1\<lparr>h_errno := errno d'\<rparr>) T" using inv1 by simp
  have pm: "path_map h1 T path \<noteq> None"
    using P(2) fp assms(4) by (simp add: key_at_file)
  have ka: "key_at filepath h1 a = path" using keys a assms(4) by simp
  have cha: "children_of h1 a []" using P(6) R fp by simp
  note del_cases = fat_tree_delete_by_shape [OF inv2, of a path]
  have reads: "read_obj (data_of ?h a) m = Some ?f" "read_obj (data_of ?h pa) (sync m) = Some ?p"
    "on_heap (fat_tree_get_parent a) m = Some (data_of ?h pa, sync m)"
    using get_file_sync(2) [OF assms(1)] get_parent_sync [OF assms(1)] R by auto
  show ?thesis
  proof (cases "double_free_shape T a")
    case True
    then have "fat_tree_delete (Some t) (Some path) (h1\<lparr>h_errno := errno d'\<rparr>) = None"
      using del_cases a ka cha by simp
    then have "delete_node path ((sync m)\<lparr>dsk := d', heap := h1\<rparr>) = None"
      using t(1) by (simp add: delete_node_def on_heap_def)
    then show ?thesis using True reads d'(1) m1 by (simp add: remove_file_def)
  next
    case False
    obtain T' t' h2 where h2: "fat_tree_delete (Some t) (Some path) (h1\<lparr>h_errno := errno d'\<rparr>) = Some (Some t', h2)"
      "tree_inv t' h2 T'" "path_map h2 T' = (path_map h1 T)(path := None)" "h_errno h2 = errno d'"
      "h_objs h2 = (h_objs h1)(data_of h1 a := None)"
      "\<forall>p cs. p \<noteq> 0 \<and> p \<noteq> a \<and> children_of h1 p cs \<longrightarrow> children_of h2 p (removeAll a cs)"
      using del_cases [unfolded if_not_P [OF False]] a ka cha by auto
    let ?m' = "(sync m)\<lparr>dsk := d', heap := h2, vtree := Some t'\<rparr>"
    have del: "delete_node path ((sync m)\<lparr>dsk := d', heap := h1\<rparr>) = Some ?m'"
      using h2(1,4) t(1) by (simp add: delete_node_def on_heap_def)
    have e': "errno d' = 0" using d'(2) by (simp add: disk_ok_def)
    have run: "remove_file path a (data_of ?h a) m = Some (0, ?m')"
    proof -
      show ?thesis
        using reads d'(1) m1 del e' by (simp add: remove_file_def)
    qed
    have "\<forall>q \<ge> obj_brk m. h_objs h2 q = None"
    proof (intro allI impI)
      fix q assume q: "obj_brk m \<le> q"
      then have old: "h_objs ?h q = None" using assms(1) by (auto simp: mounted_ok_def)
      have "data_of h1 a = data_of ?h a" using P(5) fp by simp
      then show "h_objs h2 q = None" using old h2(5) by (auto simp: h1_def put_file_def)
    qed
    moreover have "put_errno 0 d' = d'" using e' by simp
    ultimately have "mounted_ok ?m' T'"
      using h2(2) d'(2,3) assms(1) by (simp add: mounted_ok_def)
    moreover have "path_map h2 T' = (path_map ?h T)(path := None)"
      unfolding h2(3) using P(2) fp assms(4) by (auto simp: key_at_file)
    moreover have "children_of h2 p (removeAll a cs)" if "p \<noteq> 0" "p \<noteq> a" "children_of ?h p cs" for p cs
      using h2(6) that P(6) fp by simp
    ultimately have "removed m T a pa xs T' ?m'"
      using d'(4-7) assms(4) by (simp add: removed_def)
    with run False show ?thesis by auto
  qed
qed

lemma errno_removed:
  "removable (set_m_errno e m) T a pa cs xs = removable m T a pa cs xs"
  "removed (set_m_errno e m) T a pa xs T' m' = removed m T a pa xs T' m'"
  "mounted_ok m T \<Longrightarrow> disk_ok (dsk (set_m_errno 0 m))"
  "removable (sync m) T a pa cs xs = removable m T a pa cs xs"
  "removed (sync m) T a pa xs T' m' = removed m T a pa xs T' m'"
proof -
  have "cluster_bytes (put_errno e (dsk m)) c = cluster_bytes (dsk m) c" for c
    by (simp add: cluster_bytes_def)
  then show "removed (set_m_errno e m) T a pa xs T' m' = removed m T a pa xs T' m'"
    by (simp add: removed_def entry_at_def)
  show "removable (set_m_errno e m) T a pa cs xs = removable m T a pa cs xs" by (simp add: removable_def)
  show "mounted_ok m T \<Longrightarrow> disk_ok (dsk (set_m_errno 0 m))" by (simp add: mounted_ok_def)
  show "removable (sync m) T a pa cs xs = removable m T a pa cs xs" by (simp add: removable_def)
  show "removed (sync m) T a pa xs T' m' = removed m T a pa xs T' m'" by (simp add: removed_def)
qed


text \<open>
  \<open>fat_fuse_rmdir\<close> only looks at the files the tree holds under the directory.  A directory
  whose entries have not been read yet counts as empty: it is removed and its cluster freed while
  the entries in it, and the clusters of the files they name, stay as they are on disk.
\<close>

theorem fat_fuse_rmdir_unread:
  assumes "mounted_ok m T" "removable m T a pa cs xs" "key_at filepath (heap m) a = path"
    "fat_file_is_directory (file_at (heap m) a)" "\<not> double_free_shape T a"
    "unat (nentries (file_at (heap m) a)) < 2 ^ 31" "start_cluster (file_at (heap m) a) \<noteq> start_cluster (file_at (heap m) pa)"
  shows "\<exists>T' m'. fat_fuse_rmdir path m = Some (0, m') \<and> removed m T a pa xs T' m'
    \<and> dir_entries (dsk m') (file_at (heap m) a) = dir_entries (dsk m) (file_at (heap m) a)"
proof -
  let ?m0 = "set_m_errno 0 m" and ?p = "data_of (heap m) a" and ?f = "file_at (heap m) a"
  have a: "a \<in> set_tree T" and ch: "children_of (heap m) a []" using assms(2) by (simp_all add: removable_def)
  have ok: "mounted_ok (sync ?m0) T" "disk_ok (dsk (sync ?m0))" "removable (sync ?m0) T a pa cs xs"
    using assms(1,2) errno_removed(1,3,4) by auto
  obtain T' m' where m': "remove_file path a ?p (sync ?m0) = Some (0, m')" "removed m T a pa xs T' m'"
    using remove_file_spec [OF ok, of path, unfolded if_not_P [OF assms(5)]] assms(3) errno_removed(2,5) by auto
  have "search_node path ?m0 = Some (a, sync ?m0)"
    by (rule search_found) (use assms(1,3) a in simp_all)
  moreover have get: "on_heap (fat_tree_get_file a) (sync ?m0) = Some (?p, sync ?m0)"
    "read_obj ?p (sync ?m0) = Some ?f"
    using get_file_sync [OF ok(1) a] by simp_all
  moreover have "\<exists>arr. on_heap (fat_tree_flatten_h_children a) (sync ?m0) = Some (Some (0 # arr), sync ?m0)"
  proof -
    obtain t where t: "tree_inv t (heap m) T" using assms(1) by (auto simp: mounted_ok_def)
    let ?h = "(heap m)\<lparr>h_errno := 0\<rparr>"
    have "tree_inv t ?h T" "children_of ?h a []" "unat (nentries (file_at ?h a)) < 2 ^ 31"
      using t ch assms(6) by simp_all
    from fat_tree_list_lib [OF this(1) a this(2,3)]
    have "fat_tree_flatten_h_children a ?h = Some (Some (replicate (Suc (unat (nentries ?f))) 0), ?h)" by simp
    then have "on_heap (fat_tree_flatten_h_children a) (sync ?m0)
        = Some (Some (replicate (Suc (unat (nentries ?f))) 0), sync (sync ?m0))"
      by (intro on_heap_pure) simp
    then show ?thesis by simp
  qed
  moreover have "a \<noteq> 0" using assms(1) a by (auto simp: mounted_ok_def tree_inv_def search_tree_def dest: tree_at_nonzero)
  ultimately have "fat_fuse_rmdir path m = remove_file path a ?p (sync ?m0)"
    using assms(4) by (auto simp: fat_fuse_rmdir_def remove_file_def array_get_def)
  moreover have "dir_entries (dsk m') ?f = dir_entries (dsk m) ?f"
  proof -
    have "fat_chain (tab (dsk m)) (start_cluster ?f) xs" "xs \<noteq> []"
      using assms(2) by (auto simp: removable_def file_ok_def)
    then have "fat_table_is_valid_cluster_number (tab (dsk m)) (start_cluster ?f)" by (cases xs) auto
    then have "cluster_bytes (dsk m') (start_cluster ?f) = cluster_bytes (dsk m) (start_cluster ?f)"
      using m'(2) assms(7) by (simp add: removed_def)
    then show ?thesis by (simp add: dir_entries_def)
  qed
  ultimately show ?thesis using m' by auto
qed

text \<open>The sample volume mounted, with its root directory and one file or directory in it.\<close>

definition sample_tree :: "addr tree" where "sample_tree = Node Leaf 1 (Node Leaf 2 Leaf)"

definition sample_mounted :: "fat_file \<Rightarrow> mounted" where
  "sample_mounted f = \<lparr>vol = fresh_volume, vtree = Some (fat_tree_init\<lparr>file_tree := 1\<rparr>),
     heap = \<lparr>h_nodes = [1 \<mapsto> \<lparr>h_data = 11, h_right = 2, h_left = 0, h_parent = 0, h_next_sibling = 0, h_children = 2, h_size = 2\<rparr>,
         2 \<mapsto> \<lparr>h_data = 12, h_right = 0, h_left = 0, h_parent = 1, h_next_sibling = 0, h_children = 0, h_size = 1\<rparr>],
       h_objs = [11 \<mapsto> sample_dir, 12 \<mapsto> f], h_brk = 3, h_errno = 0\<rparr>,
     obj_brk = 13, dsk = sample_disk\<rparr>"

definition sample_subdir :: fat_file where
  "sample_subdir = sample_file\<lparr>dentry := Some (sample_entry\<lparr>attribs := FILE_ATTRIBUTE_DIRECTORY\<rparr>)\<rparr>"

lemma sample_files: "file_at (heap (sample_mounted f)) 1 = sample_dir" "file_at (heap (sample_mounted f)) 2 = f"
  by (simp_all add: file_at_def data_of_def sample_mounted_def)

lemma sample_dsk: "dsk (sample_mounted f) = sample_disk"
  by (simp add: sample_mounted_def)

lemma sample_children: "children_of (heap (sample_mounted f)) 1 [2]" "children_of (heap (sample_mounted f)) 2 []"
  unfolding children_of_def by (auto simp: sample_mounted_def split: if_splits)

lemma sample_paths: "filepath sample_dir = cstr ''/''" "filepath sample_file = cstr ''/A.TXT''"
  "filepath sample_subdir = cstr ''/A.TXT''"
  by (simp_all add: sample_dir_def sample_file_def sample_subdir_def fat_file_init_empty_def)

lemma sample_mounted_ok:
  assumes "filepath f = cstr ''/A.TXT''"
  shows "mounted_ok (sample_mounted f) sample_tree"
proof -
  let ?h = "heap (sample_mounted f)"
  have "tree_at ?h sample_tree" by (simp add: sample_tree_def sample_mounted_def links_def)
  moreover have "\<forall>a \<in> set_tree sample_tree. data_ok ?h a"
    by (simp add: sample_tree_def data_ok_def sample_mounted_def)
  moreover have "sorted_wrt (<) (map (key_at filepath ?h) (inorder sample_tree))"
    using assms sample_files [of f] by (simp add: sample_tree_def key_at_file sample_paths cstr_def)
  ultimately have st: "search_tree filepath ?h sample_tree" by (simp add: search_tree_def)
  have "\<exists>cs. children_of ?h p cs" if "h_nodes ?h p \<noteq> None" for p
    using that sample_children [of f] by (auto simp: sample_mounted_def split: if_splits)
  moreover have "h_parent n = 0 \<or> h_nodes ?h (h_parent n) \<noteq> None" if "h_nodes ?h c = Some n" for c n
    using that by (auto simp: sample_mounted_def split: if_splits)
  ultimately have "hier_ok ?h" by (simp add: hier_ok_def)
  then have "tree_inv (fat_tree_init\<lparr>file_tree := 1\<rparr>) ?h sample_tree"
    using st by (simp add: tree_inv_def sample_tree_def store_ok_def) (simp add: sample_mounted_def)
  moreover have "put_errno 0 sample_disk = sample_disk" by (simp add: sample_disk_def)
  ultimately show ?thesis using sample_disk_ok by (simp add: mounted_ok_def) (simp add: sample_mounted_def)
qed

lemma sample_removable:
  assumes "start_cluster f = 2" "dentry f = Some de" "dentry_wf de" "file_size de = 40" "pos_in_parent f = 0"
  shows "removable (sample_mounted f) sample_tree 2 1 [2] [2, 4]"
proof -
  have d: "dsk (sample_mounted f) = sample_disk" "put_errno 0 sample_disk = sample_disk"
    by (simp_all add: sample_mounted_def sample_disk_def)
  have "file_ok sample_disk f [2, 4]"
    using sample_file_ok(1) assms sample_entry_wf sample_file_ok(2)
    by (simp add: file_ok_def)
  then have "file_ok (put_errno 0 sample_disk) f [2, 4]" by (simp only: d(2))
  moreover have "start_cluster sample_dir = 3" by (simp add: sample_dir_def fat_file_init_empty_def)
  ultimately show ?thesis
    using sample_children [of f] sample_files [of f] assms(5) d(1)
    by (simp add: removable_def sample_tree_def sample_valid sample_sizes)
qed

lemma sample_shape: "\<not> double_free_shape sample_tree 2"
  by (simp add: sample_tree_def)

lemma sample_kinds: "\<not> fat_file_is_directory sample_file" "fat_file_is_directory sample_subdir"
  "start_cluster sample_file = 2" "start_cluster sample_subdir = 2" "pos_in_parent sample_file = 0"
  "pos_in_parent sample_subdir = 0" "nentries sample_subdir = 0" "start_cluster sample_dir = 3"
  by (simp_all add: fat_file_is_directory_def sample_subdir_def sample_file_def sample_entry_def
      fat_file_init_empty_def dentry_of_def cstr_def sample_dir_def)


theorem fat_fuse_rmdir_unread_witness:
  "\<exists>m'. fat_fuse_rmdir (cstr ''/A.TXT'') (sample_mounted sample_subdir) = Some (0, m')
     \<and> dir_entries (dsk m') sample_subdir = dir_entries sample_disk sample_subdir"
proof -
  let ?m = "sample_mounted sample_subdir"
  have "dentry_wf (sample_entry\<lparr>attribs := FILE_ATTRIBUTE_DIRECTORY\<rparr>)"
    using sample_entry_wf(1) by (simp add: dentry_wf_def)
  then have rem: "removable ?m sample_tree 2 1 [2] [2, 4]"
    using sample_entry_wf(2)
    by (intro sample_removable [OF sample_kinds(4) _ _ _ sample_kinds(6), of "sample_entry\<lparr>attribs := FILE_ATTRIBUTE_DIRECTORY\<rparr>"])
      (simp_all add: sample_subdir_def)
  have "key_at filepath (heap ?m) 2 = cstr ''/A.TXT''" by (simp add: key_at_file sample_files sample_paths)
  moreover have "fat_file_is_directory (file_at (heap ?m) 2)" "unat (nentries (file_at (heap ?m) 2)) < 2 ^ 31"
    "start_cluster (file_at (heap ?m) 2) \<noteq> start_cluster (file_at (heap ?m) 1)"
    unfolding sample_files using sample_kinds by simp_all
  ultimately have "\<exists>T' m'. fat_fuse_rmdir (cstr ''/A.TXT'') ?m = Some (0, m') \<and> removed ?m sample_tree 2 1 [2, 4] T' m'
      \<and> dir_entries (dsk m') (file_at (heap ?m) 2) = dir_entries (dsk ?m) (file_at (heap ?m) 2)"
    using sample_shape by (intro fat_fuse_rmdir_unread [OF sample_mounted_ok [OF sample_paths(3)] rem])
  then show ?thesis unfolding sample_files sample_dsk by blast
qed

section \<open>Error numbers left behind\<close>

lemma pwrite_stale:
  assumes "disk_ok (put_errno 0 d)" "errno d = e" "e \<noteq> 0" "file_ok (put_errno 0 d) file cs" "dentry file = Some de"
    "off \<le> unat (file_size de)" "off mod fat_table_bytes_per_cluster (tab d) \<noteq> 0 \<or> off = 0"
  shows "fat_file_pwrite file buf sz (int off) parent d = Some (- e, file, d)"
proof -
  let ?b = "fat_table_bytes_per_cluster (tab d)"
  have t: "table_wf (tab d)" using assms(1) by (simp add: disk_ok_def)
  have fo: "fat_chain (tab d) (start_cluster file) cs" "cs \<noteq> []" "unat (file_size de) \<le> length (content (put_errno 0 d) cs)"
    using assms(4,5) by (auto simp: file_ok_def)
  have "length (content (put_errno 0 d) cs) = length cs * ?b"
    using content_length [OF assms(1), of cs] fat_chain_validD [OF fo(1)] by simp
  then have le: "off \<le> length cs * ?b" using fo(3) assms(6) by linarith
  have "unat (file_size de) < 2 ^ 32" using unsigned_less [of "file_size de"] by simp
  then have o32: "off < 2 ^ 32" using assms(6) by linarith
  let ?sp = "if off \<noteq> 0 then off - 1 else 0"
  have "?sp < length cs * ?b"
  proof (cases "off = 0")
    case True
    then show ?thesis using fo(2) by simp
  next
    case False
    then show ?thesis using le by simp
  qed
  then have sp: "?sp div ?b < length cs" by (simp add: less_mult_imp_div_less)
  have sp32: "?sp div ?b < 2 ^ 32" using o32 le_less_trans [OF div_le_dividend [of ?sp ?b], of "2 ^ 32"] by (auto split: if_splits)
  have seek: "fat_table_seek_cluster (tab d) (start_cluster file) (int ?sp) (vio d) = Some (cs ! (?sp div ?b), vio d)"
    using seek_cluster_chain_lib [OF t fo(1), of "int ?sp" "vio d"] sp sp32 by (simp only: Let_def nat_int if_True of_nat_0_le_iff)
  have eq: "(if int off \<noteq> 0 then int off - 1 else 0) = int ?sp" by auto
  have le2: "\<not> int off > uint (file_size de)"
    using assms(6) by (metis of_nat_le_iff of_nat_unat ucast_id uint_nat linorder_not_le)
  have test: "\<not> (int off mod int ?b = 0 \<and> x \<noteq> 0 \<and> int off \<noteq> 0)" for x :: u32
    using assms(7) by (auto simp: zmod_int [symmetric])
  have vd: "d\<lparr>vio := vio d\<rparr> = d" by simp
  show ?thesis
    unfolding fat_file_pwrite_def Let_def assms(5) bind.bind_lunit if_not_P [OF le2] eq seek case_prod_conv if_not_P [OF test] vd
    using assms(2,3) by simp
qed

lemma write_obj_same:
  assumes "read_obj p m = Some f"
  shows "write_obj p f m = m"
proof -
  have "(h_objs (heap m))(p \<mapsto> f) = h_objs (heap m)"
    using assms by (intro fun_upd_idem) (auto simp: read_obj_def obj_at_def split: if_splits)
  then show ?thesis by (simp add: write_obj_def)
qed

text \<open>An open file whose next write does not start a new cluster, and the directory it is in.\<close>

definition writable :: "mounted \<Rightarrow> addr tree \<Rightarrow> addr \<Rightarrow> nat \<Rightarrow> bool" where
  "writable m T a off \<longleftrightarrow> a \<in> set_tree T
     \<and> (\<exists>pa \<in> set_tree T. \<exists>cs. children_of (heap m) pa cs \<and> a \<in> set cs)
     \<and> (\<exists>xs. file_ok (put_errno 0 (dsk m)) (file_at (heap m) a) xs)
     \<and> (\<exists>de. dentry (file_at (heap m) a) = Some de \<and> off \<le> unat (file_size de))
     \<and> (off mod fat_table_bytes_per_cluster (tab (dsk m)) \<noteq> 0 \<or> off = 0)"

lemma obj_pwrite_stale:
  assumes "mounted_ok m T" "m_errno m = e" "e \<noteq> 0" "writable m T a off" "pa \<in> set_tree T"
  shows "obj_pwrite (data_of (heap m) a) buf sz (int off) (data_of (heap m) pa) m = Some (- e, m)"
proof -
  obtain xs de where w: "a \<in> set_tree T" "file_ok (put_errno 0 (dsk m)) (file_at (heap m) a) xs"
    "dentry (file_at (heap m) a) = Some de" "off \<le> unat (file_size de)"
    "off mod fat_table_bytes_per_cluster (tab (dsk m)) \<noteq> 0 \<or> off = 0"
    using assms(4) unfolding writable_def by metis
  have r: "read_obj (data_of (heap m) a) m = Some (file_at (heap m) a)"
    "read_obj (data_of (heap m) pa) m = Some (file_at (heap m) pa)"
    using get_file_sync(2) [OF assms(1)] w(1) assms(5) by blast+
  have "disk_ok (put_errno 0 (dsk m))" using assms(1) by (simp add: mounted_ok_def)
  from pwrite_stale [OF this assms(2,3) w(2-5)]
  show ?thesis using r write_obj_same [OF r(1)] by (simp add: obj_pwrite_def)
qed

lemma getattr_missing:
  assumes "mounted_ok m T" "path_map (heap m) T path = None" "a \<in> set_tree T"
  shows "fat_fuse_getattr env path m = Some (- ENOENT, None,
    m\<lparr>heap := (heap m)\<lparr>h_errno := EINVAL\<rparr>, dsk := put_errno ENOENT (dsk m)\<rparr>)"
proof -
  obtain t where t: "vtree m = Some t" "tree_inv t (heap m) T" using assms(1) by (auto simp: mounted_ok_def)
  let ?h = "(heap m)\<lparr>h_errno := m_errno m\<rparr>"
  have inv: "tree_inv t ?h T" using t(2) by simp
  have "fat_tree_node_search t (Some path) ?h = Some (0, ?h)"
    using fat_tree_search_lib [OF inv, of path] assms(2) by simp
  moreover have "file_tree t \<noteq> 0"
    using tree_inv_facts(1,5) [OF inv] root_of_zero [of ?h T] assms(3) by (auto simp: search_tree_def)
  ultimately have "fat_tree_search (Some t) (Some path) ?h = Some (0, ?h\<lparr>h_errno := EINVAL\<rparr>)"
    by (simp add: fat_tree_search_def h_tree_get_data_def)
  then show ?thesis using t(1) by (simp add: fat_fuse_getattr_def on_heap_def set_m_errno_def)
qed


text \<open>The sample volume mounted with its root, the file \<open>/A.TXT\<close> and the log file.\<close>

definition logged_tree :: "addr tree" where "logged_tree = Node Leaf 1 (Node Leaf 2 (Node Leaf 3 Leaf))"

definition sample_log :: fat_file where
  "sample_log = (fat_file_init_empty BB_LOG_FILE)\<lparr>dentry := Some (sample_entry\<lparr>start_cluster_low := 3, file_size := 20\<rparr>),
     start_cluster := 3\<rparr>"

definition logged_mounted :: mounted where
  "logged_mounted = \<lparr>vol = fresh_volume, vtree = Some (fat_tree_init\<lparr>file_tree := 1\<rparr>),
     heap = \<lparr>h_nodes = [1 \<mapsto> \<lparr>h_data = 11, h_right = 2, h_left = 0, h_parent = 0, h_next_sibling = 0, h_children = 2, h_size = 3\<rparr>,
         2 \<mapsto> \<lparr>h_data = 12, h_right = 3, h_left = 0, h_parent = 1, h_next_sibling = 3, h_children = 0, h_size = 2\<rparr>,
         3 \<mapsto> \<lparr>h_data = 13, h_right = 0, h_left = 0, h_parent = 1, h_next_sibling = 0, h_children = 0, h_size = 1\<rparr>],
       h_objs = [11 \<mapsto> sample_dir\<lparr>start_cluster := 5\<rparr>, 12 \<mapsto> sample_file, 13 \<mapsto> sample_log], h_brk = 4, h_errno = 0\<rparr>,
     obj_brk = 14, dsk = sample_disk\<rparr>"

lemma logged_files: "file_at (heap logged_mounted) 1 = sample_dir\<lparr>start_cluster := 5\<rparr>"
  "file_at (heap logged_mounted) 2 = sample_file" "file_at (heap logged_mounted) 3 = sample_log"
  "dsk logged_mounted = sample_disk"
  by (simp_all add: file_at_def data_of_def logged_mounted_def)

lemma logged_children: "children_of (heap logged_mounted) 1 [2, 3]" "children_of (heap logged_mounted) 2 []"
  "children_of (heap logged_mounted) 3 []"
  unfolding children_of_def by (auto simp: logged_mounted_def split: if_splits)

lemma logged_keys: "key_at filepath (heap logged_mounted) 1 = cstr ''/''" "key_at filepath (heap logged_mounted) 2 = cstr ''/A.TXT''"
  "key_at filepath (heap logged_mounted) 3 = BB_LOG_FILE"
  unfolding key_at_file logged_files by (simp_all add: sample_dir_def sample_file_def sample_log_def fat_file_init_empty_def)

lemma logged_search_tree: "search_tree filepath (heap logged_mounted) logged_tree"
proof -
  let ?h = "heap logged_mounted"
  have "tree_at ?h logged_tree" by (simp add: logged_tree_def logged_mounted_def links_def)
  moreover have "\<forall>a \<in> set_tree logged_tree. data_ok ?h a"
    by (simp add: logged_tree_def data_ok_def logged_mounted_def)
  moreover have "sorted_wrt (<) (map (key_at filepath ?h) (inorder logged_tree))"
    using logged_keys by (simp add: logged_tree_def cstr_def BB_LOG_FILE_def)
  ultimately show ?thesis by (simp add: search_tree_def)
qed

lemma logged_mounted_ok: "mounted_ok logged_mounted logged_tree"
proof -
  let ?h = "heap logged_mounted"
  have "\<exists>cs. children_of ?h p cs" if "h_nodes ?h p \<noteq> None" for p
    using that logged_children by (auto simp: logged_mounted_def split: if_splits)
  moreover have "h_parent n = 0 \<or> h_nodes ?h (h_parent n) \<noteq> None" if "h_nodes ?h c = Some n" for c n
    using that by (auto simp: logged_mounted_def split: if_splits)
  ultimately have "hier_ok ?h" by (simp add: hier_ok_def)
  then have "tree_inv (fat_tree_init\<lparr>file_tree := 1\<rparr>) ?h logged_tree"
    using logged_search_tree by (simp add: tree_inv_def logged_tree_def store_ok_def) (simp add: logged_mounted_def)
  moreover have "put_errno 0 sample_disk = sample_disk" by (simp add: sample_disk_def)
  ultimately show ?thesis using sample_disk_ok by (simp add: mounted_ok_def) (simp add: logged_mounted_def)
qed

lemma logged_writable: "writable logged_mounted logged_tree 2 3" "writable logged_mounted logged_tree 3 20"
proof -
  have p: "put_errno 0 sample_disk = sample_disk" by (simp add: sample_disk_def)
  have "length (content sample_disk [3]) = 32"
    using content_length [OF sample_disk_ok(1), of "[3]"] by (simp add: sample_valid sample_sizes)
  then have "file_ok sample_disk sample_log [3]"
    using sample_chain(2) sample_entry_wf by (simp add: file_ok_def sample_log_def dentry_wf_def)
  then show "writable logged_mounted logged_tree 3 20"
    unfolding writable_def logged_files p using logged_children(1)
    by (auto simp: logged_tree_def sample_sizes sample_log_def)
  show "writable logged_mounted logged_tree 2 3"
    unfolding writable_def logged_files p using logged_children(1) sample_file_ok sample_entry_wf
    by (auto simp: logged_tree_def sample_sizes)
qed


end
