(* ===== verification/Transition_System.thy ===== *)
theory Transition_System
  imports Main
begin

text \<open>
  The interfaces the concurrent parts share: a transition system with an invariant, and a
  simulation of one system by another.  The lock, the kernel, the semaphores and the programs over
  them interpret these locales on their own step relations.
\<close>

locale invariant_system =
  fixes start :: "'s \<Rightarrow> bool" and step :: "'s \<Rightarrow> 's \<Rightarrow> bool" and inv :: "'s \<Rightarrow> bool"
  assumes start_inv: "start s \<Longrightarrow> inv s"
    and step_inv: "inv s \<Longrightarrow> step s s' \<Longrightarrow> inv s'"
begin

lemma steps_inv:
  assumes "step\<^sup>*\<^sup>* s s'" "inv s"
  shows "inv s'"
  using assms by (induction rule: rtranclp_induct) (auto intro: step_inv)

lemma reachable_inv:
  assumes "start s" "step\<^sup>*\<^sup>* s s'"
  shows "inv s'"
  using steps_inv [OF assms(2) start_inv [OF assms(1)]] .

text \<open>An invariant that needs this one to be preserved.\<close>

lemma relative_inv:
  assumes "start s" "step\<^sup>*\<^sup>* s s'" "J s" "\<And>u v. inv u \<Longrightarrow> J u \<Longrightarrow> step u v \<Longrightarrow> J v"
  shows "J s'"
  using assms(2)
proof (induction rule: rtranclp_induct)
  case base
  show ?case by (rule assms(3))
next
  case (step u v)
  then show ?case using reachable_inv [OF assms(1)] assms(4) by blast
qed

end

locale simulation = invariant_system start step inv
  for start :: "'s \<Rightarrow> bool" and step inv +
  fixes abs :: "'s \<Rightarrow> 'a" and astep :: "'a \<Rightarrow> 'a \<Rightarrow> bool"
  assumes simulates: "inv s \<Longrightarrow> step s s' \<Longrightarrow> astep (abs s) (abs s') \<or> abs s' = abs s"
begin

lemma abs_reachable:
  assumes "start s" "step\<^sup>*\<^sup>* s s'"
  shows "astep\<^sup>*\<^sup>* (abs s) (abs s')"
  using assms(2)
proof (induction rule: rtranclp_induct)
  case base
  show ?case by simp
next
  case (step u v)
  have "inv u" by (rule reachable_inv [OF assms(1) step(1)])
  from simulates [OF this step(2)] step(3) show ?case by auto
qed

end

end
