(* ===== verification/Xv6_Spinlock.thy ===== *)
theory Xv6_Spinlock
  imports Prelude Transition_System
begin

text \<open>
  The spin locks of the xv6 kernel (\<open>kernel/spinlock.c\<close>): the nesting of interrupt disabling on one
  CPU, and the lock itself as the machine of all CPUs that compete for it, one step per access to
  the lock word.  A panic is \<open>None\<close> in the operations of one CPU and the phase \<open>Panicked\<close> in the
  machine.
\<close>

section \<open>Interrupts\<close>

record intr_cpu =
  intr :: bool
  noff :: int
  intena :: bool

definition push_off :: "intr_cpu \<Rightarrow> intr_cpu" where
  "push_off c =
     (let old = intr c;
          c = c\<lparr>intr := False\<rparr>;
          c = (if noff c = 0 then c\<lparr>intena := old\<rparr> else c)
      in c\<lparr>noff := noff c + 1\<rparr>)"

definition pop_off :: "intr_cpu \<Rightarrow> intr_cpu option" where
  "pop_off c =
     (if intr c then None
      else if noff c < 1 then None
      else let c = c\<lparr>noff := noff c - 1\<rparr>
           in Some (if noff c = 0 \<and> intena c then c\<lparr>intr := True\<rparr> else c))"

text \<open>The states of a CPU the nesting can be in: interrupts are off while a lock is held.\<close>

definition intr_ok :: "intr_cpu \<Rightarrow> bool" where
  "intr_ok c \<longleftrightarrow> 0 \<le> noff c \<and> (0 < noff c \<longrightarrow> \<not> intr c)"

text \<open>Two states that differ at most in \<open>intena\<close> where it is dead.\<close>

definition same_intr :: "intr_cpu \<Rightarrow> intr_cpu \<Rightarrow> bool" where
  "same_intr c c' \<longleftrightarrow> intr c' = intr c \<and> noff c' = noff c \<and> (0 < noff c \<longrightarrow> intena c' = intena c)"

lemma push_off_ok: "intr_ok c \<Longrightarrow> intr_ok (push_off c) \<and> 0 < noff (push_off c) \<and> \<not> intr (push_off c)"
  by (auto simp: push_off_def intr_ok_def Let_def)

lemma same_intr_trans: "same_intr a b \<Longrightarrow> same_intr b c \<Longrightarrow> same_intr a c"
  by (auto simp: same_intr_def)

lemma same_intr_ok: "same_intr c c' \<Longrightarrow> intr_ok c' = intr_ok c"
  by (auto simp: same_intr_def intr_ok_def)

lemma pop_push: "intr_ok c \<Longrightarrow> same_intr (push_off c) c1 \<Longrightarrow> \<exists>c'. pop_off c1 = Some c' \<and> same_intr c c'"
  by (cases "noff c = 0") (auto simp: push_off_def pop_off_def intr_ok_def same_intr_def Let_def)

fun pushes :: "nat \<Rightarrow> intr_cpu \<Rightarrow> intr_cpu" where
  "pushes 0 c = c"
| "pushes (Suc n) c = pushes n (push_off c)"

fun pops :: "nat \<Rightarrow> intr_cpu \<Rightarrow> intr_cpu option" where
  "pops 0 c = Some c"
| "pops (Suc n) c = do { c \<leftarrow> pops n c; pop_off c }"

text \<open>
  \<open>push_off\<close> and \<open>pop_off\<close> nest.  While some pushes are not undone, interrupts are off; after
  as many pops the CPU has its interrupt state back, and no pop panics.
\<close>

theorem push_pop_nest:
  assumes "intr_ok c"
  shows "\<exists>c'. pops n (pushes n c) = Some c' \<and> same_intr c c' \<and> (0 < n \<longrightarrow> \<not> intr (pushes n c))"
  using assms
proof (induction n arbitrary: c)
  case 0
  show ?case by (simp add: same_intr_def)
next
  case (Suc n)
  have ok: "intr_ok (push_off c)" "\<not> intr (push_off c)" using push_off_ok [OF Suc.prems] by simp_all
  obtain c1 where c1: "pops n (pushes n (push_off c)) = Some c1" "same_intr (push_off c) c1"
    "0 < n \<longrightarrow> \<not> intr (pushes n (push_off c))"
    using Suc.IH [OF ok(1)] by blast
  obtain c2 where "pop_off c1 = Some c2" "same_intr c c2" using pop_push [OF Suc.prems c1(2)] by blast
  then show ?case using c1 ok(2) by (cases n) auto
qed

theorem push_pop_nest_witness:
  "\<exists>c'. pops 2 (pushes 2 \<lparr>intr = True, noff = 0, intena = False\<rparr>) = Some c' \<and> intr c' \<and> noff c' = 0"
  using push_pop_nest [of "\<lparr>intr = True, noff = 0, intena = False\<rparr>" 2] by (auto simp: intr_ok_def same_intr_def)

section \<open>The lock\<close>

record spinlock =
  locked :: u32
  lk_cpu :: "nat option"

definition initlock :: spinlock where
  "initlock = \<lparr>locked = 0, lk_cpu = None\<rparr>"

definition holding :: "nat \<Rightarrow> spinlock \<Rightarrow> bool" where
  "holding c lk \<longleftrightarrow> locked lk \<noteq> 0 \<and> lk_cpu lk = Some c"

text \<open>
  Where a CPU is in \<open>acquire\<close> or \<open>release\<close>: outside, before the atomic swap, behind it, holding the
  lock, and in \<open>release\<close> after \<open>lk->cpu = 0\<close>.
\<close>

datatype lock_phase = Outside | Spinning | Swapped | Holding | Cleared | Panicked

record lock_machine =
  lock :: spinlock
  intrs :: "nat \<Rightarrow> intr_cpu"
  phases :: "nat \<Rightarrow> lock_phase"

definition acquire_enter :: "nat \<Rightarrow> lock_machine \<Rightarrow> lock_machine" where
  "acquire_enter c s =
     s\<lparr>intrs := (intrs s)(c := push_off (intrs s c)),
       phases := (phases s)(c := if holding c (lock s) then Panicked else Spinning)\<rparr>"

definition acquire_swap :: "nat \<Rightarrow> lock_machine \<Rightarrow> lock_machine" where
  "acquire_swap c s =
     (let old = locked (lock s)
      in s\<lparr>lock := (lock s)\<lparr>locked := 1\<rparr>, phases := (phases s)(c := if old \<noteq> 0 then Spinning else Swapped)\<rparr>)"

definition acquire_own :: "nat \<Rightarrow> lock_machine \<Rightarrow> lock_machine" where
  "acquire_own c s = s\<lparr>lock := (lock s)\<lparr>lk_cpu := Some c\<rparr>, phases := (phases s)(c := Holding)\<rparr>"

definition release_enter :: "nat \<Rightarrow> lock_machine \<Rightarrow> lock_machine" where
  "release_enter c s =
     (if \<not> holding c (lock s) then s\<lparr>phases := (phases s)(c := Panicked)\<rparr>
      else s\<lparr>lock := (lock s)\<lparr>lk_cpu := None\<rparr>, phases := (phases s)(c := Cleared)\<rparr>)"

definition release_unlock :: "nat \<Rightarrow> lock_machine \<Rightarrow> lock_machine" where
  "release_unlock c s =
     (let s = s\<lparr>lock := (lock s)\<lparr>locked := 0\<rparr>\<rparr>
      in case pop_off (intrs s c) of
           None \<Rightarrow> s\<lparr>phases := (phases s)(c := Panicked)\<rparr>
         | Some i \<Rightarrow> s\<lparr>intrs := (intrs s)(c := i), phases := (phases s)(c := Outside)\<rparr>)"

definition cpu_step :: "nat \<Rightarrow> lock_machine \<Rightarrow> lock_machine" where
  "cpu_step c s =
     (case phases s c of
        Outside \<Rightarrow> acquire_enter c s
      | Spinning \<Rightarrow> acquire_swap c s
      | Swapped \<Rightarrow> acquire_own c s
      | Holding \<Rightarrow> release_enter c s
      | Cleared \<Rightarrow> release_unlock c s
      | Panicked \<Rightarrow> s)"

text \<open>Any CPU may make the next step.\<close>

inductive lock_step :: "lock_machine \<Rightarrow> lock_machine \<Rightarrow> bool" where
  "lock_step s (cpu_step c s)"

inductive_cases lock_stepE: "lock_step s s'"

definition lock_start :: "(nat \<Rightarrow> intr_cpu) \<Rightarrow> lock_machine \<Rightarrow> bool" where
  "lock_start i0 s \<longleftrightarrow> (\<forall>c. intr_ok (i0 c)) \<and> s = \<lparr>lock = initlock, intrs = i0, phases = (\<lambda>_. Outside)\<rparr>"

definition inside :: "lock_machine \<Rightarrow> nat \<Rightarrow> bool" where
  "inside s c \<longleftrightarrow> phases s c \<in> {Swapped, Holding, Cleared}"

text \<open>
  The invariant: the lock word is set exactly while some CPU is inside, which is then the only one,
  the owner is recorded exactly while the lock is held, and each CPU has its interrupts as before,
  with one more level while it is in the lock.
\<close>

definition word_inv :: "lock_machine \<Rightarrow> bool" where
  "word_inv s \<longleftrightarrow> (\<forall>c d. inside s c \<and> inside s d \<longrightarrow> c = d)
     \<and> (locked (lock s) \<noteq> 0 \<longleftrightarrow> (\<exists>c. inside s c))
     \<and> (\<forall>c. lk_cpu (lock s) = Some c \<longleftrightarrow> phases s c = Holding)"

definition intr_inv :: "(nat \<Rightarrow> intr_cpu) \<Rightarrow> lock_machine \<Rightarrow> nat \<Rightarrow> bool" where
  "intr_inv i0 s c \<longleftrightarrow> intr_ok (i0 c) \<and> phases s c \<noteq> Panicked
     \<and> same_intr (if phases s c = Outside then i0 c else push_off (i0 c)) (intrs s c)"

definition lock_inv :: "(nat \<Rightarrow> intr_cpu) \<Rightarrow> lock_machine \<Rightarrow> bool" where
  "lock_inv i0 s \<longleftrightarrow> word_inv s \<and> (\<forall>c. intr_inv i0 s c)"

lemmas lock_op_defs = acquire_enter_def acquire_swap_def acquire_own_def release_enter_def release_unlock_def Let_def

lemma push_same: "same_intr a b \<Longrightarrow> same_intr (push_off a) (push_off b)"
  by (auto simp: same_intr_def push_off_def Let_def)

lemma lock_invD:
  assumes "lock_inv i0 s"
  shows "inside s c \<Longrightarrow> inside s d \<Longrightarrow> c = d" "locked (lock s) \<noteq> 0 \<longleftrightarrow> (\<exists>c. inside s c)"
    "lk_cpu (lock s) = Some c \<longleftrightarrow> phases s c = Holding" "intr_inv i0 s c"
  using assms unfolding lock_inv_def word_inv_def by blast+

lemma holding_iff: "lock_inv i0 s \<Longrightarrow> holding c (lock s) \<longleftrightarrow> phases s c = Holding"
  using lock_invD(2,3) by (auto simp: holding_def inside_def)

lemma cpu_step_other [simp]: "d \<noteq> c \<Longrightarrow> phases (cpu_step c s) d = phases s d \<and> intrs (cpu_step c s) d = intrs s d"
  by (auto simp: cpu_step_def lock_op_defs split: lock_phase.splits option.splits)

lemma cpu_step_intr:
  assumes "lock_inv i0 s"
  shows "intr_inv i0 (cpu_step c s) d"
proof (cases "d = c")
  case True
  have I: "intr_inv i0 s c" "holding c (lock s) \<longleftrightarrow> phases s c = Holding"
    using lock_invD(4) [OF assms] holding_iff [OF assms] by blast+
  have "same_intr (push_off (i0 c)) (push_off (intrs s c))" if "phases s c = Outside"
    using I(1) that by (simp add: intr_inv_def push_same)
  moreover have "\<exists>i. pop_off (intrs s c) = Some i \<and> same_intr (i0 c) i" if "phases s c = Cleared"
    using I(1) that pop_push [of "i0 c" "intrs s c"] by (simp add: intr_inv_def)
  ultimately show ?thesis
    using I True by (cases "phases s c") (auto simp: intr_inv_def cpu_step_def lock_op_defs)
next
  case False
  then show ?thesis using lock_invD(4) [OF assms, of d] by (simp add: intr_inv_def)
qed

lemma inside_step:
  assumes "lock_inv i0 s"
  shows "inside (cpu_step c s) d \<longleftrightarrow> (if d = c then (phases s c = Spinning \<and> locked (lock s) = 0) \<or> phases s c \<in> {Swapped, Holding} else inside s d)"
proof (cases "d = c")
  case True
  have "intr_inv i0 (cpu_step c s) c" by (rule cpu_step_intr [OF assms])
  then have "phases (cpu_step c s) c \<noteq> Panicked" by (simp add: intr_inv_def)
  then show ?thesis using True holding_iff [OF assms, of c]
    by (cases "phases s c") (auto simp: inside_def cpu_step_def lock_op_defs split: option.splits)
next
  case False
  then show ?thesis by (simp add: inside_def)
qed

lemma cpu_step_lock:
  assumes "lock_inv i0 s"
  shows "lock (cpu_step c s) = (case phases s c of Spinning \<Rightarrow> (lock s)\<lparr>locked := 1\<rparr> | Swapped \<Rightarrow> (lock s)\<lparr>lk_cpu := Some c\<rparr>
    | Holding \<Rightarrow> (lock s)\<lparr>lk_cpu := None\<rparr> | Cleared \<Rightarrow> (lock s)\<lparr>locked := 0\<rparr> | _ \<Rightarrow> lock s)"
  using holding_iff [OF assms, of c]
  by (cases "phases s c") (simp_all add: cpu_step_def lock_op_defs split: option.splits)

lemma holding_step:
  assumes "lock_inv i0 s"
  shows "phases (cpu_step c s) d = Holding \<longleftrightarrow> (if d = c then phases s c = Swapped else phases s d = Holding)"
  using holding_iff [OF assms, of c]
  by (cases "phases s c") (auto simp: cpu_step_def lock_op_defs split: option.splits)

lemma cpu_step_word:
  assumes "lock_inv i0 s"
  shows "word_inv (cpu_step c s)"
proof -
  note I = lock_invD(1-3) [OF assms]
  have free: "\<not> inside s d" if "locked (lock s) = 0" for d using I(2) that by blast
  have only: "d = c" if "phases s c \<in> {Swapped, Holding, Cleared}" "inside s d" for d
    using I(1) that by (auto simp: inside_def)
  have alone: "e = c" if "inside (cpu_step c s) c" "inside s e" for e
    using that free [of e] only [of e] by (auto simp: inside_step [OF assms])
  have "d = e" if "inside (cpu_step c s) d" "inside (cpu_step c s) e" for d e
  proof (cases "d = c \<or> e = c")
    case True
    then show ?thesis using that alone inside_step [OF assms, of c d] inside_step [OF assms, of c e] by metis
  next
    case False
    then show ?thesis using that I(1) [of d e] by (simp add: inside_step [OF assms])
  qed
  moreover have "locked (lock (cpu_step c s)) \<noteq> 0 \<longleftrightarrow> (\<exists>d. inside (cpu_step c s) d)"
  proof -
    have others: "(\<exists>d. inside (cpu_step c s) d) \<longleftrightarrow> inside (cpu_step c s) c \<or> (\<exists>d. d \<noteq> c \<and> inside s d)"
      using inside_step [OF assms] by metis
    have "inside s c \<Longrightarrow> (\<exists>d. d \<noteq> c \<and> inside s d) \<longleftrightarrow> False" using I(1) by blast
    moreover have "\<not> inside s c \<Longrightarrow> (\<exists>d. d \<noteq> c \<and> inside s d) \<longleftrightarrow> locked (lock s) \<noteq> 0" unfolding I(2) by metis
    ultimately show ?thesis unfolding others inside_step [OF assms] cpu_step_lock [OF assms]
      using I(2) by (cases "phases s c") (simp_all add: inside_def, blast+)
  qed
  moreover have "lk_cpu (lock (cpu_step c s)) = Some d \<longleftrightarrow> phases (cpu_step c s) d = Holding" for d
  proof -
    have "phases s d \<noteq> Holding" if "phases s c \<in> {Swapped, Cleared}" using that only [of d] by (auto simp: inside_def)
    moreover have "phases s d \<noteq> Holding" if "phases s c = Holding" "d \<noteq> c" using that only [of d] by (auto simp: inside_def)
    ultimately show ?thesis using I(3) [of d] unfolding holding_step [OF assms] cpu_step_lock [OF assms]
      by (cases "phases s c"; cases "d = c") simp_all
  qed
  ultimately show ?thesis unfolding word_inv_def by blast
qed

lemma cpu_step_inv: "lock_inv i0 s \<Longrightarrow> lock_inv i0 (cpu_step c s)"
  using cpu_step_word cpu_step_intr by (simp add: lock_inv_def)

interpretation lock_sys: invariant_system "lock_start i0" lock_step "lock_inv i0"
proof
  fix s
  assume "lock_start i0 s"
  then show "lock_inv i0 s" by (simp add: lock_start_def lock_inv_def word_inv_def intr_inv_def initlock_def inside_def same_intr_def)
next
  fix s s'
  assume "lock_inv i0 s" "lock_step s s'"
  then show "lock_inv i0 s'" using cpu_step_inv by (auto elim!: lock_stepE)
qed

text \<open>
  C18: mutual exclusion.  Whatever the CPUs do and in whatever order, at most one is between the
  successful swap and the release, no \<open>acquire\<close>, \<open>release\<close> or \<open>pop_off\<close> panics, a CPU in the lock
  has its interrupts off, and outside of it the interrupts are as they were at the start.
\<close>

theorem spinlock_mutual_exclusion:
  assumes "lock_start i0 s0" "lock_step\<^sup>*\<^sup>* s0 s"
  shows "(inside s c \<and> inside s d \<longrightarrow> c = d) \<and> phases s c \<noteq> Panicked
    \<and> (phases s c = Holding \<longleftrightarrow> holding c (lock s))
    \<and> (phases s c \<noteq> Outside \<longrightarrow> \<not> intr (intrs s c)) \<and> (phases s c = Outside \<longrightarrow> same_intr (i0 c) (intrs s c))"
proof -
  have I: "lock_inv i0 s" by (rule lock_sys.reachable_inv [OF assms])
  have "intr_ok (push_off (i0 c)) \<and> \<not> intr (push_off (i0 c))"
    using push_off_ok lock_invD(4) [OF I, of c] by (simp add: intr_inv_def)
  then show ?thesis using lock_invD(1,4) [OF I, of c] holding_iff [OF I, of c]
    by (auto simp: intr_inv_def same_intr_def)
qed

definition lock_example :: lock_machine where
  "lock_example = \<lparr>lock = initlock, intrs = (\<lambda>_. \<lparr>intr = True, noff = 0, intena = False\<rparr>), phases = (\<lambda>_. Outside)\<rparr>"

theorem spinlock_mutual_exclusion_witness:
  "phases (cpu_step 1 (cpu_step 0 (cpu_step 1 (cpu_step 0 lock_example)))) 0 = Swapped
   \<and> phases (cpu_step 1 (cpu_step 0 (cpu_step 1 (cpu_step 0 lock_example)))) 1 = Spinning
   \<and> \<not> intr (intrs (cpu_step 1 (cpu_step 0 (cpu_step 1 (cpu_step 0 lock_example)))) 1)"
proof -
  let ?s = "cpu_step 1 (cpu_step 0 (cpu_step 1 (cpu_step 0 lock_example)))"
  have "lock_step\<^sup>*\<^sup>* lock_example ?s"
    by (meson lock_step.intros rtranclp.rtrancl_into_rtrancl rtranclp.rtrancl_refl)
  moreover have "lock_start (intrs lock_example) lock_example" by (simp add: lock_start_def lock_example_def intr_ok_def)
  moreover have "phases ?s 0 = Swapped \<and> phases ?s 1 = Spinning"
    by (simp add: cpu_step_def lock_example_def acquire_enter_def acquire_swap_def initlock_def holding_def)
  ultimately show ?thesis using spinlock_mutual_exclusion [of "intrs lock_example" lock_example ?s 1] by (metis lock_phase.distinct(1))
qed

end
