(* ===== verification/Xv6_Proc.thy ===== *)
theory Xv6_Proc
  imports Prelude
begin

text \<open>
  The processes of the xv6 kernel of LAB3 (\<open>kernel/proc.c\<close>, the reference counts of \<open>kernel/file.c\<close>
  and the descriptor calls of \<open>kernel/sysfile.c\<close>): the process table, allocation, \<open>fork\<close>, \<open>exit\<close>,
  \<open>wait\<close>, \<open>sleep\<close>, \<open>wakeup\<close>, \<open>kill\<close> and \<open>yield\<close>, each as the change it makes to the kernel state.
  A process is named by its index in the table \<open>proc[NPROC]\<close>; a file by its index in \<open>ftable\<close>.  What
  the memory allocator and the page tables answer (\<open>kalloc\<close>, \<open>proc_pagetable\<close>, \<open>uvmcopy\<close>,
  \<open>copyout\<close>) is an argument.  A panic, and the overflow of \<open>nextpid\<close>, is \<open>None\<close>.
\<close>

section \<open>The state\<close>

definition NPROC :: nat where "NPROC = 64"
definition NOFILE :: nat where "NOFILE = 16"
definition NFILE :: nat where "NFILE = 100"
definition NPRIO :: nat where "NPRIO = 3"

datatype procstate = UNUSED | USED | SLEEPING | RUNNABLE | RUNNING | ZOMBIE

text \<open>What a process sleeps on: itself in \<open>wait\<close>, the tick counter, another kernel object.\<close>

datatype chan = Proc_chan nat | Ticks_chan | Obj_chan u64

record trapframe =
  tf_a0 :: u64
  tf_epc :: u64
  tf_sp :: u64
  tf_regs :: "u64 list"

record proc =
  p_state :: procstate
  p_chan :: "chan option"
  p_killed :: bool
  p_xstate :: int
  p_pid :: int
  p_parent :: "nat option"
  p_sz :: u64
  p_pagetable :: u64
  p_frame :: u64
  p_tf :: trapframe
  p_ofile :: "nat \<Rightarrow> nat option"
  p_cwd :: "nat option"
  p_name :: cstring
  p_priority :: u32
  p_chosen :: u32

datatype ftype = FD_NONE | FD_PIPE | FD_INODE | FD_DEVICE

record kfile =
  f_ref :: int
  f_type :: ftype
  f_ip :: nat

record kernel =
  procs :: "nat \<Rightarrow> proc"
  nextpid :: int
  initproc :: "nat option"
  ticks :: u32
  files :: "nat \<Rightarrow> kfile"
  i_refs :: "nat \<Rightarrow> int"

abbreviation upd_proc :: "nat \<Rightarrow> (proc \<Rightarrow> proc) \<Rightarrow> kernel \<Rightarrow> kernel" where
  "upd_proc j f k \<equiv> k\<lparr>procs := (procs k)(j := f (procs k j))\<rparr>"

section \<open>Files and inodes\<close>

definition filealloc :: "kernel \<Rightarrow> nat option \<times> kernel" where
  "filealloc k =
     (case find (\<lambda>f. f_ref (files k f) = 0) [0..<NFILE] of
        None \<Rightarrow> (None, k)
      | Some f \<Rightarrow> (Some f, k\<lparr>files := (files k)(f := (files k f)\<lparr>f_ref := 1\<rparr>)\<rparr>))"

definition filedup :: "nat \<Rightarrow> kernel \<Rightarrow> kernel option" where
  "filedup f k =
     (if f_ref (files k f) < 1 then None
      else Some (k\<lparr>files := (files k)(f := (files k f)\<lparr>f_ref := f_ref (files k f) + 1\<rparr>)\<rparr>))"

definition idup :: "nat \<Rightarrow> kernel \<Rightarrow> kernel" where
  "idup i k = k\<lparr>i_refs := (i_refs k)(i := i_refs k i + 1)\<rparr>"

text \<open>The reference of \<open>iput\<close>; what it does on disk when the last one goes is not part of this state.\<close>

definition iput_ref :: "nat \<Rightarrow> kernel \<Rightarrow> kernel" where
  "iput_ref i k = k\<lparr>i_refs := (i_refs k)(i := i_refs k i - 1)\<rparr>"

definition fileclose :: "nat \<Rightarrow> kernel \<Rightarrow> kernel option" where
  "fileclose f k =
     (if f_ref (files k f) < 1 then None
      else let ff = (files k f)\<lparr>f_ref := f_ref (files k f) - 1\<rparr> in
        if f_ref ff > 0 then Some (k\<lparr>files := (files k)(f := ff)\<rparr>)
        else let k = k\<lparr>files := (files k)(f := ff\<lparr>f_ref := 0, f_type := FD_NONE\<rparr>)\<rparr> in
          Some (if f_type ff = FD_INODE \<or> f_type ff = FD_DEVICE then iput_ref (f_ip ff) k else k))"

section \<open>Allocation\<close>

definition proc_init :: proc where
  "proc_init = \<lparr>p_state = UNUSED, p_chan = None, p_killed = False, p_xstate = 0, p_pid = 0, p_parent = None,
     p_sz = 0, p_pagetable = 0, p_frame = 0, p_tf = \<lparr>tf_a0 = 0, tf_epc = 0, tf_sp = 0, tf_regs = []\<rparr>,
     p_ofile = (\<lambda>_. None), p_cwd = None, p_name = [], p_priority = 0, p_chosen = 0\<rparr>"

definition file_init :: kfile where
  "file_init = \<lparr>f_ref = 0, f_type = FD_NONE, f_ip = 0\<rparr>"

text \<open>The zero-initialised data of the kernel after \<open>procinit\<close>.\<close>

definition procinit :: kernel where
  "procinit = \<lparr>procs = (\<lambda>_. proc_init), nextpid = 1, initproc = None, ticks = 0, files = (\<lambda>_. file_init), i_refs = (\<lambda>_. 0)\<rparr>"

definition allocpid :: "kernel \<Rightarrow> (int \<times> kernel) option" where
  "allocpid k = do {
     let pid = nextpid k;
     guard (nextpid k < 2 ^ 31 - 1);
     Some (pid, k\<lparr>nextpid := nextpid k + 1\<rparr>)
   }"

definition freeproc :: "nat \<Rightarrow> kernel \<Rightarrow> kernel" where
  "freeproc j = upd_proc j (\<lambda>p. p\<lparr>p_frame := 0, p_pagetable := 0, p_sz := 0, p_pid := 0, p_parent := None,
     p_name := [], p_chan := None, p_killed := False, p_xstate := 0, p_state := UNUSED, p_chosen := 0, p_priority := 0\<rparr>)"

definition allocproc :: "u64 \<Rightarrow> u64 \<Rightarrow> kernel \<Rightarrow> (nat option \<times> kernel) option" where
  "allocproc frame pt k =
     (case find (\<lambda>j. p_state (procs k j) = UNUSED) [0..<NPROC] of
        None \<Rightarrow> Some (None, k)
      | Some j \<Rightarrow> do {
          (pid, k) \<leftarrow> allocpid k;
          let k = upd_proc j (\<lambda>p. p\<lparr>p_pid := pid, p_state := USED\<rparr>) k;
          let k = upd_proc j (\<lambda>p. p\<lparr>p_frame := frame\<rparr>) k;
          if frame = 0 then Some (None, freeproc j k)
          else do {
            let k = upd_proc j (\<lambda>p. p\<lparr>p_pagetable := pt\<rparr>) k;
            if pt = 0 then Some (None, freeproc j k) else Some (Some j, k)
          }
        })"

text \<open>The first process; \<open>root\<close> is the inode \<open>namei\<close> finds for the root directory.\<close>

definition userinit :: "u64 \<Rightarrow> u64 \<Rightarrow> nat \<Rightarrow> kernel \<Rightarrow> kernel option" where
  "userinit frame pt root k = do {
     (p, k) \<leftarrow> allocproc frame pt k;
     let k = k\<lparr>initproc := p\<rparr>;
     j \<leftarrow> p;
     Some (upd_proc j (\<lambda>p. p\<lparr>p_sz := 4096, p_tf := (p_tf p)\<lparr>tf_epc := 0, tf_sp := 4096\<rparr>,
       p_name := cstr ''initcode'', p_cwd := Some root, p_state := RUNNABLE\<rparr>) (idup root k))
   }"

fun dup_files :: "nat list \<Rightarrow> nat \<Rightarrow> nat \<Rightarrow> kernel \<Rightarrow> kernel option" where
  "dup_files [] p np k = Some k"
| "dup_files (fd # fds) p np k =
     (case p_ofile (procs k p) fd of
        None \<Rightarrow> dup_files fds p np k
      | Some f \<Rightarrow> do {
          k \<leftarrow> filedup f k;
          dup_files fds p np (upd_proc np (\<lambda>q. q\<lparr>p_ofile := (p_ofile q)(fd := Some f)\<rparr>) k)
        })"

definition fork :: "u64 \<Rightarrow> u64 \<Rightarrow> bool \<Rightarrow> nat \<Rightarrow> kernel \<Rightarrow> (int \<times> kernel) option" where
  "fork frame pt copied p k = do {
     (r, k) \<leftarrow> allocproc frame pt k;
     case r of
       None \<Rightarrow> Some (- 1, k)
     | Some np \<Rightarrow>
         if \<not> copied then Some (- 1, freeproc np k)
         else do {
           let k = upd_proc np (\<lambda>q. q\<lparr>p_sz := p_sz (procs k p), p_tf := (p_tf (procs k p))\<lparr>tf_a0 := 0\<rparr>\<rparr>) k;
           k \<leftarrow> dup_files [0..<NOFILE] p np k;
           i \<leftarrow> p_cwd (procs k p);
           let k = upd_proc np (\<lambda>q. q\<lparr>p_cwd := Some i\<rparr>) (idup i k);
           let k = upd_proc np (\<lambda>q. q\<lparr>p_name := take 15 (p_name (procs k p))\<rparr>) k;
           let pid = p_pid (procs k np);
           let k = upd_proc np (\<lambda>q. q\<lparr>p_parent := Some p\<rparr>) k;
           let k = upd_proc np (\<lambda>q. q\<lparr>p_state := RUNNABLE\<rparr>) k;
           Some (pid, k)
         }
   }"

section \<open>Sleeping and waking\<close>

text \<open>The loops over the table; \<open>cur\<close> is \<open>myproc()\<close>, which \<open>wakeup\<close> passes over.\<close>

definition wakeup :: "nat option \<Rightarrow> chan option \<Rightarrow> kernel \<Rightarrow> kernel" where
  "wakeup cur ch k =
     fold (\<lambda>j k. if Some j \<noteq> cur \<and> p_state (procs k j) = SLEEPING \<and> p_chan (procs k j) = ch
         then upd_proc j (\<lambda>p. p\<lparr>p_state := RUNNABLE\<rparr>) k else k) [0..<NPROC] k"

text \<open>The parts of \<open>sleep\<close> before the switch to the scheduler and behind it.\<close>

definition sleep_on :: "nat \<Rightarrow> chan \<Rightarrow> kernel \<Rightarrow> kernel" where
  "sleep_on p ch = upd_proc p (\<lambda>q. q\<lparr>p_chan := Some ch, p_state := SLEEPING\<rparr>)"

definition resume :: "nat \<Rightarrow> kernel \<Rightarrow> kernel" where
  "resume p = upd_proc p (\<lambda>q. q\<lparr>p_chan := None\<rparr>)"

definition yield :: "nat \<Rightarrow> kernel \<Rightarrow> kernel" where
  "yield p = upd_proc p (\<lambda>q. q\<lparr>p_state := RUNNABLE\<rparr>)"

definition kill :: "int \<Rightarrow> kernel \<Rightarrow> int \<times> kernel" where
  "kill pid k =
     (case find (\<lambda>j. p_pid (procs k j) = pid) [0..<NPROC] of
        None \<Rightarrow> (- 1, k)
      | Some j \<Rightarrow> (0, upd_proc j (\<lambda>p. (p\<lparr>p_killed := True\<rparr>)
          \<lparr>p_state := if p_state p = SLEEPING then RUNNABLE else p_state p\<rparr>) k))"

definition setkilled :: "nat \<Rightarrow> kernel \<Rightarrow> kernel" where
  "setkilled j = upd_proc j (\<lambda>p. p\<lparr>p_killed := True\<rparr>)"

definition killed :: "nat \<Rightarrow> kernel \<Rightarrow> bool" where
  "killed j k = p_killed (procs k j)"

section \<open>Exit and wait\<close>

definition reparent :: "nat \<Rightarrow> nat \<Rightarrow> kernel \<Rightarrow> kernel" where
  "reparent cur p k =
     fold (\<lambda>j k. if p_parent (procs k j) = Some p
         then wakeup (Some cur) (map_option Proc_chan (initproc k)) (upd_proc j (\<lambda>q. q\<lparr>p_parent := initproc k\<rparr>) k)
         else k) [0..<NPROC] k"

fun close_files :: "nat list \<Rightarrow> nat \<Rightarrow> kernel \<Rightarrow> kernel option" where
  "close_files [] p k = Some k"
| "close_files (fd # fds) p k =
     (case p_ofile (procs k p) fd of
        None \<Rightarrow> close_files fds p k
      | Some f \<Rightarrow> do {
          k \<leftarrow> fileclose f k;
          close_files fds p (upd_proc p (\<lambda>q. q\<lparr>p_ofile := (p_ofile q)(fd := None)\<rparr>) k)
        })"

definition exit_proc :: "int \<Rightarrow> nat \<Rightarrow> kernel \<Rightarrow> kernel option" where
  "exit_proc status p k = do {
     guard (Some p \<noteq> initproc k);
     k \<leftarrow> close_files [0..<NOFILE] p k;
     i \<leftarrow> p_cwd (procs k p);
     let k = upd_proc p (\<lambda>q. q\<lparr>p_cwd := None\<rparr>) (iput_ref i k);
     let k = reparent p p k;
     let k = wakeup (Some p) (map_option Proc_chan (p_parent (procs k p))) k;
     Some (upd_proc p (\<lambda>q. q\<lparr>p_xstate := status, p_state := ZOMBIE\<rparr>) k)
   }"

text \<open>
  One turn of the loop of \<open>wait\<close>.  \<open>copied\<close> says whether the status can be stored at \<open>addr\<close>.  The
  result is the return value, or None when the process goes to sleep on itself.
\<close>

definition wait :: "u64 \<Rightarrow> bool \<Rightarrow> nat \<Rightarrow> kernel \<Rightarrow> int option \<times> kernel" where
  "wait addr copied p k =
     (case find (\<lambda>j. p_parent (procs k j) = Some p \<and> p_state (procs k j) = ZOMBIE) [0..<NPROC] of
        Some j \<Rightarrow>
          if addr \<noteq> 0 \<and> \<not> copied then (Some (- 1), k)
          else (Some (p_pid (procs k j)), freeproc j k)
      | None \<Rightarrow>
          let havekids = list_ex (\<lambda>j. p_parent (procs k j) = Some p) [0..<NPROC] in
          if \<not> havekids \<or> killed p k then (Some (- 1), k)
          else (None, sleep_on p (Proc_chan p) k))"

section \<open>Descriptors\<close>

definition fdalloc :: "nat \<Rightarrow> nat \<Rightarrow> kernel \<Rightarrow> int \<times> kernel" where
  "fdalloc p f k =
     (case find (\<lambda>fd. p_ofile (procs k p) fd = None) [0..<NOFILE] of
        None \<Rightarrow> (- 1, k)
      | Some fd \<Rightarrow> (int fd, upd_proc p (\<lambda>q. q\<lparr>p_ofile := (p_ofile q)(fd := Some f)\<rparr>) k))"

definition argfd :: "nat \<Rightarrow> int \<Rightarrow> kernel \<Rightarrow> (nat \<times> nat) option" where
  "argfd p fd k =
     (if fd < 0 \<or> fd \<ge> int NOFILE then None
      else map_option (\<lambda>f. (nat fd, f)) (p_ofile (procs k p) (nat fd)))"

definition sys_dup :: "int \<Rightarrow> nat \<Rightarrow> kernel \<Rightarrow> (int \<times> kernel) option" where
  "sys_dup n p k =
     (case argfd p n k of
        None \<Rightarrow> Some (- 1, k)
      | Some (_, f) \<Rightarrow>
          let (fd, k) = fdalloc p f k in
          if fd < 0 then Some (- 1, k)
          else do { k \<leftarrow> filedup f k; Some (fd, k) })"

definition sys_close :: "int \<Rightarrow> nat \<Rightarrow> kernel \<Rightarrow> (int \<times> kernel) option" where
  "sys_close n p k =
     (case argfd p n k of
        None \<Rightarrow> Some (- 1, k)
      | Some (fd, f) \<Rightarrow> do {
          let k = upd_proc p (\<lambda>q. q\<lparr>p_ofile := (p_ofile q)(fd := None)\<rparr>) k;
          k \<leftarrow> fileclose f k;
          Some (0, k)
        })"

text \<open>
  The end of \<open>sys_open\<close>, with the inode \<open>ip\<close> that \<open>namei\<close> or \<open>create\<close> returned (and counted).
\<close>

definition open_fd :: "ftype \<Rightarrow> nat \<Rightarrow> nat \<Rightarrow> kernel \<Rightarrow> (int \<times> kernel) option" where
  "open_fd ty ip p k =
     (case filealloc k of
        (None, k) \<Rightarrow> Some (- 1, iput_ref ip k)
      | (Some f, k) \<Rightarrow>
          let (fd, k) = fdalloc p f k in
          if fd < 0 then do { k \<leftarrow> fileclose f k; Some (- 1, iput_ref ip k) }
          else Some (fd, k\<lparr>files := (files k)(f := (files k f)\<lparr>f_type := ty, f_ip := ip\<rparr>)\<rparr>))"

end
