(* ===== verification/Xv6_Proc_Props.thy ===== *)
theory Xv6_Proc_Props
  imports Xv6_Proc
begin

text \<open>
  The invariant of the process table and its preservation by every operation of \<open>Xv6_Proc\<close>.  The
  loops over the table get closed forms first.
\<close>

section \<open>Closed forms of the loops\<close>

lemma fold_upd_proc:
  assumes "distinct js"
  shows "fold (\<lambda>j k. if P j (procs k j) then upd_proc j f k else k) js k
    = k\<lparr>procs := \<lambda>j. if j \<in> set js \<and> P j (procs k j) then f (procs k j) else procs k j\<rparr>"
  using assms
proof (induction js arbitrary: k)
  case Nil
  show ?case by simp
next
  case (Cons j js)
  let ?k = "if P j (procs k j) then upd_proc j f k else k"
  have "fold (\<lambda>j k. if P j (procs k j) then upd_proc j f k else k) (j # js) k
      = ?k\<lparr>procs := \<lambda>i. if i \<in> set js \<and> P i (procs ?k i) then f (procs ?k i) else procs ?k i\<rparr>"
    using Cons by simp
  also have "\<dots> = k\<lparr>procs := \<lambda>i. if i \<in> set (j # js) \<and> P i (procs k i) then f (procs k i) else procs k i\<rparr>"
    using Cons.prems by (auto simp: fun_eq_iff intro!: kernel.equality)
  finally show ?case .
qed

definition wakes :: "nat option \<Rightarrow> chan option \<Rightarrow> nat \<Rightarrow> proc \<Rightarrow> bool" where
  "wakes cur ch j p \<longleftrightarrow> j < NPROC \<and> Some j \<noteq> cur \<and> p_state p = SLEEPING \<and> p_chan p = ch"

definition woken_by :: "nat option \<Rightarrow> chan option \<Rightarrow> nat \<Rightarrow> proc \<Rightarrow> proc" where
  "woken_by cur ch j p = (if wakes cur ch j p then p\<lparr>p_state := RUNNABLE\<rparr> else p)"

lemma wakeup_eq: "wakeup cur ch k = k\<lparr>procs := \<lambda>j. woken_by cur ch j (procs k j)\<rparr>"
  using fold_upd_proc [of "[0..<NPROC]" "\<lambda>j p. Some j \<noteq> cur \<and> p_state p = SLEEPING \<and> p_chan p = ch"
      "\<lambda>p. p\<lparr>p_state := RUNNABLE\<rparr>" k]
  by (simp add: wakeup_def woken_by_def wakes_def conj_assoc)

lemma woken_by_simps [simp]:
  "p_chan (woken_by cur ch j p) = p_chan p" "p_killed (woken_by cur ch j p) = p_killed p"
  "p_pid (woken_by cur ch j p) = p_pid p" "p_parent (woken_by cur ch j p) = p_parent p"
  "p_ofile (woken_by cur ch j p) = p_ofile p" "p_cwd (woken_by cur ch j p) = p_cwd p"
  "p_priority (woken_by cur ch j p) = p_priority p" "p_chosen (woken_by cur ch j p) = p_chosen p"
  "p_name (woken_by cur ch j p) = p_name p" "p_xstate (woken_by cur ch j p) = p_xstate p"
  "p_state (woken_by cur ch j p) = (if wakes cur ch j p then RUNNABLE else p_state p)"
  "woken_by cur ch j (woken_by cur ch j p) = woken_by cur ch j p"
  "woken_by cur ch j (p\<lparr>p_parent := x\<rparr>) = (woken_by cur ch j p)\<lparr>p_parent := x\<rparr>"
  by (auto simp: woken_by_def wakes_def)

text \<open>\<open>reparent\<close>: the children get a new parent, which is woken if there is a child.\<close>

definition adopted :: "nat option \<Rightarrow> nat \<Rightarrow> proc \<Rightarrow> proc" where
  "adopted ip p q = (if p_parent q = Some p then q\<lparr>p_parent := ip\<rparr> else q)"

definition reparented :: "nat list \<Rightarrow> nat \<Rightarrow> nat \<Rightarrow> kernel \<Rightarrow> nat \<Rightarrow> proc" where
  "reparented js cur p k i =
     (let q = (if i \<in> set js then adopted (initproc k) p (procs k i) else procs k i)
      in if \<exists>j \<in> set js. p_parent (procs k j) = Some p
         then woken_by (Some cur) (map_option Proc_chan (initproc k)) i q else q)"

lemma reparented_snoc:
  assumes "j \<notin> set js"
  shows "reparented (js @ [j]) cur p k i =
    (let q = (if i = j then adopted (initproc k) p (reparented js cur p k i) else reparented js cur p k i)
     in if p_parent (procs k j) = Some p then woken_by (Some cur) (map_option Proc_chan (initproc k)) i q else q)"
  using assms by (simp add: reparented_def adopted_def Let_def)

lemma reparented_parent: "j \<notin> set js \<Longrightarrow> p_parent (reparented js cur p k j) = p_parent (procs k j)"
  by (simp add: reparented_def Let_def)

lemma reparent_fold:
  assumes "distinct js"
  shows "fold (\<lambda>j k. if p_parent (procs k j) = Some p
         then wakeup (Some cur) (map_option Proc_chan (initproc k)) (upd_proc j (\<lambda>q. q\<lparr>p_parent := initproc k\<rparr>) k)
         else k) js k = k\<lparr>procs := reparented js cur p k\<rparr>"
  using assms
proof (induction js rule: rev_induct)
  case Nil
  show ?case by (simp add: reparented_def)
next
  case (snoc j js)
  then have IH: "fold (\<lambda>j k. if p_parent (procs k j) = Some p
         then wakeup (Some cur) (map_option Proc_chan (initproc k)) (upd_proc j (\<lambda>q. q\<lparr>p_parent := initproc k\<rparr>) k)
         else k) js k = k\<lparr>procs := reparented js cur p k\<rparr>" and j: "j \<notin> set js" by auto
  have eq: "reparented (js @ [j]) cur p k = (if p_parent (procs k j) = Some p
      then \<lambda>i. woken_by (Some cur) (map_option Proc_chan (initproc k)) i
        (((reparented js cur p k)(j := (reparented js cur p k j)\<lparr>p_parent := initproc k\<rparr>)) i)
      else reparented js cur p k)"
    unfolding fun_eq_iff reparented_snoc [OF j] by (auto simp: Let_def adopted_def reparented_parent [OF j])
  show ?case unfolding fold_append comp_def IH eq by (simp add: reparented_parent [OF j] wakeup_eq)
qed

lemma reparent_eq: "reparent cur p k = k\<lparr>procs := reparented [0..<NPROC] cur p k\<rparr>"
  unfolding reparent_def by (rule reparent_fold) simp

section \<open>The invariant\<close>

text \<open>What holds of every entry of the table, given the rest of it.\<close>

definition entry_ok :: "kernel \<Rightarrow> nat \<Rightarrow> bool" where
  "entry_ok k j \<longleftrightarrow> (let p = procs k j in
     (p_state p = UNUSED \<longrightarrow> p_pid p = 0 \<and> p_parent p = None \<and> p_priority p = 0 \<and> p_chan p = None)
     \<and> (p_state p \<noteq> UNUSED \<longrightarrow> 0 < p_pid p \<and> p_pid p < nextpid k)
     \<and> (p_state p = UNUSED \<or> p_state p = ZOMBIE \<longrightarrow> p_ofile p = (\<lambda>_. None))
     \<and> p_state p \<noteq> USED \<and> p_priority p < 3
     \<and> (p_state p = RUNNING \<longrightarrow> p_chan p = None)
     \<and> (\<forall>fd \<ge> NOFILE. p_ofile p fd = None)
     \<and> (\<forall>q. p_parent p = Some q \<longrightarrow> p_state (procs k q) \<noteq> UNUSED \<and> p_state (procs k q) \<noteq> ZOMBIE)
     \<and> (\<forall>x. p_state p = SLEEPING \<and> p_chan p = Some (Proc_chan x)
          \<longrightarrow> x = j \<and> (\<forall>c. p_parent (procs k c) = Some j \<longrightarrow> p_state (procs k c) \<noteq> ZOMBIE)))"

definition table_ok :: "kernel \<Rightarrow> bool" where
  "table_ok k \<longleftrightarrow> (\<forall>j. entry_ok k j) \<and> (\<forall>j \<ge> NPROC. procs k j = proc_init)
     \<and> (\<forall>i j. p_state (procs k i) \<noteq> UNUSED \<and> p_pid (procs k i) = p_pid (procs k j) \<longrightarrow> i = j)
     \<and> (\<exists>ip. initproc k = Some ip \<and> p_state (procs k ip) \<noteq> UNUSED \<and> p_state (procs k ip) \<noteq> ZOMBIE)
     \<and> 0 < nextpid k"

definition refs :: "kernel \<Rightarrow> nat \<Rightarrow> (nat \<times> nat) set" where
  "refs k f = {(j, fd). p_ofile (procs k j) fd = Some f}"

definition refs_ok :: "kernel \<Rightarrow> bool" where
  "refs_ok k \<longleftrightarrow> (\<forall>f. finite (refs k f) \<and> f_ref (files k f) = int (card (refs k f)))"

lemma entry_okD:
  assumes "entry_ok k j"
  shows "p_state (procs k j) = UNUSED \<Longrightarrow> p_pid (procs k j) = 0 \<and> p_parent (procs k j) = None \<and> p_priority (procs k j) = 0 \<and> p_chan (procs k j) = None"
    "p_state (procs k j) \<noteq> UNUSED \<Longrightarrow> 0 < p_pid (procs k j) \<and> p_pid (procs k j) < nextpid k"
    "p_state (procs k j) = UNUSED \<or> p_state (procs k j) = ZOMBIE \<Longrightarrow> p_ofile (procs k j) = (\<lambda>_. None)"
    "p_state (procs k j) \<noteq> USED" "p_priority (procs k j) < 3"
    "p_state (procs k j) = RUNNING \<Longrightarrow> p_chan (procs k j) = None"
    "NOFILE \<le> fd \<Longrightarrow> p_ofile (procs k j) fd = None"
    "p_parent (procs k j) = Some q \<Longrightarrow> p_state (procs k q) \<noteq> UNUSED \<and> p_state (procs k q) \<noteq> ZOMBIE"
    "p_state (procs k j) = SLEEPING \<Longrightarrow> p_chan (procs k j) = Some (Proc_chan x) \<Longrightarrow> x = j"
    "p_state (procs k j) = SLEEPING \<Longrightarrow> p_chan (procs k j) = Some (Proc_chan x) \<Longrightarrow> p_parent (procs k c) = Some j
       \<Longrightarrow> p_state (procs k c) \<noteq> ZOMBIE"
  using assms unfolding entry_ok_def Let_def by blast+

lemma entry_okI:
  assumes "p_state (procs k j) = UNUSED \<Longrightarrow> p_pid (procs k j) = 0 \<and> p_parent (procs k j) = None \<and> p_priority (procs k j) = 0 \<and> p_chan (procs k j) = None"
    "p_state (procs k j) \<noteq> UNUSED \<Longrightarrow> 0 < p_pid (procs k j) \<and> p_pid (procs k j) < nextpid k"
    "p_state (procs k j) = UNUSED \<or> p_state (procs k j) = ZOMBIE \<Longrightarrow> p_ofile (procs k j) = (\<lambda>_. None)"
    "p_state (procs k j) \<noteq> USED" "p_priority (procs k j) < 3"
    "p_state (procs k j) = RUNNING \<Longrightarrow> p_chan (procs k j) = None"
    "\<And>fd. NOFILE \<le> fd \<Longrightarrow> p_ofile (procs k j) fd = None"
    "\<And>q. p_parent (procs k j) = Some q \<Longrightarrow> p_state (procs k q) \<noteq> UNUSED \<and> p_state (procs k q) \<noteq> ZOMBIE"
    "\<And>x. p_state (procs k j) = SLEEPING \<Longrightarrow> p_chan (procs k j) = Some (Proc_chan x) \<Longrightarrow> x = j"
    "\<And>x c. p_state (procs k j) = SLEEPING \<Longrightarrow> p_chan (procs k j) = Some (Proc_chan x) \<Longrightarrow> p_parent (procs k c) = Some j
       \<Longrightarrow> p_state (procs k c) \<noteq> ZOMBIE"
  shows "entry_ok k j"
  unfolding entry_ok_def Let_def using assms by blast

lemma table_okD:
  assumes "table_ok k"
  shows "entry_ok k j" "NPROC \<le> j \<Longrightarrow> procs k j = proc_init"
    "p_state (procs k i) \<noteq> UNUSED \<Longrightarrow> p_pid (procs k i) = p_pid (procs k j) \<Longrightarrow> i = j"
    "\<exists>ip. initproc k = Some ip \<and> p_state (procs k ip) \<noteq> UNUSED \<and> p_state (procs k ip) \<noteq> ZOMBIE"
    "0 < nextpid k"
  using assms unfolding table_ok_def by blast+

lemma table_okI:
  assumes "\<And>j. entry_ok k j" "\<And>j. NPROC \<le> j \<Longrightarrow> procs k j = proc_init"
    "\<And>i j. p_state (procs k i) \<noteq> UNUSED \<Longrightarrow> p_pid (procs k i) = p_pid (procs k j) \<Longrightarrow> i = j"
    "\<exists>ip. initproc k = Some ip \<and> p_state (procs k ip) \<noteq> UNUSED \<and> p_state (procs k ip) \<noteq> ZOMBIE" "0 < nextpid k"
  shows "table_ok k"
  unfolding table_ok_def using assms by blast

lemma used_in_table: "table_ok k \<Longrightarrow> p_state (procs k j) \<noteq> UNUSED \<Longrightarrow> j < NPROC"
  using table_okD(2) [of k j] by (cases "j < NPROC") (auto simp: proc_init_def)

text \<open>
  Most operations leave identities, parents and descriptors alone and only move processes between
  the live states.
\<close>

definition live_change :: "proc \<Rightarrow> proc \<Rightarrow> bool" where
  "live_change p p' \<longleftrightarrow> p_pid p' = p_pid p \<and> p_parent p' = p_parent p \<and> p_ofile p' = p_ofile p
     \<and> (p_state p' = UNUSED \<longleftrightarrow> p_state p = UNUSED) \<and> (p_state p' = ZOMBIE \<longleftrightarrow> p_state p = ZOMBIE)
     \<and> p_state p' \<noteq> USED \<and> p_priority p' < 3
     \<and> (p_state p' = UNUSED \<longrightarrow> p_priority p' = 0 \<and> p_chan p' = None)
     \<and> (p_state p' = RUNNING \<longrightarrow> p_chan p' = None)
     \<and> (\<forall>x. p_state p' = SLEEPING \<and> p_chan p' = Some (Proc_chan x) \<longrightarrow> p_state p = SLEEPING \<and> p_chan p = Some (Proc_chan x))"

lemma live_change_refl: "entry_ok k j \<Longrightarrow> live_change (procs k j) (procs k j)"
  using entry_okD(1,4,5,6) by (auto simp: live_change_def)

lemma live_change_table:
  assumes "table_ok k" "\<And>j. live_change (procs k j) (procs k' j)" "initproc k' = initproc k" "nextpid k \<le> nextpid k'"
    "\<And>j. NPROC \<le> j \<Longrightarrow> procs k' j = procs k j"
  shows "table_ok k'"
proof -
  have same: "p_pid (procs k' j) = p_pid (procs k j)" "p_parent (procs k' j) = p_parent (procs k j)"
    "p_ofile (procs k' j) = p_ofile (procs k j)" "(p_state (procs k' j) = UNUSED) = (p_state (procs k j) = UNUSED)"
    "(p_state (procs k' j) = ZOMBIE) = (p_state (procs k j) = ZOMBIE)" for j
    using assms(2) [of j] by (simp_all add: live_change_def)
  have "entry_ok k' j" for j
  proof -
    note E = entry_okD [OF table_okD(1) [OF assms(1), of j]] and C = assms(2) [of j, unfolded live_change_def]
    show ?thesis
    proof (rule entry_okI)
      fix x c
      assume "p_state (procs k' j) = SLEEPING" "p_chan (procs k' j) = Some (Proc_chan x)" "p_parent (procs k' c) = Some j"
      then show "p_state (procs k' c) \<noteq> ZOMBIE" using C E(10) [of x c] same(2,5) [of c] by simp
    next
      fix q
      assume "p_parent (procs k' j) = Some q"
      then show "p_state (procs k' q) \<noteq> UNUSED \<and> p_state (procs k' q) \<noteq> ZOMBIE" using E(8) [of q] same by simp
    next
      fix x
      assume "p_state (procs k' j) = SLEEPING" "p_chan (procs k' j) = Some (Proc_chan x)"
      then show "x = j" using C E(9) [of x] by simp
    qed (use C E(1-4,7) assms(4) in auto)
  qed
  then show ?thesis using table_okD(2-5) [OF assms(1)] assms(3-5) unfolding table_ok_def same by auto
qed

lemma refs_same: "\<lbrakk>refs_ok k; \<And>j. p_ofile (procs k' j) = p_ofile (procs k j); files k' = files k\<rbrakk> \<Longrightarrow> refs_ok k'"
  by (simp add: refs_ok_def refs_def)

section \<open>Operations that only move live processes\<close>

text \<open>What a call of process \<open>p\<close> leaves alone in the others.\<close>

definition others_kept :: "nat \<Rightarrow> kernel \<Rightarrow> kernel \<Rightarrow> bool" where
  "others_kept p k k' \<longleftrightarrow> (\<forall>j. j \<noteq> p \<longrightarrow>
     (p_state (procs k j) = RUNNABLE \<longrightarrow> p_state (procs k' j) = RUNNABLE \<and> p_priority (procs k' j) = p_priority (procs k j))
     \<and> (p_state (procs k' j) = RUNNING \<longleftrightarrow> p_state (procs k j) = RUNNING))"

lemma others_kept_refl [simp]: "others_kept p k k"
  by (simp add: others_kept_def)

lemma others_kept_trans: "others_kept p k k' \<Longrightarrow> others_kept p k' k'' \<Longrightarrow> others_kept p k k''"
  by (simp add: others_kept_def)

lemma others_kept_upd [simp]: "others_kept p k (k\<lparr>procs := (procs k)(p := q)\<rparr>)"
  by (simp add: others_kept_def)

lemma wakeup_table:
  assumes "table_ok k"
  shows "table_ok (wakeup cur ch k)" "refs_ok k \<Longrightarrow> refs_ok (wakeup cur ch k)" "others_kept p k (wakeup cur ch k)"
    "cur = Some p \<Longrightarrow> p_state (procs (wakeup cur ch k) p) = p_state (procs k p)"
proof -
  show "table_ok (wakeup cur ch k)"
  proof (rule live_change_table [OF assms])
    fix j
    show "live_change (procs k j) (procs (wakeup cur ch k) j)"
      using live_change_refl [OF table_okD(1) [OF assms, of j]] by (auto simp: wakeup_eq woken_by_def wakes_def live_change_def)
  qed (auto simp: wakeup_eq woken_by_def wakes_def)
  show "refs_ok k \<Longrightarrow> refs_ok (wakeup cur ch k)" by (erule refs_same) (simp_all add: wakeup_eq)
qed (auto simp: others_kept_def wakeup_eq wakes_def)

text \<open>A change of one entry that keeps its identity.\<close>

lemma upd_table:
  assumes "table_ok k" "live_change (procs k j) (f (procs k j))" "j < NPROC"
  shows "table_ok (upd_proc j f k)"
  using assms live_change_refl [OF table_okD(1) [OF assms(1)]] by (intro live_change_table [OF assms(1)]) auto

lemma upd_refs: "refs_ok k \<Longrightarrow> p_ofile (f (procs k j)) = p_ofile (procs k j) \<Longrightarrow> refs_ok (upd_proc j f k)"
  by (erule refs_same) simp_all

lemma running_facts:
  assumes "table_ok k" "p_state (procs k p) = RUNNING"
  shows "p < NPROC" "p_priority (procs k p) < 3" "p_chan (procs k p) = None"
  using used_in_table [OF assms(1), of p] entry_okD(5,6) [OF table_okD(1) [OF assms(1), of p]] assms(2) by auto

lemma yield_table:
  assumes "table_ok k" "p_state (procs k p) = RUNNING"
  shows "table_ok (yield p k)" "refs_ok k \<Longrightarrow> refs_ok (yield p k)" "others_kept p k (yield p k)"
    "p_state (procs (yield p k) p) = RUNNABLE"
  using running_facts [OF assms] assms
  by (auto simp: yield_def live_change_def intro!: upd_table upd_refs)

lemma sleep_table:
  assumes "table_ok k" "p_state (procs k p) = RUNNING" "\<forall>x. ch \<noteq> Proc_chan x"
  shows "table_ok (sleep_on p ch k)" "refs_ok k \<Longrightarrow> refs_ok (sleep_on p ch k)" "others_kept p k (sleep_on p ch k)"
    "p_state (procs (sleep_on p ch k) p) = SLEEPING"
  using running_facts [OF assms(1,2)] assms
  by (auto simp: sleep_on_def live_change_def intro!: upd_table upd_refs)

lemma setkilled_table:
  assumes "table_ok k" "j < NPROC"
  shows "table_ok (setkilled j k)" "refs_ok k \<Longrightarrow> refs_ok (setkilled j k)" "others_kept p k (setkilled j k)"
    "p_state (procs (setkilled j k) i) = p_state (procs k i)"
  using live_change_refl [OF table_okD(1) [OF assms(1), of j]] assms
  by (auto simp: setkilled_def live_change_def others_kept_def intro!: upd_table upd_refs)

lemma kill_table:
  assumes "table_ok k" "p_state (procs k p) = RUNNING"
  shows "table_ok (snd (kill pid k))" "refs_ok k \<Longrightarrow> refs_ok (snd (kill pid k))" "others_kept p k (snd (kill pid k))"
    "p_state (procs (snd (kill pid k)) p) = RUNNING"
proof -
  have "table_ok (snd (kill pid k)) \<and> (refs_ok k \<longrightarrow> refs_ok (snd (kill pid k))) \<and> others_kept p k (snd (kill pid k))
    \<and> p_state (procs (snd (kill pid k)) p) = RUNNING"
  proof (cases "find (\<lambda>j. p_pid (procs k j) = pid) [0..<NPROC]")
    case None
    then show ?thesis using assms by (simp add: kill_def)
  next
    case (Some j)
    note j = find_upt_Some [OF Some]
    have "table_ok (snd (kill pid k))" unfolding kill_def Some option.case snd_conv
      using live_change_refl [OF table_okD(1) [OF assms(1), of j]] j
      by (intro upd_table [OF assms(1)]) (auto simp: live_change_def)
    moreover have "refs_ok k \<longrightarrow> refs_ok (snd (kill pid k))" unfolding kill_def Some option.case snd_conv
      by (auto intro!: upd_refs)
    ultimately show ?thesis using assms(2) Some by (auto simp: kill_def others_kept_def)
  qed
  then show "table_ok (snd (kill pid k))" "refs_ok k \<Longrightarrow> refs_ok (snd (kill pid k))" "others_kept p k (snd (kill pid k))"
    "p_state (procs (snd (kill pid k)) p) = RUNNING" by simp_all
qed

section \<open>Waiting\<close>

lemma freeproc_table:
  assumes "table_ok k" "p_state (procs k z) = ZOMBIE"
  shows "table_ok (freeproc z k)"
proof -
  let ?k = "freeproc z k"
  have procs: "procs ?k i = (if i = z then (procs k z)\<lparr>p_frame := 0, p_pagetable := 0, p_sz := 0, p_pid := 0,
     p_parent := None, p_name := [], p_chan := None, p_killed := False, p_xstate := 0, p_state := UNUSED, p_chosen := 0,
     p_priority := 0\<rparr> else procs k i)" and rest: "nextpid ?k = nextpid k" "initproc ?k = initproc k" for i
    by (simp_all add: freeproc_def)
  have z: "z < NPROC" "p_ofile (procs k z) = (\<lambda>_. None)"
    using used_in_table [OF assms(1), of z] entry_okD(3) [OF table_okD(1) [OF assms(1), of z]] assms(2) by auto
  have A: "entry_ok ?k j" for j
  proof (cases "j = z")
    case True
    then show ?thesis using z by (simp add: entry_ok_def procs)
  next
    case False
    note E = entry_okD [OF table_okD(1) [OF assms(1), of j]]
    show ?thesis
    proof (rule entry_okI)
      fix q
      assume "p_parent (procs ?k j) = Some q"
      then have "p_state (procs k q) \<noteq> UNUSED \<and> p_state (procs k q) \<noteq> ZOMBIE" using E(8) [of q] False by (simp add: procs)
      then show "p_state (procs ?k q) \<noteq> UNUSED \<and> p_state (procs ?k q) \<noteq> ZOMBIE" using assms(2) by (auto simp: procs)
    next
      fix x c
      assume "p_state (procs ?k j) = SLEEPING" "p_chan (procs ?k j) = Some (Proc_chan x)" "p_parent (procs ?k c) = Some j"
      then show "p_state (procs ?k c) \<noteq> ZOMBIE" using E(10) [of x c] False by (auto simp: procs split: if_splits)
    qed (use E(1-7,9) False in \<open>auto simp: procs rest\<close>)
  qed
  have B: "i = j" if "p_state (procs ?k i) \<noteq> UNUSED" "p_pid (procs ?k i) = p_pid (procs ?k j)" for i j
  proof -
    have i: "i \<noteq> z" "p_state (procs k i) \<noteq> UNUSED" using that(1) by (auto simp: procs split: if_splits)
    then have "0 < p_pid (procs k i)" using entry_okD(2) [OF table_okD(1) [OF assms(1), of i]] by simp
    then show ?thesis using that(2) i table_okD(3) [OF assms(1), of i j] by (auto simp: procs split: if_splits)
  qed
  have C: "\<exists>ip. initproc ?k = Some ip \<and> p_state (procs ?k ip) \<noteq> UNUSED \<and> p_state (procs ?k ip) \<noteq> ZOMBIE"
    using table_okD(4) [OF assms(1)] assms(2) by (auto simp: procs rest)
  show ?thesis by (rule table_okI [OF A _ B C]) (use table_okD(2,5) [OF assms(1)] z(1) in \<open>simp_all add: procs rest\<close>)
qed

lemma freeproc_refs: "refs_ok k \<Longrightarrow> refs_ok (freeproc z k)"
  by (erule refs_same) (simp_all add: freeproc_def)

lemma wait_table:
  assumes "table_ok k" "p_state (procs k p) = RUNNING" "wait addr copied p k = (r, k')"
  shows "table_ok k' \<and> (refs_ok k \<longrightarrow> refs_ok k') \<and> others_kept p k k'
    \<and> p_state (procs k' p) = (if r = None then SLEEPING else RUNNING)"
proof (cases "find (\<lambda>j. p_parent (procs k j) = Some p \<and> p_state (procs k j) = ZOMBIE) [0..<NPROC]")
  case (Some z)
  then have z: "p_state (procs k z) = ZOMBIE" "z \<noteq> p" using find_upt_Some [OF Some] assms(2) by auto
  show ?thesis using assms Some z freeproc_table [OF assms(1) z(1)] freeproc_refs
    by (auto simp: wait_def others_kept_def freeproc_def split: if_splits)
next
  case None
  show ?thesis
  proof (cases "\<not> list_ex (\<lambda>j. p_parent (procs k j) = Some p) [0..<NPROC] \<or> killed p k")
    case True
    then show ?thesis using assms None by (auto simp: wait_def Let_def)
  next
    case False
    let ?k = "sleep_on p (Proc_chan p) k"
    have eq: "r = None" "k' = ?k" using assms(3) None False by (simp_all add: wait_def Let_def)
    have zombies: "p_state (procs k c) \<noteq> ZOMBIE" if "p_parent (procs k c) = Some p" for c
    proof
      assume z: "p_state (procs k c) = ZOMBIE"
      then have "c < NPROC" using used_in_table [OF assms(1), of c] by simp
      then show False using None that z by (simp add: find_upt_None)
    qed
    have procs: "procs ?k i = (if i = p then (procs k p)\<lparr>p_chan := Some (Proc_chan p), p_state := SLEEPING\<rparr> else procs k i)"
      and rest: "nextpid ?k = nextpid k" "initproc ?k = initproc k" for i
      by (simp_all add: sleep_on_def)
    have A: "entry_ok ?k j" for j
    proof -
      note E = entry_okD [OF table_okD(1) [OF assms(1), of j]]
      show ?thesis
      proof (rule entry_okI)
        fix q
        assume "p_parent (procs ?k j) = Some q"
        then show "p_state (procs ?k q) \<noteq> UNUSED \<and> p_state (procs ?k q) \<noteq> ZOMBIE" using E(8) [of q] by (auto simp: procs split: if_splits)
      next
        fix x c
        assume "p_state (procs ?k j) = SLEEPING" "p_chan (procs ?k j) = Some (Proc_chan x)" "p_parent (procs ?k c) = Some j"
        then show "p_state (procs ?k c) \<noteq> ZOMBIE" using E(10) [of x c] zombies [of c] by (auto simp: procs split: if_splits)
      qed (use E(1-7,9) assms(2) in \<open>auto simp: procs rest split: if_splits\<close>)
    qed
    have B: "i = j" if "p_state (procs ?k i) \<noteq> UNUSED" "p_pid (procs ?k i) = p_pid (procs ?k j)" for i j
    proof (rule table_okD(3) [OF assms(1)])
      show "p_state (procs k i) \<noteq> UNUSED" using that(1) assms(2) by (auto simp: procs split: if_splits)
      show "p_pid (procs k i) = p_pid (procs k j)" using that(2) by (simp add: procs split: if_splits)
    qed
    have C: "\<exists>ip. initproc ?k = Some ip \<and> p_state (procs ?k ip) \<noteq> UNUSED \<and> p_state (procs ?k ip) \<noteq> ZOMBIE"
      using table_okD(4) [OF assms(1)] by (auto simp: procs rest)
    have "table_ok ?k"
      by (rule table_okI [OF A _ B C])
        (use table_okD(2,5) [OF assms(1)] running_facts(1) [OF assms(1,2)] in \<open>simp_all add: procs rest\<close>)
    moreover have "refs_ok k \<longrightarrow> refs_ok ?k" by (auto simp: sleep_on_def intro!: upd_refs)
    moreover have "others_kept p k ?k" "p_state (procs ?k p) = SLEEPING" by (simp_all add: sleep_on_def)
    ultimately show ?thesis using eq by simp
  qed
qed

section \<open>Reference counts of open files\<close>

text \<open>A descriptor that refers to an open file may be copied, and closed.\<close>

lemma refs_pos: "refs_ok k \<Longrightarrow> p_ofile (procs k p) fd = Some f \<Longrightarrow> 1 \<le> f_ref (files k f)"
  using card_gt_0_iff [of "refs k f"] by (force simp: refs_ok_def refs_def)

definition with_fd :: "nat \<Rightarrow> nat \<Rightarrow> nat option \<Rightarrow> kernel \<Rightarrow> kernel" where
  "with_fd p fd f k = upd_proc p (\<lambda>q. q\<lparr>p_ofile := (p_ofile q)(fd := f)\<rparr>) k"

lemma with_fd_simps [simp]:
  "p_ofile (procs (with_fd p fd f k) j) = (if j = p then (p_ofile (procs k p))(fd := f) else p_ofile (procs k j))"
  "files (with_fd p fd f k) = files k" "initproc (with_fd p fd f k) = initproc k" "nextpid (with_fd p fd f k) = nextpid k"
  "p_state (procs (with_fd p fd f k) j) = p_state (procs k j)" "p_priority (procs (with_fd p fd f k) j) = p_priority (procs k j)"
  by (simp_all add: with_fd_def)

lemma refs_with_fd:
  "p_ofile (procs k p) fd = None \<Longrightarrow> refs (with_fd p fd (Some f) k) g = (if g = f then insert (p, fd) (refs k g) else refs k g)"
  "p_ofile (procs k p) fd = Some f \<Longrightarrow> refs (with_fd p fd None k) g = refs k g - {(p, fd)}"
  by (auto simp: refs_def split: if_splits)

lemma refs_files [simp]: "refs (k\<lparr>files := fs\<rparr>) f = refs k f" "refs (k\<lparr>files := fs, i_refs := ir\<rparr>) f = refs k f"
  "refs (k\<lparr>i_refs := ir\<rparr>) f = refs k f"
  by (simp_all add: refs_def)

lemma dup_ref:
  assumes "refs_ok k" "p_ofile (procs k p) fd = Some f" "p_ofile (procs k np) fd' = None"
  shows "\<exists>k1. filedup f k = Some k1 \<and> refs_ok (with_fd np fd' (Some f) k1)
    \<and> k1 = k\<lparr>files := files k1\<rparr> \<and> filedup f (with_fd np fd' (Some f) k) = Some (with_fd np fd' (Some f) k1)"
proof -
  let ?fs = "(files k)(f := (files k f)\<lparr>f_ref := f_ref (files k f) + 1\<rparr>)"
  let ?k1 = "k\<lparr>files := ?fs\<rparr>"
  have "(np, fd') \<notin> refs k f" using assms(3) by (simp add: refs_def)
  moreover have "refs (with_fd np fd' (Some f) ?k1) g = (if g = f then insert (np, fd') (refs k g) else refs k g)" for g
    using refs_with_fd(1) [of ?k1 np fd' f g] assms(3) by simp
  ultimately have "refs_ok (with_fd np fd' (Some f) ?k1)" using assms(1) by (simp add: refs_ok_def)
  then show ?thesis using refs_pos [OF assms(1,2)] by (simp add: filedup_def with_fd_def)
qed

lemma close_ref:
  assumes "refs_ok k" "p_ofile (procs k p) fd = Some f"
  shows "\<exists>k1. fileclose f k = Some k1 \<and> refs_ok (with_fd p fd None k1) \<and> k1 = k\<lparr>files := files k1, i_refs := i_refs k1\<rparr>
    \<and> fileclose f (with_fd p fd None k) = Some (with_fd p fd None k1)"
proof -
  have pos: "1 \<le> f_ref (files k f)" by (rule refs_pos [OF assms])
  let ?ff = "(files k f)\<lparr>f_ref := f_ref (files k f) - 1\<rparr>"
  obtain k1 where k1: "fileclose f k = Some k1" "k1 = k\<lparr>files := files k1, i_refs := i_refs k1\<rparr>"
    "f_ref (files k1 g) = (if g = f then f_ref (files k f) - 1 else f_ref (files k g))" 
    "fileclose f (with_fd p fd None k) = Some (with_fd p fd None k1)" for g
  proof (cases "f_ref (files k f) = 1")
    case True
    let ?k = "k\<lparr>files := (files k)(f := ?ff\<lparr>f_ref := 0, f_type := FD_NONE\<rparr>)\<rparr>"
    let ?k1 = "if f_type (files k f) = FD_INODE \<or> f_type (files k f) = FD_DEVICE then iput_ref (f_ip (files k f)) ?k else ?k"
    show thesis by (rule that [of ?k1]) (use True in \<open>simp_all add: fileclose_def with_fd_def iput_ref_def Let_def\<close>)
  next
    case False
    show thesis
      by (rule that [of "k\<lparr>files := (files k)(f := ?ff)\<rparr>"])
        (use False pos in \<open>simp_all add: fileclose_def with_fd_def Let_def\<close>)
  qed
  have "(p, fd) \<in> refs k f" "g \<noteq> f \<Longrightarrow> (p, fd) \<notin> refs k g" for g using assms(2) by (simp_all add: refs_def)
  moreover have "refs (with_fd p fd None k1) g = refs k g - {(p, fd)}" for g
  proof -
    have "refs k1 g = refs k g" "p_ofile (procs k1 p) fd = Some f" using k1(2) assms(2) by (metis refs_files(2), metis kernel.select_convs(1) kernel.surjective kernel.update_convs(5,6))
    then show ?thesis using refs_with_fd(2) by simp
  qed
  moreover have "f_ref (files (with_fd p fd None k1) g) = (if g = f then f_ref (files k f) - 1 else f_ref (files k g))" for g
    using k1(3) by (simp add: with_fd_def)
  ultimately have "refs_ok (with_fd p fd None k1)"
    using assms(1) pos by (auto simp: refs_ok_def card_Diff_singleton_if of_nat_diff)
  then show ?thesis using k1 by blast
qed

section \<open>Descriptor calls\<close>

text \<open>A call that changes nothing but the descriptors of the calling process and the counts.\<close>

lemma fd_table:
  assumes "table_ok k" "p_state (procs k p) = RUNNING" "procs k' = (procs k)(p := (procs k p)\<lparr>p_ofile := ofs\<rparr>)"
    "initproc k' = initproc k" "nextpid k' = nextpid k" "\<And>fd. NOFILE \<le> fd \<Longrightarrow> ofs fd = None"
  shows "table_ok k'" "others_kept p k k'" "p_state (procs k' p) = RUNNING"
proof -
  have same: "p_pid (procs k' j) = p_pid (procs k j)" "p_parent (procs k' j) = p_parent (procs k j)"
    "p_state (procs k' j) = p_state (procs k j)" "p_chan (procs k' j) = p_chan (procs k j)"
    "p_priority (procs k' j) = p_priority (procs k j)" "j \<noteq> p \<Longrightarrow> procs k' j = procs k j" for j
    by (simp_all add: assms(3))
  have A: "entry_ok k' j" for j
  proof -
    note E = entry_okD [OF table_okD(1) [OF assms(1), of j]]
    show ?thesis
    proof (rule entry_okI)
      show "p_ofile (procs k' j) = (\<lambda>_. None)" if "p_state (procs k' j) = UNUSED \<or> p_state (procs k' j) = ZOMBIE"
        using that E(3) assms(2) same(6) [of j] by (cases "j = p") (auto simp: same(3))
      show "p_ofile (procs k' j) fd = None" if "NOFILE \<le> fd" for fd
        using that E(7) [of fd] assms(6) [of fd] by (simp add: assms(3))
    qed (unfold same(1-5) assms(5), (fact E)+)
  qed
  show "table_ok k'"
  proof (rule table_okI [OF A])
    show "procs k' j = proc_init" if "NPROC \<le> j" for j
      using that table_okD(2) [OF assms(1), of j] running_facts(1) [OF assms(1,2)] same(6) [of j] by auto
    show "i = j" if "p_state (procs k' i) \<noteq> UNUSED" "p_pid (procs k' i) = p_pid (procs k' j)" for i j
      using that unfolding same by (rule table_okD(3) [OF assms(1)])
    show "\<exists>ip. initproc k' = Some ip \<and> p_state (procs k' ip) \<noteq> UNUSED \<and> p_state (procs k' ip) \<noteq> ZOMBIE"
      using table_okD(4) [OF assms(1)] by (simp only: same assms(4))
    show "0 < nextpid k'" using table_okD(5) [OF assms(1)] by (simp add: assms(5))
  qed
  show "others_kept p k k'" "p_state (procs k' p) = RUNNING" using assms(2) by (simp_all add: others_kept_def same)
qed

lemma with_fd_table:
  assumes "table_ok k" "p_state (procs k p) = RUNNING" "procs k1 = procs k" "initproc k1 = initproc k" "nextpid k1 = nextpid k"
    "fd < NOFILE"
  shows "table_ok (with_fd p fd f k1)" "others_kept p k (with_fd p fd f k1)" "p_state (procs (with_fd p fd f k1) p) = RUNNING"
proof -
  have "procs (with_fd p fd f k1) = (procs k)(p := (procs k p)\<lparr>p_ofile := (p_ofile (procs k p))(fd := f)\<rparr>)"
    "initproc (with_fd p fd f k1) = initproc k" "nextpid (with_fd p fd f k1) = nextpid k"
    "NOFILE \<le> fd' \<Longrightarrow> ((p_ofile (procs k p))(fd := f)) fd' = None" for fd'
    using entry_okD(7) [OF table_okD(1) [OF assms(1), of p], of fd'] assms(3-6) by (simp_all add: with_fd_def)
  from fd_table [OF assms(1,2) this]
  show "table_ok (with_fd p fd f k1)" "others_kept p k (with_fd p fd f k1)" "p_state (procs (with_fd p fd f k1) p) = RUNNING"
    by blast+
qed

lemma argfd_Some: "argfd p n k = Some (fd, f) \<Longrightarrow> fd < NOFILE \<and> p_ofile (procs k p) fd = Some f"
  by (auto simp: argfd_def split: if_splits)

lemma fdalloc_cases:
  "fdalloc p f k = (r, k') \<Longrightarrow> (r = - 1 \<and> k' = k) \<or>
    (\<exists>fd. r = int fd \<and> fd < NOFILE \<and> p_ofile (procs k p) fd = None \<and> k' = with_fd p fd (Some f) k)"
  by (auto simp: fdalloc_def with_fd_def split: option.splits dest: find_upt_Some)

text \<open>\<open>close\<close> and \<open>dup\<close> never panic.\<close>

lemma sys_close_spec:
  assumes "table_ok k" "refs_ok k" "p_state (procs k p) = RUNNING"
  shows "\<exists>r k'. sys_close n p k = Some (r, k') \<and> table_ok k' \<and> refs_ok k' \<and> others_kept p k k' \<and> p_state (procs k' p) = RUNNING"
proof (cases "argfd p n k")
  case None
  then show ?thesis using assms by (simp add: sys_close_def)
next
  case (Some a)
  obtain fd f where a: "a = (fd, f)" by (cases a)
  note fd = argfd_Some [OF Some [unfolded a]]
  obtain k1 where k1: "fileclose f (with_fd p fd None k) = Some (with_fd p fd None k1)" "refs_ok (with_fd p fd None k1)"
    "k1 = k\<lparr>files := files k1, i_refs := i_refs k1\<rparr>"
    using close_ref [OF assms(2) conjunct2 [OF fd]] by blast
  have "procs k1 = procs k" "initproc k1 = initproc k" "nextpid k1 = nextpid k"
    by (subst k1(3), simp)+
  note T = with_fd_table [OF assms(1,3) this conjunct1 [OF fd], of None]
  have "sys_close n p k = Some (0, with_fd p fd None k1)"
    using Some a k1(1) by (simp add: sys_close_def with_fd_def)
  then show ?thesis using T k1(2) by blast
qed

lemma sys_dup_spec:
  assumes "table_ok k" "refs_ok k" "p_state (procs k p) = RUNNING"
  shows "\<exists>r k'. sys_dup n p k = Some (r, k') \<and> table_ok k' \<and> refs_ok k' \<and> others_kept p k k' \<and> p_state (procs k' p) = RUNNING"
proof (cases "argfd p n k")
  case None
  then show ?thesis using assms by (simp add: sys_dup_def)
next
  case (Some a)
  obtain fd f where a: "a = (fd, f)" by (cases a)
  note fd = argfd_Some [OF Some [unfolded a]]
  obtain r k2 where alloc: "fdalloc p f k = (r, k2)" by fastforce
  show ?thesis
  proof (cases "r = - 1 \<and> k2 = k")
    case True
    then show ?thesis using assms Some a alloc by (simp add: sys_dup_def)
  next
    case False
    then obtain fd' where fd': "r = int fd'" "fd' < NOFILE" "p_ofile (procs k p) fd' = None" "k2 = with_fd p fd' (Some f) k"
      using fdalloc_cases [OF alloc] by auto
    obtain k1 where k1: "refs_ok (with_fd p fd' (Some f) k1)" "k1 = k\<lparr>files := files k1\<rparr>"
      "filedup f k2 = Some (with_fd p fd' (Some f) k1)"
      using dup_ref [OF assms(2) conjunct2 [OF fd] fd'(3)] fd'(4) by blast
    have "procs k1 = procs k" "initproc k1 = initproc k" "nextpid k1 = nextpid k"
      by (subst k1(2), simp)+
    note T = with_fd_table [OF assms(1,3) this fd'(2), of "Some f"]
    have "sys_dup n p k = Some (r, with_fd p fd' (Some f) k1)"
      using Some a alloc k1(3) fd'(1) by (simp add: sys_dup_def)
    then show ?thesis using T k1(1) by blast
  qed
qed

lemma same_table:
  assumes "table_ok k" "procs k' = procs k" "initproc k' = initproc k" "nextpid k' = nextpid k"
  shows "table_ok k'" "others_kept p k k'"
  using assms live_change_refl [OF table_okD(1) [OF assms(1)]]
  by (auto intro!: live_change_table [OF assms(1)] simp: others_kept_def)

lemma open_fd_spec:
  assumes "table_ok k" "refs_ok k" "p_state (procs k p) = RUNNING"
  shows "\<exists>r k'. open_fd ty ip p (idup ip k) = Some (r, k') \<and> table_ok k' \<and> refs_ok k' \<and> others_kept p k k' \<and> p_state (procs k' p) = RUNNING"
proof -
  let ?k = "idup ip k"
  have k: "procs ?k = procs k" "files ?k = files k" "initproc ?k = initproc k" "nextpid ?k = nextpid k"
    by (simp_all add: idup_def)
  have rk: "refs_ok ?k" by (rule refs_same [OF assms(2)]) (simp_all add: k)
  show ?thesis
  proof (cases "find (\<lambda>f. f_ref (files ?k f) = 0) [0..<NFILE]")
    case None
    let ?k' = "iput_ref ip ?k"
    have k': "procs ?k' = procs k" "files ?k' = files k" "initproc ?k' = initproc k" "nextpid ?k' = nextpid k"
      by (simp_all add: iput_ref_def k)
    have "open_fd ty ip p ?k = Some (- 1, ?k')" using None by (simp add: open_fd_def filealloc_def)
    moreover have "refs_ok ?k'" by (rule refs_same [OF assms(2)]) (simp_all add: k')
    ultimately show ?thesis using same_table [OF assms(1) k'(1,3,4)] assms(3) k'(1) by simp
  next
    case (Some f)
    then have f0: "f_ref (files k f) = 0" using find_upt_Some [OF Some] by (simp add: k)
    then have none: "refs k f = {}" using assms(2) by (simp add: refs_ok_def)
    let ?k1 = "?k\<lparr>files := (files ?k)(f := (files ?k f)\<lparr>f_ref := 1\<rparr>)\<rparr>"
    have al: "filealloc ?k = (Some f, ?k1)" using Some by (simp add: filealloc_def)
    obtain r k2 where fa: "fdalloc p f ?k1 = (r, k2)" by fastforce
    show ?thesis
    proof (cases "r = - 1 \<and> k2 = ?k1")
      case True
      let ?ff = "(files k f)\<lparr>f_ref := 0, f_type := FD_NONE\<rparr>"
      obtain k' where k': "fileclose f ?k1 = Some k'" "procs k' = procs k" "initproc k' = initproc k" "nextpid k' = nextpid k"
        "files k' = (files k)(f := ?ff)"
        by (cases "f_type (files k f) = FD_INODE \<or> f_type (files k f) = FD_DEVICE")
          (simp_all add: fileclose_def k iput_ref_def)
      let ?k' = "iput_ref ip k'"
      have s: "procs ?k' = procs k" "initproc ?k' = initproc k" "nextpid ?k' = nextpid k" "files ?k' = (files k)(f := ?ff)"
        by (simp_all add: iput_ref_def k')
      have "refs ?k' g = refs k g" for g by (simp add: refs_def s(1))
      then have "refs_ok ?k'" using assms(2) f0 by (simp add: refs_ok_def s(4))
      moreover have "open_fd ty ip p ?k = Some (- 1, ?k')" using al fa True k'(1) by (simp add: open_fd_def)
      ultimately show ?thesis using same_table [OF assms(1) s(1-3)] assms(3) s(1) by simp
    next
      case False
      then obtain fd where fd: "r = int fd" "fd < NOFILE" "p_ofile (procs k p) fd = None" "k2 = with_fd p fd (Some f) ?k1"
        using fdalloc_cases [OF fa] by (auto simp: k)
      let ?fs = "(files k)(f := (files k f)\<lparr>f_ref := 1, f_type := ty, f_ip := ip\<rparr>)"
      let ?k' = "with_fd p fd (Some f) (?k\<lparr>files := ?fs\<rparr>)"
      have "open_fd ty ip p ?k = Some (r, ?k')" using al fa fd(1,4) by (simp add: open_fd_def k with_fd_def)
      moreover have "refs ?k' g = (if g = f then insert (p, fd) (refs k g) else refs k g)" for g
        using refs_with_fd(1) [of "?k\<lparr>files := ?fs\<rparr>" p fd f g] fd(3) by (simp add: k refs_def)
      then have "refs_ok ?k'" using assms(2) none by (auto simp: refs_ok_def)
      ultimately show ?thesis
        using with_fd_table [OF assms(1,3) _ _ _ fd(2), of "?k\<lparr>files := ?fs\<rparr>"] k by simp
    qed
  qed
qed

section \<open>Creating processes\<close>

text \<open>The entry a new process starts from.\<close>

definition fresh_proc :: "proc \<Rightarrow> int \<Rightarrow> u64 \<Rightarrow> u64 \<Rightarrow> proc" where
  "fresh_proc p pid frame pt = p\<lparr>p_pid := pid, p_state := USED, p_frame := frame, p_pagetable := pt\<rparr>"

lemma allocproc_cases:
  assumes "allocproc frame pt k = Some (r, k')"
  shows "(r = None \<and> k' = k \<and> (\<forall>j < NPROC. p_state (procs k j) \<noteq> UNUSED)) \<or>
    (\<exists>j. j < NPROC \<and> p_state (procs k j) = UNUSED \<and> (\<forall>i < j. p_state (procs k i) \<noteq> UNUSED) \<and> nextpid k < 2 ^ 31 - 1 \<and>
      ((r = None \<and> (frame = 0 \<or> pt = 0) \<and> k' = freeproc j (k\<lparr>nextpid := nextpid k + 1\<rparr>)) \<or>
       (r = Some j \<and> frame \<noteq> 0 \<and> pt \<noteq> 0 \<and>
        k' = k\<lparr>nextpid := nextpid k + 1, procs := (procs k)(j := fresh_proc (procs k j) (nextpid k) frame pt)\<rparr>)))"
proof (cases "find (\<lambda>j. p_state (procs k j) = UNUSED) [0..<NPROC]")
  case None
  then have "\<forall>j < NPROC. p_state (procs k j) \<noteq> UNUSED" by (simp add: find_upt_None)
  moreover have "r = None \<and> k' = k" using assms None by (simp add: allocproc_def)
  ultimately show ?thesis by blast
next
  case (Some j)
  have "j < NPROC" "p_state (procs k j) = UNUSED" "\<forall>i < j. p_state (procs k i) \<noteq> UNUSED"
    using find_upt_Some [OF Some] by simp_all
  moreover have "nextpid k < 2 ^ 31 - 1"
    "k' = (if frame = 0 \<or> pt = 0 then freeproc j (k\<lparr>nextpid := nextpid k + 1\<rparr>)
       else k\<lparr>nextpid := nextpid k + 1, procs := (procs k)(j := fresh_proc (procs k j) (nextpid k) frame pt)\<rparr>)"
    "r = (if frame = 0 \<or> pt = 0 then None else Some j)"
    using assms Some by (auto simp: allocproc_def allocpid_def Let_def guard_def freeproc_def fresh_proc_def split: if_splits)
  ultimately show ?thesis by auto
qed

lemma freeproc_unused:
  assumes "table_ok k" "p_state (procs k j) = UNUSED" "j < NPROC"
  shows "table_ok (freeproc j (k\<lparr>nextpid := nextpid k + 1\<rparr>))"
    "refs_ok k \<Longrightarrow> refs_ok (freeproc j (k\<lparr>nextpid := nextpid k + 1\<rparr>))"
    "p_state (procs k p) = RUNNING \<Longrightarrow> others_kept p k (freeproc j (k\<lparr>nextpid := nextpid k + 1\<rparr>))
      \<and> p_state (procs (freeproc j (k\<lparr>nextpid := nextpid k + 1\<rparr>)) p) = RUNNING"
proof -
  note E = entry_okD [OF table_okD(1) [OF assms(1), of j]]
  show "table_ok (freeproc j (k\<lparr>nextpid := nextpid k + 1\<rparr>))"
    using E(1) assms live_change_refl [OF table_okD(1) [OF assms(1)]]
    by (intro live_change_table [OF assms(1)]) (auto simp: freeproc_def live_change_def)
  show "refs_ok k \<Longrightarrow> refs_ok (freeproc j (k\<lparr>nextpid := nextpid k + 1\<rparr>))"
    by (erule refs_same) (simp_all add: freeproc_def)
qed (use assms(2) in \<open>auto simp: others_kept_def freeproc_def\<close>)

text \<open>A complete new entry with the next number and a live parent, or none.\<close>

lemma new_table:
  assumes "table_ok k" "p_state (procs k j) = UNUSED" "j < NPROC" "procs k' = (procs k)(j := q)" "nextpid k' = nextpid k + 1"
    "initproc k' = initproc k" "p_pid q = nextpid k" "p_state q = RUNNABLE" "p_priority q < 3"
    "\<And>fd. NOFILE \<le> fd \<Longrightarrow> p_ofile q fd = None"
    "\<And>x. p_parent q = Some x \<Longrightarrow> p_state (procs k x) \<noteq> UNUSED \<and> p_state (procs k x) \<noteq> ZOMBIE"
  shows "table_ok k'"
proof (rule table_okI)
  fix i
  note E = entry_okD [OF table_okD(1) [OF assms(1), of i]]
  have alive: "p_state (procs k' x) \<noteq> UNUSED \<and> p_state (procs k' x) \<noteq> ZOMBIE"
    if "p_state (procs k x) \<noteq> UNUSED \<and> p_state (procs k x) \<noteq> ZOMBIE" for x
    using that assms(8) by (simp add: assms(4))
  show "entry_ok k' i"
  proof (cases "i = j")
    case True
    show ?thesis
      by (rule entry_okI) (use True assms(5,7-11) table_okD(5) [OF assms(1)] alive in \<open>auto simp: assms(4)\<close>)
  next
    case False
    show ?thesis
    proof (rule entry_okI)
      show "p_state (procs k' x) \<noteq> UNUSED \<and> p_state (procs k' x) \<noteq> ZOMBIE" if "p_parent (procs k' i) = Some x" for x
        using E(8) [of x] that False alive by (simp add: assms(4))
      show "p_state (procs k' c) \<noteq> ZOMBIE"
        if "p_state (procs k' i) = SLEEPING" "p_chan (procs k' i) = Some (Proc_chan x)" "p_parent (procs k' c) = Some i" for x c
        using E(10) [of x c] that False assms(8) by (simp add: assms(4) split: if_splits)
    qed (use E(1-7,9) False in \<open>auto simp: assms(4,5)\<close>)
  qed
next
  fix a b
  have fresh: "p_pid (procs k x) < nextpid k" for x
    using entry_okD(1,2) [OF table_okD(1) [OF assms(1), of x]] table_okD(5) [OF assms(1)] by (cases "p_state (procs k x) = UNUSED") auto
  assume ab: "p_state (procs k' a) \<noteq> UNUSED" "p_pid (procs k' a) = p_pid (procs k' b)"
  show "a = b"
  proof (cases "a = j \<or> b = j")
    case True
    then show ?thesis using ab(2) fresh [of a] fresh [of b] assms(7) by (auto simp: assms(4) split: if_splits)
  next
    case False
    then show ?thesis using ab table_okD(3) [OF assms(1), of a b] by (simp add: assms(4))
  qed
next
  show "\<exists>ip. initproc k' = Some ip \<and> p_state (procs k' ip) \<noteq> UNUSED \<and> p_state (procs k' ip) \<noteq> ZOMBIE"
    using table_okD(4) [OF assms(1)] assms(2,8) by (auto simp: assms(4,6))
qed (use table_okD(2,5) [OF assms(1)] assms(3,5) in \<open>auto simp: assms(4)\<close>)

lemma dup_files_spec:
  assumes "refs_ok k" "distinct fds" "p \<noteq> np" "\<forall>fd \<in> set fds. p_ofile (procs k np) fd = None"
  shows "\<exists>k'. dup_files fds p np k = Some k' \<and> refs_ok k' \<and> nextpid k' = nextpid k \<and> initproc k' = initproc k
    \<and> procs k' = (procs k)(np := (procs k np)\<lparr>p_ofile := \<lambda>fd. if fd \<in> set fds then p_ofile (procs k p) fd else p_ofile (procs k np) fd\<rparr>)"
  using assms
proof (induction fds arbitrary: k)
  case Nil
  then show ?case by simp
next
  case (Cons fd fds)
  show ?case
  proof (cases "p_ofile (procs k p) fd")
    case None
    have eq: "(\<lambda>x. if x \<in> set fds then p_ofile (procs k p) x else p_ofile (procs k np) x)
      = (\<lambda>x. if x \<in> set (fd # fds) then p_ofile (procs k p) x else p_ofile (procs k np) x)"
      using None Cons.prems(4) by auto
    have "dup_files (fd # fds) p np k = dup_files fds p np k" using None by simp
    then show ?thesis using Cons.IH [OF Cons.prems(1) _ Cons.prems(3)] Cons.prems(2,4) unfolding eq by auto
  next
    case (Some f)
    obtain k1 where k1: "filedup f k = Some k1" "refs_ok (with_fd np fd (Some f) k1)" "k1 = k\<lparr>files := files k1\<rparr>"
      using dup_ref [OF Cons.prems(1) Some, of np fd] Cons.prems(4) by auto
    have same: "procs k1 = procs k" "initproc k1 = initproc k" "nextpid k1 = nextpid k" by (subst k1(3), simp)+
    let ?k = "with_fd np fd (Some f) k1"
    have procs: "procs ?k = (procs k)(np := (procs k np)\<lparr>p_ofile := (p_ofile (procs k np))(fd := Some f)\<rparr>)"
      by (simp add: with_fd_def same)
    have "\<forall>x \<in> set fds. p_ofile (procs ?k np) x = None" using Cons.prems(2,4) by (auto simp: procs)
    note IH = Cons.IH [OF k1(2) conjunct2 [OF Cons.prems(2) [unfolded distinct.simps]] Cons.prems(3) this]
    from IH obtain k' where k': "dup_files fds p np ?k = Some k'" "refs_ok k'" "nextpid k' = nextpid ?k" "initproc k' = initproc ?k"
      "procs k' = (procs ?k)(np := (procs ?k np)\<lparr>p_ofile := \<lambda>x. if x \<in> set fds then p_ofile (procs ?k p) x else p_ofile (procs ?k np) x\<rparr>)"
      by (elim exE conjE)
    have "(\<lambda>x. if x \<in> set fds then p_ofile (procs ?k p) x else p_ofile (procs ?k np) x)
      = (\<lambda>x. if x \<in> set (fd # fds) then p_ofile (procs k p) x else p_ofile (procs k np) x)"
      using Some Cons.prems(2,3) by (auto simp: procs)
    then have "procs k' = (procs k)(np := (procs k np)\<lparr>p_ofile := \<lambda>x. if x \<in> set (fd # fds) then p_ofile (procs k p) x else p_ofile (procs k np) x\<rparr>)"
      using k'(5) by (simp add: procs)
    moreover have "dup_files (fd # fds) p np k = Some k'" using k'(1) Some k1(1) by (simp add: with_fd_def)
    moreover have "nextpid k' = nextpid k" "initproc k' = initproc k" using k'(3,4) by (simp_all add: same)
    ultimately show ?thesis using k'(2) by blast
  qed
qed

text \<open>
  \<open>fork\<close>: without room or memory nothing but the number counter moves, and -1 comes back.  Otherwise
  the child is a new runnable process at the top priority with the next number, the descriptors of
  its parent and 0 as its own return value.
\<close>

definition child_of :: "kernel \<Rightarrow> nat \<Rightarrow> nat \<Rightarrow> u64 \<Rightarrow> u64 \<Rightarrow> proc" where
  "child_of k p j frame pt = (procs k j)\<lparr>p_pid := nextpid k, p_frame := frame, p_pagetable := pt, p_sz := p_sz (procs k p),
     p_tf := (p_tf (procs k p))\<lparr>tf_a0 := 0\<rparr>, p_ofile := p_ofile (procs k p), p_cwd := p_cwd (procs k p),
     p_name := take 15 (p_name (procs k p)), p_parent := Some p, p_state := RUNNABLE\<rparr>"

lemma fork_spec:
  assumes "table_ok k" "refs_ok k" "p_state (procs k p) = RUNNING" "p_cwd (procs k p) \<noteq> None" "nextpid k < 2 ^ 31 - 1"
  shows "\<exists>r k'. fork frame pt copied p k = Some (r, k') \<and> table_ok k' \<and> refs_ok k' \<and> others_kept p k k'
    \<and> p_state (procs k' p) = RUNNING
    \<and> (if frame \<noteq> 0 \<and> pt \<noteq> 0 \<and> copied \<and> (\<exists>j < NPROC. p_state (procs k j) = UNUSED)
       then r = nextpid k \<and> (\<exists>j. j < NPROC \<and> p_state (procs k j) = UNUSED \<and> (\<forall>i < j. p_state (procs k i) \<noteq> UNUSED)
         \<and> procs k' = (procs k)(j := child_of k p j frame pt))
       else r = - 1 \<and> (\<forall>i. p_state (procs k' i) = p_state (procs k i) \<and> p_pid (procs k' i) = p_pid (procs k i)))"
proof -
  obtain r k1 where al: "allocproc frame pt k = Some (r, k1)"
  proof (cases "find (\<lambda>j. p_state (procs k j) = UNUSED) [0..<NPROC]")
    case (Some j)
    then have "\<exists>r k1. allocproc frame pt k = Some (r, k1)"
      using assms(5) by (cases "frame = 0"; cases "pt = 0") (simp_all add: allocproc_def allocpid_def Let_def)
    then show thesis using that by blast
  qed (use that in \<open>simp add: allocproc_def\<close>)
  from allocproc_cases [OF al] consider
      "r = None" "k1 = k" "\<forall>j < NPROC. p_state (procs k j) \<noteq> UNUSED"
    | j where "r = None" "j < NPROC" "p_state (procs k j) = UNUSED" "k1 = freeproc j (k\<lparr>nextpid := nextpid k + 1\<rparr>)" "frame = 0 \<or> pt = 0"
    | j where "r = Some j" "j < NPROC" "p_state (procs k j) = UNUSED"
      "k1 = k\<lparr>nextpid := nextpid k + 1, procs := (procs k)(j := fresh_proc (procs k j) (nextpid k) frame pt)\<rparr>"
      "\<forall>i < j. p_state (procs k i) \<noteq> UNUSED" "frame \<noteq> 0" "pt \<noteq> 0"
    by blast
  then show ?thesis
  proof cases
    case 1
    then have "\<not> (\<exists>j < NPROC. p_state (procs k j) = UNUSED)" by blast
    moreover have "fork frame pt copied p k = Some (- 1, k)" using al 1(1,2) by (simp add: fork_def)
    ultimately show ?thesis using assms(1-3) by auto
  next
    case (2 j)
    have "fork frame pt copied p k = Some (- 1, k1)" using al 2(1) by (simp add: fork_def)
    moreover have "p_state (procs k1 i) = p_state (procs k i) \<and> p_pid (procs k1 i) = p_pid (procs k i)" for i
      using 2(3,4) entry_okD(1) [OF table_okD(1) [OF assms(1), of j]] by (simp add: freeproc_def)
    ultimately show ?thesis using freeproc_unused [OF assms(1) 2(3,2)] assms(2,3) 2(4,5) by auto
  next
    case (3 j)
    note E = entry_okD [OF table_okD(1) [OF assms(1), of j]]
    have jp: "j \<noteq> p" using 3(3) assms(3) by auto
    show ?thesis
    proof (cases copied)
      case False
      have "freeproc j k1 = freeproc j (k\<lparr>nextpid := nextpid k + 1\<rparr>)"
        unfolding 3(4) by (simp add: freeproc_def fresh_proc_def)
      moreover have "p_state (procs (freeproc j (k\<lparr>nextpid := nextpid k + 1\<rparr>)) i) = p_state (procs k i)
        \<and> p_pid (procs (freeproc j (k\<lparr>nextpid := nextpid k + 1\<rparr>)) i) = p_pid (procs k i)" for i
        using 3(3) E(1) by (simp add: freeproc_def)
      ultimately show ?thesis using al 3(1) False freeproc_unused [OF assms(1) 3(3,2)] assms(2,3) by (simp add: fork_def)
    next
      case True
      define k2 where "k2 = upd_proc j (\<lambda>q. q\<lparr>p_sz := p_sz (procs k1 p), p_tf := (p_tf (procs k1 p))\<lparr>tf_a0 := 0\<rparr>\<rparr>) k1"
      have p2: "procs k2 = (procs k)(j := (fresh_proc (procs k j) (nextpid k) frame pt)
          \<lparr>p_sz := p_sz (procs k p), p_tf := (p_tf (procs k p))\<lparr>tf_a0 := 0\<rparr>\<rparr>)" "files k2 = files k"
        "nextpid k2 = nextpid k + 1" "initproc k2 = initproc k"
        using jp by (simp_all add: 3(4) k2_def)
      have ro: "refs_ok k2" by (rule refs_same [OF assms(2)]) (simp_all add: p2(1,2) fresh_proc_def)
      have "\<forall>fd \<in> set [0..<NOFILE]. p_ofile (procs k2 j) fd = None" using E(3) 3(3) by (simp add: p2(1) fresh_proc_def)
      from dup_files_spec [OF ro distinct_upt jp [symmetric] this] obtain k3 where
        k3: "dup_files [0..<NOFILE] p j k2 = Some k3" "refs_ok k3" "nextpid k3 = nextpid k + 1" "initproc k3 = initproc k"
        "procs k3 = (procs k2)(j := (procs k2 j)\<lparr>p_ofile := \<lambda>fd. if fd \<in> set [0..<NOFILE] then p_ofile (procs k2 p) fd
           else p_ofile (procs k2 j) fd\<rparr>)"
        using p2(3,4) by auto
      have of: "(\<lambda>fd. if fd \<in> set [0..<NOFILE] then p_ofile (procs k2 p) fd else p_ofile (procs k2 j) fd) = p_ofile (procs k p)"
        using E(3) 3(3) jp entry_okD(7) [OF table_okD(1) [OF assms(1), of p]] by (auto simp: fun_eq_iff p2(1) fresh_proc_def)
      have p3: "procs k3 = (procs k)(j := (fresh_proc (procs k j) (nextpid k) frame pt)
          \<lparr>p_sz := p_sz (procs k p), p_tf := (p_tf (procs k p))\<lparr>tf_a0 := 0\<rparr>, p_ofile := p_ofile (procs k p)\<rparr>)"
        unfolding k3(5) of by (simp add: p2(1))
      obtain i where cwd: "p_cwd (procs k p) = Some i" using assms(4) by auto
      let ?q = "child_of k p j frame pt"
      let ?k' = "k3\<lparr>i_refs := (i_refs k3)(i := i_refs k3 i + 1), procs := (procs k)(j := ?q)\<rparr>"
      have "fork frame pt copied p k = Some (nextpid k, ?k')"
        using al 3(1) True k3(1) [unfolded k2_def] jp cwd unfolding fork_def
        by (simp add: p3 idup_def child_of_def fresh_proc_def Let_def)
      moreover have "refs_ok ?k'" by (rule refs_same [OF k3(2)]) (simp_all add: p3 child_of_def)
      moreover have "table_ok ?k'"
        by (rule new_table [OF assms(1) 3(3,2), where q = ?q])
          (use E(5) k3(3,4) entry_okD(7) [OF table_okD(1) [OF assms(1), of p]] assms(3) in \<open>auto simp: child_of_def\<close>)
      moreover have "others_kept p k ?k'" "p_state (procs ?k' p) = RUNNING"
        using 3(3) jp assms(3) by (auto simp: others_kept_def child_of_def)
      moreover have "procs ?k' = (procs k)(j := ?q)" by simp
      moreover have "frame \<noteq> 0 \<and> pt \<noteq> 0 \<and> copied \<and> (\<exists>j < NPROC. p_state (procs k j) = UNUSED)" using 3(2,3,6,7) True by blast
      ultimately show ?thesis using 3(2,3,5) by auto
    qed
  qed
qed

section \<open>Exit\<close>

lemma close_files_spec:
  assumes "refs_ok k" "distinct fds"
  shows "\<exists>k'. close_files fds p k = Some k' \<and> refs_ok k' \<and> nextpid k' = nextpid k \<and> initproc k' = initproc k
    \<and> procs k' = (procs k)(p := (procs k p)\<lparr>p_ofile := \<lambda>fd. if fd \<in> set fds then None else p_ofile (procs k p) fd\<rparr>)"
  using assms
proof (induction fds arbitrary: k)
  case Nil
  then show ?case by simp
next
  case (Cons fd fds)
  show ?case
  proof (cases "p_ofile (procs k p) fd")
    case None
    have eq: "(\<lambda>x. if x \<in> set fds then None else p_ofile (procs k p) x) = (\<lambda>x. if x \<in> set (fd # fds) then None else p_ofile (procs k p) x)"
      using None by auto
    have "close_files (fd # fds) p k = close_files fds p k" using None by simp
    then show ?thesis using Cons.IH [OF Cons.prems(1)] Cons.prems(2) unfolding eq by auto
  next
    case (Some f)
    obtain k1 where k1: "fileclose f k = Some k1" "refs_ok (with_fd p fd None k1)" "k1 = k\<lparr>files := files k1, i_refs := i_refs k1\<rparr>"
      using close_ref [OF Cons.prems(1) Some] by auto
    have same: "procs k1 = procs k" "initproc k1 = initproc k" "nextpid k1 = nextpid k" by (subst k1(3), simp)+
    let ?k = "with_fd p fd None k1"
    have procs: "procs ?k = (procs k)(p := (procs k p)\<lparr>p_ofile := (p_ofile (procs k p))(fd := None)\<rparr>)"
      by (simp add: with_fd_def same)
    from Cons.IH [OF k1(2) conjunct2 [OF Cons.prems(2) [unfolded distinct.simps]]]
    obtain k' where k': "close_files fds p ?k = Some k'" "refs_ok k'" "nextpid k' = nextpid ?k" "initproc k' = initproc ?k"
      "procs k' = (procs ?k)(p := (procs ?k p)\<lparr>p_ofile := \<lambda>x. if x \<in> set fds then None else p_ofile (procs ?k p) x\<rparr>)"
      by (elim exE conjE)
    have "(\<lambda>x. if x \<in> set fds then None else p_ofile (procs ?k p) x) = (\<lambda>x. if x \<in> set (fd # fds) then None else p_ofile (procs k p) x)"
      by (auto simp: procs)
    then have "procs k' = (procs k)(p := (procs k p)\<lparr>p_ofile := \<lambda>x. if x \<in> set (fd # fds) then None else p_ofile (procs k p) x\<rparr>)"
      using k'(5) by (simp add: procs)
    moreover have "close_files (fd # fds) p k = Some k'" using k'(1) Some k1(1) by (simp add: with_fd_def)
    moreover have "nextpid k' = nextpid k" "initproc k' = initproc k" using k'(3,4) by (simp_all add: same)
    ultimately show ?thesis using k'(2) by blast
  qed
qed

lemma reparent_table:
  assumes "table_ok k" "p_state (procs k p) = RUNNING" "initproc k \<noteq> Some p"
  shows "table_ok (reparent p p k)" "refs_ok k \<Longrightarrow> refs_ok (reparent p p k)" "others_kept p k (reparent p p k)"
    "procs (reparent p p k) p = procs k p \<or> procs (reparent p p k) p = (procs k p)\<lparr>p_parent := initproc k\<rparr>"
    "p_parent (procs (reparent p p k) j) \<noteq> Some p"
    "p_parent (procs (reparent p p k) j) = (if p_parent (procs k j) = Some p then initproc k else p_parent (procs k j))"
proof -
  let ?k = "reparent p p k"
  obtain ip where ip: "initproc k = Some ip" "p_state (procs k ip) \<noteq> UNUSED" "p_state (procs k ip) \<noteq> ZOMBIE"
    using table_okD(4) [OF assms(1)] by blast
  have ipp: "ip < NPROC" "ip \<noteq> p" using used_in_table [OF assms(1) ip(2)] assms(3) ip(1) by auto
  have child: "j < NPROC" if "p_parent (procs k j) = Some x" for j x
    using that table_okD(2) [OF assms(1), of j] by (cases "j < NPROC") (auto simp: proc_init_def)
  have rest: "nextpid ?k = nextpid k" "initproc ?k = initproc k" "files ?k = files k" by (simp_all add: reparent_eq)
  have procs: "procs ?k i = (let q = adopted (Some ip) p (procs k i) in
      if \<exists>j. p_parent (procs k j) = Some p then woken_by (Some p) (Some (Proc_chan ip)) i q else q)" for i
    using child [of i p] child [of _ p] by (auto simp: reparent_eq reparented_def ip(1) Let_def adopted_def)
  have same: "p_pid (procs ?k i) = p_pid (procs k i)" "p_chan (procs ?k i) = p_chan (procs k i)"
    "p_ofile (procs ?k i) = p_ofile (procs k i)" "p_priority (procs ?k i) = p_priority (procs k i)"
    "p_parent (procs ?k i) = (if p_parent (procs k i) = Some p then Some ip else p_parent (procs k i))"
    "p_state (procs ?k i) = (if (\<exists>j. p_parent (procs k j) = Some p) \<and> wakes (Some p) (Some (Proc_chan ip)) i (procs k i)
       then RUNNABLE else p_state (procs k i))" for i
    by (auto simp: procs Let_def adopted_def wakes_def)
  have st: "(p_state (procs ?k i) = UNUSED) = (p_state (procs k i) = UNUSED)"
    "(p_state (procs ?k i) = ZOMBIE) = (p_state (procs k i) = ZOMBIE)" "(p_state (procs ?k i) = USED) = (p_state (procs k i) = USED)"
    "(p_state (procs ?k i) = RUNNING) = (p_state (procs k i) = RUNNING)" "p_state (procs ?k i) = SLEEPING \<Longrightarrow> p_state (procs k i) = SLEEPING" for i
    by (auto simp: same(6) wakes_def split: if_splits)
  have A: "entry_ok ?k j" for j
  proof -
    note E = entry_okD [OF table_okD(1) [OF assms(1), of j]]
    show ?thesis
    proof (rule entry_okI)
      show "p_state (procs ?k q) \<noteq> UNUSED \<and> p_state (procs ?k q) \<noteq> ZOMBIE" if "p_parent (procs ?k j) = Some q" for q
        using that E(8) [of q] ip by (auto simp: st same(5) split: if_splits)
      show "p_state (procs ?k c) \<noteq> ZOMBIE"
        if a: "p_state (procs ?k j) = SLEEPING" "p_chan (procs ?k j) = Some (Proc_chan x)" "p_parent (procs ?k c) = Some j" for x c
      proof (cases "p_parent (procs k c) = Some p")
        case True
        then have "j = ip" using a(3) by (simp add: same)
        moreover have "x = j" using E(9) [of x] st(5) [OF a(1)] a(2) by (simp add: same)
        ultimately have "wakes (Some p) (Some (Proc_chan ip)) j (procs k j)"
          using a(2) st(5) [OF a(1)] ipp by (simp add: wakes_def same)
        then show ?thesis using a(1) exI [of "\<lambda>j. p_parent (procs k j) = Some p", OF True] by (simp add: same(6))
      next
        case False
        then show ?thesis using E(10) [of x c] st(5) [OF a(1)] a(2,3) by (simp add: st same)
      qed
      show "x = j" if "p_state (procs ?k j) = SLEEPING" "p_chan (procs ?k j) = Some (Proc_chan x)" for x
        using E(9) [of x] st(5) [OF that(1)] that(2) by (simp add: same)
      show "p_state (procs ?k j) = UNUSED \<Longrightarrow> p_pid (procs ?k j) = 0 \<and> p_parent (procs ?k j) = None \<and> p_priority (procs ?k j) = 0 \<and> p_chan (procs ?k j) = None"
        using E(1) by (simp add: st same(1-5))
    qed (use E(2-7) in \<open>simp_all add: st same(1-4) rest\<close>)
  qed
  show "table_ok ?k"
  proof (rule table_okI [OF A])
    show "procs ?k j = proc_init" if "NPROC \<le> j" for j
      using that table_okD(2) [OF assms(1) that] by (simp add: procs Let_def adopted_def woken_by_def wakes_def proc_init_def)
    show "i = j" if "p_state (procs ?k i) \<noteq> UNUSED" "p_pid (procs ?k i) = p_pid (procs ?k j)" for i j
      using that unfolding st same(1) by (rule table_okD(3) [OF assms(1)])
    show "\<exists>ip. initproc ?k = Some ip \<and> p_state (procs ?k ip) \<noteq> UNUSED \<and> p_state (procs ?k ip) \<noteq> ZOMBIE"
      using ip by (simp add: rest st)
    show "0 < nextpid ?k" using table_okD(5) [OF assms(1)] by (simp add: rest)
  qed
  show "refs_ok k \<Longrightarrow> refs_ok ?k" by (erule refs_same) (simp_all add: same rest)
  show "others_kept p k ?k" by (auto simp: others_kept_def same wakes_def)
  show "procs ?k p = procs k p \<or> procs ?k p = (procs k p)\<lparr>p_parent := initproc k\<rparr>"
    by (simp add: procs adopted_def woken_by_def wakes_def ip(1) Let_def)
  show "p_parent (procs ?k j) \<noteq> Some p" using ipp(2) by (simp add: same)
  show "p_parent (procs ?k j) = (if p_parent (procs k j) = Some p then initproc k else p_parent (procs k j))"
    by (simp add: same ip(1))
qed

text \<open>The end of \<open>exit\<close>: a process without children and descriptors whose parent is awake.\<close>

lemma zombie_table:
  assumes "table_ok k" "p_state (procs k p) = RUNNING" "initproc k \<noteq> Some p" "p_ofile (procs k p) = (\<lambda>_. None)"
    "\<And>j. p_parent (procs k j) \<noteq> Some p"
    "\<And>x. p_parent (procs k p) = Some x \<Longrightarrow> p_state (procs k x) \<noteq> SLEEPING \<or> p_chan (procs k x) \<noteq> Some (Proc_chan x)"
  shows "table_ok (upd_proc p (\<lambda>q. q\<lparr>p_xstate := status, p_state := ZOMBIE\<rparr>) k)" (is "table_ok ?k")
proof -
  have procs: "procs ?k i = (if i = p then (procs k p)\<lparr>p_xstate := status, p_state := ZOMBIE\<rparr> else procs k i)" for i by simp
  have rest: "nextpid ?k = nextpid k" "initproc ?k = initproc k" by simp_all
  have A: "entry_ok ?k j" for j
  proof -
    note E = entry_okD [OF table_okD(1) [OF assms(1), of j]]
    show ?thesis
    proof (rule entry_okI)
      show "p_state (procs ?k q) \<noteq> UNUSED \<and> p_state (procs ?k q) \<noteq> ZOMBIE" if "p_parent (procs ?k j) = Some q" for q
      proof -
        have "p_parent (procs k j) = Some q" using that by (simp split: if_splits)
        then show ?thesis using E(8) [of q] assms(5) [of j] by auto
      qed
      show "p_state (procs ?k c) \<noteq> ZOMBIE"
        if a: "p_state (procs ?k j) = SLEEPING" "p_chan (procs ?k j) = Some (Proc_chan x)" "p_parent (procs ?k c) = Some j" for x c
      proof -
        have j: "j \<noteq> p" "p_state (procs k j) = SLEEPING" "p_chan (procs k j) = Some (Proc_chan x)" "p_parent (procs k c) = Some j"
          using a by (auto split: if_splits)
        moreover have "x = j" using E(9) [of x] j by simp
        ultimately show ?thesis using E(10) [of x c] assms(6) [of j] by auto
      qed
    qed (use E(1-7,9) assms(2,4) in \<open>auto split: if_splits\<close>)
  qed
  show ?thesis
  proof (rule table_okI [OF A])
    show "procs ?k j = proc_init" if "NPROC \<le> j" for j
      using that table_okD(2) [OF assms(1) that] running_facts(1) [OF assms(1,2)] by simp
    show "i = j" if "p_state (procs ?k i) \<noteq> UNUSED" "p_pid (procs ?k i) = p_pid (procs ?k j)" for i j
    proof (rule table_okD(3) [OF assms(1)])
      show "p_state (procs k i) \<noteq> UNUSED" using that(1) assms(2) by (auto split: if_splits)
      show "p_pid (procs k i) = p_pid (procs k j)" using that(2) by (simp split: if_splits)
    qed
    show "\<exists>ip. initproc ?k = Some ip \<and> p_state (procs ?k ip) \<noteq> UNUSED \<and> p_state (procs ?k ip) \<noteq> ZOMBIE"
      using table_okD(4) [OF assms(1)] assms(3) by auto
    show "0 < nextpid ?k" using table_okD(5) [OF assms(1)] by simp
  qed
qed

lemma exit_spec:
  assumes "table_ok k" "refs_ok k" "p_state (procs k p) = RUNNING" "initproc k \<noteq> Some p" "p_cwd (procs k p) \<noteq> None"
  shows "\<exists>k'. exit_proc status p k = Some k' \<and> table_ok k' \<and> refs_ok k' \<and> others_kept p k k'
    \<and> p_state (procs k' p) = ZOMBIE \<and> p_xstate (procs k' p) = status \<and> (\<forall>j. p_parent (procs k' j) \<noteq> Some p)
    \<and> (\<forall>j. j \<noteq> p \<longrightarrow> (p_state (procs k' j) = ZOMBIE \<longleftrightarrow> p_state (procs k j) = ZOMBIE))
    \<and> p_pid (procs k' p) = p_pid (procs k p)
    \<and> (\<forall>j. p_parent (procs k' j) = (if p_parent (procs k j) = Some p then initproc k else p_parent (procs k j)))"
proof -
  obtain k1 where k1: "close_files [0..<NOFILE] p k = Some k1" "refs_ok k1" "nextpid k1 = nextpid k" "initproc k1 = initproc k"
    "procs k1 = (procs k)(p := (procs k p)\<lparr>p_ofile := \<lambda>fd. if fd \<in> set [0..<NOFILE] then None else p_ofile (procs k p) fd\<rparr>)"
    using close_files_spec [OF assms(2) distinct_upt, of 0 NOFILE p] by (elim exE conjE)
  have none: "(\<lambda>fd. if fd \<in> set [0..<NOFILE] then None else p_ofile (procs k p) fd) = (\<lambda>_. None)"
    using entry_okD(7) [OF table_okD(1) [OF assms(1), of p]] by (auto simp: fun_eq_iff)
  note T1 = fd_table [OF assms(1,3) k1(5) [unfolded none] k1(4,3)]
  obtain i where i: "p_cwd (procs k1 p) = Some i" using assms(5) by (auto simp: k1(5))
  define k2 where "k2 = upd_proc p (\<lambda>q. q\<lparr>p_cwd := None\<rparr>) (iput_ref i k1)"
  have k2: "procs k2 = (procs k1)(p := (procs k1 p)\<lparr>p_cwd := None\<rparr>)" "initproc k2 = initproc k1" "nextpid k2 = nextpid k1"
    "files k2 = files k1" by (simp_all add: k2_def iput_ref_def)
  have r2: "p_state (procs k2 p) = RUNNING" "p_ofile (procs k2 p) = (\<lambda>_. None)" "initproc k2 \<noteq> Some p"
    using T1(3) assms(4) none by (simp_all add: k2 k1(4,5))
  have T2: "table_ok k2" "refs_ok k2" "others_kept p k1 k2"
  proof -
    show "table_ok k2"
      by (rule live_change_table [OF T1(1)])
        (use live_change_refl [OF table_okD(1) [OF T1(1)]] running_facts(1) [OF T1(1,3)] in \<open>auto simp: k2 live_change_def\<close>)
    show "refs_ok k2" by (rule refs_same [OF k1(2)]) (simp_all add: k2)
  qed (simp add: others_kept_def k2)
  let ?k3 = "reparent p p k2"
  note T3 = reparent_table [OF T2(1) r2(1,3)]
  have r3: "p_state (procs ?k3 p) = RUNNING" "p_ofile (procs ?k3 p) = (\<lambda>_. None)" "initproc ?k3 \<noteq> Some p"
    using T3(4) r2 by (auto simp: reparent_eq)
  define ch where "ch = map_option Proc_chan (p_parent (procs ?k3 p))"
  define k4 where "k4 = wakeup (Some p) ch ?k3"
  note T4 = wakeup_table [OF T3(1), where cur = "Some p" and ch = ch, folded k4_def]
  have r4: "p_state (procs k4 p) = RUNNING" "p_ofile (procs k4 p) = (\<lambda>_. None)" "initproc k4 \<noteq> Some p"
    "p_parent (procs k4 j) \<noteq> Some p" for j
    using r3 T3(5) [of j] by (simp_all add: k4_def wakeup_eq wakes_def)
  have asleep: "p_state (procs k4 x) \<noteq> SLEEPING \<or> p_chan (procs k4 x) \<noteq> Some (Proc_chan x)" if "p_parent (procs k4 p) = Some x" for x
  proof -
    have par: "p_parent (procs ?k3 p) = Some x" using that by (simp add: k4_def wakeup_eq)
    then have "p_state (procs ?k3 x) \<noteq> UNUSED" "x \<noteq> p"
      using entry_okD(8) [OF table_okD(1) [OF T3(1), of p] par] T3(5) [of p] by auto
    then show ?thesis using used_in_table [OF T3(1)] par by (auto simp: k4_def wakeup_eq wakes_def ch_def)
  qed
  let ?k' = "upd_proc p (\<lambda>q. q\<lparr>p_xstate := status, p_state := ZOMBIE\<rparr>) k4"
  have "exit_proc status p k = Some ?k'"
    using assms(4) k1(1) i by (simp add: exit_proc_def Let_def k2_def [symmetric] k4_def ch_def)
  moreover have "table_ok ?k'" by (rule zombie_table [OF T4(1) r4(1,3,2,4) asleep])
  moreover have "refs_ok ?k'" by (rule upd_refs [OF T4(2) [OF T3(2) [OF T2(2)]]]) simp
  moreover have "others_kept p k ?k'"
    using T1(2) T2(3) T3(3) T4(3) by (blast intro: others_kept_trans others_kept_upd)
  moreover have "p_parent (procs ?k' j) \<noteq> Some p" for j using r4(4) [of j] r4(4) [of p] by simp
  moreover have "p_state (procs ?k' j) = ZOMBIE \<longleftrightarrow> p_state (procs k j) = ZOMBIE" if "j \<noteq> p" for j
    using that by (auto simp: k4_def wakeup_eq reparent_eq reparented_def adopted_def k2 k1(5) Let_def wakes_def woken_by_def)
  moreover have "p_pid (procs ?k' p) = p_pid (procs k p)"
    by (auto simp: k4_def wakeup_eq reparent_eq reparented_def adopted_def k2 k1(5) Let_def wakes_def woken_by_def)
  moreover have "p_parent (procs ?k' j) = (if p_parent (procs k j) = Some p then initproc k else p_parent (procs k j))" for j
  proof -
    have "p_parent (procs ?k' j) = p_parent (procs ?k3 j)" by (simp add: k4_def wakeup_eq)
    also have "\<dots> = (if p_parent (procs k2 j) = Some p then initproc k else p_parent (procs k2 j))"
      unfolding T3(6) by (simp add: k2 k1(4))
    finally show ?thesis by (simp add: k2 k1(5))
  qed
  ultimately show ?thesis by simp
qed

text \<open>What a call can have done, without asking that it does not panic.\<close>

lemma exit_partial:
  assumes "table_ok k" "refs_ok k" "p_state (procs k p) = RUNNING" "exit_proc status p k = Some k'"
  shows "table_ok k' \<and> refs_ok k' \<and> others_kept p k k' \<and> p_state (procs k' p) = ZOMBIE"
proof -
  have init: "initproc k \<noteq> Some p" using assms(4) by (auto simp: exit_proc_def)
  obtain k1 where k1: "close_files [0..<NOFILE] p k = Some k1"
    "procs k1 = (procs k)(p := (procs k p)\<lparr>p_ofile := \<lambda>fd. if fd \<in> set [0..<NOFILE] then None else p_ofile (procs k p) fd\<rparr>)"
    using close_files_spec [OF assms(2) distinct_upt, of 0 NOFILE p] by (elim exE conjE)
  have "p_cwd (procs k1 p) \<noteq> None" using assms(4) k1(1) by (auto simp: exit_proc_def)
  then have "p_cwd (procs k p) \<noteq> None" by (simp add: k1(2))
  from exit_spec [OF assms(1-3) init this, of status] show ?thesis using assms(4) by auto
qed

lemma fork_partial:
  assumes "table_ok k" "refs_ok k" "p_state (procs k p) = RUNNING" "fork frame pt copied p k = Some (r, k')"
  shows "table_ok k' \<and> refs_ok k' \<and> others_kept p k k' \<and> p_state (procs k' p) = RUNNING"
proof (cases "p_cwd (procs k p) = None \<or> \<not> nextpid k < 2 ^ 31 - 1")
  case False
  then show ?thesis using fork_spec [OF assms(1-3), of frame pt copied] assms(4) by auto
next
  case True
  obtain r1 k1 where al: "allocproc frame pt k = Some (r1, k1)" using assms(4) by (auto simp: fork_def)
  show ?thesis
  proof (cases r1)
    case None
    then have "k' = k1" using assms(4) al by (simp add: fork_def)
    then show ?thesis using allocproc_cases [OF al] None assms(1-3) freeproc_unused [OF assms(1)] by auto
  next
    case (Some j)
    from allocproc_cases [OF al] Some have j: "j < NPROC" "p_state (procs k j) = UNUSED" "nextpid k < 2 ^ 31 - 1"
      "k1 = k\<lparr>nextpid := nextpid k + 1, procs := (procs k)(j := fresh_proc (procs k j) (nextpid k) frame pt)\<rparr>" by auto
    have jp: "j \<noteq> p" using j(2) assms(3) by auto
    show ?thesis
    proof (cases copied)
      case False
      have "freeproc j k1 = freeproc j (k\<lparr>nextpid := nextpid k + 1\<rparr>)" unfolding j(4) by (simp add: freeproc_def fresh_proc_def)
      then have "k' = freeproc j (k\<lparr>nextpid := nextpid k + 1\<rparr>)" using assms(4) al Some False by (simp add: fork_def)
      then show ?thesis using freeproc_unused [OF assms(1) j(2,1)] assms(2,3) by simp
    next
      case copied: True
      define k2 where "k2 = upd_proc j (\<lambda>q. q\<lparr>p_sz := p_sz (procs k1 p), p_tf := (p_tf (procs k1 p))\<lparr>tf_a0 := 0\<rparr>\<rparr>) k1"
      have cwd: "p_cwd (procs k p) = None" using True j(3) by simp
      have ro: "refs_ok k2" by (rule refs_same [OF assms(2)]) (simp_all add: k2_def j(4) fresh_proc_def)
      have no: "\<forall>fd \<in> set [0..<NOFILE]. p_ofile (procs k2 j) fd = None"
        using entry_okD(3) [OF table_okD(1) [OF assms(1), of j]] j(2) by (simp add: k2_def j(4) fresh_proc_def)
      note dup = dup_files_spec [OF ro distinct_upt jp [symmetric] no]
      from dup obtain k3 where k3: "dup_files [0..<NOFILE] p j k2 = Some k3"
        "procs k3 = (procs k2)(j := (procs k2 j)\<lparr>p_ofile := \<lambda>fd. if fd \<in> set [0..<NOFILE] then p_ofile (procs k2 p) fd
           else p_ofile (procs k2 j) fd\<rparr>)"
        by (elim exE conjE)
      have "p_cwd (procs k3 p) = None" using cwd jp by (simp add: k3(2) k2_def j(4))
      then have "fork frame pt copied p k = None"
        using al Some copied k3(1) [unfolded k2_def] by (simp add: fork_def Let_def)
      then show ?thesis using assms(4) by simp
    qed
  qed
qed

section \<open>The first process\<close>

lemma userinit_ok:
  assumes "userinit frame pt root procinit = Some k"
  shows "table_ok k" "refs_ok k" "p_state (procs k j) \<noteq> RUNNING" "initproc k = Some 0" "p_state (procs k 0) = RUNNABLE"
    "ticks k = 0" "p_priority (procs k j) = 0" "0 < j \<Longrightarrow> procs k j = proc_init"
proof -
  have f: "find (\<lambda>j. p_state (procs procinit j) = UNUSED) [0..<NPROC] = Some 0"
    by (simp add: NPROC_def procinit_def proc_init_def upt_conv_Cons)
  obtain r k1 where al: "allocproc frame pt procinit = Some (r, k1)" "r \<noteq> None" using assms by (auto simp: userinit_def Let_def)
  have u: "p_state (procs procinit j) = UNUSED" for j by (simp add: procinit_def proc_init_def)
  have r: "r = Some 0" "k1 = procinit\<lparr>nextpid := 2, procs := (procs procinit)(0 := fresh_proc proc_init 1 frame pt)\<rparr>"
    using allocproc_cases [OF al(1)] al f unfolding allocproc_def f
    by (auto simp: allocpid_def Let_def procinit_def split: if_splits)
  have k: "k = k1\<lparr>initproc := Some 0, i_refs := (i_refs k1)(root := 1), procs := (procs k1)(0 := (fresh_proc proc_init 1 frame pt)
      \<lparr>p_sz := 4096, p_tf := \<lparr>tf_a0 = 0, tf_epc = 0, tf_sp = 4096, tf_regs = []\<rparr>, p_name := cstr ''initcode'',
       p_cwd := Some root, p_state := RUNNABLE\<rparr>)\<rparr>"
    using assms al(1) r by (simp add: userinit_def idup_def procinit_def fresh_proc_def proc_init_def)
  have procs: "procs k j = (if j = 0 then (fresh_proc proc_init 1 frame pt)
      \<lparr>p_sz := 4096, p_tf := \<lparr>tf_a0 = 0, tf_epc = 0, tf_sp = 4096, tf_regs = []\<rparr>, p_name := cstr ''initcode'',
       p_cwd := Some root, p_state := RUNNABLE\<rparr> else proc_init)" for j
    by (simp add: k r procinit_def)
  have rest: "nextpid k = 2" "initproc k = Some 0" "files k f = file_init" "ticks k = 0" for f
    by (simp_all add: k r procinit_def)
  show "table_ok k"
  proof (rule table_okI)
    show "entry_ok k j" for j by (simp add: entry_ok_def procs rest fresh_proc_def proc_init_def)
    show "i = j" if "p_state (procs k i) \<noteq> UNUSED" "p_pid (procs k i) = p_pid (procs k j)" for i j
      using that by (auto simp: procs proc_init_def fresh_proc_def split: if_splits)
  qed (simp_all add: procs rest NPROC_def fresh_proc_def)
  have "refs k f = {}" for f by (auto simp: refs_def procs fresh_proc_def proc_init_def split: if_splits)
  then show "refs_ok k" by (simp add: refs_ok_def rest file_init_def)
  show "p_state (procs k j) \<noteq> RUNNING" "initproc k = Some 0" "p_state (procs k 0) = RUNNABLE"
    "ticks k = 0" "p_priority (procs k j) = 0" "0 < j \<Longrightarrow> procs k j = proc_init"
    by (simp_all add: procs rest fresh_proc_def proc_init_def)
qed

end
