(* ===== verification/Xv6_Scheduler.thy ===== *)
theory Xv6_Scheduler
  imports Xv6_Proc
begin

text \<open>
  The MLFQ scheduler of LAB3 (\<open>scheduler\<close> in \<open>kernel/proc.c\<close>) on all CPUs, with the processes that
  run on them.  Each CPU executes the loop of \<open>scheduler\<close>; its phase says where in the loop it is.
  Levels and table positions are the variables \<open>i\<close> and \<open>p - proc\<close>.  A step is one critical section:

    \<^item> one turn of the scan (from \<open>acquire\<close> to \<open>release\<close>, or to the process that was switched to and
      releases the lock), which waits while another CPU holds the lock of the process;
    \<^item> the switch back, the load of the priority and its update, which are separate, because the
      boost of another CPU writes priorities without the lock; the build loads the priority once
      (\<open>kernel.asm\<close>);
    \<^item> one assignment of the boost;
    \<^item> one kernel call of the process a CPU runs, or one tick of the clock.  They take process
      locks one after the other and hold at most one, and happen here when no CPU is between a
      switch back and its \<open>release\<close>.
\<close>

datatype sched_phase =
    Scan nat nat
  | Run nat nat
  | Back nat nat
  | Adjust nat nat u32
  | Boost nat nat

record cpu =
  c_proc :: "nat option"
  c_phase :: sched_phase

record machine =
  kern :: kernel
  cpus :: "nat \<Rightarrow> cpu"

fun lock_of :: "sched_phase \<Rightarrow> nat option" where
  "lock_of (Back i j) = Some j"
| "lock_of (Adjust i j v) = Some j"
| "lock_of _ = None"

definition p_locked :: "nat \<Rightarrow> machine \<Rightarrow> nat \<Rightarrow> bool" where
  "p_locked n m j = list_ex (\<lambda>c. lock_of (c_phase (cpus m c)) = Some j) [0..<n]"

definition no_locks :: "nat \<Rightarrow> machine \<Rightarrow> bool" where
  "no_locks n m = list_all (\<lambda>c. lock_of (c_phase (cpus m c)) = None) [0..<n]"

definition set_phase :: "nat \<Rightarrow> sched_phase \<Rightarrow> machine \<Rightarrow> machine" where
  "set_phase c ph m = m\<lparr>cpus := (cpus m)(c := (cpus m c)\<lparr>c_phase := ph\<rparr>)\<rparr>"

definition set_cproc :: "nat \<Rightarrow> nat option \<Rightarrow> machine \<Rightarrow> machine" where
  "set_cproc c p m = m\<lparr>cpus := (cpus m)(c := (cpus m c)\<lparr>c_proc := p\<rparr>)\<rparr>"

text \<open>The head of the while loop; behind it the outer loop starts again at level 0.\<close>

definition next_level :: "nat \<Rightarrow> sched_phase" where
  "next_level i = (if i < NPRIO then Scan i 0 else Scan 0 0)"

definition switch_to :: "nat \<Rightarrow> kernel \<Rightarrow> kernel" where
  "switch_to j k =
     resume j (upd_proc j (\<lambda>p. p\<lparr>p_chosen := p_chosen p + 1, p_state := RUNNING\<rparr>) k)"

definition adjust_priority :: "nat \<Rightarrow> u32 \<Rightarrow> kernel \<Rightarrow> kernel" where
  "adjust_priority j v k =
     (if v > 0 \<and> p_state (procs k j) = SLEEPING then upd_proc j (\<lambda>p. p\<lparr>p_priority := v - 1\<rparr>) k
      else if v < of_nat NPRIO - 1 then upd_proc j (\<lambda>p. p\<lparr>p_priority := v + 1\<rparr>) k
      else k)"

text \<open>One step of CPU \<open>c\<close> of \<open>n\<close> in \<open>scheduler\<close>, with the process it switches to, if any.\<close>

definition sched_step :: "nat \<Rightarrow> nat \<Rightarrow> machine \<Rightarrow> (nat option \<times> machine) option" where
  "sched_step n c m =
     (case c_phase (cpus m c) of
        Scan i j \<Rightarrow>
          if j < NPROC then
            if p_locked n m j then None
            else if p_state (procs (kern m) j) = RUNNABLE \<and> p_priority (procs (kern m) j) = of_nat i then
              Some (Some j, set_phase c (Run i j) (set_cproc c (Some j) (m\<lparr>kern := switch_to j (kern m)\<rparr>)))
            else Some (None, set_phase c (Scan i (j + 1)) m)
          else if ticks (kern m) mod 16 = 0 then Some (None, set_phase c (Boost (i + 1) 0) m)
          else Some (None, set_phase c (next_level (i + 1)) m)
      | Run i j \<Rightarrow> None
      | Back i j \<Rightarrow> Some (None, set_phase c (Adjust i j (p_priority (procs (kern m) j))) m)
      | Adjust i j v \<Rightarrow>
          Some (None, set_phase c (Scan i (j + 1)) (set_cproc c None (m\<lparr>kern := adjust_priority j v (kern m)\<rparr>)))
      | Boost i j \<Rightarrow>
          if j < NPROC then
            Some (None, set_phase c (Boost i (j + 1)) (m\<lparr>kern := upd_proc j (\<lambda>p. p\<lparr>p_priority := 0\<rparr>) (kern m)\<rparr>))
          else Some (None, set_phase c (next_level i) m))"

text \<open>What a running process may ask of the kernel.\<close>

datatype kcall =
    Yield
  | Sleep chan
  | Wait u64 bool
  | Exit int
  | Wakeup chan
  | Kill int
  | Setkilled
  | Fork u64 u64 bool
  | Dup int
  | Close int
  | Open ftype nat

text \<open>The new state, and whether the process has switched back to the scheduler.\<close>

fun run_call :: "kcall \<Rightarrow> nat \<Rightarrow> kernel \<Rightarrow> (bool \<times> kernel) option" where
  "run_call Yield p k = Some (True, yield p k)"
| "run_call (Sleep ch) p k = (case ch of Proc_chan _ \<Rightarrow> None | _ \<Rightarrow> Some (True, sleep_on p ch k))"
| "run_call (Wait addr copied) p k = (let (r, k) = wait addr copied p k in Some (r = None, k))"
| "run_call (Exit status) p k = do { k \<leftarrow> exit_proc status p k; Some (True, k) }"
| "run_call (Wakeup ch) p k = Some (False, wakeup (Some p) (Some ch) k)"
| "run_call (Kill pid) p k = Some (False, snd (kill pid k))"
| "run_call Setkilled p k = Some (False, setkilled p k)"
| "run_call (Fork frame pt copied) p k = do { (_, k) \<leftarrow> fork frame pt copied p k; Some (False, k) }"
| "run_call (Dup fd) p k = do { (_, k) \<leftarrow> sys_dup fd p k; Some (False, k) }"
| "run_call (Close fd) p k = do { (_, k) \<leftarrow> sys_close fd p k; Some (False, k) }"
| "run_call (Open ty ip) p k = do { (_, k) \<leftarrow> open_fd ty ip p (idup ip k); Some (False, k) }"

definition call_step :: "nat \<Rightarrow> nat \<Rightarrow> kcall \<Rightarrow> machine \<Rightarrow> machine option" where
  "call_step n c call m =
     (case c_phase (cpus m c) of
        Run i j \<Rightarrow>
          if no_locks n m then do {
            (back, k) \<leftarrow> run_call call j (kern m);
            Some (set_phase c (if back then Back i j else Run i j) (m\<lparr>kern := k\<rparr>))
          }
          else None
      | _ \<Rightarrow> None)"

text \<open>The interrupt of the clock, which CPU 0 takes.\<close>

definition clockintr :: "nat \<Rightarrow> machine \<Rightarrow> machine option" where
  "clockintr n m =
     (if no_locks n m
      then let k = (kern m)\<lparr>ticks := ticks (kern m) + 1\<rparr> in Some (m\<lparr>kern := wakeup (c_proc (cpus m 0)) (Some Ticks_chan) k\<rparr>)
      else None)"

text \<open>
  A step of the machine with \<open>n\<close> CPUs, labelled by the process a CPU switches to, by the start of a
  new round over the levels, or neither.
\<close>

datatype label = Chose nat nat | Round nat | Other

definition sched_label :: "nat \<Rightarrow> nat option \<Rightarrow> machine \<Rightarrow> label" where
  "sched_label c r m' =
     (case r of Some p \<Rightarrow> Chose c p | None \<Rightarrow> if c_phase (cpus m' c) = Scan 0 0 then Round c else Other)"

inductive kstep :: "nat \<Rightarrow> label \<Rightarrow> machine \<Rightarrow> machine \<Rightarrow> bool" for n where
  sched: "c < n \<Longrightarrow> sched_step n c m = Some (r, m') \<Longrightarrow> kstep n (sched_label c r m') m m'"
| call: "c < n \<Longrightarrow> call_step n c call m = Some m' \<Longrightarrow> kstep n Other m m'"
| tick: "clockintr n m = Some m' \<Longrightarrow> kstep n Other m m'"

inductive_cases kstepE: "kstep n l m m'"

inductive kruns :: "nat \<Rightarrow> machine \<Rightarrow> label list \<Rightarrow> machine \<Rightarrow> bool" for n where
  kruns_Nil: "kruns n m [] m"
| kruns_snoc: "kruns n m ls m' \<Longrightarrow> kstep n l m' m'' \<Longrightarrow> kruns n m (ls @ [l]) m''"

text \<open>The machine when the CPUs enter \<open>scheduler\<close>, the first process made.\<close>

definition booted :: "u64 \<Rightarrow> u64 \<Rightarrow> nat \<Rightarrow> machine option" where
  "booted frame pt root = do {
     k \<leftarrow> userinit frame pt root procinit;
     Some \<lparr>kern = k, cpus = (\<lambda>_. \<lparr>c_proc = None, c_phase = Scan 0 0\<rparr>)\<rparr>
   }"

end
