(* ===== verification/Xv6_Sched_Props.thy ===== *)
theory Xv6_Sched_Props
  imports Xv6_Scheduler Xv6_Proc_Props Transition_System
begin

text \<open>
  What holds in every state the scheduler and the processes reach on any number of CPUs: the
  invariant of the machine, kept by every step.
\<close>

section \<open>The invariant of the machine\<close>

fun proc_of :: "sched_phase \<Rightarrow> nat option" where
  "proc_of (Run i j) = Some j"
| "proc_of (Back i j) = Some j"
| "proc_of (Adjust i j v) = Some j"
| "proc_of _ = None"

fun phase_ok :: "sched_phase \<Rightarrow> bool" where
  "phase_ok (Scan i j) \<longleftrightarrow> i < 3 \<and> j \<le> NPROC"
| "phase_ok (Run i j) \<longleftrightarrow> i < 3 \<and> j < NPROC"
| "phase_ok (Back i j) \<longleftrightarrow> i < 3 \<and> j < NPROC"
| "phase_ok (Adjust i j v) \<longleftrightarrow> i < 3 \<and> j < NPROC \<and> v < 3"
| "phase_ok (Boost i j) \<longleftrightarrow> 0 < i \<and> i \<le> 3 \<and> j \<le> NPROC"

definition cpus_ok :: "nat \<Rightarrow> machine \<Rightarrow> bool" where
  "cpus_ok n m \<longleftrightarrow> (\<forall>c < n. c_proc (cpus m c) = proc_of (c_phase (cpus m c)) \<and> phase_ok (c_phase (cpus m c)))
     \<and> (\<forall>c < n. \<forall>d < n. \<forall>j. proc_of (c_phase (cpus m c)) = Some j \<and> proc_of (c_phase (cpus m d)) = Some j \<longrightarrow> c = d)
     \<and> (\<forall>j. p_state (procs (kern m) j) = RUNNING \<longleftrightarrow> (\<exists>c < n. \<exists>i. c_phase (cpus m c) = Run i j))
     \<and> (\<forall>c < n. \<forall>j. lock_of (c_phase (cpus m c)) = Some j \<longrightarrow> p_state (procs (kern m) j) \<noteq> UNUSED)"

definition machine_ok :: "nat \<Rightarrow> machine \<Rightarrow> bool" where
  "machine_ok n m \<longleftrightarrow> table_ok (kern m) \<and> refs_ok (kern m) \<and> cpus_ok n m"

lemma cpus_okD:
  assumes "cpus_ok n m"
  shows "c < n \<Longrightarrow> c_proc (cpus m c) = proc_of (c_phase (cpus m c))" "c < n \<Longrightarrow> phase_ok (c_phase (cpus m c))"
    "c < n \<Longrightarrow> d < n \<Longrightarrow> proc_of (c_phase (cpus m c)) = Some j \<Longrightarrow> proc_of (c_phase (cpus m d)) = Some j \<Longrightarrow> c = d"
    "p_state (procs (kern m) j) = RUNNING \<longleftrightarrow> (\<exists>c < n. \<exists>i. c_phase (cpus m c) = Run i j)"
    "c < n \<Longrightarrow> lock_of (c_phase (cpus m c)) = Some j \<Longrightarrow> p_state (procs (kern m) j) \<noteq> UNUSED"
  using assms unfolding cpus_ok_def by blast+

lemma p_locked_iff: "p_locked n m j \<longleftrightarrow> (\<exists>c < n. lock_of (c_phase (cpus m c)) = Some j)"
  by (auto simp: p_locked_def list_ex_iff)

lemma no_locks_iff: "no_locks n m \<longleftrightarrow> (\<forall>c < n. lock_of (c_phase (cpus m c)) = None)"
  by (auto simp: no_locks_def list_all_iff)

lemma set_simps [simp]: "kern (set_phase c ph m) = kern m" "kern (set_cproc c p m) = kern m"
  "cpus (set_phase c ph m) = (cpus m)(c := (cpus m c)\<lparr>c_phase := ph\<rparr>)"
  "cpus (set_cproc c p m) = (cpus m)(c := (cpus m c)\<lparr>c_proc := p\<rparr>)"
  by (simp_all add: set_phase_def set_cproc_def)

text \<open>A step of CPU \<open>c\<close>, by the phase it goes to.\<close>

lemma cpus_step:
  assumes "cpus_ok n m" "c < n" "cpus m' = (cpus m)(c := \<lparr>c_proc = proc_of ph, c_phase = ph\<rparr>)" "phase_ok ph"
    "\<And>d j. d < n \<Longrightarrow> d \<noteq> c \<Longrightarrow> proc_of ph = Some j \<Longrightarrow> proc_of (c_phase (cpus m d)) \<noteq> Some j"
    "\<And>j. p_state (procs (kern m') j) = RUNNING \<longleftrightarrow> (\<exists>i. ph = Run i j)
       \<or> (p_state (procs (kern m) j) = RUNNING \<and> (\<forall>i. c_phase (cpus m c) \<noteq> Run i j))"
    "\<And>j. lock_of ph = Some j \<Longrightarrow> p_state (procs (kern m') j) \<noteq> UNUSED"
    "\<And>d j. d < n \<Longrightarrow> d \<noteq> c \<Longrightarrow> lock_of (c_phase (cpus m d)) = Some j \<Longrightarrow> p_state (procs (kern m) j) \<noteq> UNUSED
       \<Longrightarrow> p_state (procs (kern m') j) \<noteq> UNUSED"
  shows "cpus_ok n m'"
proof -
  note I = cpus_okD [OF assms(1)]
  have "c_proc (cpus m' d) = proc_of (c_phase (cpus m' d)) \<and> phase_ok (c_phase (cpus m' d))" if "d < n" for d
    using that I(1,2) [of d] assms(3,4) by simp
  moreover have "d = e" if "d < n" "e < n" "proc_of (c_phase (cpus m' d)) = Some j" "proc_of (c_phase (cpus m' e)) = Some j" for d e j
    using that I(3) [of d e j] assms(3) assms(5) [of d j] assms(5) [of e j] by (auto split: if_splits)
  moreover have "p_state (procs (kern m') j) = RUNNING \<longleftrightarrow> (\<exists>d < n. \<exists>i. c_phase (cpus m' d) = Run i j)" for j
  proof -
    have "(\<exists>d < n. \<exists>i. c_phase (cpus m' d) = Run i j) \<longleftrightarrow> (\<exists>i. ph = Run i j) \<or> (\<exists>d < n. d \<noteq> c \<and> (\<exists>i. c_phase (cpus m d) = Run i j))"
      using assms(2,3) by (auto simp: fun_upd_def)
    moreover have "(\<exists>d < n. d \<noteq> c \<and> (\<exists>i. c_phase (cpus m d) = Run i j))
        \<longleftrightarrow> p_state (procs (kern m) j) = RUNNING \<and> (\<forall>i. c_phase (cpus m c) \<noteq> Run i j)"
    proof
      assume "\<exists>d < n. d \<noteq> c \<and> (\<exists>i. c_phase (cpus m d) = Run i j)"
      then obtain d i where d: "d < n" "d \<noteq> c" "c_phase (cpus m d) = Run i j" by blast
      then have "c_phase (cpus m c) \<noteq> Run i' j" for i' using I(3) [of c d j] assms(2) by auto
      then show "p_state (procs (kern m) j) = RUNNING \<and> (\<forall>i. c_phase (cpus m c) \<noteq> Run i j)" using I(4) [of j] d by blast
    next
      assume "p_state (procs (kern m) j) = RUNNING \<and> (\<forall>i. c_phase (cpus m c) \<noteq> Run i j)"
      then show "\<exists>d < n. d \<noteq> c \<and> (\<exists>i. c_phase (cpus m d) = Run i j)" using I(4) [of j] by blast
    qed
    ultimately show ?thesis using assms(6) [of j] by simp
  qed
  moreover have "p_state (procs (kern m') j) \<noteq> UNUSED" if "d < n" "lock_of (c_phase (cpus m' d)) = Some j" for d j
    using that I(5) [of d j] assms(3) assms(7) [of j] assms(8) [of d j] by (auto split: if_splits)
  ultimately show ?thesis unfolding cpus_ok_def by blast
qed

section \<open>Every step keeps it\<close>

lemma switch_to_simps: "procs (switch_to j k) i = (if i = j then (procs k j)\<lparr>p_chosen := p_chosen (procs k j) + 1,
    p_state := RUNNING, p_chan := None\<rparr> else procs k i)" "files (switch_to j k) = files k" "initproc (switch_to j k) = initproc k"
  "nextpid (switch_to j k) = nextpid k" "ticks (switch_to j k) = ticks k"
  by (simp_all add: switch_to_def resume_def)

lemma switch_to_table:
  assumes "table_ok k" "p_state (procs k j) = RUNNABLE" "j < NPROC"
  shows "table_ok (switch_to j k)" "refs_ok k \<Longrightarrow> refs_ok (switch_to j k)"
proof -
  note L = live_change_refl [OF table_okD(1) [OF assms(1)]]
  show "table_ok (switch_to j k)"
    by (rule live_change_table [OF assms(1)]) (use L [of j] L assms(2,3) in \<open>auto simp: switch_to_simps live_change_def\<close>)
  show "refs_ok k \<Longrightarrow> refs_ok (switch_to j k)" by (erule refs_same) (simp_all add: switch_to_simps)
qed

text \<open>Assigning a priority below \<open>NPRIO\<close> to a process of the table.\<close>

lemma priority_table:
  assumes "table_ok k" "v < 3" "p_state (procs k j) \<noteq> UNUSED \<or> v = 0" "j < NPROC"
  shows "table_ok (upd_proc j (\<lambda>p. p\<lparr>p_priority := v\<rparr>) k)" "refs_ok k \<Longrightarrow> refs_ok (upd_proc j (\<lambda>p. p\<lparr>p_priority := v\<rparr>) k)"
  using live_change_refl [OF table_okD(1) [OF assms(1), of j]] assms
  by (auto simp: live_change_def intro!: upd_table upd_refs)

lemma u32_dec: "(v :: u32) < 3 \<Longrightarrow> 0 < v \<Longrightarrow> v - 1 < 3"
  by unat_arith

lemma u32_inc: "(v :: u32) < 2 \<Longrightarrow> v + 1 < 3"
  by unat_arith

lemma adjust_priority_cases:
  "adjust_priority j v k = k \<or> (\<exists>w. adjust_priority j v k = upd_proc j (\<lambda>p. p\<lparr>p_priority := w\<rparr>) k \<and> (v < 3 \<longrightarrow> w < 3))"
  using u32_dec [of v] u32_inc [of v] by (auto simp: adjust_priority_def NPRIO_def)

lemma adjust_table:
  assumes "table_ok k" "v < 3" "p_state (procs k j) \<noteq> UNUSED"
  shows "table_ok (adjust_priority j v k)" "refs_ok k \<Longrightarrow> refs_ok (adjust_priority j v k)"
    "p_state (procs (adjust_priority j v k) i) = p_state (procs k i)"
  using adjust_priority_cases [of j v k] priority_table [OF assms(1) _ disjI1 [OF assms(3)] used_in_table [OF assms(1,3)]] assms
  by auto

lemma run_call_ok:
  assumes "table_ok k" "refs_ok k" "p_state (procs k p) = RUNNING" "run_call call p k = Some (back, k')"
  shows "table_ok k' \<and> refs_ok k' \<and> others_kept p k k' \<and> p_state (procs k' p) \<noteq> UNUSED
    \<and> (p_state (procs k' p) = RUNNING \<longleftrightarrow> \<not> back)"
proof (cases call)
  case Yield
  then show ?thesis using assms yield_table [OF assms(1,3)] by simp
next
  case (Sleep ch)
  then have "\<forall>x. ch \<noteq> Proc_chan x" using assms(4) by auto
  then show ?thesis using assms Sleep sleep_table [OF assms(1,3), of ch] by (cases ch) auto
next
  case (Wait addr copied)
  obtain r k1 where w: "wait addr copied p k = (r, k1)" by fastforce
  then have "back \<longleftrightarrow> r = None" "k' = k1" using assms(4) Wait by auto
  then show ?thesis using wait_table [OF assms(1,3) w] assms(2) by auto
next
  case (Exit status)
  then show ?thesis using assms exit_partial [OF assms(1-3)] by auto
next
  case (Wakeup ch)
  have s: "p_state (procs (wakeup (Some p) (Some ch) k) p) = RUNNING" using wakeup_table(4) [OF assms(1), of "Some p" p] assms(3) by simp
  then show ?thesis using assms Wakeup wakeup_table(1-3) [OF assms(1)] by auto
next
  case (Kill pid)
  then show ?thesis using assms kill_table [OF assms(1,3)] by auto
next
  case Setkilled
  then show ?thesis using assms setkilled_table [OF assms(1) running_facts(1) [OF assms(1,3)]] by auto
next
  case (Fork frame pt copied)
  then show ?thesis using assms fork_partial [OF assms(1-3)] by auto
next
  case (Dup fd)
  then show ?thesis using assms(4) sys_dup_spec [OF assms(1-3), of fd] by auto
next
  case (Close fd)
  then show ?thesis using assms(4) sys_close_spec [OF assms(1-3), of fd] by auto
next
  case (Open ty ip)
  then show ?thesis using assms(4) open_fd_spec [OF assms(1-3), of ty ip] by auto
qed

lemma next_level_ok: "i \<le> 3 \<Longrightarrow> phase_ok (next_level i) \<and> proc_of (next_level i) = None \<and> (\<forall>a b. next_level i \<noteq> Run a b)"
  by (auto simp: next_level_def NPRIO_def)

lemma machine_okD: "machine_ok n m \<Longrightarrow> table_ok (kern m)" "machine_ok n m \<Longrightarrow> refs_ok (kern m)" "machine_ok n m \<Longrightarrow> cpus_ok n m"
  by (simp_all add: machine_ok_def)

lemma proc_of_lock: "proc_of ph = None \<Longrightarrow> lock_of ph = None"
  by (cases ph) auto

text \<open>A phase change without a process before and behind it.\<close>

lemma free_step:
  assumes "machine_ok n m" "c < n" "proc_of (c_phase (cpus m c)) = None" "proc_of ph = None" "phase_ok ph"
    "cpus m' = (cpus m)(c := (cpus m c)\<lparr>c_phase := ph\<rparr>)" "table_ok (kern m')" "refs_ok (kern m')"
    "\<And>j. p_state (procs (kern m') j) = p_state (procs (kern m) j)"
  shows "machine_ok n m'"
proof -
  have "c_proc (cpus m c) = None" using cpus_okD(1) [OF machine_okD(3) [OF assms(1)] assms(2)] assms(3) by simp
  then have "cpus m' = (cpus m)(c := \<lparr>c_proc = proc_of ph, c_phase = ph\<rparr>)" using assms(4,6) by (cases "cpus m c") simp
  then have "cpus_ok n m'"
    by (rule cpus_step [OF machine_okD(3) [OF assms(1)] assms(2) _ assms(5)]) (use assms(3,4,9) in \<open>auto simp: proc_of_lock\<close>)
  then show ?thesis using assms(7,8) by (simp add: machine_ok_def)
qed

lemma sched_step_ok:
  assumes "machine_ok n m" "c < n" "sched_step n c m = Some (r, m')"
  shows "machine_ok n m'"
proof -
  note T = machine_okD(1) [OF assms(1)] and R = machine_okD(2) [OF assms(1)] and C = machine_okD(3) [OF assms(1)]
  note I = cpus_okD [OF C]
  have ok: "phase_ok (c_phase (cpus m c))" by (rule I(2) [OF assms(2)])
  show ?thesis
  proof (cases "c_phase (cpus m c)")
    case (Scan i j)
    show ?thesis
    proof (cases "j < NPROC")
      case False
      let ?ph = "if ticks (kern m) mod 16 = 0 then Boost (i + 1) 0 else next_level (i + 1)"
      have "m' = set_phase c ?ph m" using assms(3) Scan False by (simp add: sched_step_def split: if_splits)
      moreover have "phase_ok ?ph" "proc_of ?ph = None" using ok Scan next_level_ok [of "i + 1"] by simp_all
      ultimately show ?thesis using Scan T R by (intro free_step [OF assms(1,2), where ph = ?ph]) simp_all
    next
      case True
      have unlocked: "\<not> p_locked n m j" using assms(3) Scan True by (auto simp: sched_step_def)
      show ?thesis
      proof (cases "p_state (procs (kern m) j) = RUNNABLE \<and> p_priority (procs (kern m) j) = of_nat i")
        case False
        then have "m' = set_phase c (Scan i (j + 1)) m" using assms(3) Scan True unlocked by (auto simp: sched_step_def)
        then show ?thesis using Scan True ok T R by (intro free_step [OF assms(1,2), where ph = "Scan i (j + 1)"]) simp_all
      next
        case choose: True
        then have m': "m' = set_phase c (Run i j) (set_cproc c (Some j) (m\<lparr>kern := switch_to j (kern m)\<rparr>))"
          using assms(3) Scan True unlocked by (auto simp: sched_step_def)
        have "cpus_ok n m'"
        proof (rule cpus_step [OF C assms(2), where ph = "Run i j"])
          show "proc_of (c_phase (cpus m d)) \<noteq> Some x" if "d < n" "d \<noteq> c" "proc_of (Run i j) = Some x" for d x
            using that unlocked I(4) [of j] choose by (cases "c_phase (cpus m d)") (auto simp: p_locked_iff)
        qed (use ok Scan True in \<open>auto simp: m' switch_to_simps\<close>)
        moreover have "table_ok (kern m')" "refs_ok (kern m')"
          using switch_to_table [OF T conjunct1 [OF choose] True] R by (simp_all add: m')
        ultimately show ?thesis by (simp add: machine_ok_def)
      qed
    qed
  next
    case (Run i j)
    then show ?thesis using assms(3) by (simp add: sched_step_def)
  next
    case (Back i j)
    let ?ph = "Adjust i j (p_priority (procs (kern m) j))"
    have m': "m' = set_phase c ?ph m" using assms(3) Back by (simp add: sched_step_def)
    have "c_proc (cpus m c) = Some j" using I(1) [OF assms(2)] Back by simp
    then have "cpus m' = (cpus m)(c := \<lparr>c_proc = proc_of ?ph, c_phase = ?ph\<rparr>)" by (cases "cpus m c") (simp add: m')
    then have "cpus_ok n m'"
    proof (rule cpus_step [OF C assms(2)])
      show "proc_of (c_phase (cpus m d)) \<noteq> Some x" if "d < n" "d \<noteq> c" "proc_of ?ph = Some x" for d x
        using I(3) [of c d x] that assms(2) Back by auto
      show "p_state (procs (kern m') x) \<noteq> UNUSED" if "lock_of ?ph = Some x" for x
        using that I(5) [OF assms(2), of x] Back by (simp add: m')
    qed (use ok Back entry_okD(5) [OF table_okD(1) [OF T, of j]] in \<open>auto simp: m'\<close>)
    then show ?thesis using T R by (simp add: machine_ok_def m')
  next
    case (Adjust i j v)
    have m': "m' = set_phase c (Scan i (j + 1)) (set_cproc c None (m\<lparr>kern := adjust_priority j v (kern m)\<rparr>))"
      using assms(3) Adjust by (simp add: sched_step_def)
    have "p_state (procs (kern m) j) \<noteq> UNUSED" using I(5) [OF assms(2), of j] Adjust by simp
    note A = adjust_table [OF T _ this, of v]
    have "cpus m' = (cpus m)(c := \<lparr>c_proc = proc_of (Scan i (j + 1)), c_phase = Scan i (j + 1)\<rparr>)" by (cases "cpus m c") (simp add: m')
    then have "cpus_ok n m'"
      by (rule cpus_step [OF C assms(2)]) (use ok Adjust A(3) in \<open>auto simp: m'\<close>)
    then show ?thesis using A(1,2) R ok Adjust by (simp add: machine_ok_def m')
  next
    case (Boost i j)
    show ?thesis
    proof (cases "j < NPROC")
      case True
      then have m': "m' = set_phase c (Boost i (j + 1)) (m\<lparr>kern := upd_proc j (\<lambda>p. p\<lparr>p_priority := 0\<rparr>) (kern m)\<rparr>)"
        using assms(3) Boost by (simp add: sched_step_def)
      show ?thesis
        using Boost True ok priority_table [OF T _ _ True, of 0] R
        by (intro free_step [OF assms(1,2), where ph = "Boost i (j + 1)"]) (simp_all add: m')
    next
      case False
      then have "m' = set_phase c (next_level i) m" using assms(3) Boost by (simp add: sched_step_def)
      then show ?thesis using Boost ok T R next_level_ok [of i]
        by (intro free_step [OF assms(1,2), where ph = "next_level i"]) simp_all
    qed
  qed
qed

lemma call_step_ok:
  assumes "machine_ok n m" "c < n" "call_step n c call m = Some m'"
  shows "machine_ok n m'" "\<exists>i p blk. c_phase (cpus m c) = Run i p \<and> run_call call p (kern m) = Some (blk, kern m')
    \<and> others_kept p (kern m) (kern m') \<and> cpus m' = (cpus m)(c := (cpus m c)\<lparr>c_phase := if blk then Back i p else Run i p\<rparr>)
    \<and> no_locks n m"
proof -
  note C = machine_okD(3) [OF assms(1)]
  note I = cpus_okD [OF C]
  obtain i p where run: "c_phase (cpus m c) = Run i p" using assms(3) by (auto simp: call_step_def split: sched_phase.splits)
  then obtain blk k' where k': "no_locks n m" "run_call call p (kern m) = Some (blk, k')"
    "m' = set_phase c (if blk then Back i p else Run i p) (m\<lparr>kern := k'\<rparr>)"
    using assms(3) by (auto simp: call_step_def split: if_splits)
  have r: "p_state (procs (kern m) p) = RUNNING" using I(4) [of p] assms(2) run by blast
  from run_call_ok [OF machine_okD(1,2) [OF assms(1)] r k'(2)] have K:
    "table_ok k'" "refs_ok k'" "others_kept p (kern m) k'" "p_state (procs k' p) \<noteq> UNUSED"
    "p_state (procs k' p) = RUNNING \<longleftrightarrow> \<not> blk" by blast+
  let ?ph = "if blk then Back i p else Run i p"
  have "c_proc (cpus m c) = Some p" using I(1) [OF assms(2)] run by simp
  then have "cpus m' = (cpus m)(c := \<lparr>c_proc = proc_of ?ph, c_phase = ?ph\<rparr>)" by (cases "cpus m c") (simp add: k'(3))
  then have "cpus_ok n m'"
  proof (rule cpus_step [OF C assms(2)])
    show "phase_ok ?ph" using I(2) [OF assms(2)] run by simp
    show "proc_of (c_phase (cpus m d)) \<noteq> Some x" if "d < n" "d \<noteq> c" "proc_of ?ph = Some x" for d x
      using I(3) [of c d x] that assms(2) run by (auto split: if_splits)
    show "p_state (procs (kern m') j) = RUNNING \<longleftrightarrow> (\<exists>i'. ?ph = Run i' j)
        \<or> (p_state (procs (kern m) j) = RUNNING \<and> (\<forall>i. c_phase (cpus m c) \<noteq> Run i j))" for j
      using K(3,5) r by (cases "j = p") (auto simp: others_kept_def k'(3) run)
    show "p_state (procs (kern m') j) \<noteq> UNUSED" if "lock_of ?ph = Some j" for j
      using that K(4) by (auto simp: k'(3) split: if_splits)
    show "p_state (procs (kern m') j) \<noteq> UNUSED" if "d < n" "lock_of (c_phase (cpus m d)) = Some j" for d j
      using that k'(1) by (auto simp: no_locks_iff)
  qed
  then show "machine_ok n m'" using K(1,2) by (simp add: machine_ok_def k'(3))
  show "\<exists>i p blk. c_phase (cpus m c) = Run i p \<and> run_call call p (kern m) = Some (blk, kern m')
    \<and> others_kept p (kern m) (kern m') \<and> cpus m' = (cpus m)(c := (cpus m c)\<lparr>c_phase := if blk then Back i p else Run i p\<rparr>)
    \<and> no_locks n m"
    using run k' K(3) by auto
qed

lemma wakeup_running: "p_state (procs (wakeup cur ch k) j) = RUNNING \<longleftrightarrow> p_state (procs k j) = RUNNING"
  by (auto simp: wakeup_eq wakes_def)

lemma clockintr_ok:
  assumes "machine_ok n m" "clockintr n m = Some m'"
  shows "machine_ok n m'" "cpus m' = cpus m" "others_kept n (kern m) (kern m')"
    "p_state (procs (kern m) j) = RUNNABLE \<Longrightarrow> p_state (procs (kern m') j) = RUNNABLE"
    "p_priority (procs (kern m') j) = p_priority (procs (kern m) j)"
proof -
  let ?k = "(kern m)\<lparr>ticks := ticks (kern m) + 1\<rparr>" and ?cur = "c_proc (cpus m 0)"
  have nl: "no_locks n m" and m': "m' = m\<lparr>kern := wakeup ?cur (Some Ticks_chan) ?k\<rparr>"
    using assms(2) by (auto simp: clockintr_def Let_def split: if_splits)
  note T = machine_okD(1) [OF assms(1)] and R = machine_okD(2) [OF assms(1)]
  note I = cpus_okD [OF machine_okD(3) [OF assms(1)]]
  have "table_ok ?k" by (rule same_table(1) [OF T]) simp_all
  moreover have "refs_ok ?k" by (rule refs_same [OF R]) simp_all
  ultimately have "table_ok (kern m')" "refs_ok (kern m')" using wakeup_table(1,2) by (simp_all add: m')
  moreover have "cpus_ok n m'"
    using machine_okD(3) [OF assms(1)] nl unfolding cpus_ok_def by (simp add: m' wakeup_running no_locks_iff)
  ultimately show "machine_ok n m'" by (simp add: machine_ok_def)
  show "cpus m' = cpus m" by (simp add: m')
  show "others_kept n (kern m) (kern m')" "p_state (procs (kern m) j) = RUNNABLE \<Longrightarrow> p_state (procs (kern m') j) = RUNNABLE"
    "p_priority (procs (kern m') j) = p_priority (procs (kern m) j)"
    by (auto simp: m' others_kept_def wakeup_eq wakes_def)
qed

text \<open>Every reachable state.\<close>

definition kstart :: "nat \<Rightarrow> machine \<Rightarrow> bool" where
  "kstart n m \<longleftrightarrow> 0 < n \<and> (\<exists>frame pt root. booted frame pt root = Some m)"

definition kmove :: "nat \<Rightarrow> machine \<Rightarrow> machine \<Rightarrow> bool" where
  "kmove n m m' \<longleftrightarrow> (\<exists>l. kstep n l m m')"

lemma booted_ok:
  assumes "booted frame pt root = Some m"
  shows "machine_ok n m"
proof -
  obtain k where k: "userinit frame pt root procinit = Some k" "m = \<lparr>kern = k, cpus = (\<lambda>_. \<lparr>c_proc = None, c_phase = Scan 0 0\<rparr>)\<rparr>"
    using assms by (auto simp: booted_def)
  show ?thesis using userinit_ok [OF k(1)] by (simp add: machine_ok_def cpus_ok_def k(2))
qed

lemma kstep_ok:
  assumes "machine_ok n m" "kstep n l m m'"
  shows "machine_ok n m'"
  using assms(2)
proof (cases rule: kstep.cases)
  case (sched c r)
  then show ?thesis using sched_step_ok [OF assms(1)] by blast
next
  case (call c call)
  then show ?thesis using call_step_ok(1) [OF assms(1)] by blast
next
  case tick
  then show ?thesis using clockintr_ok(1) [OF assms(1)] by blast
qed

interpretation kernel_sys: invariant_system "kstart n" "kmove n" "machine_ok n"
proof
  show "kstart n m \<Longrightarrow> machine_ok n m" for m using booted_ok by (auto simp: kstart_def)
  show "machine_ok n m \<Longrightarrow> kmove n m m' \<Longrightarrow> machine_ok n m'" for m m' using kstep_ok by (auto simp: kmove_def)
qed

lemma kruns_ok: "kruns n m ls m' \<Longrightarrow> machine_ok n m \<Longrightarrow> machine_ok n m'"
  by (induction rule: kruns.induct) (auto intro: kstep_ok)

end
