(* ===== verification/Xv6_One_Cpu.thy ===== *)
theory Xv6_One_Cpu
  imports Xv6_Sched_Props
begin

text \<open>
  Runs of the machine on one CPU, put together from whole scans: what the concrete executions of
  the policy properties are made of.
\<close>

lemma kruns_append:
  assumes "kruns n m2 ls' m3" "kruns n m1 ls m2"
  shows "kruns n m1 (ls @ ls') m3"
  using assms
proof (induction rule: kruns.induct)
  case (kruns_snoc m ls' m' l m'')
  then show ?case using kruns.kruns_snoc [of n m1 "ls @ ls'" m' l m''] by simp
qed simp

lemma kruns_one: "kstep n l m m' \<Longrightarrow> kruns n m [l] m'"
  using kruns_snoc [OF kruns_Nil, of n l m m'] by simp

lemma kruns_trans [trans]: "kruns n m1 ls m2 \<Longrightarrow> kruns n m2 ls' m3 \<Longrightarrow> kruns n m1 (ls @ ls') m3"
  by (rule kruns_append)

lemma kruns_moves: "kruns n m ls m' \<Longrightarrow> (kmove n)\<^sup>*\<^sup>* m m'"
  by (induction rule: kruns.induct) (auto simp: kmove_def intro: rtranclp.rtrancl_into_rtrancl)

text \<open>The machine with CPU 0 in a given phase.\<close>

definition one_cpu :: "kernel \<Rightarrow> sched_phase \<Rightarrow> machine" where
  "one_cpu k ph = \<lparr>kern = k, cpus = (\<lambda>_. \<lparr>c_proc = None, c_phase = Scan 0 0\<rparr>)(0 := \<lparr>c_proc = proc_of ph, c_phase = ph\<rparr>)\<rparr>"

lemma one_cpu_sel [simp]: "kern (one_cpu k ph) = k" "cpus (one_cpu k ph) 0 = \<lparr>c_proc = proc_of ph, c_phase = ph\<rparr>"
  by (simp_all add: one_cpu_def)

lemma one_cpu_upd [simp]: "set_phase 0 ph' (set_cproc 0 (proc_of ph') ((one_cpu k ph)\<lparr>kern := k'\<rparr>)) = one_cpu k' ph'"
  "proc_of ph = proc_of ph' \<Longrightarrow> set_phase 0 ph' ((one_cpu k ph)\<lparr>kern := k'\<rparr>) = one_cpu k' ph'"
  "proc_of ph = proc_of ph' \<Longrightarrow> set_phase 0 ph' (one_cpu k ph) = one_cpu k ph'"
  by (simp_all add: one_cpu_def set_phase_def set_cproc_def)

lemma one_cpu_locked [simp]: "p_locked (Suc 0) (one_cpu k ph) j \<longleftrightarrow> lock_of ph = Some j"
  "no_locks (Suc 0) (one_cpu k ph) \<longleftrightarrow> lock_of ph = None"
  by (simp_all add: p_locked_iff no_locks_iff)

lemma one_step:
  assumes "sched_step 1 0 (one_cpu k ph) = Some (r, m')"
  shows "kruns 1 (one_cpu k ph) [sched_label 0 r m'] m'"
  using assms by (intro kruns_one kstep.sched) simp_all

lemma one_skip:
  assumes "j < NPROC" "p_state (procs k j) \<noteq> RUNNABLE \<or> p_priority (procs k j) \<noteq> of_nat i"
  shows "kruns 1 (one_cpu k (Scan i j)) [Other] (one_cpu k (Scan i (Suc j)))"
proof -
  have "sched_step 1 0 (one_cpu k (Scan i j)) = Some (None, one_cpu k (Scan i (Suc j)))"
    using assms by (auto simp: sched_step_def)
  from one_step [OF this] show ?thesis by (simp add: sched_label_def)
qed

lemma one_scan:
  assumes "j \<le> e" "e \<le> NPROC" "\<And>x. j \<le> x \<Longrightarrow> x < e \<Longrightarrow> p_state (procs k x) \<noteq> RUNNABLE \<or> p_priority (procs k x) \<noteq> of_nat i"
  shows "kruns 1 (one_cpu k (Scan i j)) (replicate (e - j) Other) (one_cpu k (Scan i e))"
  using assms
proof (induction "e - j" arbitrary: j)
  case 0
  then show ?case by (simp add: kruns_Nil)
next
  case (Suc x)
  have "kruns 1 (one_cpu k (Scan i j)) [Other] (one_cpu k (Scan i (Suc j)))"
    using Suc.hyps(2) Suc.prems by (intro one_skip) simp_all
  moreover have "kruns 1 (one_cpu k (Scan i (Suc j))) (replicate (e - Suc j) Other) (one_cpu k (Scan i e))"
    using Suc.hyps Suc.prems by (intro Suc.hyps(1)) simp_all
  moreover have "replicate (e - j) Other = [Other] @ replicate (e - Suc j) Other" using Suc.hyps(2) by (simp add: Suc_diff_Suc [symmetric])
  ultimately show ?case using kruns_append by metis
qed

lemma one_choose:
  assumes "j < NPROC" "p_state (procs k j) = RUNNABLE" "p_priority (procs k j) = of_nat i"
  shows "kstep 1 (Chose 0 j) (one_cpu k (Scan i j)) (one_cpu (switch_to j k) (Run i j))"
proof -
  have "sched_step 1 0 (one_cpu k (Scan i j)) = Some (Some j, one_cpu (switch_to j k) (Run i j))"
    using assms one_cpu_upd(1) [where ph' = "Run i j" and ph = "Scan i j" and k = k and k' = "switch_to j k"] by (simp add: sched_step_def)
  from kstep.sched [of 0 1, OF _ this] show ?thesis by (simp add: sched_label_def)
qed

lemma one_call:
  assumes "run_call call j k = Some (b, k')"
  shows "kruns 1 (one_cpu k (Run i j)) [Other] (one_cpu k' (if b then Back i j else Run i j))"
proof -
  have "call_step 1 0 call (one_cpu k (Run i j)) = Some (one_cpu k' (if b then Back i j else Run i j))"
    using assms by (simp add: call_step_def)
  from kruns_one [OF kstep.call [of 0 1, OF _ this]] show ?thesis by simp
qed

lemma one_back:
  "kruns 1 (one_cpu k (Back i j)) [Other, Other] (one_cpu (adjust_priority j (p_priority (procs k j)) k) (Scan i (Suc j)))"
proof -
  let ?k = "adjust_priority j (p_priority (procs k j)) k"
  have "sched_step 1 0 (one_cpu k (Back i j)) = Some (None, one_cpu k (Adjust i j (p_priority (procs k j))))"
    by (simp add: sched_step_def)
  from one_step [OF this] have "kruns 1 (one_cpu k (Back i j)) [Other] (one_cpu k (Adjust i j (p_priority (procs k j))))"
    by (simp add: sched_label_def)
  moreover have "sched_step 1 0 (one_cpu k (Adjust i j (p_priority (procs k j)))) = Some (None, one_cpu ?k (Scan i (Suc j)))"
    using one_cpu_upd(1) [where ph' = "Scan i (Suc j)"] by (simp add: sched_step_def)
  from one_step [OF this] have "kruns 1 (one_cpu k (Adjust i j (p_priority (procs k j)))) [Other] (one_cpu ?k (Scan i (Suc j)))"
    by (simp add: sched_label_def)
  ultimately show ?thesis using kruns_append by fastforce
qed

lemma one_level:
  assumes "ticks k mod 16 \<noteq> 0"
  shows "kruns 1 (one_cpu k (Scan i NPROC)) [if Suc i < NPRIO then Other else Round 0] (one_cpu k (next_level (Suc i)))"
proof -
  have "sched_step 1 0 (one_cpu k (Scan i NPROC)) = Some (None, one_cpu k (next_level (Suc i)))"
    using assms by (simp add: sched_step_def next_level_def)
  from one_step [OF this] show ?thesis by (cases "Suc i < NPRIO") (simp_all add: sched_label_def next_level_def)
qed

lemma one_tick:
  assumes "lock_of ph = None"
  shows "kruns 1 (one_cpu k ph) [Other] (one_cpu (wakeup (proc_of ph) (Some Ticks_chan) (k\<lparr>ticks := ticks k + 1\<rparr>)) ph)"
proof -
  have "clockintr 1 (one_cpu k ph) = Some (one_cpu (wakeup (proc_of ph) (Some Ticks_chan) (k\<lparr>ticks := ticks k + 1\<rparr>)) ph)"
    using assms one_cpu_locked(2) [of k ph] by (simp add: clockintr_def) (simp add: one_cpu_def)
  from kruns_one [OF kstep.tick [OF this]] show ?thesis .
qed

text \<open>A round in which no process is runnable changes nothing.\<close>

lemma idle_level:
  assumes "\<And>j. p_state (procs k j) \<noteq> RUNNABLE" "ticks k mod 16 \<noteq> 0"
  shows "kruns 1 (one_cpu k (Scan i 0)) (replicate NPROC Other @ [if Suc i < NPRIO then Other else Round 0]) (one_cpu k (next_level (Suc i)))"
  using kruns_append [OF one_level [OF assms(2)] one_scan [of 0 NPROC k i]] assms(1) by simp

lemma idle_round:
  assumes "\<And>j. p_state (procs k j) \<noteq> RUNNABLE" "ticks k mod 16 \<noteq> 0"
  shows "\<exists>ls. kruns 1 (one_cpu k (Scan 0 0)) ls (one_cpu k (Scan 0 0)) \<and> length (filter ((=) (Round 0)) ls) = 1
    \<and> (\<forall>d p. Chose d p \<notin> set ls)"
proof -
  note L = idle_level [OF assms]
  have "kruns 1 (one_cpu k (Scan 0 0)) (replicate NPROC Other @ [Other]) (one_cpu k (Scan 1 0))"
    using L [of 0] by (simp add: NPRIO_def next_level_def)
  moreover have "kruns 1 (one_cpu k (Scan 1 0)) (replicate NPROC Other @ [Other]) (one_cpu k (Scan 2 0))"
    using L [of 1] by (simp add: NPRIO_def next_level_def numeral_2_eq_2)
  moreover have "kruns 1 (one_cpu k (Scan 2 0)) (replicate NPROC Other @ [Round 0]) (one_cpu k (Scan 0 0))"
    using L [of 2] by (simp add: NPRIO_def next_level_def)
  ultimately have "kruns 1 (one_cpu k (Scan 0 0)) ((replicate NPROC Other @ [Other]) @ (replicate NPROC Other @ [Other]) @ replicate NPROC Other @ [Round 0])
      (one_cpu k (Scan 0 0))" by (meson kruns_append)
  then show ?thesis by (intro exI conjI, assumption) auto
qed

end
