(* ===== verification/Xv6_Policy.thy ===== *)
theory Xv6_Policy
  imports Xv6_One_Cpu
begin

text \<open>
  The scheduling policy of LAB3: no runnable process starves, how priorities change, and how far the
  rules of the README hold.
\<close>

section \<open>A waiting process\<close>

definition waiting :: "nat \<Rightarrow> nat \<Rightarrow> machine \<Rightarrow> bool" where
  "waiting n p m \<longleftrightarrow> p_state (procs (kern m) p) = RUNNABLE \<and> \<not> p_locked n m p"

lemma waiting_free:
  assumes "machine_ok n m" "waiting n p m" "c < n"
  shows "proc_of (c_phase (cpus m c)) \<noteq> Some p"
proof
  assume a: "proc_of (c_phase (cpus m c)) = Some p"
  have "p_state (procs (kern m) p) \<noteq> RUNNING" using assms(2) by (simp add: waiting_def)
  then have "\<forall>i. c_phase (cpus m c) \<noteq> Run i p"
    using cpus_okD(4) [OF machine_okD(3) [OF assms(1)], of p] assms(3) by blast
  then show False using a assms(2,3) by (cases "c_phase (cpus m c)") (auto simp: waiting_def p_locked_iff)
qed

text \<open>Unless some CPU switches to it, a waiting process waits on, and at most its priority becomes 0.\<close>

lemma sched_step_waiting:
  assumes "machine_ok n m" "waiting n p m" "d < n" "sched_step n d m = Some (r, m')" "r \<noteq> Some p"
  shows "waiting n p m'"
    "p_priority (procs (kern m') p) = p_priority (procs (kern m) p) \<or> p_priority (procs (kern m') p) = 0"
    "c \<noteq> d \<Longrightarrow> c_phase (cpus m' c) = c_phase (cpus m c)"
proof -
  have free: "proc_of (c_phase (cpus m c)) \<noteq> Some p" if "c < n" for c by (rule waiting_free [OF assms(1,2) that])
  have "p_state (procs (kern m') p) = RUNNABLE \<and> (\<forall>c. c \<noteq> d \<longrightarrow> c_phase (cpus m' c) = c_phase (cpus m c))
    \<and> lock_of (c_phase (cpus m' d)) \<noteq> Some p
    \<and> (p_priority (procs (kern m') p) = p_priority (procs (kern m) p) \<or> p_priority (procs (kern m') p) = 0)"
  proof (cases "c_phase (cpus m d)")
    case (Scan i j)
    then show ?thesis using assms(2,4,5)
      by (auto simp: sched_step_def waiting_def switch_to_simps next_level_def split: if_splits)
  next
    case (Adjust i j v)
    then have "j \<noteq> p" using free [OF assms(3)] by simp
    moreover have "procs (adjust_priority j v (kern m)) p = procs (kern m) p"
      using adjust_priority_cases [of j v "kern m"] \<open>j \<noteq> p\<close> by auto
    ultimately show ?thesis using assms(2,4) Adjust by (auto simp: sched_step_def waiting_def)
  next
    case (Back i j)
    then show ?thesis using assms(2,4) free [OF assms(3)] by (auto simp: sched_step_def waiting_def)
  next
    case (Boost i j)
    then show ?thesis using assms(2,4) by (auto simp: sched_step_def waiting_def next_level_def split: if_splits)
  next
    case (Run i j)
    then show ?thesis using assms(4) by (simp add: sched_step_def)
  qed
  then show "waiting n p m'" "p_priority (procs (kern m') p) = p_priority (procs (kern m) p) \<or> p_priority (procs (kern m') p) = 0"
    "c \<noteq> d \<Longrightarrow> c_phase (cpus m' c) = c_phase (cpus m c)"
    using assms(2) unfolding waiting_def p_locked_iff by metis+
qed

lemma other_step_waiting:
  assumes "machine_ok n m" "waiting n p m" "(\<exists>d < n. \<exists>call. call_step n d call m = Some m') \<or> clockintr n m = Some m'"
  shows "waiting n p m'" "p_priority (procs (kern m') p) = p_priority (procs (kern m) p)"
    "c_phase (cpus m' c) = c_phase (cpus m c) \<or> (\<exists>i j. c_phase (cpus m c) = Run i j \<and> c_phase (cpus m' c) \<in> {Run i j, Back i j})"
proof -
  have "waiting n p m' \<and> p_priority (procs (kern m') p) = p_priority (procs (kern m) p)
    \<and> (c_phase (cpus m' c) = c_phase (cpus m c) \<or> (\<exists>i j. c_phase (cpus m c) = Run i j \<and> c_phase (cpus m' c) \<in> {Run i j, Back i j}))"
    using assms(3)
  proof
    assume "\<exists>d < n. \<exists>call. call_step n d call m = Some m'"
    then obtain d call where d: "d < n" "call_step n d call m = Some m'" by blast
    obtain i q blk where q: "c_phase (cpus m d) = Run i q" "others_kept q (kern m) (kern m')"
      "cpus m' = (cpus m)(d := (cpus m d)\<lparr>c_phase := if blk then Back i q else Run i q\<rparr>)" "no_locks n m"
      using call_step_ok(2) [OF assms(1) d] by blast
    have "q \<noteq> p" using waiting_free [OF assms(1,2) d(1)] q(1) by auto
    then have "\<not> p_locked n m' p" using q(3,4) by (auto simp: p_locked_iff no_locks_iff split: if_splits)
    then show ?thesis using q assms(2) \<open>q \<noteq> p\<close> by (auto simp: waiting_def others_kept_def)
  next
    assume t: "clockintr n m = Some m'"
    note C = clockintr_ok [OF assms(1) t]
    show ?thesis using C(2) C(4) [of p] C(5) [of p] assms(2) by (simp add: waiting_def p_locked_iff)
  qed
  then show "waiting n p m'" "p_priority (procs (kern m') p) = p_priority (procs (kern m) p)"
    "c_phase (cpus m' c) = c_phase (cpus m c) \<or> (\<exists>i j. c_phase (cpus m c) = Run i j \<and> c_phase (cpus m' c) \<in> {Run i j, Back i j})"
    by blast+
qed

section \<open>The position of a CPU in its round\<close>

fun position :: "sched_phase \<Rightarrow> nat \<times> nat" where
  "position (Scan i j) = (i, j)"
| "position (Run i j) = (i, j + 1)"
| "position (Back i j) = (i, j + 1)"
| "position (Adjust i j v) = (i, j + 1)"
| "position (Boost i j) = (i, 0)"

definition ahead :: "nat \<Rightarrow> nat \<Rightarrow> nat \<times> nat \<Rightarrow> bool" where
  "ahead q p x \<longleftrightarrow> fst x < q \<or> (fst x = q \<and> snd x \<le> p)"

text \<open>A CPU does not pass the level and the entry of a waiting process without choosing it.\<close>

lemma position_step:
  assumes "machine_ok n m" "waiting n p m" "c < n" "sched_step n c m = Some (r, m')" "r \<noteq> Some p"
    "ahead (unat (p_priority (procs (kern m) p))) p (position (c_phase (cpus m c)))"
  shows "ahead (unat (p_priority (procs (kern m) p))) p (position (c_phase (cpus m' c))) \<and> sched_label c r m' \<noteq> Round c"
proof -
  let ?q = "unat (p_priority (procs (kern m) p))"
  have T: "table_ok (kern m)" by (rule machine_okD(1) [OF assms(1)])
  have rp: "p_state (procs (kern m) p) = RUNNABLE" using assms(2) by (simp add: waiting_def)
  have p: "p < NPROC" using used_in_table [OF T, of p] rp by simp
  have q: "?q < 3" using entry_okD(5) [OF table_okD(1) [OF T, of p]] by (simp add: word_less_nat_alt)
  have ok: "phase_ok (c_phase (cpus m c))" by (rule cpus_okD(2) [OF machine_okD(3) [OF assms(1)] assms(3)])
  show ?thesis
  proof (cases "c_phase (cpus m c)")
    case (Scan i j)
    show ?thesis
    proof (cases "j < NPROC")
      case True
      have "\<not> (i = ?q \<and> j = p)" using assms(4,5) Scan True rp by (auto simp: sched_step_def split: if_splits)
      moreover have "c_phase (cpus m' c) \<in> {Run i j, Scan i (j + 1)}"
        using assms(4) Scan True by (auto simp: sched_step_def split: if_splits)
      ultimately show ?thesis using assms(6) Scan by (auto simp: ahead_def sched_label_def split: option.splits)
    next
      case False
      then have "i < ?q" using assms(6) Scan p by (auto simp: ahead_def)
      then show ?thesis using assms(4) Scan False q
        by (auto simp: sched_step_def ahead_def sched_label_def next_level_def NPRIO_def split: if_splits)
    qed
  next
    case (Boost i j)
    then show ?thesis using assms(4,6) ok q
      by (auto simp: sched_step_def ahead_def sched_label_def next_level_def NPRIO_def split: if_splits)
  qed (use assms(4,6) in \<open>auto simp: sched_step_def ahead_def sched_label_def\<close>)
qed

text \<open>A round that ends has passed every process but those at level 0.\<close>

definition rounds :: "nat \<Rightarrow> label list \<Rightarrow> nat" where
  "rounds c ls = length (filter ((=) (Round c)) ls)"

definition overdue :: "nat \<Rightarrow> nat \<Rightarrow> nat \<Rightarrow> machine \<Rightarrow> bool" where
  "overdue c p k m \<longleftrightarrow> (let v = p_priority (procs (kern m) p); at = position (c_phase (cpus m c)) in
     k = 0 \<or> (k = 1 \<and> (v = 0 \<or> ahead (unat v) p at)) \<or> (k = 2 \<and> v = 0 \<and> ahead 0 p at))"

lemma rounds_snoc: "rounds c (ls @ [l]) = (if l = Round c then Suc (rounds c ls) else rounds c ls)"
  by (simp add: rounds_def)

lemma sched_step_overdue:
  assumes "machine_ok n m" "waiting n p m" "d < n" "sched_step n d m = Some (r, m')" "r \<noteq> Some p" "c < n" "overdue c p k m"
  shows "overdue c p (if sched_label d r m' = Round c then Suc k else k) m'"
proof -
  let ?v = "p_priority (procs (kern m) p)" and ?v' = "p_priority (procs (kern m') p)"
  note W = sched_step_waiting [OF assms(1-5)]
  show ?thesis
  proof (cases "d = c")
    case False
    then have "sched_label d r m' \<noteq> Round c" by (auto simp: sched_label_def split: option.splits)
    moreover have "c_phase (cpus m' c) = c_phase (cpus m c)" using W(3) [of c] False by simp
    ultimately show ?thesis using assms(7) W(2) by (auto simp: overdue_def Let_def)
  next
    case True
    note P = position_step [OF assms(1-5), unfolded True]
    show ?thesis
    proof (cases "sched_label c r m' = Round c")
      case False
      then show ?thesis using assms(7) W(2) P True by (auto simp: overdue_def Let_def)
    next
      case round: True
      then have at: "c_phase (cpus m' c) = Scan 0 0" by (simp add: sched_label_def split: option.splits if_splits)
      have "k = 0 \<or> (k = 1 \<and> ?v = 0)" using assms(7) P round by (auto simp: overdue_def Let_def)
      then show ?thesis using at W(2) round True by (auto simp: overdue_def Let_def ahead_def)
    qed
  qed
qed

lemma other_step_overdue:
  assumes "machine_ok n m" "waiting n p m" "(\<exists>d < n. \<exists>call. call_step n d call m = Some m') \<or> clockintr n m = Some m'"
    "overdue c p k m"
  shows "overdue c p k m'"
  using assms(4) other_step_waiting(2) [OF assms(1-3)] other_step_waiting(3) [OF assms(1-3), of c]
  by (auto simp: overdue_def)

lemma kruns_overdue:
  assumes "kruns n m ls m'" "machine_ok n m" "waiting n p m" "c < n" "\<forall>d. Chose d p \<notin> set ls"
  shows "machine_ok n m' \<and> waiting n p m' \<and> overdue c p (rounds c ls) m'"
  using assms
proof (induction rule: kruns.induct)
  case (kruns_Nil m)
  then show ?case by (simp add: overdue_def rounds_def)
next
  case (kruns_snoc m ls m1 l m2)
  then have IH: "machine_ok n m1" "waiting n p m1" "overdue c p (rounds c ls) m1" by auto
  have ok: "machine_ok n m2" by (rule kstep_ok [OF IH(1) kruns_snoc.hyps(2)])
  from kruns_snoc.hyps(2) show ?case
  proof (cases rule: kstep.cases)
    case (sched d r)
    then have "r \<noteq> Some p" using kruns_snoc.prems(4) by (auto simp: sched_label_def)
    from sched_step_waiting(1) [OF IH(1,2) sched(2,3) this] sched_step_overdue [OF IH(1,2) sched(2,3) this assms(4) IH(3)]
    show ?thesis using ok sched(1) by (simp add: rounds_snoc)
  next
    case (call d call)
    then have s: "(\<exists>d < n. \<exists>call. call_step n d call m1 = Some m2) \<or> clockintr n m1 = Some m2" by blast
    from other_step_waiting(1) [OF IH(1,2) s] other_step_overdue [OF IH(1,2) s IH(3)]
    show ?thesis using ok call(1) by (simp add: rounds_snoc)
  next
    case tick
    then have s: "(\<exists>d < n. \<exists>call. call_step n d call m1 = Some m2) \<or> clockintr n m1 = Some m2" by blast
    from other_step_waiting(1) [OF IH(1,2) s] other_step_overdue [OF IH(1,2) s IH(3)]
    show ?thesis using ok tick(1) by (simp add: rounds_snoc)
  qed
qed

text \<open>
  C1: no starvation.  In every reachable state and whatever happens next on any number of CPUs, a
  runnable process whose lock is free is switched to before any CPU has completed three rounds over
  the levels: two if no boost moves it, and a boost moves it to level 0 where it stays.
\<close>

theorem no_starvation:
  assumes "kstart n m0" "(kmove n)\<^sup>*\<^sup>* m0 m" "p_state (procs (kern m) p) = RUNNABLE" "\<not> p_locked n m p"
    "kruns n m ls m'" "c < n" "3 \<le> rounds c ls"
  shows "\<exists>d. Chose d p \<in> set ls"
proof (rule ccontr)
  assume "\<nexists>d. Chose d p \<in> set ls"
  moreover have "machine_ok n m" by (rule kernel_sys.reachable_inv [OF assms(1,2)])
  moreover have "waiting n p m" using assms(3,4) by (simp add: waiting_def)
  ultimately have "overdue c p (rounds c ls) m'" using kruns_overdue [OF assms(5) _ _ assms(6)] by blast
  then show False using assms(7) by (auto simp: overdue_def Let_def)
qed

section \<open>The first process on one CPU\<close>

lemma first_kernel:
  "\<exists>k. booted 1 1 0 = Some (one_cpu k (Scan 0 0)) \<and> table_ok k \<and> refs_ok k \<and> ticks k = 0 \<and> nextpid k = 2
     \<and> p_state (procs k 0) = RUNNABLE \<and> p_priority (procs k 0) = 0 \<and> p_cwd (procs k 0) = Some 0
     \<and> p_killed (procs k 0) = False \<and> initproc k = Some 0 \<and> (\<forall>j > 0. procs k j = proc_init)"
proof -
  have f: "find (\<lambda>j. p_state (procs procinit j) = UNUSED) [0..<NPROC] = Some 0"
    by (simp add: NPROC_def procinit_def proc_init_def upt_conv_Cons)
  have "\<exists>k. userinit 1 1 0 procinit = Some k \<and> nextpid k = 2 \<and> p_cwd (procs k 0) = Some 0 \<and> p_killed (procs k 0) = False"
    unfolding userinit_def allocproc_def f
    by (simp add: allocpid_def procinit_def proc_init_def idup_def Let_def)
  then obtain k where k: "userinit 1 1 0 procinit = Some k" "nextpid k = 2" "p_cwd (procs k 0) = Some 0" "\<not> p_killed (procs k 0)" by auto
  have "booted 1 1 0 = Some (one_cpu k (Scan 0 0))" using k(1) by (simp add: booted_def one_cpu_def fun_eq_iff)
  then show ?thesis using k userinit_ok [OF k(1)] by (intro exI [of _ k]) auto
qed

lemma started: "booted frame pt root = Some m \<Longrightarrow> kstart 1 m"
  by (auto simp: kstart_def)

text \<open>The first process sleeps for ever and the CPU goes round.\<close>

theorem no_starvation_witness:
  "\<exists>m ls m'. kruns 1 m ls m' \<and> 3 \<le> rounds 0 ls \<and> (\<exists>d. Chose d 0 \<in> set ls)"
proof -
  obtain k where k: "booted 1 1 0 = Some (one_cpu k (Scan 0 0))" "table_ok k" "ticks k = 0" "p_state (procs k 0) = RUNNABLE"
    "p_priority (procs k 0) = 0" "\<forall>j > 0. procs k j = proc_init"
    using first_kernel by auto
  let ?m = "one_cpu k (Scan 0 0)"
  let ?k1 = "wakeup None (Some Ticks_chan) (k\<lparr>ticks := 1\<rparr>)"
  have k1: "p_state (procs ?k1 0) = RUNNABLE" "p_priority (procs ?k1 0) = 0" "ticks ?k1 = 1" "j > 0 \<Longrightarrow> procs ?k1 j = proc_init" for j
    using k by (auto simp: wakeup_eq wakes_def woken_by_def proc_init_def)
  have "kruns 1 ?m [Other] (one_cpu ?k1 (Scan 0 0))" using one_tick [of "Scan 0 0" k] k(3) by simp
  moreover have "kruns 1 (one_cpu ?k1 (Scan 0 0)) [Chose 0 0] (one_cpu (switch_to 0 ?k1) (Run 0 0))"
    by (rule kruns_one [OF one_choose]) (use k1 in \<open>simp_all add: NPROC_def\<close>)
  moreover let ?k2 = "sleep_on 0 Ticks_chan (switch_to 0 ?k1)"
  have "kruns 1 (one_cpu (switch_to 0 ?k1) (Run 0 0)) [Other] (one_cpu ?k2 (Back 0 0))"
    using one_call [of "Sleep Ticks_chan" 0 "switch_to 0 ?k1" True ?k2 0] by simp
  moreover let ?k3 = "adjust_priority 0 (p_priority (procs ?k2 0)) ?k2"
  have "kruns 1 (one_cpu ?k2 (Back 0 0)) [Other, Other] (one_cpu ?k3 (Scan 0 1))" using one_back [of ?k2 0 0] by simp
  moreover have st: "p_state (procs ?k3 j) \<noteq> RUNNABLE" "ticks ?k3 mod 16 \<noteq> 0" for j
  proof -
    have "p_state (procs ?k2 j) \<noteq> RUNNABLE" using k1(4) [of j] by (auto simp: sleep_on_def switch_to_simps proc_init_def)
    moreover have "p_state (procs ?k3 j) = p_state (procs ?k2 j)" "ticks ?k3 = ticks ?k2" by (auto simp: adjust_priority_def)
    ultimately show "p_state (procs ?k3 j) \<noteq> RUNNABLE" "ticks ?k3 mod 16 \<noteq> 0"
      using k1(3) by (simp_all add: sleep_on_def switch_to_simps)
  qed
  have "kruns 1 (one_cpu ?k3 (Scan 0 1)) (replicate (NPROC - 1) Other) (one_cpu ?k3 (Scan 0 NPROC))"
    by (rule one_scan) (use st in \<open>simp_all add: NPROC_def\<close>)
  moreover have "kruns 1 (one_cpu ?k3 (Scan 0 NPROC)) [Other] (one_cpu ?k3 (Scan 1 0))"
    using one_level [OF st(2), of 0] by (simp add: NPRIO_def next_level_def)
  moreover have "kruns 1 (one_cpu ?k3 (Scan 1 0)) (replicate NPROC Other @ [Other]) (one_cpu ?k3 (Scan 2 0))"
    using idle_level [OF st, of 1] by (simp add: NPRIO_def next_level_def numeral_2_eq_2)
  moreover have "kruns 1 (one_cpu ?k3 (Scan 2 0)) (replicate NPROC Other @ [Round 0]) (one_cpu ?k3 (Scan 0 0))"
    using idle_level [OF st, of 2] by (simp add: NPRIO_def next_level_def)
  moreover obtain rs where rs: "kruns 1 (one_cpu ?k3 (Scan 0 0)) rs (one_cpu ?k3 (Scan 0 0))" "length (filter ((=) (Round 0)) rs) = 1"
    using idle_round [OF st] by blast
  ultimately have run: "kruns 1 ?m ([Other] @ [Chose 0 0] @ [Other] @ [Other, Other] @ replicate (NPROC - 1) Other @ [Other]
      @ (replicate NPROC Other @ [Other]) @ (replicate NPROC Other @ [Round 0]) @ rs @ rs) (one_cpu ?k3 (Scan 0 0))"
    (is "kruns 1 ?m ?ls ?m'")
    by (meson kruns_append)
  have n: "3 \<le> rounds 0 ?ls" using rs(2) by (simp add: rounds_def)
  have "kstart 1 ?m" by (rule started [OF k(1)])
  from no_starvation [OF this rtranclp.rtrancl_refl _ _ run _ n, of 0] have "\<exists>d. Chose d 0 \<in> set ?ls" using k(4) by simp
  then show ?thesis using run n by blast
qed

section \<open>Invariants of the reachable states\<close>

text \<open>
  C10: in every reachable state priorities are below \<open>NPRIO\<close>, a process is RUNNING exactly when one
  CPU runs it, no process is on two CPUs, and the processes in use have different positive numbers.
\<close>

theorem scheduler_invariant:
  assumes "kstart n m0" "(kmove n)\<^sup>*\<^sup>* m0 m"
  shows "unat (p_priority (procs (kern m) p)) < NPRIO
    \<and> (p_state (procs (kern m) p) = RUNNING \<longleftrightarrow> (\<exists>c < n. c_proc (cpus m c) = Some p \<and> (\<exists>i. c_phase (cpus m c) = Run i p)))
    \<and> (\<forall>c < n. \<forall>d < n. c_proc (cpus m c) = Some p \<and> c_proc (cpus m d) = Some p \<longrightarrow> c = d)
    \<and> (p_state (procs (kern m) p) \<noteq> UNUSED \<longrightarrow> 0 < p_pid (procs (kern m) p)
        \<and> (\<forall>q. p_pid (procs (kern m) q) = p_pid (procs (kern m) p) \<longrightarrow> q = p))"
proof -
  have I: "machine_ok n m" by (rule kernel_sys.reachable_inv [OF assms])
  note T = machine_okD(1) [OF I] and C = cpus_okD [OF machine_okD(3) [OF I]]
  note E = entry_okD [OF table_okD(1) [OF T, of p]]
  have "unat (p_priority (procs (kern m) p)) < NPRIO" using E(5) by (simp add: word_less_nat_alt NPRIO_def)
  moreover have "p_state (procs (kern m) p) = RUNNING \<longleftrightarrow> (\<exists>c < n. c_proc (cpus m c) = Some p \<and> (\<exists>i. c_phase (cpus m c) = Run i p))"
    using C(4) [of p] C(1) by fastforce
  moreover have "c = d" if "c < n" "d < n" "c_proc (cpus m c) = Some p" "c_proc (cpus m d) = Some p" for c d
    using C(3) [of c d p] C(1) that by simp
  moreover have "q = p" if "p_state (procs (kern m) p) \<noteq> UNUSED" "p_pid (procs (kern m) q) = p_pid (procs (kern m) p)" for q
    using table_okD(3) [OF T that(1), of q] that(2) by simp
  ultimately show ?thesis using E(2) by blast
qed

theorem scheduler_invariant_witness:
  "\<exists>m. kstart 1 m \<and> unat (p_priority (procs (kern m) 0)) < 3 \<and> 0 < p_pid (procs (kern m) 0)"
proof -
  obtain k where k: "booted 1 1 0 = Some (one_cpu k (Scan 0 0))" "p_state (procs k 0) = RUNNABLE" using first_kernel by auto
  show ?thesis
    using scheduler_invariant [OF started [OF k(1)] rtranclp.rtrancl_refl, of 0] started [OF k(1)] k(2)
    by (intro exI [of _ "one_cpu k (Scan 0 0)"]) (simp add: NPRIO_def)
qed

text \<open>
  C8: in every reachable state the reference count of an open file is the number of descriptors that
  refer to it, over all processes: \<open>fork\<close>, \<open>dup\<close>, \<open>open\<close>, \<open>close\<close> and \<open>exit\<close> neither lose nor
  invent a reference.
\<close>

theorem file_reference_counts:
  assumes "kstart n m0" "(kmove n)\<^sup>*\<^sup>* m0 m"
  shows "finite {(p, fd). p_ofile (procs (kern m) p) fd = Some f}
    \<and> f_ref (files (kern m) f) = int (card {(p, fd). p_ofile (procs (kern m) p) fd = Some f})"
  using machine_okD(2) [OF kernel_sys.reachable_inv [OF assms]] by (simp add: refs_ok_def refs_def)

theorem file_reference_counts_witness:
  "\<exists>m. kstart 1 m \<and> f_ref (files (kern m) 0) = int (card {(p, fd). p_ofile (procs (kern m) p) fd = Some 0})"
proof -
  obtain k where k: "booted 1 1 0 = Some (one_cpu k (Scan 0 0))" using first_kernel by auto
  show ?thesis
    using file_reference_counts [OF started [OF k] rtranclp.rtrancl_refl, of 0] started [OF k]
    by (intro exI [of _ "one_cpu k (Scan 0 0)"]) simp
qed


section \<open>Creating, ending and killing processes\<close>

text \<open>A fork of a process without open files, with the memory it needs.\<close>

lemma fork_first:
  assumes "table_ok k" "refs_ok k" "p_state (procs k p) = RUNNING" "p_cwd (procs k p) \<noteq> None" "nextpid k < 2 ^ 31 - 1"
    "j < NPROC" "p_state (procs k j) = UNUSED" "\<forall>i < j. p_state (procs k i) \<noteq> UNUSED"
  shows "\<exists>k'. fork 1 1 True p k = Some (nextpid k, k') \<and> table_ok k' \<and> refs_ok k' \<and> procs k' = (procs k)(j := child_of k p j 1 1)"
proof -
  have ex: "\<exists>j < NPROC. p_state (procs k j) = UNUSED" using assms(6,7) by blast
  obtain r k' i where f: "fork 1 1 True p k = Some (r, k')" "table_ok k'" "refs_ok k'" "r = nextpid k"
    "p_state (procs k i) = UNUSED" "\<forall>x < i. p_state (procs k x) \<noteq> UNUSED" "procs k' = (procs k)(i := child_of k p i 1 1)"
    using fork_spec [OF assms(1-5), of 1 1 True] ex by auto
  have "i = j" using f(5,6) assms(7,8) by (meson linorder_neqE_nat)
  then show ?thesis using f by blast
qed

text \<open>
  C24: \<open>fork\<close> on every branch.  With a free entry and memory the parent gets the next number and the
  lowest free entry becomes its runnable child at the top priority, with the descriptors, directory
  and memory size of the parent and 0 as its own return value.  Otherwise it returns -1, and every
  entry has the state and number it had.  All the invariants of the table are kept.
\<close>

theorem fork_result:
  assumes "table_ok k" "refs_ok k" "p_state (procs k p) = RUNNING" "p_cwd (procs k p) \<noteq> None" "nextpid k < 2 ^ 31 - 1"
  shows "\<exists>r k'. fork frame pt copied p k = Some (r, k') \<and> table_ok k' \<and> refs_ok k'
    \<and> (if frame \<noteq> 0 \<and> pt \<noteq> 0 \<and> copied \<and> (\<exists>j < NPROC. p_state (procs k j) = UNUSED)
       then r = nextpid k \<and> (\<exists>j < NPROC. p_state (procs k j) = UNUSED \<and> (\<forall>i < j. p_state (procs k i) \<noteq> UNUSED)
         \<and> (\<forall>i. i \<noteq> j \<longrightarrow> procs k' i = procs k i)
         \<and> p_state (procs k' j) = RUNNABLE \<and> p_priority (procs k' j) = 0 \<and> p_pid (procs k' j) = r
         \<and> p_parent (procs k' j) = Some p \<and> p_ofile (procs k' j) = p_ofile (procs k p) \<and> p_cwd (procs k' j) = p_cwd (procs k p)
         \<and> p_sz (procs k' j) = p_sz (procs k p) \<and> p_tf (procs k' j) = (p_tf (procs k p))\<lparr>tf_a0 := 0\<rparr>)
       else r = - 1 \<and> (\<forall>i. p_state (procs k' i) = p_state (procs k i) \<and> p_pid (procs k' i) = p_pid (procs k i)))"
proof -
  obtain r k' where f: "fork frame pt copied p k = Some (r, k')" "table_ok k'" "refs_ok k'"
    "if frame \<noteq> 0 \<and> pt \<noteq> 0 \<and> copied \<and> (\<exists>j < NPROC. p_state (procs k j) = UNUSED)
       then r = nextpid k \<and> (\<exists>j. j < NPROC \<and> p_state (procs k j) = UNUSED \<and> (\<forall>i < j. p_state (procs k i) \<noteq> UNUSED)
         \<and> procs k' = (procs k)(j := child_of k p j frame pt))
       else r = - 1 \<and> (\<forall>i. p_state (procs k' i) = p_state (procs k i) \<and> p_pid (procs k' i) = p_pid (procs k i))"
    using fork_spec [OF assms, of frame pt copied] by blast
  show ?thesis
  proof (cases "frame \<noteq> 0 \<and> pt \<noteq> 0 \<and> copied \<and> (\<exists>j < NPROC. p_state (procs k j) = UNUSED)")
    case True
    then obtain j where j: "r = nextpid k" "j < NPROC" "p_state (procs k j) = UNUSED" "\<forall>i < j. p_state (procs k i) \<noteq> UNUSED"
      "procs k' = (procs k)(j := child_of k p j frame pt)" using f(4) by auto
    have "p_priority (procs k j) = 0" using entry_okD(1) [OF table_okD(1) [OF assms(1), of j] j(3)] by simp
    then have "\<exists>j < NPROC. p_state (procs k j) = UNUSED \<and> (\<forall>i < j. p_state (procs k i) \<noteq> UNUSED)
         \<and> (\<forall>i. i \<noteq> j \<longrightarrow> procs k' i = procs k i)
         \<and> p_state (procs k' j) = RUNNABLE \<and> p_priority (procs k' j) = 0 \<and> p_pid (procs k' j) = r
         \<and> p_parent (procs k' j) = Some p \<and> p_ofile (procs k' j) = p_ofile (procs k p) \<and> p_cwd (procs k' j) = p_cwd (procs k p)
         \<and> p_sz (procs k' j) = p_sz (procs k p) \<and> p_tf (procs k' j) = (p_tf (procs k p))\<lparr>tf_a0 := 0\<rparr>"
      using j by (intro exI [of _ j]) (simp add: child_of_def)
    then show ?thesis using f(1-3) j(1) unfolding if_P [OF True] by blast
  next
    case False
    then show ?thesis using f unfolding if_not_P [OF False] by blast
  qed
qed

lemma dup_files_rest: "dup_files fds p np k = Some k' \<Longrightarrow> ticks k' = ticks k \<and> initproc k' = initproc k \<and> nextpid k' = nextpid k"
proof (induction fds p np k rule: dup_files.induct)
  case (2 fd fds p np k)
  then show ?case by (fastforce simp: filedup_def split: option.splits if_splits)
qed simp

lemma fork_rest:
  assumes "fork frame pt copied p k = Some (r, k')"
  shows "ticks k' = ticks k \<and> initproc k' = initproc k \<and> (r \<noteq> - 1 \<longrightarrow> nextpid k' = nextpid k + 1)"
proof -
  obtain r1 k1 where al: "allocproc frame pt k = Some (r1, k1)" using assms by (auto simp: fork_def)
  then have "ticks k1 = ticks k \<and> initproc k1 = initproc k \<and> (r1 \<noteq> None \<longrightarrow> nextpid k1 = nextpid k + 1)"
    using allocproc_cases [OF al] by (auto simp: freeproc_def)
  then show ?thesis using assms al dup_files_rest
    by (cases r1; cases copied) (fastforce simp: fork_def Let_def idup_def freeproc_def split: option.splits)+
qed

text \<open>The first process, running after the first tick, and its first child.\<close>

lemma first_running:
  "\<exists>m0 k ls. kstart 1 m0 \<and> kruns 1 m0 ls (one_cpu k (Run 0 0)) \<and> table_ok k \<and> refs_ok k \<and> ticks k = 1 \<and> nextpid k = 2
     \<and> p_state (procs k 0) = RUNNING \<and> p_priority (procs k 0) = 0 \<and> p_cwd (procs k 0) = Some 0 \<and> p_chan (procs k 0) = None
     \<and> initproc k = Some 0 \<and> (\<forall>j > 0. procs k j = proc_init)"
proof -
  obtain k where k: "booted 1 1 0 = Some (one_cpu k (Scan 0 0))" "table_ok k" "refs_ok k" "ticks k = 0" "nextpid k = 2"
    "p_state (procs k 0) = RUNNABLE" "p_priority (procs k 0) = 0" "p_cwd (procs k 0) = Some 0" "\<forall>j > 0. procs k j = proc_init" "initproc k = Some 0"
    using first_kernel by auto
  let ?k1 = "wakeup None (Some Ticks_chan) (k\<lparr>ticks := 1\<rparr>)"
  have T: "table_ok (k\<lparr>ticks := 1\<rparr>)" "refs_ok (k\<lparr>ticks := 1\<rparr>)"
    using same_table(1) [OF k(2)] refs_same [OF k(3)] by simp_all
  have k1: "p_state (procs ?k1 0) = RUNNABLE" "p_priority (procs ?k1 0) = 0" "ticks ?k1 = 1" "nextpid ?k1 = 2"
    "p_cwd (procs ?k1 0) = Some 0" "initproc ?k1 = Some 0" "j > 0 \<Longrightarrow> procs ?k1 j = proc_init" for j
    using k by (auto simp: wakeup_eq wakes_def woken_by_def proc_init_def)
  have "kruns 1 (one_cpu k (Scan 0 0)) [Other] (one_cpu ?k1 (Scan 0 0))" using one_tick [of "Scan 0 0" k] k(4) by simp
  moreover have "kruns 1 (one_cpu ?k1 (Scan 0 0)) [Chose 0 0] (one_cpu (switch_to 0 ?k1) (Run 0 0))"
    by (rule kruns_one [OF one_choose]) (use k1 in \<open>simp_all add: NPROC_def\<close>)
  ultimately have "kruns 1 (one_cpu k (Scan 0 0)) ([Other] @ [Chose 0 0]) (one_cpu (switch_to 0 ?k1) (Run 0 0))"
    by (meson kruns_append)
  moreover have "table_ok (switch_to 0 ?k1)" "refs_ok (switch_to 0 ?k1)"
    using switch_to_table [OF wakeup_table(1) [OF T(1)] k1(1)] wakeup_table(2) [OF T] by (simp_all add: NPROC_def)
  ultimately show ?thesis using started [OF k(1)] k1
    by (intro exI [of _ "one_cpu k (Scan 0 0)"] exI [of _ "switch_to 0 ?k1"] exI) (auto simp: switch_to_simps)
qed

lemma first_child:
  "\<exists>m0 k ls. kstart 1 m0 \<and> kruns 1 m0 ls (one_cpu k (Run 0 0)) \<and> table_ok k \<and> refs_ok k \<and> ticks k = 1 \<and> nextpid k = 3
     \<and> p_state (procs k 0) = RUNNING \<and> p_priority (procs k 0) = 0 \<and> p_cwd (procs k 0) = Some 0 \<and> p_chan (procs k 0) = None
     \<and> p_state (procs k 1) = RUNNABLE \<and> p_priority (procs k 1) = 0 \<and> p_parent (procs k 1) = Some 0 \<and> p_chan (procs k 1) = None
     \<and> p_pid (procs k 1) = 2 \<and> p_cwd (procs k 1) = Some 0 \<and> initproc k = Some 0 \<and> (\<forall>j > 1. procs k j = proc_init)"
proof -
  obtain m0 k ls where k: "kstart 1 m0" "kruns 1 m0 ls (one_cpu k (Run 0 0))" "table_ok k" "refs_ok k" "ticks k = 1" "nextpid k = 2"
    "p_state (procs k 0) = RUNNING" "p_priority (procs k 0) = 0" "p_cwd (procs k 0) = Some 0" "p_chan (procs k 0) = None"
    "\<forall>j > 0. procs k j = proc_init" "initproc k = Some 0"
    using first_running by blast
  obtain k' where f: "fork 1 1 True 0 k = Some (nextpid k, k')" "table_ok k'" "refs_ok k'" "procs k' = (procs k)(1 := child_of k 0 1 1 1)"
    using fork_first [OF k(3,4,7), of 1] k(6,7,9,11) by (auto simp: NPROC_def proc_init_def)
  have "kruns 1 (one_cpu k (Run 0 0)) [Other] (one_cpu k' (Run 0 0))"
    using one_call [of "Fork 1 1 True" 0 k False k' 0] f(1) by simp
  then have run: "kruns 1 m0 (ls @ [Other]) (one_cpu k' (Run 0 0))" using k(2) kruns_append by blast
  have "ticks k' = 1" using fork_rest [OF f(1)] k(5) by simp
  moreover have "nextpid k' = 3 \<and> initproc k' = initproc k" using fork_rest [OF f(1)] k(6) by simp
  ultimately show ?thesis using k run f(2,3,4)
    by (intro exI [of _ m0] exI [of _ k'] exI) (auto simp: child_of_def proc_init_def)
qed


theorem fork_result_witness:
  "\<exists>k r k'. p_state (procs k 0) = RUNNING \<and> fork 1 1 True 0 k = Some (r, k') \<and> r = nextpid k \<and> table_ok k'"
proof -
  obtain k where k: "table_ok k" "refs_ok k" "p_state (procs k 0) = RUNNING" "p_cwd (procs k 0) = Some 0" "nextpid k = 2"
    "\<forall>j > 0. procs k j = proc_init" using first_running by blast
  have "\<exists>j < NPROC. p_state (procs k j) = UNUSED" using k(6) by (intro exI [of _ 1]) (simp add: NPROC_def proc_init_def)
  then show ?thesis using fork_result [OF k(1-3), of 1 1 True] k(3-5) by auto
qed

text \<open>
  C35: \<open>kill(0)\<close>.  Unused entries have number 0, so \<open>kill(0)\<close> succeeds: it marks the lowest unused
  entry as killed, and nothing clears the mark when \<open>fork\<close> uses the entry.  The next child is born
  killed and dies when it first traps into the kernel.
\<close>

theorem kill_zero_kills_next_child:
  assumes "table_ok k" "refs_ok k" "p_state (procs k p) = RUNNING" "p_cwd (procs k p) \<noteq> None" "nextpid k < 2 ^ 31 - 1"
    "j < NPROC" "p_state (procs k j) = UNUSED" "\<forall>i < j. p_state (procs k i) \<noteq> UNUSED"
  shows "\<exists>k1 k2. kill 0 k = (0, k1) \<and> (\<forall>i. i \<noteq> j \<longrightarrow> procs k1 i = procs k i) \<and> fork 1 1 True p k1 = Some (nextpid k, k2)
    \<and> p_state (procs k2 j) = RUNNABLE \<and> p_parent (procs k2 j) = Some p \<and> killed j k2"
proof -
  have "p_pid (procs k i) \<noteq> 0" if "i < j" for i
    using that assms(8) entry_okD(2) [OF table_okD(1) [OF assms(1), of i]] by auto
  moreover have "p_pid (procs k j) = 0" using entry_okD(1) [OF table_okD(1) [OF assms(1), of j] assms(7)] by simp
  ultimately have f: "find (\<lambda>j. p_pid (procs k j) = 0) [0..<NPROC] = Some j"
    using assms(6) by (auto simp: find_Some_iff intro!: exI [of _ j])
  let ?k1 = "snd (kill 0 k)"
  have e: "(procs k j)\<lparr>p_killed := True, p_state := UNUSED\<rparr> = (procs k j)\<lparr>p_killed := True\<rparr>"
    using assms(7) by (cases "procs k j") simp
  have k1: "kill 0 k = (0, ?k1)" "procs ?k1 = (procs k)(j := (procs k j)\<lparr>p_killed := True\<rparr>)" "nextpid ?k1 = nextpid k"
    using f assms(7) by (simp_all add: kill_def e)
  note K = kill_table [OF assms(1,3), of 0]
  have "p \<noteq> j" using assms(3,7) by auto
  moreover have "p_state (procs ?k1 i) = p_state (procs k i)" for i by (simp add: k1(2))
  ultimately obtain k2 where k2: "fork 1 1 True p ?k1 = Some (nextpid ?k1, k2)" "procs k2 = (procs ?k1)(j := child_of ?k1 p j 1 1)"
    using fork_first [OF K(1) K(2) [OF assms(2)] K(4), of j] assms(4-8) k1(2,3) by auto
  have "p_state (procs k2 j) = RUNNABLE \<and> p_parent (procs k2 j) = Some p \<and> killed j k2"
    using k2(2) by (simp add: k1(2) child_of_def killed_def)
  moreover have "\<forall>i. i \<noteq> j \<longrightarrow> procs ?k1 i = procs k i" by (simp add: k1(2))
  ultimately show ?thesis using k1(1,3) k2(1) by auto
qed

theorem kill_zero_kills_next_child_witness:
  "\<exists>k k1 k2. kill 0 k = (0, k1) \<and> fork 1 1 True 0 k1 = Some (2, k2) \<and> killed 1 k2"
proof -
  obtain k where k: "table_ok k" "refs_ok k" "p_state (procs k 0) = RUNNING" "p_cwd (procs k 0) = Some 0" "nextpid k = 2"
    "\<forall>j > 0. procs k j = proc_init" using first_running by blast
  have "p_state (procs k 1) = UNUSED" "\<forall>i < (1 :: nat). p_state (procs k i) \<noteq> UNUSED" "(1 :: nat) < NPROC"
    using k(3,6) by (simp_all add: proc_init_def NPROC_def)
  then show ?thesis using kill_zero_kills_next_child [OF k(1-3), of 1] k(4,5) by auto
qed

text \<open>
  C25: \<open>exit\<close> and \<open>wait\<close> together.  After a process exits, its children belong to \<open>init\<close> and all other
  processes have the parent they had.  When no other child of its parent, and no child of its own,
  has exited before, the parent's \<open>wait\<close> does not block: it returns the number of the process and
  frees its entry, its exit status stored in between.
\<close>

theorem exit_then_wait:
  assumes "table_ok k" "refs_ok k" "p_state (procs k c) = RUNNING" "initproc k \<noteq> Some c" "p_cwd (procs k c) \<noteq> None"
    "\<And>i. p_parent (procs k i) \<in> {Some q, Some c} \<Longrightarrow> p_state (procs k i) \<noteq> ZOMBIE"
    "p_parent (procs k c) = Some q" "q \<noteq> c"
  shows "\<exists>k1 k2. exit_proc status c k = Some k1 \<and> p_xstate (procs k1 c) = status
    \<and> (\<forall>i. p_parent (procs k1 i) = (if p_parent (procs k i) = Some c then initproc k else p_parent (procs k i)))
    \<and> wait addr True q k1 = (Some (p_pid (procs k c)), k2) \<and> p_state (procs k2 c) = UNUSED \<and> table_ok k2 \<and> refs_ok k2"
proof -
  obtain k1 where k1: "exit_proc status c k = Some k1" "table_ok k1" "refs_ok k1" "p_state (procs k1 c) = ZOMBIE"
    "p_xstate (procs k1 c) = status"
    "\<forall>j. p_parent (procs k1 j) = (if p_parent (procs k j) = Some c then initproc k else p_parent (procs k j))"
    "\<forall>j. j \<noteq> c \<longrightarrow> (p_state (procs k1 j) = ZOMBIE \<longleftrightarrow> p_state (procs k j) = ZOMBIE)"
    "p_pid (procs k1 c) = p_pid (procs k c)"
    using exit_spec [OF assms(1-5), of status] by auto
  have par: "p_parent (procs k1 c) = Some q" using k1(6) assms(7,8) by simp
  have only: "p_parent (procs k1 j) = Some q \<and> p_state (procs k1 j) = ZOMBIE \<longleftrightarrow> j = c" for j
  proof
    assume j: "p_parent (procs k1 j) = Some q \<and> p_state (procs k1 j) = ZOMBIE"
    then have "p_parent (procs k j) \<in> {Some q, Some c}" using k1(6) by (auto split: if_splits)
    then show "j = c" using j k1(7) assms(6) by blast
  qed (use par k1(4) in simp)
  have "c < NPROC" using used_in_table [OF k1(2), of c] k1(4) by simp
  then have "find (\<lambda>j. p_parent (procs k1 j) = Some q \<and> p_state (procs k1 j) = ZOMBIE) [0..<NPROC] = Some c"
    unfolding only by (rule find_upt_only)
  then have "wait addr True q k1 = (Some (p_pid (procs k c)), freeproc c k1)" by (simp add: wait_def k1(8))
  then show ?thesis using k1 freeproc_table [OF k1(2,4)] freeproc_refs [OF k1(3)]
    by (intro exI [of _ k1] exI [of _ "freeproc c k1"]) (simp add: freeproc_def)
qed

theorem exit_then_wait_witness:
  "\<exists>k k1 k2. p_parent (procs k 1) = Some 0 \<and> exit_proc 7 1 k = Some k1 \<and> p_xstate (procs k1 1) = 7
    \<and> wait 0 True 0 k1 = (Some 2, k2) \<and> p_state (procs k2 1) = UNUSED"
proof -
  obtain k where k: "table_ok k" "refs_ok k" "p_state (procs k 0) = RUNNING" "p_state (procs k 1) = RUNNABLE"
    "p_parent (procs k 1) = Some 0" "p_pid (procs k 1) = 2" "p_cwd (procs k 1) = Some 0" "initproc k = Some 0"
    "\<forall>j > 1. procs k j = proc_init" using first_child by blast
  let ?k = "switch_to 1 (yield 0 k)"
  have y: "table_ok (yield 0 k)" "refs_ok (yield 0 k)" using yield_table [OF k(1,3)] k(2) by simp_all
  have "p_state (procs (yield 0 k) 1) = RUNNABLE" using k(4) by (simp add: yield_def)
  with y have T: "table_ok ?k" "refs_ok ?k" using switch_to_table [OF y(1), of 1] by (simp_all add: NPROC_def)
  have "p_state (procs ?k i) \<noteq> ZOMBIE" if "p_parent (procs ?k i) \<in> {Some 0, Some 1}" for i
    using k(9) by (cases "i > 1") (auto simp: switch_to_simps yield_def proc_init_def not_less less_Suc_eq)
  from exit_then_wait [OF T _ _ _ this, of 1 0 7 0] obtain k1 k2 where
    "exit_proc 7 1 ?k = Some k1" "p_xstate (procs k1 1) = 7" "wait 0 True 0 k1 = (Some 2, k2)" "p_state (procs k2 1) = UNUSED"
    using k(5-8) by (auto simp: switch_to_simps yield_def)
  moreover have "p_parent (procs ?k 1) = Some 0" using k(5) by (simp add: switch_to_simps yield_def)
  ultimately show ?thesis by blast
qed

section \<open>The rules of the README\<close>

lemma u32_below_3: "v < (3 :: u32) \<Longrightarrow> v = 0 \<or> v = 1 \<or> v = 2"
  unfolding word_less_nat_alt word_unat_eq_iff by simp arith

text \<open>
  How a run changes the priority.  When a process of level \<open>v\<close> comes back to the scheduler and no
  other CPU steps in between, it goes one level down to \<open>v + 1\<close>, at most to 2, unless it went to sleep
  on a level above 0: then it goes one level up to \<open>v - 1\<close>.  A process of the top level that went to
  sleep is demoted to level 1, against rule 5 of the README.
\<close>

theorem priority_after_run:
  assumes "kstart n m0" "(kmove n)\<^sup>*\<^sup>* m0 m" "c_phase (cpus m c) = Back i j" "v = p_priority (procs (kern m) j)"
    "sched_step n c m = Some (r1, m1)" "sched_step n c m1 = Some (r2, m2)"
  shows "p_priority (procs (kern m2) j) =
      (if p_state (procs (kern m) j) = SLEEPING then (if v = 0 then 1 else v - 1) else min 2 (v + 1))
    \<and> p_state (procs (kern m2) j) = p_state (procs (kern m) j) \<and> (\<forall>x. x \<noteq> j \<longrightarrow> procs (kern m2) x = procs (kern m) x)
    \<and> c_proc (cpus m2 c) = None \<and> c_phase (cpus m2 c) = Scan i (j + 1)"
proof -
  have "v < 3"
    using entry_okD(5) [OF table_okD(1) [OF machine_okD(1) [OF kernel_sys.reachable_inv [OF assms(1,2)]], of j]] assms(4) by simp
  then have v: "v = 0 \<or> v = 1 \<or> v = 2" by (rule u32_below_3)
  have m1: "m1 = set_phase c (Adjust i j v) m" using assms(3-5) by (simp add: sched_step_def)
  have "m2 = set_phase c (Scan i (j + 1)) (set_cproc c None (m1\<lparr>kern := adjust_priority j v (kern m1)\<rparr>))"
    using assms(6) by (simp add: sched_step_def m1 set_phase_def)
  then show ?thesis using v assms(4) m1
    by (auto simp: set_phase_def set_cproc_def adjust_priority_def NPRIO_def)
qed

theorem priority_after_run_witness:
  "\<exists>m m2. c_phase (cpus m 0) = Back 0 0 \<and> p_state (procs (kern m) 0) = SLEEPING \<and> p_priority (procs (kern m) 0) = 0
    \<and> (kmove 1)\<^sup>*\<^sup>* m m2 \<and> p_priority (procs (kern m2) 0) = 1"
proof -
  obtain m0 k ls where k: "kstart 1 m0" "kruns 1 m0 ls (one_cpu k (Run 0 0))" "p_priority (procs k 0) = 0"
    using first_running by blast
  let ?k = "sleep_on 0 Ticks_chan k"
  have "kruns 1 (one_cpu k (Run 0 0)) [Other] (one_cpu ?k (Back 0 0))"
    using one_call [of "Sleep Ticks_chan" 0 k True ?k 0] by simp
  then have r: "(kmove 1)\<^sup>*\<^sup>* m0 (one_cpu ?k (Back 0 0))" using kruns_moves k(2) kruns_append by blast
  let ?m = "one_cpu ?k (Back 0 0)" and ?m1 = "one_cpu ?k (Adjust 0 0 0)"
  have p: "p_state (procs (kern ?m) 0) = SLEEPING" "p_priority (procs (kern ?m) 0) = 0" using k(3) by (simp_all add: sleep_on_def)
  have s1: "sched_step 1 0 ?m = Some (None, ?m1)" using p(2) by (simp add: sched_step_def)
  obtain m2 where s2: "sched_step 1 0 ?m1 = Some (None, m2)" by (simp add: sched_step_def)
  have "(kmove 1)\<^sup>*\<^sup>* ?m m2"
    using kruns_moves [OF one_step [OF s1]] kruns_moves [OF one_step [OF s2]] by (rule rtranclp_trans)
  moreover have "p_priority (procs (kern m2) 0) = 1"
    using priority_after_run [OF k(1) r _ refl s1 s2, of 0 0] p by simp
  ultimately show ?thesis using p by (intro exI [of _ ?m] exI [of _ m2]) simp
qed

text \<open>A process that yields, on one CPU.\<close>

lemma one_yield:
  assumes "p_priority (procs k j) = of_nat i" "i < 3"
  shows "\<exists>ls k'. kruns 1 (one_cpu k (Run i j)) ls (one_cpu k' (Scan i (Suc j)))
    \<and> procs k' = (procs k)(j := (procs k j)\<lparr>p_state := RUNNABLE, p_priority := if i < 2 then of_nat i + 1 else of_nat i\<rparr>)
    \<and> ticks k' = ticks k \<and> nextpid k' = nextpid k"
proof -
  let ?k1 = "yield j k"
  let ?k2 = "adjust_priority j (p_priority (procs ?k1 j)) ?k1"
  have "kruns 1 (one_cpu k (Run i j)) [Other] (one_cpu ?k1 (Back i j))"
    using one_call [of Yield j k True ?k1 i] by simp
  then have run: "kruns 1 (one_cpu k (Run i j)) ([Other] @ [Other, Other]) (one_cpu ?k2 (Scan i (Suc j)))"
    using one_back kruns_append by blast
  have "i = 0 \<or> i = 1 \<or> i = 2" using assms(2) by auto
  then have "procs ?k2 = (procs k)(j := (procs k j)\<lparr>p_state := RUNNABLE, p_priority := if i < 2 then of_nat i + 1 else of_nat i\<rparr>)"
    using assms(1) by (cases "procs k j") (auto simp: adjust_priority_def yield_def NPRIO_def)
  moreover have "ticks ?k2 = ticks k \<and> nextpid ?k2 = nextpid k" by (simp add: adjust_priority_def yield_def)
  ultimately show ?thesis using run by blast
qed

text \<open>
  C34: rule 1 of the README (the process of the highest priority runs) is not kept.  The scan of a level
  goes on when a process of a higher level becomes runnable: in a reachable state of one CPU the
  scheduler switches to a process of level 1 while a free, runnable process waits at level 0.
\<close>

theorem rule1_violated:
  "\<exists>m0 m m' p q. kstart 1 m0 \<and> (kmove 1)\<^sup>*\<^sup>* m0 m \<and> kstep 1 (Chose 0 p) m m'
    \<and> p_state (procs (kern m) q) = RUNNABLE \<and> \<not> p_locked 1 m q \<and> p_priority (procs (kern m) q) < p_priority (procs (kern m) p)"
proof -
  obtain m0 k ls where k: "kstart 1 m0" "kruns 1 m0 ls (one_cpu k (Run 0 0))" "ticks k = 1" "nextpid k = 3"
    "p_priority (procs k 0) = 0" "p_cwd (procs k 0) = Some 0"
    "p_state (procs k 1) = RUNNABLE" "p_priority (procs k 1) = 0" "\<forall>j > 1. procs k j = proc_init" using first_child by blast
  obtain lsA kA where A: "kruns 1 (one_cpu k (Run 0 0)) lsA (one_cpu kA (Scan 0 1))"
    "procs kA = (procs k)(0 := (procs k 0)\<lparr>p_state := RUNNABLE, p_priority := 1\<rparr>)" "ticks kA = 1" "nextpid kA = 3"
    using one_yield [of k 0 0] k(3-5) by auto
  let ?kA = "switch_to 1 kA"
  have A1: "p_state (procs kA 1) = RUNNABLE" "p_priority (procs kA 1) = of_nat 0" using k(7,8) by (simp_all add: A(2))
  have A': "kruns 1 (one_cpu kA (Scan 0 1)) [Chose 0 1] (one_cpu ?kA (Run 0 1))"
    by (rule kruns_one [OF one_choose [OF _ A1]]) (simp add: NPROC_def)
  obtain lsB kB where B: "kruns 1 (one_cpu ?kA (Run 0 1)) lsB (one_cpu kB (Scan 0 2))"
    "procs kB = (procs ?kA)(1 := (procs ?kA 1)\<lparr>p_state := RUNNABLE, p_priority := 1\<rparr>)" "ticks kB = 1" "nextpid kB = 3"
    using one_yield [of ?kA 1 0] A1(2) A(3,4) by (auto simp: switch_to_simps numeral_2_eq_2)
  have B0: "p_state (procs kB 0) = RUNNABLE" "p_priority (procs kB 0) = 1" "p_cwd (procs kB 0) = Some 0"
    "p_state (procs kB 1) = RUNNABLE" "p_priority (procs kB 1) = 1" "\<forall>j > 1. procs kB j = proc_init"
    using k(6,9) by (auto simp: B(2) A(2) switch_to_simps)
  have C: "kruns 1 (one_cpu kB (Scan 0 2)) (replicate (NPROC - 2) Other) (one_cpu kB (Scan 0 NPROC))"
    by (rule one_scan) (use B0(6) in \<open>auto simp: NPROC_def proc_init_def\<close>)
  have C': "kruns 1 (one_cpu kB (Scan 0 NPROC)) [Other] (one_cpu kB (Scan 1 0))"
    using one_level [of kB 0] B(3) by (simp add: NPRIO_def next_level_def)
  let ?kC = "switch_to 0 kB"
  have D: "kruns 1 (one_cpu kB (Scan 1 0)) [Chose 0 0] (one_cpu ?kC (Run 1 0))"
    by (rule kruns_one [OF one_choose]) (use B0 in \<open>simp_all add: NPROC_def\<close>)
  have run: "\<exists>ls. kruns 1 m0 ls (one_cpu ?kC (Run 1 0))" using k(2) A(1) A' B(1) C C' D by (meson kruns_append)
  then have "machine_ok 1 (one_cpu ?kC (Run 1 0))" using kernel_sys.reachable_inv [OF k(1)] kruns_moves by blast
  then have T: "table_ok ?kC" "refs_ok ?kC" using machine_okD(1,2) by force+
  have "p_state (procs ?kC 2) = UNUSED" "\<forall>i < (2 :: nat). p_state (procs ?kC i) \<noteq> UNUSED"
    using B0 by (auto simp: switch_to_simps proc_init_def less_Suc_eq numeral_2_eq_2)
  then obtain kD where f: "fork 1 1 True 0 ?kC = Some (nextpid ?kC, kD)" "procs kD = (procs ?kC)(2 := child_of ?kC 0 2 1 1)"
    using fork_first [OF T, of 0 2] B0(3) B(4) by (auto simp: switch_to_simps NPROC_def)
  have E: "kruns 1 (one_cpu ?kC (Run 1 0)) [Other] (one_cpu kD (Run 1 0))"
    using one_call [of "Fork 1 1 True" 0 ?kC False kD 1] f(1) by simp
  obtain lsF kF where F: "kruns 1 (one_cpu kD (Run 1 0)) lsF (one_cpu kF (Scan 1 1))"
    "procs kF = (procs kD)(0 := (procs kD 0)\<lparr>p_state := RUNNABLE, p_priority := 2\<rparr>)"
    using one_yield [of kD 0 1] B0(2) by (auto simp: f(2) switch_to_simps)
  let ?m = "one_cpu kF (Scan 1 1)"
  have p: "p_state (procs kF 1) = RUNNABLE" "p_priority (procs kF 1) = 1" "p_state (procs kF 2) = RUNNABLE" "p_priority (procs kF 2) = 0"
    using B0(4-6) by (auto simp: F(2) f(2) switch_to_simps child_of_def proc_init_def)
  have "\<exists>ls. kruns 1 m0 ls ?m" using run E F(1) by (meson kruns_append)
  then have "(kmove 1)\<^sup>*\<^sup>* m0 ?m" using kruns_moves by blast
  moreover have "kstep 1 (Chose 0 1) ?m (one_cpu (switch_to 1 kF) (Run 1 1))"
    by (rule one_choose) (use p in \<open>simp_all add: NPROC_def\<close>)
  moreover have "p_state (procs (kern ?m) 2) = RUNNABLE \<and> \<not> p_locked 1 ?m 2 \<and> p_priority (procs (kern ?m) 2) < p_priority (procs (kern ?m) 1)"
    using p by simp
  ultimately show ?thesis using k(1) by blast
qed

end
