(* ===== verification/Xv6_Sleeplock.thy ===== *)
theory Xv6_Sleeplock
  imports Prelude Transition_System
begin

text \<open>
  The sleeping locks of xv6 (\<open>kernel/sleeplock.c\<close>).  Each operation runs under the spin lock
  \<open>lk->lk\<close>, so the part of a call up to its end or to \<open>sleep\<close> is one step.  Processes are numbers,
  \<open>pid\<close> gives their process numbers; a process that is woken tests the lock again.
\<close>

record sleeplock =
  sl_locked :: u32
  sl_pid :: int

definition initsleeplock :: sleeplock where
  "initsleeplock = \<lparr>sl_locked = 0, sl_pid = 0\<rparr>"

text \<open>One turn of the loop of \<open>acquiresleep\<close>: None when the process goes to sleep.\<close>

definition acquiresleep :: "int \<Rightarrow> sleeplock \<Rightarrow> sleeplock option" where
  "acquiresleep mypid lk = (if sl_locked lk \<noteq> 0 then None else Some (lk\<lparr>sl_locked := 1, sl_pid := mypid\<rparr>))"

definition releasesleep :: "sleeplock \<Rightarrow> sleeplock" where
  "releasesleep lk = lk\<lparr>sl_locked := 0, sl_pid := 0\<rparr>"

definition holdingsleep :: "int \<Rightarrow> sleeplock \<Rightarrow> bool" where
  "holdingsleep mypid lk \<longleftrightarrow> sl_locked lk \<noteq> 0 \<and> sl_pid lk = mypid"

section \<open>Processes that use a lock\<close>

datatype sl_phase = Outside | Trying | Waiting | Inside

record sl_sys =
  the_lock :: sleeplock
  sl_at :: "nat \<Rightarrow> sl_phase"

text \<open>\<open>wakeup(lk)\<close>.\<close>

definition wake_waiting :: "(nat \<Rightarrow> sl_phase) \<Rightarrow> nat \<Rightarrow> sl_phase" where
  "wake_waiting ph = (\<lambda>q. if ph q = Waiting then Trying else ph q)"

inductive sl_step :: "(nat \<Rightarrow> int) \<Rightarrow> sl_sys \<Rightarrow> sl_sys \<Rightarrow> bool" for pid where
  want: "sl_at s p = Outside \<Longrightarrow> sl_step pid s (s\<lparr>sl_at := (sl_at s)(p := Trying)\<rparr>)"
| take: "sl_at s p = Trying \<Longrightarrow> acquiresleep (pid p) (the_lock s) = Some lk
    \<Longrightarrow> sl_step pid s (s\<lparr>the_lock := lk, sl_at := (sl_at s)(p := Inside)\<rparr>)"
| doze: "sl_at s p = Trying \<Longrightarrow> acquiresleep (pid p) (the_lock s) = None
    \<Longrightarrow> sl_step pid s (s\<lparr>sl_at := (sl_at s)(p := Waiting)\<rparr>)"
| rouse: "sl_at s p = Waiting \<Longrightarrow> sl_step pid s (s\<lparr>sl_at := (sl_at s)(p := Trying)\<rparr>)"
| give: "sl_at s p = Inside
    \<Longrightarrow> sl_step pid s (s\<lparr>the_lock := releasesleep (the_lock s), sl_at := (wake_waiting (sl_at s))(p := Outside)\<rparr>)"

definition sl_inv :: "(nat \<Rightarrow> int) \<Rightarrow> sl_sys \<Rightarrow> bool" where
  "sl_inv pid s \<longleftrightarrow> (\<forall>p. sl_at s p = Inside \<longrightarrow> sl_locked (the_lock s) = 1 \<and> sl_pid (the_lock s) = pid p)
     \<and> (\<forall>p q. sl_at s p = Inside \<longrightarrow> sl_at s q = Inside \<longrightarrow> p = q)
     \<and> (sl_locked (the_lock s) \<noteq> 0 \<longrightarrow> (\<exists>p. sl_at s p = Inside))
     \<and> (\<forall>p. sl_at s p = Waiting \<longrightarrow> sl_locked (the_lock s) \<noteq> 0)"

definition sl_started :: "sl_sys \<Rightarrow> bool" where
  "sl_started s \<longleftrightarrow> the_lock s = initsleeplock \<and> (\<forall>p. sl_at s p = Outside)"

lemma sl_inv_move:
  assumes "sl_inv pid s" "sl_at s p \<noteq> Inside" "x \<noteq> Inside" "x = Waiting \<longrightarrow> sl_locked (the_lock s) \<noteq> 0"
  shows "sl_inv pid (s\<lparr>sl_at := (sl_at s)(p := x)\<rparr>)"
proof -
  have "((sl_at s)(p := x)) q = Inside \<longleftrightarrow> sl_at s q = Inside" for q using assms(2,3) by simp
  moreover have "((sl_at s)(p := x)) q = Waiting \<Longrightarrow> sl_locked (the_lock s) \<noteq> 0" for q
    using assms(1,4) by (cases "q = p") (auto simp: sl_inv_def)
  ultimately show ?thesis using assms(1) unfolding sl_inv_def by (simp del: fun_upd_apply)
qed

lemma sl_step_inv:
  assumes "sl_inv pid s" "sl_step pid s s'"
  shows "sl_inv pid s'"
  using assms(2)
proof (cases rule: sl_step.cases)
  case (take p lk)
  then have lk: "sl_locked (the_lock s) = 0" "lk = (the_lock s)\<lparr>sl_locked := 1, sl_pid := pid p\<rparr>"
    by (auto simp: acquiresleep_def split: if_splits)
  then have "sl_at s q \<noteq> Inside" for q using assms(1) by (auto simp: sl_inv_def)
  then show ?thesis using assms(1) take(1) lk by (auto simp: sl_inv_def)
next
  case (give p)
  then have "sl_at s q \<noteq> Inside" if "q \<noteq> p" for q using that assms(1) by (auto simp: sl_inv_def)
  then show ?thesis using assms(1) give by (auto simp: sl_inv_def releasesleep_def wake_waiting_def split: if_splits)
qed (use sl_inv_move [OF assms(1)] in \<open>auto simp: acquiresleep_def split: if_splits\<close>)

interpretation sleeplocks: invariant_system sl_started "sl_step pid" "sl_inv pid" for pid
proof unfold_locales
  show "sl_started s \<Longrightarrow> sl_inv pid s" for s by (simp add: sl_started_def sl_inv_def initsleeplock_def)
  show "sl_inv pid s \<Longrightarrow> sl_step pid s s' \<Longrightarrow> sl_inv pid s'" for s s' by (rule sl_step_inv)
qed

text \<open>
  C39: a sleeping lock excludes.  At most one process is between \<open>acquiresleep\<close> and \<open>releasesleep\<close>,
  \<open>holdingsleep\<close> is true for it and for no other process, and a process waits only while another
  one holds the lock.
\<close>

theorem sleeplock_mutual_exclusion:
  assumes "sl_started s0" "(sl_step pid)\<^sup>*\<^sup>* s0 s" "inj pid"
  shows "(sl_at s p = Inside \<and> sl_at s q = Inside \<longrightarrow> p = q)
    \<and> (holdingsleep (pid p) (the_lock s) \<longleftrightarrow> sl_at s p = Inside)
    \<and> (sl_at s p = Waiting \<longrightarrow> (\<exists>q. q \<noteq> p \<and> sl_at s q = Inside))"
proof -
  have I: "sl_inv pid s" by (rule sleeplocks.reachable_inv [OF assms(1,2)])
  have "sl_at s p = Inside" if h: "holdingsleep (pid p) (the_lock s)"
  proof -
    obtain q where q: "sl_at s q = Inside" using I h unfolding sl_inv_def holdingsleep_def by blast
    then have "pid q = pid p" using I h by (auto simp: sl_inv_def holdingsleep_def)
    then show ?thesis using q assms(3) by (auto simp: inj_def)
  qed
  moreover have "holdingsleep (pid p) (the_lock s)" if "sl_at s p = Inside"
    using I that by (auto simp: sl_inv_def holdingsleep_def)
  moreover have "\<exists>q. q \<noteq> p \<and> sl_at s q = Inside" if "sl_at s p = Waiting"
  proof -
    obtain q where "sl_at s q = Inside" using I \<open>sl_at s p = Waiting\<close> unfolding sl_inv_def by blast
    then show ?thesis using \<open>sl_at s p = Waiting\<close> by (intro exI [of _ q]) auto
  qed
  ultimately show ?thesis using I unfolding sl_inv_def by blast
qed

definition sl_fresh :: sl_sys where
  "sl_fresh = \<lparr>the_lock = initsleeplock, sl_at = \<lambda>_. Outside\<rparr>"

theorem sleeplock_mutual_exclusion_witness:
  "\<exists>s. (sl_step int)\<^sup>*\<^sup>* sl_fresh s \<and> sl_at s 1 = Inside \<and> holdingsleep (int 1) (the_lock s) \<and> \<not> holdingsleep (int 2) (the_lock s)"
proof -
  let ?s1 = "sl_fresh\<lparr>sl_at := (sl_at sl_fresh)(1 := Trying)\<rparr>"
  let ?s2 = "?s1\<lparr>the_lock := \<lparr>sl_locked = 1, sl_pid = int 1\<rparr>, sl_at := (sl_at ?s1)(1 := Inside)\<rparr>"
  have "sl_step int sl_fresh ?s1" by (rule sl_step.want) (simp add: sl_fresh_def)
  moreover have "sl_step int ?s1 ?s2"
    by (rule sl_step.take) (simp_all add: sl_fresh_def acquiresleep_def initsleeplock_def)
  ultimately have r: "(sl_step int)\<^sup>*\<^sup>* sl_fresh ?s2" by (meson converse_rtranclp_into_rtranclp rtranclp.rtrancl_refl)
  have "sl_started sl_fresh" by (simp add: sl_started_def sl_fresh_def)
  from sleeplock_mutual_exclusion [OF this r, of 1 1] sleeplock_mutual_exclusion [OF this r, of 2 1]
  show ?thesis using r by (intro exI [of _ ?s2]) (simp add: sl_fresh_def)
qed

end
