(* ===== verification/Xv6_Pipe.thy ===== *)
theory Xv6_Pipe
  imports Xv6_Proc Transition_System
begin

text \<open>
  The pipes of xv6 (\<open>kernel/pipe.c\<close>): a ring of 512 bytes with two counters that are never reset and
  wrap around at \<open>2 ^ 32\<close>.  The part of a call between taking \<open>pi->lock\<close> and giving it up, in
  \<open>sleep\<close> or at the end, is one step; any number of processes read and write.  What \<open>copyin\<close> and
  \<open>copyout\<close> find at \<open>addr + i\<close> is an argument: the byte, or whether the byte can be stored.  \<open>killed\<close>
  is read once per byte, so its answer is an argument by position.
\<close>

section \<open>The ring\<close>

definition PIPESIZE :: u32 where "PIPESIZE = 512"

record pipe =
  pi_data :: "u8 list"
  pi_nread :: u32
  pi_nwrite :: u32
  pi_readopen :: int
  pi_writeopen :: int

definition put_byte :: "u8 \<Rightarrow> pipe \<Rightarrow> pipe" where
  "put_byte ch pi = pi\<lparr>pi_data := (pi_data pi)[unat (pi_nwrite pi mod PIPESIZE) := ch], pi_nwrite := pi_nwrite pi + 1\<rparr>"

definition get_byte :: "pipe \<Rightarrow> u8 \<times> pipe" where
  "get_byte pi = (pi_data pi ! unat (pi_nread pi mod PIPESIZE), pi\<lparr>pi_nread := pi_nread pi + 1\<rparr>)"

text \<open>\<open>pipealloc\<close>; \<open>page\<close> says whether \<open>kalloc\<close> finds a page, whose contents are \<open>junk\<close>.\<close>

definition pipe_new :: "u8 list \<Rightarrow> pipe" where
  "pipe_new junk = \<lparr>pi_data = junk, pi_nread = 0, pi_nwrite = 0, pi_readopen = 1, pi_writeopen = 1\<rparr>"

definition pipealloc :: "bool \<Rightarrow> u8 list \<Rightarrow> kernel \<Rightarrow> (int \<times> (nat \<times> nat \<times> pipe) option \<times> kernel) option" where
  "pipealloc page junk k =
     (case filealloc k of
        (None, k) \<Rightarrow> Some (- 1, None, k)
      | (Some f0, k) \<Rightarrow>
          (case filealloc k of
             (None, k) \<Rightarrow> do { k \<leftarrow> fileclose f0 k; Some (- 1, None, k) }
           | (Some f1, k) \<Rightarrow>
               if \<not> page then do { k \<leftarrow> fileclose f0 k; k \<leftarrow> fileclose f1 k; Some (- 1, None, k) }
               else let k = k\<lparr>files := (files k)(f0 := (files k f0)\<lparr>f_type := FD_PIPE\<rparr>)\<rparr> in
                    let k = k\<lparr>files := (files k)(f1 := (files k f1)\<lparr>f_type := FD_PIPE\<rparr>)\<rparr> in
                    Some (0, Some (f0, f1, pipe_new junk), k)))"

section \<open>Reading and writing\<close>

text \<open>How a step of a call ends: with a result, or asleep with \<open>i\<close> bytes done.\<close>

datatype outcome = Returned int | Slept nat

text \<open>
  The loop of \<open>pipewrite\<close>: how it ends, whether \<open>wakeup(&pi->nread)\<close> is called, and the bytes \<open>copyin\<close>
  has delivered on the way.
\<close>

function pipewrite :: "(nat \<Rightarrow> u8 option) \<Rightarrow> (nat \<Rightarrow> bool) \<Rightarrow> nat \<Rightarrow> int \<Rightarrow> pipe \<Rightarrow> outcome \<times> bool \<times> u8 list \<times> pipe" where
  "pipewrite copyin dead i n pi =
     (if int i < n then
        if pi_readopen pi = 0 \<or> dead i then (Returned (- 1), False, [], pi)
        else if pi_nwrite pi = pi_nread pi + PIPESIZE then (Slept i, True, [], pi)
        else (case copyin i of
                None \<Rightarrow> (Returned (int i), True, [], pi)
              | Some ch \<Rightarrow> let (r, wk, bs, pi) = pipewrite copyin dead (i + 1) n (put_byte ch pi) in (r, wk, ch # bs, pi))
      else (Returned (int i), True, [], pi))"
  by pat_completeness auto
termination by (relation "measure (\<lambda>(c, k, i, n, pi). nat (n - int i))") auto

declare pipewrite.simps [simp del]

text \<open>
  The copying loop of \<open>piperead\<close>: the return value, the bytes that \<open>copyout\<close> has stored, and the byte
  for which it failed, if any; that byte has left the pipe too.
\<close>

function read_loop :: "(nat \<Rightarrow> bool) \<Rightarrow> nat \<Rightarrow> int \<Rightarrow> pipe \<Rightarrow> nat \<times> u8 list \<times> u8 list \<times> pipe" where
  "read_loop copyout i n pi =
     (if int i < n then
        if pi_nread pi = pi_nwrite pi then (i, [], [], pi)
        else let (ch, pi) = get_byte pi in
          if \<not> copyout i then (i, [], [ch], pi)
          else let (j, bs, lost, pi) = read_loop copyout (i + 1) n pi in (j, ch # bs, lost, pi)
      else (i, [], [], pi))"
  by pat_completeness auto
termination by (relation "measure (\<lambda>(c, i, n, pi). nat (n - int i))") auto

declare read_loop.simps [simp del]

definition piperead :: "(nat \<Rightarrow> bool) \<Rightarrow> bool \<Rightarrow> int \<Rightarrow> pipe \<Rightarrow> outcome \<times> bool \<times> u8 list \<times> u8 list \<times> pipe" where
  "piperead copyout dead n pi =
     (if pi_nread pi = pi_nwrite pi \<and> pi_writeopen pi \<noteq> 0 then
        if dead then (Returned (- 1), False, [], [], pi) else (Slept 0, False, [], [], pi)
      else let (i, bs, lost, pi) = read_loop copyout 0 n pi in (Returned (int i), True, bs, lost, pi))"

text \<open>\<open>pipeclose\<close>: the channel that is woken is that of the other side; None when the page is freed.\<close>

definition pipeclose :: "bool \<Rightarrow> pipe \<Rightarrow> pipe option" where
  "pipeclose writable pi =
     (let pi = if writable then pi\<lparr>pi_writeopen := 0\<rparr> else pi\<lparr>pi_readopen := 0\<rparr> in
      if pi_readopen pi = 0 \<and> pi_writeopen pi = 0 then None else Some pi)"

section \<open>The ring is a bounded queue\<close>

locale bounded_queue =
  fixes items :: "'s \<Rightarrow> 'a list" and put :: "'a \<Rightarrow> 's \<Rightarrow> 's" and get :: "'s \<Rightarrow> 'a \<times> 's"
    and full :: "'s \<Rightarrow> bool" and empty :: "'s \<Rightarrow> bool" and ok :: "'s \<Rightarrow> bool" and cap :: nat
  assumes put_items: "ok s \<Longrightarrow> \<not> full s \<Longrightarrow> ok (put x s) \<and> items (put x s) = items s @ [x]"
    and get_items: "ok s \<Longrightarrow> \<not> empty s \<Longrightarrow> ok (snd (get s)) \<and> items s = fst (get s) # items (snd (get s))"
    and full_iff: "ok s \<Longrightarrow> full s \<longleftrightarrow> length (items s) = cap"
    and empty_iff: "ok s \<Longrightarrow> empty s \<longleftrightarrow> items s = []"
    and items_cap: "ok s \<Longrightarrow> length (items s) \<le> cap"
begin

lemma put_room: "ok s \<Longrightarrow> \<not> full s \<Longrightarrow> length (items s) < cap"
  using full_iff items_cap by fastforce

lemma put_then_get:
  assumes "ok s" "empty s" "0 < cap"
  shows "fst (get (put x s)) = x" "empty (snd (get (put x s)))"
proof -
  have "items s = []" using assms(1,2) empty_iff by blast
  moreover from this have "\<not> full s" using assms(1,3) full_iff by fastforce
  ultimately have p: "ok (put x s)" "items (put x s) = [x]" using put_items [OF assms(1)] by simp_all
  then have "\<not> empty (put x s)" using empty_iff by simp
  then show "fst (get (put x s)) = x" "empty (snd (get (put x s)))"
    using get_items [OF p(1)] p(2) empty_iff by auto
qed

end

definition pipe_full :: "pipe \<Rightarrow> bool" where
  "pipe_full pi \<longleftrightarrow> pi_nwrite pi = pi_nread pi + PIPESIZE"

definition pipe_empty :: "pipe \<Rightarrow> bool" where
  "pipe_empty pi \<longleftrightarrow> pi_nread pi = pi_nwrite pi"

definition used :: "pipe \<Rightarrow> nat" where
  "used pi = unat (pi_nwrite pi - pi_nread pi)"

definition pipe_bytes :: "pipe \<Rightarrow> u8 list" where
  "pipe_bytes pi = map (\<lambda>j. pi_data pi ! unat ((pi_nread pi + of_nat j) mod PIPESIZE)) [0..<used pi]"

definition pipe_ok :: "pipe \<Rightarrow> bool" where
  "pipe_ok pi \<longleftrightarrow> length (pi_data pi) = 512 \<and> used pi \<le> 512"

text \<open>512 divides \<open>2 ^ 32\<close>, so the index of a counter goes round the ring without a jump.\<close>

lemma slot_unat: "unat (w mod PIPESIZE) = unat w mod 512"
  by (simp add: PIPESIZE_def unat_mod)

lemma slot_add: "unat ((w + of_nat j) mod PIPESIZE) = (unat w + j) mod 512"
proof -
  have "unat (w + of_nat j) = (unat w + j) mod 2 ^ 32"
    by (simp add: unat_word_ariths unat_of_nat mod_simps)
  then show ?thesis unfolding slot_unat by (simp add: mod_mod_cancel)
qed

lemma mod_eq_nat_cases:
  assumes "x mod m = y mod (m :: nat)" "\<And>q. y = x + m * q \<Longrightarrow> P" "\<And>q. x = y + m * q \<Longrightarrow> P"
  shows P
  using assms by (metis mod_eq_nat1E mod_eq_nat2E nle_le)

lemma mod_eq_nat_small:
  assumes "(r + j) mod m = (r + u) mod (m :: nat)" "j < m" "u < m"
  shows "j = u"
  using assms(1)
proof (rule mod_eq_nat_cases)
  show "r + u = r + j + m * q \<Longrightarrow> j = u" "r + j = r + u + m * q \<Longrightarrow> j = u" for q
    using assms(2,3) by (cases q; simp)+
qed

lemma used_put: "used pi < 512 \<Longrightarrow> used (put_byte ch pi) = used pi + 1"
proof -
  assume u: "used pi < 512"
  have "unat ((pi_nwrite pi - pi_nread pi) + 1) = unat (pi_nwrite pi - pi_nread pi) + 1"
    using u unfolding used_def by (simp add: unat_word_ariths)
  then show ?thesis by (simp add: used_def put_byte_def algebra_simps)
qed

lemma used_get: "0 < used pi \<Longrightarrow> used (snd (get_byte pi)) = used pi - 1"
proof -
  assume u: "0 < used pi"
  then have "pi_nwrite pi - pi_nread pi \<noteq> 0" unfolding used_def by (metis unat_0 less_irrefl)
  then have "unat ((pi_nwrite pi - pi_nread pi) - 1) = unat (pi_nwrite pi - pi_nread pi) - 1" by (rule unat_minus_one)
  then show ?thesis by (simp add: used_def get_byte_def algebra_simps)
qed

lemma unat_numeral_512: "unat (512 :: u32) = 512"
  by simp

lemma pipe_full_used: "pipe_full pi \<longleftrightarrow> used pi = 512"
proof -
  have "pipe_full pi \<longleftrightarrow> pi_nwrite pi - pi_nread pi = 512"
    by (auto simp: pipe_full_def PIPESIZE_def algebra_simps)
  also have "\<dots> \<longleftrightarrow> used pi = 512" unfolding used_def by (metis unat_numeral_512 word_unat_eq_iff)
  finally show ?thesis .
qed

lemma pipe_empty_used: "pipe_empty pi \<longleftrightarrow> used pi = 0"
  by (auto simp: pipe_empty_def used_def unat_eq_0)

lemma length_pipe_bytes [simp]: "length (pipe_bytes pi) = used pi"
  by (simp add: pipe_bytes_def)

lemma pipe_bytes_nth: "j < used pi \<Longrightarrow> pipe_bytes pi ! j = pi_data pi ! ((unat (pi_nread pi) + j) mod 512)"
  by (simp add: pipe_bytes_def slot_add)

lemma pipe_bytes_put:
  assumes "pipe_ok pi" "used pi < 512"
  shows "pipe_bytes (put_byte ch pi) = pipe_bytes pi @ [ch]"
proof (rule nth_equalityI)
  let ?r = "unat (pi_nread pi)" and ?u = "used pi"
  have w: "unat (pi_nwrite pi mod PIPESIZE) = (?r + ?u) mod 512"
    using slot_add [of "pi_nread pi" ?u] by (simp add: used_def)
  show "length (pipe_bytes (put_byte ch pi)) = length (pipe_bytes pi @ [ch])"
    using assms(2) by (simp add: used_put)
  show "pipe_bytes (put_byte ch pi) ! j = (pipe_bytes pi @ [ch]) ! j" if "j < length (pipe_bytes (put_byte ch pi))" for j
  proof -
    have j: "j \<le> ?u" using that assms(2) by (simp add: used_put)
    have put: "pipe_bytes (put_byte ch pi) ! j = (pi_data pi)[(?r + ?u) mod 512 := ch] ! ((?r + j) mod 512)"
      using j assms(2) by (simp add: pipe_bytes_nth used_put) (simp add: put_byte_def w)
    show ?thesis
    proof (cases "j = ?u")
      case True
      then show ?thesis using put assms(1) by (simp add: nth_append pipe_ok_def)
    next
      case False
      then have "(?r + j) mod 512 \<noteq> (?r + ?u) mod 512"
        using j assms(2) by (metis add_left_cancel le_neq_implies_less mod_less order_less_trans mod_eq_nat_small)
      then show ?thesis using False j by (simp add: put nth_append pipe_bytes_nth)
    qed
  qed
qed

lemma pipe_bytes_get:
  assumes "0 < used pi"
  shows "pipe_bytes pi = fst (get_byte pi) # pipe_bytes (snd (get_byte pi))"
proof (rule nth_equalityI)
  show "length (pipe_bytes pi) = length (fst (get_byte pi) # pipe_bytes (snd (get_byte pi)))"
    using assms by (simp add: used_get)
  show "pipe_bytes pi ! j = (fst (get_byte pi) # pipe_bytes (snd (get_byte pi))) ! j" if "j < length (pipe_bytes pi)" for j
  proof (cases j)
    case 0
    then show ?thesis using assms by (simp add: pipe_bytes_nth get_byte_def slot_unat)
  next
    case (Suc i)
    have "unat ((pi_nread pi + 1) mod PIPESIZE) = (unat (pi_nread pi) + 1) mod 512" using slot_add [of "pi_nread pi" 1] by simp
    then have r: "(unat (pi_nread pi + 1) + i) mod 512 = (unat (pi_nread pi) + j) mod 512"
      unfolding slot_unat Suc by (metis add.assoc mod_add_left_eq plus_1_eq_Suc add.commute)
    have "i < used (snd (get_byte pi))" using that Suc assms by (simp add: used_get)
    then show ?thesis using that Suc r by (simp add: pipe_bytes_nth) (simp add: get_byte_def)
  qed
qed

interpretation ring: bounded_queue pipe_bytes put_byte get_byte pipe_full pipe_empty pipe_ok 512
proof unfold_locales
  show "pipe_full pi \<longleftrightarrow> length (pipe_bytes pi) = 512" if "pipe_ok pi" for pi by (simp add: pipe_full_used)
  show "pipe_empty pi \<longleftrightarrow> pipe_bytes pi = []" if "pipe_ok pi" for pi
    by (metis length_pipe_bytes length_0_conv pipe_empty_used)
  show "length (pipe_bytes pi) \<le> 512" if "pipe_ok pi" for pi using that by (simp add: pipe_ok_def)
  show "pipe_ok (put_byte ch pi) \<and> pipe_bytes (put_byte ch pi) = pipe_bytes pi @ [ch]"
    if "pipe_ok pi" "\<not> pipe_full pi" for pi ch
  proof -
    have "used pi < 512" using that by (simp add: pipe_full_used pipe_ok_def)
    then show ?thesis using that pipe_bytes_put by (simp add: pipe_ok_def used_put) (simp add: put_byte_def)
  qed
  show "pipe_ok (snd (get_byte pi)) \<and> pipe_bytes pi = fst (get_byte pi) # pipe_bytes (snd (get_byte pi))"
    if "pipe_ok pi" "\<not> pipe_empty pi" for pi
  proof -
    have "0 < used pi" using that by (simp add: pipe_empty_used)
    moreover from this have "used (snd (get_byte pi)) \<le> 512" using that(1) by (auto simp: pipe_ok_def used_get)
    moreover have "length (pi_data (snd (get_byte pi))) = 512" using that by (simp add: pipe_ok_def get_byte_def)
    ultimately show ?thesis using pipe_bytes_get by (simp add: pipe_ok_def)
  qed
qed

lemma put_byte_keeps [simp]:
  "pi_nread (put_byte ch pi) = pi_nread pi" "pi_readopen (put_byte ch pi) = pi_readopen pi"
  "pi_writeopen (put_byte ch pi) = pi_writeopen pi"
  by (simp_all add: put_byte_def)

lemma get_byte_keeps [simp]:
  "pi_nwrite (snd (get_byte pi)) = pi_nwrite pi" "pi_readopen (snd (get_byte pi)) = pi_readopen pi"
  "pi_writeopen (snd (get_byte pi)) = pi_writeopen pi"
  by (simp_all add: get_byte_def)

section \<open>What a step of a call does\<close>

lemma pipewrite_spec:
  assumes "pipe_ok pi" "pipewrite copyin dead i n pi = (r, wk, bs, pi')"
  shows "\<exists>j \<ge> i. pipe_ok pi' \<and> bs = map (the \<circ> copyin) [i..<j] \<and> pipe_bytes pi' = pipe_bytes pi @ bs
    \<and> (\<forall>m \<in> {i..<j}. copyin m \<noteq> None) \<and> (int i \<le> n \<longrightarrow> int j \<le> n)
    \<and> pi_nread pi' = pi_nread pi \<and> pi_readopen pi' = pi_readopen pi \<and> pi_writeopen pi' = pi_writeopen pi
    \<and> (r = Slept j \<and> wk \<and> int j < n \<and> pi_readopen pi \<noteq> 0 \<and> pipe_full pi'
       \<or> r = Returned (int j) \<and> wk \<and> (n \<le> int j \<or> copyin j = None)
       \<or> r = Returned (- 1) \<and> \<not> wk \<and> int j < n \<and> (pi_readopen pi = 0 \<or> dead j))"
  using assms
proof (induction copyin dead i n pi arbitrary: bs rule: pipewrite.induct)
  case (1 copyin dead i n pi)
  show ?case
  proof (cases "int i < n \<and> pi_readopen pi \<noteq> 0 \<and> \<not> dead i \<and> \<not> pipe_full pi \<and> copyin i \<noteq> None")
    case True
    then obtain ch where ch: "copyin i = Some ch" by blast
    have q: "pipe_ok (put_byte ch pi)" "pipe_bytes (put_byte ch pi) = pipe_bytes pi @ [ch]"
      using ring.put_items [OF 1(2)] True by blast+
    obtain bs1 where run: "pipewrite copyin dead (i + 1) n (put_byte ch pi) = (r, wk, bs1, pi')" and bs: "bs = ch # bs1"
      using 1(3) True ch by (subst (asm) pipewrite.simps) (auto simp: pipe_full_def split: prod.splits)
    obtain j where j: "i + 1 \<le> j" "bs1 = map (the \<circ> copyin) [i + 1..<j]" "pipe_bytes pi' = pipe_bytes (put_byte ch pi) @ bs1"
      "\<forall>m \<in> {i + 1..<j}. copyin m \<noteq> None" and rest: "int (i + 1) \<le> n \<longrightarrow> int j \<le> n"
      "pipe_ok pi' \<and> pi_nread pi' = pi_nread pi \<and> pi_readopen pi' = pi_readopen pi \<and> pi_writeopen pi' = pi_writeopen pi"
      "r = Slept j \<and> wk \<and> int j < n \<and> pi_readopen pi \<noteq> 0 \<and> pipe_full pi'
       \<or> r = Returned (int j) \<and> wk \<and> (n \<le> int j \<or> copyin j = None)
       \<or> r = Returned (- 1) \<and> \<not> wk \<and> int j < n \<and> (pi_readopen pi = 0 \<or> dead j)"
      using 1(1) [OF _ _ _ ch q(1) run] True by (auto simp: pipe_full_def)
    have "[i..<j] = i # [i + 1..<j]" using j(1) by (simp add: upt_rec)
    then have "bs = map (the \<circ> copyin) [i..<j]" "pipe_bytes pi' = pipe_bytes pi @ bs" using j(2,3) q(2) ch bs by simp_all
    moreover have "\<forall>m \<in> {i..<j}. copyin m \<noteq> None" using j(4) ch
      by (metis atLeastLessThan_iff Suc_eq_plus1 Suc_leI le_neq_implies_less option.distinct(1))
    moreover have "i \<le> j" "int i \<le> n \<longrightarrow> int j \<le> n" using j(1) rest(1) True by auto
    ultimately show ?thesis using rest(2,3) by blast
  next
    case False
    then show ?thesis using 1(2,3) by (subst (asm) pipewrite.simps) (auto simp: pipe_full_def intro!: exI [of _ i] split: if_splits option.splits)
  qed
qed

lemma read_loop_spec:
  assumes "pipe_ok pi" "read_loop copyout i n pi = (j, bs, lost, pi')"
  shows "pipe_ok pi' \<and> pipe_bytes pi = bs @ lost @ pipe_bytes pi' \<and> j = i + length bs
    \<and> pi_nwrite pi' = pi_nwrite pi \<and> pi_readopen pi' = pi_readopen pi \<and> pi_writeopen pi' = pi_writeopen pi
    \<and> (int i \<le> n \<longrightarrow> int j \<le> n) \<and> (\<forall>m \<in> {i..<j}. copyout m)
    \<and> (lost = [] \<and> (n \<le> int j \<or> pipe_empty pi') \<or> length lost = 1 \<and> \<not> copyout j \<and> int j < n)"
  using assms
proof (induction copyout i n pi arbitrary: bs rule: read_loop.induct)
  case (1 copyout i n pi)
  show ?case
  proof (cases "int i < n \<and> \<not> pipe_empty pi")
    case True
    obtain ch p1 where g: "get_byte pi = (ch, p1)" by force
    have q: "pipe_ok p1" "pipe_bytes pi = ch # pipe_bytes p1" using ring.get_items [OF 1(2)] True g by auto
    have keep: "pi_nwrite p1 = pi_nwrite pi" "pi_readopen p1 = pi_readopen pi" "pi_writeopen p1 = pi_writeopen pi"
      using get_byte_keeps [of pi] g by simp_all
    show ?thesis
    proof (cases "copyout i")
      case False
      then have "j = i" "bs = []" "lost = [ch]" "pi' = p1"
        using 1(3) True g by (auto simp: read_loop.simps [of copyout i] pipe_empty_def)
      then show ?thesis using q keep True False by auto
    next
      case co: True
      then obtain bs1 where run: "read_loop copyout (i + 1) n p1 = (j, bs1, lost, pi')" and bs: "bs = ch # bs1"
        using 1(3) True g by (auto simp: read_loop.simps [of copyout i] pipe_empty_def split: prod.splits)
      have l: "pipe_ok pi'" "pipe_bytes p1 = bs1 @ lost @ pipe_bytes pi'" "j = i + 1 + length bs1"
        "pi_nwrite pi' = pi_nwrite p1 \<and> pi_readopen pi' = pi_readopen p1 \<and> pi_writeopen pi' = pi_writeopen p1"
        "int (i + 1) \<le> n \<longrightarrow> int j \<le> n" "\<forall>m \<in> {i + 1..<j}. copyout m"
        "lost = [] \<and> (n \<le> int j \<or> pipe_empty pi') \<or> length lost = 1 \<and> \<not> copyout j \<and> int j < n"
        using 1(1) [OF _ _ g [symmetric] refl _ q(1) run] True co by (auto simp: pipe_empty_def)
      have "\<forall>m \<in> {i..<j}. copyout m" using l(6) co
        by (metis atLeastLessThan_iff Suc_eq_plus1 Suc_leI le_neq_implies_less)
      then show ?thesis using l q bs keep True by auto
    qed
  next
    case False
    then show ?thesis using 1(2,3) by (auto simp: read_loop.simps [of copyout i] pipe_empty_def split: if_splits)
  qed
qed

section \<open>Processes that share a pipe\<close>

text \<open>
  A call in progress is a write of \<open>n\<close> bytes of which \<open>i\<close> are done, or a read.  A sleeping writer
  waits on \<open>&pi->nwrite\<close>, a sleeping reader on \<open>&pi->nread\<close>.  \<open>rends\<close> and \<open>wends\<close> are the processes
  that have a descriptor of the read end and of the write end.  \<open>stored\<close> collects the bytes \<open>copyin\<close> has
  delivered to the writers and \<open>taken\<close> the bytes handed to \<open>copyout\<close> by the readers; \<open>stranded\<close> says that a write stored bytes and returned without waking the
  readers, who were not woken since.
\<close>

datatype pcall = Write "nat \<Rightarrow> u8 option" nat int | Read "nat \<Rightarrow> bool" int

datatype pipe_phase = Away int | Doing pcall | Dozing pcall

record pipe_sys =
  the_pipe :: "pipe option"
  phase :: "nat \<Rightarrow> pipe_phase"
  rends :: "nat set"
  wends :: "nat set"
  stored :: "u8 list"
  taken :: "u8 list"
  stranded :: bool

fun reading :: "pcall \<Rightarrow> bool" where
  "reading (Read co n) = True"
| "reading (Write ci i n) = False"

text \<open>\<open>wakeup(&pi->nread)\<close> and \<open>wakeup(&pi->nwrite)\<close>.\<close>

definition wake_end :: "bool \<Rightarrow> (nat \<Rightarrow> pipe_phase) \<Rightarrow> nat \<Rightarrow> pipe_phase" where
  "wake_end readers ph = (\<lambda>q. case ph q of Dozing c \<Rightarrow> if reading c = readers then Doing c else Dozing c | x \<Rightarrow> x)"

fun phase_of :: "outcome \<Rightarrow> (nat \<Rightarrow> pcall) \<Rightarrow> pipe_phase" where
  "phase_of (Returned v) c = Away v"
| "phase_of (Slept i) c = Dozing (c i)"

text \<open>None is an access to a page that has been freed.\<close>

definition write_step :: "(nat \<Rightarrow> bool) \<Rightarrow> nat \<Rightarrow> (nat \<Rightarrow> u8 option) \<Rightarrow> nat \<Rightarrow> int \<Rightarrow> pipe_sys \<Rightarrow> pipe_sys option" where
  "write_step dead p copyin i n s = do {
     pi \<leftarrow> the_pipe s;
     let (r, wk, bs, pi') = pipewrite copyin dead i n pi;
     Some (s\<lparr>the_pipe := Some pi',
       phase := (if wk then wake_end True (phase s) else phase s)(p := phase_of r (\<lambda>i. Write copyin i n)),
       stored := stored s @ bs, stranded := \<not> wk \<and> (stranded s \<or> bs \<noteq> [])\<rparr>)
   }"

definition read_step :: "bool \<Rightarrow> nat \<Rightarrow> (nat \<Rightarrow> bool) \<Rightarrow> int \<Rightarrow> pipe_sys \<Rightarrow> pipe_sys option" where
  "read_step dead p copyout n s = do {
     pi \<leftarrow> the_pipe s;
     let (r, wk, bs, lost, pi') = piperead copyout dead n pi;
     Some (s\<lparr>the_pipe := Some pi',
       phase := (if wk then wake_end False (phase s) else phase s)(p := phase_of r (\<lambda>i. Read copyout n)),
       taken := taken s @ bs @ lost\<rparr>)
   }"

text \<open>A process closes an end; the last one to do so calls \<open>pipeclose\<close>.\<close>

definition close_step :: "bool \<Rightarrow> nat \<Rightarrow> pipe_sys \<Rightarrow> pipe_sys option" where
  "close_step writable p s =
     (let s = (if writable then s\<lparr>wends := wends s - {p}\<rparr> else s\<lparr>rends := rends s - {p}\<rparr>) in
      if (if writable then wends s else rends s) \<noteq> {} then Some s
      else do {
        pi \<leftarrow> the_pipe s;
        Some (s\<lparr>the_pipe := pipeclose writable pi, phase := wake_end writable (phase s),
          stranded := \<not> writable \<and> stranded s\<rparr>)
      })"

definition give_ends :: "nat \<Rightarrow> nat \<Rightarrow> pipe_sys \<Rightarrow> pipe_sys" where
  "give_ends p q s = s\<lparr>rends := if p \<in> rends s then insert q (rends s) else rends s,
     wends := if p \<in> wends s then insert q (wends s) else wends s\<rparr>"

text \<open>
  The steps: a call begins, a call runs up to its end or to \<open>sleep\<close>, a sleeper is woken by \<open>kill\<close>,
  \<open>fork\<close> copies the descriptors of a process, a process closes an end.
\<close>

inductive pipe_step :: "pipe_sys \<Rightarrow> pipe_sys \<Rightarrow> bool" where
  call: "phase s p = Away v \<Longrightarrow> (if reading c then p \<in> rends s else p \<in> wends s \<and> (\<exists>ci n. c = Write ci 0 n))
    \<Longrightarrow> pipe_step s (s\<lparr>phase := (phase s)(p := Doing c)\<rparr>)"
| store: "phase s p = Doing (Write ci i n) \<Longrightarrow> write_step dead p ci i n s = Some s' \<Longrightarrow> pipe_step s s'"
| fetch: "phase s p = Doing (Read co n) \<Longrightarrow> read_step d p co n s = Some s' \<Longrightarrow> pipe_step s s'"
| rouse: "phase s p = Dozing c \<Longrightarrow> pipe_step s (s\<lparr>phase := (phase s)(p := Doing c)\<rparr>)"
| fork: "phase s p = Away v \<Longrightarrow> phase s q = Away w \<Longrightarrow> pipe_step s (give_ends p q s)"
| shut: "phase s p = Away v \<Longrightarrow> p \<in> (if w then wends s else rends s) \<Longrightarrow> close_step w p s = Some s' \<Longrightarrow> pipe_step s s'"

definition pipe_started :: "pipe_sys \<Rightarrow> bool" where
  "pipe_started s \<longleftrightarrow> (\<exists>junk p. length junk = 512 \<and> the_pipe s = Some (pipe_new junk) \<and> rends s = {p} \<and> wends s = {p})
     \<and> (\<forall>p. \<exists>v. phase s p = Away v) \<and> stored s = [] \<and> taken s = [] \<and> \<not> stranded s"

section \<open>The invariant\<close>

definition busy_inside :: "nat \<Rightarrow> pcall \<Rightarrow> pipe_sys \<Rightarrow> bool" where
  "busy_inside p c s \<longleftrightarrow> phase s p = Doing c \<or> phase s p = Dozing c"

definition sleepers_ok :: "pipe \<Rightarrow> pipe_sys \<Rightarrow> bool" where
  "sleepers_ok pi s \<longleftrightarrow> (\<forall>p c. phase s p = Dozing c \<longrightarrow>
     (if reading c then stranded s \<or> pipe_empty pi \<and> pi_writeopen pi \<noteq> 0 else pipe_full pi \<and> pi_readopen pi \<noteq> 0))"

definition ends_ok :: "pipe_sys \<Rightarrow> bool" where
  "ends_ok s \<longleftrightarrow> (\<forall>p c. busy_inside p c s \<longrightarrow> p \<in> (if reading c then rends s else wends s))"

definition stream_ok :: "pipe \<Rightarrow> pipe_sys \<Rightarrow> bool" where
  "stream_ok pi s \<longleftrightarrow> pipe_ok pi \<and> stored s = taken s @ pipe_bytes pi \<and> pi_nread pi = of_nat (length (taken s))
     \<and> (pi_readopen pi \<noteq> 0 \<longleftrightarrow> rends s \<noteq> {}) \<and> (pi_writeopen pi \<noteq> 0 \<longleftrightarrow> wends s \<noteq> {}) \<and> (rends s \<noteq> {} \<or> wends s \<noteq> {})"

definition pipe_inv :: "pipe_sys \<Rightarrow> bool" where
  "pipe_inv s \<longleftrightarrow> ends_ok s \<and>
     (case the_pipe s of None \<Rightarrow> rends s = {} \<and> wends s = {} | Some pi \<Rightarrow> stream_ok pi s \<and> sleepers_ok pi s)"

lemma wake_end_simps [simp]:
  "wake_end r ph q = Away v \<longleftrightarrow> ph q = Away v"
  "wake_end r ph q = Dozing c \<longleftrightarrow> ph q = Dozing c \<and> reading c \<noteq> r"
  "wake_end r ph q = Doing c \<longleftrightarrow> ph q = Doing c \<or> ph q = Dozing c \<and> reading c = r"
  by (auto simp: wake_end_def split: pipe_phase.splits)

lemma pipe_inv_someD:
  assumes "pipe_inv s" "the_pipe s = Some pi"
  shows "ends_ok s" "stream_ok pi s" "sleepers_ok pi s"
  using assms by (auto simp: pipe_inv_def)

lemma ends_okD:
  assumes "ends_ok s"
  shows "phase s p = Doing c \<Longrightarrow> p \<in> (if reading c then rends s else wends s)"
    "phase s p = Dozing c \<Longrightarrow> p \<in> (if reading c then rends s else wends s)"
  using assms unfolding ends_ok_def busy_inside_def by blast+

text \<open>A change of phases that puts nobody inside who has not the end for it.\<close>

lemma ends_ok_frame:
  assumes "ends_ok s" "rends s' = rends s" "wends s' = wends s"
    "\<And>q c. busy_inside q c s' \<Longrightarrow> busy_inside q c s \<or> q \<in> (if reading c then rends s else wends s)"
  shows "ends_ok s'"
  using assms unfolding ends_ok_def by metis

lemma sleepers_okI:
  assumes "\<And>p c. phase s p = Dozing c \<Longrightarrow> reading c \<Longrightarrow> stranded s \<or> pipe_empty pi \<and> pi_writeopen pi \<noteq> 0"
    "\<And>p c. phase s p = Dozing c \<Longrightarrow> \<not> reading c \<Longrightarrow> pipe_full pi \<and> pi_readopen pi \<noteq> 0"
  shows "sleepers_ok pi s"
  using assms unfolding sleepers_ok_def by auto

lemma sleepers_okD:
  assumes "sleepers_ok pi s" "phase s p = Dozing c"
  shows "reading c \<Longrightarrow> stranded s \<or> pipe_empty pi \<and> pi_writeopen pi \<noteq> 0"
    "\<not> reading c \<Longrightarrow> pipe_full pi \<and> pi_readopen pi \<noteq> 0"
  using assms unfolding sleepers_ok_def by (metis (full_types))+

text \<open>A step that only puts nobody to sleep and nobody inside without the end.\<close>

lemma pipe_inv_frame:
  assumes "pipe_inv s" "ends_ok s \<Longrightarrow> ends_ok s'" "\<And>q c. phase s' q = Dozing c \<Longrightarrow> phase s q = Dozing c"
    "the_pipe s' = the_pipe s" "stored s' = stored s" "taken s' = taken s" "stranded s' = stranded s"
    "rends s' = {} \<longleftrightarrow> rends s = {}" "wends s' = {} \<longleftrightarrow> wends s = {}"
  shows "pipe_inv s'"
proof -
  have "stream_ok pi s' = stream_ok pi s" for pi using assms(5-9) by (simp add: stream_ok_def)
  moreover have "sleepers_ok pi s \<Longrightarrow> sleepers_ok pi s'" for pi
    using sleepers_okD [OF _ assms(3)] assms(7) by (intro sleepers_okI) metis+
  ultimately show ?thesis using assms(1,2,4,8,9) by (auto simp: pipe_inv_def split: option.splits)
qed

lemma counters:
  assumes "stream_ok pi s"
  shows "pi_nwrite pi = of_nat (length (stored s))"
proof -
  have "pi_nwrite pi = pi_nread pi + of_nat (used pi)" by (simp add: used_def)
  then show ?thesis using assms by (simp add: stream_ok_def)
qed

lemma nread_back:
  assumes "pi_nwrite pi' = pi_nwrite pi"
  shows "pi_nread pi' = pi_nread pi + of_nat (used pi) - of_nat (used pi')"
  using assms by (simp add: used_def)

lemma write_step_inv:
  assumes "pipe_inv s" "phase s p = Doing (Write ci i n)" "write_step dead p ci i n s = Some s'"
  shows "pipe_inv s'"
proof -
  obtain pi where pi: "the_pipe s = Some pi" using assms(3) by (auto simp: write_step_def)
  note I = pipe_inv_someD [OF assms(1) pi]
  obtain r wk bs pi' where run: "pipewrite ci dead i n pi = (r, wk, bs, pi')" by (metis prod_cases4)
  have ok: "pipe_ok pi" using I(2) by (simp add: stream_ok_def)
  have q: "pipe_ok pi'" "pipe_bytes pi' = pipe_bytes pi @ bs" "pi_nread pi' = pi_nread pi"
    "pi_readopen pi' = pi_readopen pi" "pi_writeopen pi' = pi_writeopen pi"
    and r: "(\<exists>j. r = Slept j \<and> wk \<and> pi_readopen pi \<noteq> 0 \<and> pipe_full pi') \<or> (\<exists>v. r = Returned v)"
    using pipewrite_spec [OF ok run] by auto
  have s': "s' = s\<lparr>the_pipe := Some pi', phase := (if wk then wake_end True (phase s) else phase s)(p := phase_of r (\<lambda>i. Write ci i n)),
       stored := stored s @ bs, stranded := \<not> wk \<and> (stranded s \<or> bs \<noteq> [])\<rparr>"
    using assms(3) pi run by (simp add: write_step_def)
  have same: "pipe_empty pi'" if "bs = []" "pipe_empty pi"
    using that q(2) by (metis append_Nil2 length_pipe_bytes pipe_empty_used)
  have full: "pipe_full pi'" if "pipe_full pi"
  proof -
    have "used pi' = used pi + length bs" using arg_cong [OF q(2), of length] by simp
    then show ?thesis using that q(1) by (simp add: pipe_full_used pipe_ok_def)
  qed
  have "p \<in> wends s" using ends_okD(1) [OF I(1) assms(2)] by simp
  then have "ends_ok s'" using r by (intro ends_ok_frame [OF I(1)]) (auto simp: s' busy_inside_def split: if_splits)
  moreover have "stream_ok pi' s'" using I(2) q by (simp add: stream_ok_def s')
  moreover have "sleepers_ok pi' s'"
  proof (rule sleepers_okI)
    show "stranded s' \<or> pipe_empty pi' \<and> pi_writeopen pi' \<noteq> 0" if "phase s' x = Dozing c" "reading c" for x c
      using that sleepers_okD(1) [OF I(3), of x c] r q(5) same by (auto simp: s' split: if_splits)
    show "pipe_full pi' \<and> pi_readopen pi' \<noteq> 0" if "phase s' x = Dozing c" "\<not> reading c" for x c
      using that sleepers_okD(2) [OF I(3), of x c] r q(4) full by (auto simp: s' split: if_splits)
  qed
  ultimately show ?thesis by (simp add: pipe_inv_def s')
qed

lemma read_step_inv:
  assumes "pipe_inv s" "phase s p = Doing (Read co n)" "read_step d p co n s = Some s'"
  shows "pipe_inv s'"
proof -
  obtain pi where pi: "the_pipe s = Some pi" using assms(3) by (auto simp: read_step_def)
  note I = pipe_inv_someD [OF assms(1) pi]
  obtain r wk bs lost pi' where run: "piperead co d n pi = (r, wk, bs, lost, pi')" by (metis prod_cases5)
  have ok: "pipe_ok pi" using I(2) by (simp add: stream_ok_def)
  have q: "pipe_ok pi'" "pipe_bytes pi = bs @ lost @ pipe_bytes pi'" "pi_nwrite pi' = pi_nwrite pi"
    "pi_readopen pi' = pi_readopen pi" "pi_writeopen pi' = pi_writeopen pi"
    and r: "r = Slept 0 \<and> \<not> wk \<and> pi' = pi \<and> pipe_empty pi \<and> pi_writeopen pi \<noteq> 0 \<or> (\<exists>v. r = Returned v) \<and> (wk \<or> pi' = pi)"
    using run read_loop_spec [OF ok, of co 0 n] ok
    by (auto simp: piperead_def pipe_empty_def split: if_splits prod.splits)
  define as where "as = bs @ lost"
  have as: "pipe_bytes pi = as @ pipe_bytes pi'" using q(2) by (simp add: as_def)
  have la: "used pi = length as + used pi'" using arg_cong [OF as, of length] by simp
  have s': "s' = s\<lparr>the_pipe := Some pi', phase := (if wk then wake_end False (phase s) else phase s)(p := phase_of r (\<lambda>i. Read co n)),
       taken := taken s @ as\<rparr>"
    using assms(3) pi run by (auto simp: read_step_def as_def)
  have "p \<in> rends s" using ends_okD(1) [OF I(1) assms(2)] by simp
  then have "ends_ok s'" using r by (intro ends_ok_frame [OF I(1)]) (auto simp: s' busy_inside_def split: if_splits)
  moreover have "stream_ok pi' s'" using I(2) q as nread_back [OF q(3)] by (simp add: stream_ok_def s' la)
  moreover have "sleepers_ok pi' s'"
  proof (rule sleepers_okI)
    show "stranded s' \<or> pipe_empty pi' \<and> pi_writeopen pi' \<noteq> 0" if "phase s' x = Dozing c" "reading c" for x c
      using that sleepers_okD(1) [OF I(3), of x c] r q(5) la by (auto simp: s' pipe_empty_used split: if_splits)
    show "pipe_full pi' \<and> pi_readopen pi' \<noteq> 0" if "phase s' x = Dozing c" "\<not> reading c" for x c
      using that sleepers_okD(2) [OF I(3), of x c] r by (auto simp: s' split: if_splits)
  qed
  ultimately show ?thesis by (simp add: pipe_inv_def s')
qed

lemma close_step_inv:
  assumes "pipe_inv s" "phase s p = Away v" "p \<in> (if w then wends s else rends s)" "close_step w p s = Some s'"
  shows "pipe_inv s'"
proof -
  obtain pi where pi: "the_pipe s = Some pi" using assms(1,3) by (auto simp: pipe_inv_def split: option.splits if_splits)
  note I = pipe_inv_someD [OF assms(1) pi]
  have away: "\<not> busy_inside p c s" for c using assms(2) by (simp add: busy_inside_def)
  show ?thesis
  proof (cases "(if w then wends s else rends s) - {p} = {}")
    case False
    then have s': "s' = (if w then s\<lparr>wends := wends s - {p}\<rparr> else s\<lparr>rends := rends s - {p}\<rparr>)"
      using assms(4) by (auto simp: close_step_def split: if_splits)
    show ?thesis
    proof (rule pipe_inv_frame [OF assms(1)])
      show "ends_ok s'" if "ends_ok s" using that away unfolding ends_ok_def s' busy_inside_def by (auto split: if_splits)
    qed (use False in \<open>auto simp: s' split: if_splits\<close>)
  next
    case True
    then have s': "s' = (if w then s\<lparr>wends := {}\<rparr> else s\<lparr>rends := {}\<rparr>)\<lparr>the_pipe := pipeclose w pi,
        phase := wake_end w (phase s), stranded := \<not> w \<and> stranded s\<rparr>"
      using assms(4) pi by (auto simp: close_step_def split: if_splits)
    have none: "\<not> busy_inside q c s" if "reading c \<noteq> w" for q c
    proof
      assume "busy_inside q c s"
      moreover from this have "q \<in> (if w then wends s else rends s)" using I(1) that unfolding ends_ok_def by (metis (full_types))
      ultimately show False using True away by blast
    qed
    have "ends_ok s'" using I(1) none unfolding ends_ok_def s' busy_inside_def by (auto split: if_splits)
    moreover have "stream_ok pi' s' \<and> sleepers_ok pi' s'" if "pipeclose w pi = Some pi'" for pi'
    proof -
      have pi': "pi' = (if w then pi\<lparr>pi_writeopen := 0\<rparr> else pi\<lparr>pi_readopen := 0\<rparr>)" "pi_readopen pi' \<noteq> 0 \<or> pi_writeopen pi' \<noteq> 0"
        using that by (auto simp: pipeclose_def Let_def split: if_splits)
      have b: "pipe_bytes pi' = pipe_bytes pi" "pipe_ok pi' = pipe_ok pi"
        by (simp_all add: pi' pipe_bytes_def pipe_ok_def used_def)
      have "sleepers_ok pi' s'" using none unfolding sleepers_ok_def s' busy_inside_def by auto
      then show ?thesis using I(2) pi'(2) b by (auto simp: stream_ok_def s' pi'(1) split: if_splits)
    qed
    moreover have "rends s' = {} \<and> wends s' = {}" if "pipeclose w pi = None"
      using that I(2) by (auto simp: pipeclose_def Let_def s' stream_ok_def split: if_splits)
    ultimately show ?thesis by (auto simp: pipe_inv_def s' split: option.splits)
  qed
qed

lemma pipe_step_inv:
  assumes "pipe_inv s" "pipe_step s s'"
  shows "pipe_inv s'"
  using assms(2)
proof (cases rule: pipe_step.cases)
  case (call p v c)
  show ?thesis
  proof (rule pipe_inv_frame [OF assms(1)])
    show "ends_ok s'" if "ends_ok s"
      using call(3) by (intro ends_ok_frame [OF that]) (auto simp: call(1) busy_inside_def split: if_splits)
  qed (auto simp: call(1) split: if_splits)
next
  case (rouse p c)
  show ?thesis
  proof (rule pipe_inv_frame [OF assms(1)])
    show "ends_ok s'" if "ends_ok s"
      using rouse(2) by (intro ends_ok_frame [OF that]) (auto simp: rouse(1) busy_inside_def split: if_splits)
  qed (auto simp: rouse(1) split: if_splits)
next
  case (fork p v q w)
  show ?thesis
  proof (rule pipe_inv_frame [OF assms(1)])
    show "ends_ok s'" if e: "ends_ok s" unfolding ends_ok_def
    proof (intro allI impI)
      show "x \<in> (if reading c then rends s' else wends s')" if "busy_inside x c s'" for x c
        using that ends_okD [OF e, of x c] by (auto simp: busy_inside_def fork(1) give_ends_def split: if_splits)
    qed
  qed (auto simp: fork(1) give_ends_def)
qed (use assms(1) write_step_inv read_step_inv close_step_inv in blast)+

lemma pipe_started_inv: "pipe_started s \<Longrightarrow> pipe_inv s"
proof -
  assume "pipe_started s"
  then obtain junk p where j: "length junk = 512" "the_pipe s = Some (pipe_new junk)" "rends s = {p}" "wends s = {p}"
    and rest: "\<forall>p. \<exists>v. phase s p = Away v" "stored s = []" "taken s = []" by (auto simp: pipe_started_def)
  have away: "phase s q \<noteq> Doing c" "phase s q \<noteq> Dozing c" for q c using rest(1) by (metis pipe_phase.distinct(1,3))+
  have e: "used (pipe_new junk) = 0" "pipe_bytes (pipe_new junk) = []"
    by (simp_all add: used_def pipe_bytes_def pipe_new_def)
  then have "stream_ok (pipe_new junk) s" using j rest by (simp add: stream_ok_def pipe_ok_def) (simp add: pipe_new_def)
  then show "pipe_inv s" using j(2) away by (simp add: pipe_inv_def ends_ok_def sleepers_ok_def busy_inside_def)
qed

section \<open>The stream\<close>

text \<open>A channel of at most 512 bytes, with what has left it; None after the last end is closed.\<close>

inductive channel_step :: "u8 list \<times> u8 list option \<Rightarrow> u8 list \<times> u8 list option \<Rightarrow> bool" where
  send: "length (q @ bs) \<le> 512 \<Longrightarrow> channel_step (g, Some q) (g, Some (q @ bs))"
| receive: "channel_step (g, Some (as @ q)) (g @ as, Some q)"
| dispose: "channel_step (g, Some q) (g, None)"

definition channel :: "pipe_sys \<Rightarrow> u8 list \<times> u8 list option" where
  "channel s = (taken s, map_option pipe_bytes (the_pipe s))"

lemma write_step_channel:
  assumes "pipe_inv s" "write_step dead p ci i n s = Some s'"
  shows "channel_step (channel s) (channel s')"
proof -
  obtain pi where pi: "the_pipe s = Some pi" using assms(2) by (auto simp: write_step_def)
  obtain r wk bs pi' where run: "pipewrite ci dead i n pi = (r, wk, bs, pi')" by (metis prod_cases4)
  have ok: "pipe_ok pi" using pipe_inv_someD(2) [OF assms(1) pi] by (simp add: stream_ok_def)
  have q: "pipe_ok pi'" "pipe_bytes pi' = pipe_bytes pi @ bs" using pipewrite_spec [OF ok run] by blast+
  have "channel s' = (taken s, Some (pipe_bytes pi @ bs))"
    using assms(2) pi run q(2) by (auto simp: write_step_def channel_def Let_def)
  moreover have "length (pipe_bytes pi @ bs) \<le> 512" using ring.items_cap [OF q(1)] q(2) by metis
  moreover have "channel s = (taken s, Some (pipe_bytes pi))" by (simp add: channel_def pi)
  ultimately show ?thesis by (metis send)
qed

lemma read_step_channel:
  assumes "pipe_inv s" "read_step d p co n s = Some s'"
  shows "channel_step (channel s) (channel s')"
proof -
  obtain pi where pi: "the_pipe s = Some pi" using assms(2) by (auto simp: read_step_def)
  obtain r wk bs lost pi' where run: "piperead co d n pi = (r, wk, bs, lost, pi')" by (metis prod_cases5)
  have ok: "pipe_ok pi" using pipe_inv_someD(2) [OF assms(1) pi] by (simp add: stream_ok_def)
  define as where "as = bs @ lost"
  have as: "pipe_bytes pi = as @ pipe_bytes pi'"
    using run read_loop_spec [OF ok, of co 0 n] by (auto simp: as_def piperead_def split: if_splits prod.splits)
  then have "channel s' = (taken s @ as, Some (pipe_bytes pi'))"
    using assms(2) pi run by (auto simp: read_step_def channel_def as_def)
  moreover have "channel s = (taken s, Some (as @ pipe_bytes pi'))" by (simp add: channel_def pi as)
  ultimately show ?thesis by (metis receive)
qed

lemma pipe_step_channel:
  assumes "pipe_inv s" "pipe_step s s'"
  shows "channel_step (channel s) (channel s') \<or> channel s' = channel s"
  using assms(2)
proof (cases rule: pipe_step.cases)
  case (shut p v w)
  have b: "pipe_bytes (pi\<lparr>pi_writeopen := x\<rparr>) = pipe_bytes pi" "pipe_bytes (pi\<lparr>pi_readopen := x\<rparr>) = pipe_bytes pi" for pi x
    by (simp_all add: pipe_bytes_def used_def)
  show ?thesis using shut(3) dispose
    by (auto simp: close_step_def channel_def pipeclose_def Let_def b split: if_splits)
qed (use write_step_channel [OF assms(1)] read_step_channel [OF assms(1)] in \<open>auto simp: channel_def give_ends_def\<close>)

interpretation pipes: simulation pipe_started pipe_step pipe_inv channel channel_step
  by unfold_locales (use pipe_started_inv pipe_step_inv pipe_step_channel in blast)+

section \<open>Runs\<close>

text \<open>
  Process 0 makes a pipe and two children; process 1 sleeps in a read; process 0 writes two bytes
  and is killed behind the first, exits and so closes its ends.
\<close>

definition fresh_pipe :: pipe_sys where
  "fresh_pipe = \<lparr>the_pipe = Some (pipe_new (replicate 512 0)), phase = \<lambda>_. Away 0, rends = {0}, wends = {0},
     stored = [], taken = [], stranded = False\<rparr>"

definition demo_read :: pcall where "demo_read = Read (\<lambda>_. True) 5"
definition demo_write :: pcall where "demo_write = Write (\<lambda>i. Some 65) 0 2"

definition asleep_state :: pipe_sys where
  "asleep_state = fresh_pipe\<lparr>rends := {0, 1, 2}, wends := {0, 1, 2}, phase := (\<lambda>_. Away 0)(1 := Dozing demo_read)\<rparr>"

definition one_byte :: pipe where
  "one_byte = (pipe_new (replicate 512 0))\<lparr>pi_data := (replicate 512 0)[0 := 65], pi_nwrite := 1\<rparr>"

definition cut_state :: pipe_sys where
  "cut_state = asleep_state\<lparr>the_pipe := Some one_byte, phase := (phase asleep_state)(0 := Away (- 1)), stored := [65], stranded := True\<rparr>"

lemma fresh_pipe_started: "pipe_started fresh_pipe"
  unfolding pipe_started_def fresh_pipe_def by (intro conjI exI [of _ "replicate 512 0"] exI [of _ 0]) simp_all

lemma asleep_reached: "pipe_step\<^sup>*\<^sup>* fresh_pipe asleep_state"
proof -
  let ?s1 = "give_ends 0 1 fresh_pipe"
  let ?s2 = "give_ends 0 2 ?s1"
  let ?s3 = "?s2\<lparr>phase := (phase ?s2)(1 := Doing demo_read)\<rparr>"
  have "pipe_step fresh_pipe ?s1" by (rule pipe_step.fork [where v = 0 and w = 0]) (simp_all add: fresh_pipe_def)
  moreover have "pipe_step ?s1 ?s2" by (rule pipe_step.fork [where v = 0 and w = 0]) (simp_all add: fresh_pipe_def give_ends_def)
  moreover have "pipe_step ?s2 ?s3"
    by (rule pipe_step.call [where v = 0]) (simp_all add: fresh_pipe_def give_ends_def demo_read_def)
  moreover have "pipe_step ?s3 asleep_state"
  proof (rule pipe_step.fetch [where d = False])
    show "phase ?s3 1 = Doing (Read (\<lambda>_. True) 5)" by (simp add: demo_read_def)
    show "read_step False 1 (\<lambda>_. True) 5 ?s3 = Some asleep_state"
      by (simp add: read_step_def piperead_def fresh_pipe_def give_ends_def pipe_new_def asleep_state_def demo_read_def used_def insert_commute)
  qed
  ultimately show ?thesis by (meson converse_rtranclp_into_rtranclp rtranclp.rtrancl_refl)
qed

lemma one_byte_bytes: "pipe_bytes one_byte = [65]" "used one_byte = 1"
  by (simp_all add: pipe_bytes_def one_byte_def used_def pipe_new_def PIPESIZE_def)

lemma cut_reached: "pipe_step\<^sup>*\<^sup>* fresh_pipe cut_state"
proof -
  let ?s1 = "asleep_state\<lparr>phase := (phase asleep_state)(0 := Doing demo_write)\<rparr>"
  have "pipe_step asleep_state ?s1"
    by (rule pipe_step.call [where v = 0]) (simp_all add: asleep_state_def fresh_pipe_def demo_write_def)
  moreover have "pipe_step ?s1 cut_state"
  proof (rule pipe_step.store [where dead = "\<lambda>i. i = 1"])
    show "phase ?s1 0 = Doing (Write (\<lambda>i. Some 65) 0 2)" by (simp add: demo_write_def)
    have "pipewrite (\<lambda>i. Some 65) (\<lambda>i. i = 1) 0 2 (pipe_new (replicate 512 0)) = (Returned (- 1), False, [65], one_byte)"
      by (simp add: pipewrite.simps pipe_new_def put_byte_def PIPESIZE_def one_byte_def)
    then show "write_step (\<lambda>i. i = 1) 0 (\<lambda>i. Some 65) 0 2 ?s1 = Some cut_state"
      by (simp add: write_step_def asleep_state_def fresh_pipe_def cut_state_def)
  qed
  ultimately show ?thesis using asleep_reached by (meson rtranclp.rtrancl_into_rtrancl)
qed

text \<open>
  C11: a pipe is a stream.  Whatever processes share it and however their calls interleave, the bytes
  handed to the readers' \<open>copyout\<close> are a prefix of those the writers' \<open>copyin\<close> has delivered, and the
  rest, at most 512 bytes, is in the ring in order; the counters are the lengths of both streams
  modulo \<open>2 ^ 32\<close>, so their wrap-around is harmless.  The pipe refines a bounded channel.
\<close>

theorem pipe_is_stream:
  assumes "pipe_started s0" "pipe_step\<^sup>*\<^sup>* s0 s" "the_pipe s = Some pi"
  shows "stored s = taken s @ pipe_bytes pi \<and> length (pipe_bytes pi) \<le> 512
    \<and> pi_nread pi = of_nat (length (taken s)) \<and> pi_nwrite pi = of_nat (length (stored s))
    \<and> channel_step\<^sup>*\<^sup>* ([], Some []) (taken s, Some (pipe_bytes pi))"
proof -
  have I: "stream_ok pi s" by (rule pipe_inv_someD(2) [OF pipes.reachable_inv [OF assms(1,2)] assms(3)])
  have "channel s0 = ([], Some [])"
    using assms(1) by (auto simp: pipe_started_def channel_def pipe_bytes_def used_def pipe_new_def)
  moreover have "channel s = (taken s, Some (pipe_bytes pi))" by (simp add: channel_def assms(3))
  ultimately show ?thesis
    using pipes.abs_reachable [OF assms(1,2)] I counters [OF I] ring.items_cap [of pi] by (simp add: stream_ok_def)
qed

theorem pipe_is_stream_witness:
  "stored cut_state = taken cut_state @ pipe_bytes one_byte \<and> pi_nwrite one_byte = of_nat (length (stored cut_state))"
proof -
  have "the_pipe cut_state = Some one_byte" by (simp add: cut_state_def)
  from pipe_is_stream [OF fresh_pipe_started cut_reached this] show ?thesis by blast
qed

text \<open>
  C14: no wakeup is lost and nothing is used after it is freed.  A writer sleeps only while the pipe
  is full and has readers, a reader only while it is empty and has writers, unless a killed writer
  left bytes without waking the readers; so without such a writer not both sides sleep.  A process
  in a call finds the pipe allocated.
\<close>

theorem pipe_no_lost_wakeup:
  assumes "pipe_started s0" "pipe_step\<^sup>*\<^sup>* s0 s"
  shows "(busy_inside p c s \<longrightarrow> the_pipe s \<noteq> None)
    \<and> (the_pipe s = Some pi \<and> phase s p = Dozing c \<and> \<not> reading c \<longrightarrow> length (pipe_bytes pi) = 512 \<and> rends s \<noteq> {})
    \<and> (the_pipe s = Some pi \<and> phase s p = Dozing c \<and> reading c \<and> \<not> stranded s \<longrightarrow> pipe_bytes pi = [] \<and> wends s \<noteq> {})
    \<and> (phase s p = Dozing c \<and> phase s q = Dozing c' \<and> \<not> stranded s \<longrightarrow> reading c = reading c')"
proof -
  have I: "pipe_inv s" by (rule pipes.reachable_inv [OF assms])
  have inside: "the_pipe s \<noteq> None" if "busy_inside q c s" for q c
  proof
    assume "the_pipe s = None"
    then have "rends s = {} \<and> wends s = {}" "ends_ok s" using I by (simp_all add: pipe_inv_def)
    then show False using that unfolding ends_ok_def by (metis empty_iff)
  qed
  have w: "length (pipe_bytes pi) = 512 \<and> rends s \<noteq> {}"
    if "the_pipe s = Some pi" "phase s q = Dozing c" "\<not> reading c" for pi q c
    using pipe_inv_someD(2,3) [OF I that(1)] sleepers_okD(2) [OF _ that(2,3)] by (auto simp: stream_ok_def pipe_full_used)
  have r: "pipe_bytes pi = [] \<and> wends s \<noteq> {}"
    if "the_pipe s = Some pi" "phase s q = Dozing c" "reading c" "\<not> stranded s" for pi q c
    using pipe_inv_someD(2,3) [OF I that(1)] sleepers_okD(1) [OF _ that(2,3), of pi] that(4) ring.empty_iff [of pi]
    by (auto simp: stream_ok_def)
  have "reading c = reading c'" if "phase s p = Dozing c" "phase s q = Dozing c'" "\<not> stranded s"
  proof -
    have "busy_inside p c s" using that(1) by (simp add: busy_inside_def)
    then obtain pi where pi: "the_pipe s = Some pi" using inside by blast
    show ?thesis using w [OF pi that(1)] r [OF pi that(1)] w [OF pi that(2)] r [OF pi that(2)] that(3)
      by (auto simp del: length_pipe_bytes)
  qed
  then show ?thesis using inside w r by blast
qed

theorem pipe_no_lost_wakeup_witness:
  "pipe_bytes (pipe_new (replicate 512 0)) = [] \<and> wends asleep_state \<noteq> {}"
  using pipe_no_lost_wakeup [OF fresh_pipe_started asleep_reached, of 1 demo_read "pipe_new (replicate 512 0)"]
  by (simp add: asleep_state_def fresh_pipe_def demo_read_def)

text \<open>
  C37: a writer that is killed in the middle of a write returns -1 without \<open>wakeup(&pi->nread)\<close>.
  After it has exited there is a state in which a process sleeps in a read although the pipe holds
  a byte, every other process is outside the pipe, and another process keeps the write end.
\<close>

theorem killed_writer_strands_reader:
  "\<exists>s0 s pi c. pipe_started s0 \<and> pipe_step\<^sup>*\<^sup>* s0 s \<and> the_pipe s = Some pi \<and> pipe_bytes pi = [65]
     \<and> phase s 1 = Dozing c \<and> reading c \<and> (\<forall>p. p = 1 \<or> (\<exists>v. phase s p = Away v)) \<and> 0 \<notin> wends s \<and> 2 \<in> wends s"
proof -
  let ?s1 = "cut_state\<lparr>wends := {1, 2}\<rparr>"
  let ?s2 = "?s1\<lparr>rends := {1, 2}\<rparr>"
  have e: "{0, Suc 0, 2} - {0} = {Suc 0, 2}" by auto
  have "pipe_step cut_state ?s1"
    by (rule pipe_step.shut [where v = "- 1" and w = True and p = 0])
      (simp_all add: cut_state_def asleep_state_def close_step_def e)
  moreover have "pipe_step ?s1 ?s2"
    by (rule pipe_step.shut [where v = "- 1" and w = False and p = 0])
      (simp_all add: cut_state_def asleep_state_def close_step_def e)
  ultimately have "pipe_step\<^sup>*\<^sup>* fresh_pipe ?s2" using cut_reached by (meson rtranclp.rtrancl_into_rtrancl)
  moreover have "phase ?s2 1 = Dozing demo_read" "the_pipe ?s2 = Some one_byte"
    "\<forall>p. p = 1 \<or> (\<exists>v. phase ?s2 p = Away v)" by (simp_all add: cut_state_def asleep_state_def)
  ultimately show ?thesis
    by (intro exI [of _ fresh_pipe] exI [of _ ?s2] exI [of _ one_byte] exI [of _ demo_read])
      (simp add: fresh_pipe_started one_byte_bytes demo_read_def)
qed

section \<open>The results of calls\<close>

lemma length_takeWhile_upt:
  assumes "j \<le> m" "\<forall>x < j. P x" "j < m \<longrightarrow> \<not> P j"
  shows "length (takeWhile P [0..<m]) = j"
proof -
  have "[0..<m] = [0..<j] @ [j..<m]" using upt_add_eq_append [of 0 j "m - j"] assms(1) by simp
  moreover have "takeWhile P [j..<m] = []" using assms by (cases "j < m") (simp_all add: upt_rec)
  ultimately show ?thesis using assms(2) by (simp add: takeWhile_append)
qed

text \<open>
  C38: reading, on every branch.  From an empty pipe with writers the call sleeps, or fails when the
  process is killed; with no writers left it returns 0.  Otherwise it delivers the oldest bytes, as
  many as asked for and available, up to the first byte \<open>copyout\<close> cannot store; this byte is gone
  from the pipe although it is not delivered.
\<close>

theorem piperead_result:
  assumes "pipe_ok pi"
  shows "let m = min n (used pi); k = length (takeWhile copyout [0..<m]) in case piperead copyout dead (int n) pi of (r, wk, bs, lost, pi') \<Rightarrow>
    if pipe_bytes pi = [] \<and> pi_writeopen pi \<noteq> 0
    then r = (if dead then Returned (- 1) else Slept 0) \<and> \<not> wk \<and> bs = [] \<and> lost = [] \<and> pi' = pi
    else r = Returned (int k) \<and> wk \<and> bs = take k (pipe_bytes pi) \<and> pipe_ok pi'
      \<and> lost = (if k < m then [pipe_bytes pi ! k] else [])
      \<and> pipe_bytes pi' = drop (if k < m then k + 1 else k) (pipe_bytes pi)"
proof (cases "pipe_empty pi \<and> pi_writeopen pi \<noteq> 0")
  case True
  then show ?thesis using ring.empty_iff [OF assms(1)] by (simp add: piperead_def pipe_empty_def)
next
  case False
  define m where "m = min n (used pi)"
  define k where "k = length (takeWhile copyout [0..<m])"
  obtain j bs lost pi' where run: "read_loop copyout 0 (int n) pi = (j, bs, lost, pi')" by (metis prod_cases4)
  have l: "pipe_ok pi'" "pipe_bytes pi = bs @ lost @ pipe_bytes pi'" "j = length bs" "j \<le> n" "\<forall>i < j. copyout i"
    "lost = [] \<and> (n \<le> j \<or> pipe_empty pi') \<or> length lost = 1 \<and> \<not> copyout j \<and> j < n"
    using read_loop_spec [OF assms(1) run] by auto
  have u: "used pi = j + length lost + used pi'" using arg_cong [OF l(2), of length] l(3) by simp
  then have "j \<le> m" "j < m \<longrightarrow> \<not> copyout j" "j < m \<longleftrightarrow> lost \<noteq> []"
    using l(4,6) by (auto simp: m_def pipe_empty_used)
  moreover from this(1,2) have "k = j" unfolding k_def by (intro length_takeWhile_upt l(5))
  ultimately have "pipe_bytes pi' = drop (if k < m then k + 1 else k) (pipe_bytes pi)" "bs = take k (pipe_bytes pi)"
    "lost = (if k < m then [pipe_bytes pi ! k] else [])"
    using l(2,3,6) by (auto simp: length_Suc_conv)
  then show ?thesis using False l(1) run \<open>k = j\<close> ring.empty_iff [OF assms(1)]
    unfolding Let_def m_def [symmetric] k_def [symmetric] by (auto simp: piperead_def pipe_empty_def)
qed

theorem piperead_result_witness:
  "case piperead (\<lambda>i. False) False 3 one_byte of (r, wk, bs, lost, pi') \<Rightarrow> r = Returned 0 \<and> bs = [] \<and> lost = [65] \<and> pipe_bytes pi' = []"
proof -
  have "pipe_ok one_byte" by (simp add: pipe_ok_def one_byte_bytes) (simp add: one_byte_def)
  from piperead_result [OF this, where copyout = "\<lambda>i. False" and dead = False and n = 3] show ?thesis
    by (auto simp: one_byte_bytes)
qed

text \<open>
  Writing with readers, readable memory and no kill stores the bytes in order and returns
  \<open>n\<close> when they fit; otherwise it fills the ring and sleeps with the rest to do.
\<close>

theorem pipewrite_result:
  assumes "pipe_ok pi" "pi_readopen pi \<noteq> 0"
  shows "case pipewrite (\<lambda>i. Some (src i)) (\<lambda>i. False) i (int i + int n) pi of (r, wk, bs, pi') \<Rightarrow>
    wk \<and> pipe_ok pi' \<and> pipe_bytes pi' = pipe_bytes pi @ bs \<and> bs = map src [i..<i + min n (512 - used pi)]
    \<and> r = (if n \<le> 512 - used pi then Returned (int i + int n) else Slept (i + (512 - used pi)))"
proof -
  obtain r wk bs pi' where run: "pipewrite (\<lambda>i. Some (src i)) (\<lambda>i. False) i (int i + int n) pi = (r, wk, bs, pi')"
    by (metis prod_cases4)
  obtain j where j: "i \<le> j" "pipe_ok pi'" "pipe_bytes pi' = pipe_bytes pi @ bs" "bs = map src [i..<j]" "j \<le> i + n"
    "r = Slept j \<and> wk \<and> j < i + n \<and> pipe_full pi' \<or> r = Returned (int j) \<and> wk \<and> i + n \<le> j"
    using pipewrite_spec [OF assms(1) run] assms(2) by (auto simp: comp_def)
  have u: "used pi' = used pi + (j - i)" using arg_cong [OF j(3), of length] j(4) by simp
  have "j = i + min n (512 - used pi) \<and> wk \<and> r = (if n \<le> 512 - used pi then Returned (int i + int n) else Slept (i + (512 - used pi)))"
    using j(1,2,5,6) u by (auto simp: pipe_full_used pipe_ok_def min_def)
  then show ?thesis using run j(2-4) by simp
qed

theorem pipewrite_result_witness:
  "case pipewrite (\<lambda>i. Some 7) (\<lambda>i. False) 0 600 one_byte of (r, wk, bs, pi') \<Rightarrow> r = Slept 511 \<and> wk"
proof -
  have "pipe_ok one_byte" by (simp add: pipe_ok_def one_byte_bytes) (simp add: one_byte_def)
  moreover have "pi_readopen one_byte \<noteq> 0" by (simp add: one_byte_def pipe_new_def)
  ultimately show ?thesis using pipewrite_result [of one_byte "\<lambda>i. 7" 0 600] by (simp add: one_byte_bytes case_prod_beta)
qed

text \<open>Closing a file just allocated gives back the table.\<close>

definition with_ref :: "nat \<Rightarrow> kernel \<Rightarrow> kernel" where
  "with_ref f k = k\<lparr>files := (files k)(f := (files k f)\<lparr>f_ref := 1\<rparr>)\<rparr>"

lemma filealloc_with_ref:
  "filealloc k = (case find (\<lambda>f. f_ref (files k f) = 0) [0..<NFILE] of None \<Rightarrow> (None, k) | Some f \<Rightarrow> (Some f, with_ref f k))"
  by (simp add: filealloc_def with_ref_def split: option.splits)

lemma fileclose_new:
  assumes "f_ref (files k f) = 0" "f_type (files k f) = FD_NONE"
  shows "fileclose f (with_ref f k) = Some k"
proof -
  have same: "(files k f)\<lparr>f_ref := 0, f_type := FD_NONE\<rparr> = files k f" using assms by (cases "files k f") simp
  show ?thesis by (simp add: fileclose_def with_ref_def Let_def same assms(2))
qed

lemma with_ref_twist: "f \<noteq> g \<Longrightarrow> with_ref f (with_ref g k) = with_ref g (with_ref f k)"
  by (simp add: with_ref_def fun_upd_twist)

lemma files_with_ref: "files (with_ref f k) g = (if g = f then (files k f)\<lparr>f_ref := 1\<rparr> else files k g)"
  by (simp add: with_ref_def)

text \<open>
  \<open>pipealloc\<close> takes two free entries of the file table, the first for the read end, and gives
  an empty pipe with both ends open; when it fails, for want of an entry or of a page, it returns -1
  and the file table is as before.
\<close>

theorem pipealloc_result:
  assumes "\<forall>f. f_ref (files k f) = 0 \<longrightarrow> f_type (files k f) = FD_NONE"
  shows "\<exists>r ends k'. pipealloc page junk k = Some (r, ends, k') \<and>
    (case ends of
       None \<Rightarrow> r = - 1 \<and> k' = k
     | Some (f0, f1, pi) \<Rightarrow> r = 0 \<and> page \<and> f0 < f1 \<and> f1 < NFILE \<and> f_ref (files k f0) = 0 \<and> f_ref (files k f1) = 0
         \<and> f_ref (files k' f0) = 1 \<and> f_ref (files k' f1) = 1 \<and> f_type (files k' f0) = FD_PIPE \<and> f_type (files k' f1) = FD_PIPE
         \<and> (\<forall>f. f \<noteq> f0 \<and> f \<noteq> f1 \<longrightarrow> files k' f = files k f)
         \<and> pi_readopen pi = 1 \<and> pi_writeopen pi = 1 \<and> pipe_bytes pi = [])"
proof -
  have free: "f_type (files k f) = FD_NONE" if "f_ref (files k f) = 0" for f using that assms by blast
  show ?thesis
  proof (cases "find (\<lambda>f. f_ref (files k f) = 0) [0..<NFILE]")
    case None
    then show ?thesis by (simp add: pipealloc_def filealloc_def)
  next
    case (Some f0)
    note f0 = find_upt_Some [OF Some]
    then have c0: "fileclose f0 (with_ref f0 k) = Some k" by (simp add: fileclose_new free)
    have a0: "filealloc k = (Some f0, with_ref f0 k)" by (simp add: filealloc_with_ref Some)
    show ?thesis
    proof (cases "find (\<lambda>f. f_ref (files (with_ref f0 k) f) = 0) [0..<NFILE]")
      case None
      then have "filealloc (with_ref f0 k) = (None, with_ref f0 k)" by (simp add: filealloc_with_ref)
      then show ?thesis by (simp add: pipealloc_def a0 c0)
    next
      case (Some f1)
      note f1 = find_upt_Some [OF Some]
      then have f: "f1 \<noteq> f0" "f_ref (files k f1) = 0" "f1 < NFILE" by (auto simp: files_with_ref split: if_splits)
      then have lt: "f0 < f1" using f0 by (metis linorder_neqE_nat)
      have a1: "filealloc (with_ref f0 k) = (Some f1, with_ref f1 (with_ref f0 k))" by (simp add: filealloc_with_ref Some)
      have "fileclose f0 (with_ref f1 (with_ref f0 k)) = Some (with_ref f1 k)"
        using fileclose_new [of "with_ref f1 k" f0] f0 free f(1) with_ref_twist [OF f(1)] by (simp add: files_with_ref)
      moreover have "fileclose f1 (with_ref f1 k) = Some k" by (simp add: fileclose_new free f(2))
      ultimately show ?thesis using a0 a1 f0 f lt
        by (cases page) (simp_all add: pipealloc_def Let_def files_with_ref pipe_new_def pipe_bytes_def used_def)
    qed
  qed
qed

theorem pipealloc_result_witness:
  "\<exists>r ends k'. pipealloc True [] procinit = Some (r, ends, k') \<and> r = 0"
proof -
  have "\<forall>f. f_ref (files procinit f) = 0 \<longrightarrow> f_type (files procinit f) = FD_NONE" by (simp add: procinit_def file_init_def)
  from pipealloc_result [OF this, of True "[]"] obtain r ends k' where
    r: "pipealloc True [] procinit = Some (r, ends, k')" "ends = None \<longrightarrow> r = - 1 \<and> k' = procinit" "ends \<noteq> None \<longrightarrow> r = 0"
    by (auto split: option.splits)
  have "ends \<noteq> None"
    using r(1) by (auto simp: pipealloc_def filealloc_def procinit_def file_init_def NFILE_def upt_rec)
  then show ?thesis using r by blast
qed

end
