(* ===== verification/Xv6_Bio.thy ===== *)
theory Xv6_Bio
  imports Xv6_Sleeplock
begin

text \<open>
  The buffer cache of xv6 (\<open>kernel/bio.c\<close>), used by one process at a time.  A buffer is an index into
  \<open>bcache.buf\<close>; the circular list through \<open>prev\<close> and \<open>next\<close> is the list of the indices from
  \<open>head.next\<close> on.  \<open>virtio_disk_rw\<close> moves one block between a buffer and the disk at once, and the
  writes are recorded in order.  A panic, and sleeping on a buffer that nobody will release, is None.
\<close>

section \<open>Operations\<close>

definition NBUF :: nat where "NBUF = 30"
definition BSIZE :: nat where "BSIZE = 1024"

type_synonym block = "u8 list"

record buf =
  b_valid :: bool
  b_dev :: u32
  b_blockno :: u32
  b_lock :: sleeplock
  b_refcnt :: nat
  b_data :: block

record bcache =
  bufs :: "nat \<Rightarrow> buf"
  lru :: "nat list"
  disk :: "u32 \<Rightarrow> block"
  writes :: "(u32 \<times> block) list"

abbreviation upd_buf :: "nat \<Rightarrow> (buf \<Rightarrow> buf) \<Rightarrow> bcache \<Rightarrow> bcache" where
  "upd_buf b f st \<equiv> st\<lparr>bufs := (bufs st)(b := f (bufs st b))\<rparr>"

text \<open>The loop of \<open>binit\<close> puts each buffer in front of the list.\<close>

definition buf_zero :: buf where
  "buf_zero = \<lparr>b_valid = False, b_dev = 0, b_blockno = 0, b_lock = initsleeplock, b_refcnt = 0, b_data = replicate BSIZE 0\<rparr>"

definition binit :: "(u32 \<Rightarrow> block) \<Rightarrow> bcache" where
  "binit d = \<lparr>bufs = \<lambda>_. buf_zero, lru = fold (#) [0..<NBUF] [], disk = d, writes = []\<rparr>"

definition lock_buf :: "int \<Rightarrow> nat \<Rightarrow> bcache \<Rightarrow> bcache option" where
  "lock_buf me b st = do {
     lk \<leftarrow> acquiresleep me (b_lock (bufs st b));
     Some (upd_buf b (\<lambda>x. x\<lparr>b_lock := lk\<rparr>) st)
   }"

definition bget :: "int \<Rightarrow> u32 \<Rightarrow> u32 \<Rightarrow> bcache \<Rightarrow> (nat \<times> bcache) option" where
  "bget me dev blockno st =
     (case find (\<lambda>b. b_dev (bufs st b) = dev \<and> b_blockno (bufs st b) = blockno) (lru st) of
        Some b \<Rightarrow> do {
          let st = upd_buf b (\<lambda>x. x\<lparr>b_refcnt := b_refcnt x + 1\<rparr>) st;
          st \<leftarrow> lock_buf me b st;
          Some (b, st)
        }
      | None \<Rightarrow> do {
          b \<leftarrow> find (\<lambda>b. b_refcnt (bufs st b) = 0) (rev (lru st));
          let st = upd_buf b (\<lambda>x. x\<lparr>b_dev := dev, b_blockno := blockno, b_valid := False, b_refcnt := 1\<rparr>) st;
          st \<leftarrow> lock_buf me b st;
          Some (b, st)
        })"

definition bread :: "int \<Rightarrow> u32 \<Rightarrow> u32 \<Rightarrow> bcache \<Rightarrow> (nat \<times> bcache) option" where
  "bread me dev blockno st = do {
     (b, st) \<leftarrow> bget me dev blockno st;
     Some (b, if b_valid (bufs st b) then st
              else upd_buf b (\<lambda>x. x\<lparr>b_data := disk st (b_blockno x), b_valid := True\<rparr>) st)
   }"

definition bwrite :: "int \<Rightarrow> nat \<Rightarrow> bcache \<Rightarrow> bcache option" where
  "bwrite me b st = do {
     guard (holdingsleep me (b_lock (bufs st b)));
     let no = b_blockno (bufs st b);
     let data = b_data (bufs st b);
     Some (st\<lparr>disk := (disk st)(no := data), writes := writes st @ [(no, data)]\<rparr>)
   }"

definition brelse :: "int \<Rightarrow> nat \<Rightarrow> bcache \<Rightarrow> bcache option" where
  "brelse me b st = do {
     guard (holdingsleep me (b_lock (bufs st b)));
     let st = upd_buf b (\<lambda>x. x\<lparr>b_lock := releasesleep (b_lock x)\<rparr>) st;
     guard (b_refcnt (bufs st b) > 0);
     let st = upd_buf b (\<lambda>x. x\<lparr>b_refcnt := b_refcnt x - 1\<rparr>) st;
     Some (if b_refcnt (bufs st b) = 0 then st\<lparr>lru := b # remove1 b (lru st)\<rparr> else st)
   }"

definition bpin :: "nat \<Rightarrow> bcache \<Rightarrow> bcache" where
  "bpin b = upd_buf b (\<lambda>x. x\<lparr>b_refcnt := b_refcnt x + 1\<rparr>)"

definition bunpin :: "nat \<Rightarrow> bcache \<Rightarrow> bcache option" where
  "bunpin b st = do {
     guard (b_refcnt (bufs st b) > 0);
     Some (upd_buf b (\<lambda>x. x\<lparr>b_refcnt := b_refcnt x - 1\<rparr>) st)
   }"

text \<open>The caller's change of the data of a buffer it holds.\<close>

definition set_data :: "nat \<Rightarrow> block \<Rightarrow> bcache \<Rightarrow> bcache" where
  "set_data b data = upd_buf b (\<lambda>x. x\<lparr>b_data := data\<rparr>)"

section \<open>What the cache means\<close>

text \<open>
  The buffer of a block, the contents a reader of the block gets, the references to it and its lock;
  the blocks with references.
\<close>

definition buf_of :: "u32 \<Rightarrow> (nat \<Rightarrow> buf) \<Rightarrow> u32 \<Rightarrow> nat option" where
  "buf_of dev bs no = find (\<lambda>b. b_dev (bs b) = dev \<and> b_blockno (bs b) = no) [0..<NBUF]"

definition view :: "u32 \<Rightarrow> bcache \<Rightarrow> u32 \<Rightarrow> block" where
  "view dev st no = (case buf_of dev (bufs st) no of
     Some b \<Rightarrow> if b_valid (bufs st b) then b_data (bufs st b) else disk st no | None \<Rightarrow> disk st no)"

definition refs :: "u32 \<Rightarrow> bcache \<Rightarrow> u32 \<Rightarrow> nat" where
  "refs dev st no = (case buf_of dev (bufs st) no of Some b \<Rightarrow> b_refcnt (bufs st b) | None \<Rightarrow> 0)"

definition lock_of :: "u32 \<Rightarrow> bcache \<Rightarrow> u32 \<Rightarrow> sleeplock" where
  "lock_of dev st no = (case buf_of dev (bufs st) no of Some b \<Rightarrow> b_lock (bufs st b) | None \<Rightarrow> initsleeplock)"

definition in_use :: "u32 \<Rightarrow> bcache \<Rightarrow> u32 set" where
  "in_use dev st = {no. refs dev st no > 0}"

text \<open>
  One buffer for a block; a buffer without references is unlocked and holds what is on the disk.
\<close>

definition one_buf :: "u32 \<Rightarrow> (nat \<Rightarrow> buf) \<Rightarrow> bool" where
  "one_buf dev bs \<longleftrightarrow> (\<forall>b < NBUF. \<forall>c < NBUF.
     b_dev (bs b) = dev \<and> b_dev (bs c) = dev \<and> b_blockno (bs b) = b_blockno (bs c) \<longrightarrow> b = c)"

definition cache_ok :: "u32 \<Rightarrow> bcache \<Rightarrow> bool" where
  "cache_ok dev st \<longleftrightarrow> dev \<noteq> 0 \<and> distinct (lru st) \<and> set (lru st) = {..<NBUF}
     \<and> (\<forall>b < NBUF. b_dev (bufs st b) = dev \<or> b_dev (bufs st b) = 0 \<and> b_refcnt (bufs st b) = 0)
     \<and> one_buf dev (bufs st)
     \<and> (\<forall>b < NBUF. b_refcnt (bufs st b) = 0 \<longrightarrow> b_lock (bufs st b) = initsleeplock)
     \<and> (\<forall>no. refs dev st no = 0 \<longrightarrow> view dev st no = disk st no)"

lemma binit_ok: "dev \<noteq> 0 \<Longrightarrow> cache_ok dev (binit d)"
proof -
  assume dev: "dev \<noteq> 0"
  have "fold (#) xs ys = rev xs @ ys" for xs ys :: "nat list" by (induction xs arbitrary: ys) simp_all
  moreover have "buf_of dev (\<lambda>_. buf_zero) no = None" for no using dev by (simp add: buf_of_def find_None_iff buf_zero_def)
  ultimately show ?thesis using dev
    by (auto simp: cache_ok_def one_buf_def binit_def buf_zero_def refs_def view_def)
qed

lemma buf_of_one:
  assumes "one_buf dev bs"
  shows "buf_of dev bs no = Some b \<longleftrightarrow> b < NBUF \<and> b_dev (bs b) = dev \<and> b_blockno (bs b) = no"
proof
  assume "buf_of dev bs no = Some b"
  then show "b < NBUF \<and> b_dev (bs b) = dev \<and> b_blockno (bs b) = no"
    unfolding buf_of_def using find_upt_Some by fastforce
next
  assume b: "b < NBUF \<and> b_dev (bs b) = dev \<and> b_blockno (bs b) = no"
  then obtain c where c: "buf_of dev bs no = Some c"
    unfolding buf_of_def by (metis (mono_tags, lifting) find_upt_None not_None_eq)
  then have "c < NBUF \<and> b_dev (bs c) = dev \<and> b_blockno (bs c) = no"
    unfolding buf_of_def using find_upt_Some by fastforce
  then have "c = b" using assms b unfolding one_buf_def by metis
  then show "buf_of dev bs no = Some b" using c by simp
qed

lemma buf_of_iff:
  assumes "cache_ok dev st"
  shows "buf_of dev (bufs st) no = Some b \<longleftrightarrow> b < NBUF \<and> b_dev (bufs st b) = dev \<and> b_blockno (bufs st b) = no"
  using assms buf_of_one by (simp add: cache_ok_def)

text \<open>The search along the list finds the same buffer.\<close>

lemma find_lru:
  assumes "cache_ok dev st"
  shows "find (\<lambda>b. b_dev (bufs st b) = dev \<and> b_blockno (bufs st b) = no) (lru st) = buf_of dev (bufs st) no" (is "?f = _")
proof (cases ?f)
  case None
  then have "b_dev (bufs st b) = dev \<Longrightarrow> b_blockno (bufs st b) = no \<Longrightarrow> \<not> b < NBUF" for b
    using assms by (auto simp: find_None_iff cache_ok_def)
  then have "buf_of dev (bufs st) no = None" by (auto simp: buf_of_def find_upt_None)
  then show ?thesis using None by simp
next
  case (Some b)
  then have "b_dev (bufs st b) = dev \<and> b_blockno (bufs st b) = no \<and> b \<in> set (lru st)" by (auto simp: find_Some_iff)
  then have "buf_of dev (bufs st) no = Some b" using assms buf_of_iff [OF assms] by (auto simp: cache_ok_def)
  then show ?thesis using Some by simp
qed

lemma cache_okD:
  assumes "cache_ok dev st" "b < NBUF"
  shows "b_dev (bufs st b) = dev \<or> b_dev (bufs st b) = 0 \<and> b_refcnt (bufs st b) = 0"
    "b_refcnt (bufs st b) = 0 \<Longrightarrow> b_lock (bufs st b) = initsleeplock"
    "refs dev st no = 0 \<Longrightarrow> view dev st no = disk st no" "dev \<noteq> 0" "b \<in> set (lru st)" "distinct (lru st)"
  using assms unfolding cache_ok_def by (blast, blast, blast, blast, blast, blast)

lemma in_use_bufs:
  assumes "cache_ok dev st"
  shows "in_use dev st = (\<lambda>b. b_blockno (bufs st b)) ` {b. b < NBUF \<and> b_refcnt (bufs st b) > 0}" (is "_ = ?f ` ?B")
    and "card (in_use dev st) = card {b. b < NBUF \<and> b_refcnt (bufs st b) > 0}"
proof -
  have dev: "b_dev (bufs st b) = dev" if "b \<in> ?B" for b using cache_okD(1) [OF assms, of b] that by auto
  have "no \<in> ?f ` ?B" if r: "refs dev st no > 0" for no
  proof -
    obtain b where b: "buf_of dev (bufs st) no = Some b" "b_refcnt (bufs st b) > 0"
      using r by (auto simp: refs_def split: option.splits)
    then show ?thesis using buf_of_iff [OF assms, of no b] by (intro image_eqI [of _ _ b]) auto
  qed
  moreover have "refs dev st (?f b) > 0" if "b \<in> ?B" for b
    using that dev [OF that] buf_of_iff [OF assms, of "?f b" b] by (simp add: refs_def)
  ultimately show eq: "in_use dev st = ?f ` ?B" unfolding in_use_def by blast
  have "inj_on ?f ?B" using assms dev unfolding inj_on_def cache_ok_def one_buf_def by (metis (mono_tags, lifting) mem_Collect_eq)
  then show "card (in_use dev st) = card ?B" unfolding eq by (rule card_image)
qed

lemma free_buffer:
  assumes "cache_ok dev st" "card (in_use dev st) < NBUF"
  shows "\<exists>b < NBUF. b_refcnt (bufs st b) = 0"
proof (rule ccontr)
  assume "\<not> ?thesis"
  then have "{b. b < NBUF \<and> b_refcnt (bufs st b) > 0} = {..<NBUF}" by auto
  then show False using assms(2) unfolding in_use_bufs(2) [OF assms(1)] by simp
qed

text \<open>An update of one buffer that keeps its block.\<close>

lemma buf_of_upd [simp]:
  assumes "b_dev x = b_dev (bs b)" "b_blockno x = b_blockno (bs b)"
  shows "buf_of dev (bs(b := x)) no = buf_of dev bs no"
proof -
  have "b_dev ((bs(b := x)) c) = b_dev (bs c)" "b_blockno ((bs(b := x)) c) = b_blockno (bs c)" for c using assms by simp_all
  then show ?thesis by (simp only: buf_of_def)
qed

definition has_buf :: "u32 \<Rightarrow> bcache \<Rightarrow> u32 \<Rightarrow> nat \<Rightarrow> bool" where
  "has_buf dev st no b \<longleftrightarrow> buf_of dev (bufs st) no = Some b \<and> b_valid (bufs st b) \<and> b_refcnt (bufs st b) > 0"

lemma has_buf_views:
  assumes "has_buf dev st no b"
  shows "view dev st no = b_data (bufs st b)" "refs dev st no = b_refcnt (bufs st b)" "lock_of dev st no = b_lock (bufs st b)"
  using assms by (simp_all add: has_buf_def view_def refs_def lock_of_def)

text \<open>Any change of one buffer, of its block on the disk and of the order of the list.\<close>

lemma cache_upd:
  assumes "cache_ok dev st" "buf_of dev (bufs st) no = Some b" "b_dev x = dev" "b_blockno x = no"
    "st' = st\<lparr>bufs := (bufs st)(b := x), disk := d, lru := l, writes := w\<rparr>"
    "\<forall>m. m \<noteq> no \<longrightarrow> d m = disk st m" "distinct l" "set l = {..<NBUF}"
    "b_refcnt x = 0 \<Longrightarrow> b_lock x = initsleeplock \<and> (b_valid x \<longrightarrow> b_data x = d no)"
  shows "cache_ok dev st'"
    "refs dev st' = (refs dev st)(no := b_refcnt x)" "lock_of dev st' = (lock_of dev st)(no := b_lock x)"
    "view dev st' = (view dev st)(no := if b_valid x then b_data x else d no)"
    "m \<noteq> no \<Longrightarrow> has_buf dev st m c \<Longrightarrow> has_buf dev st' m c"
    "b_valid x \<Longrightarrow> b_refcnt x > 0 \<Longrightarrow> has_buf dev st' no b"
proof -
  have b: "b < NBUF" "b_dev (bufs st b) = dev" "b_blockno (bufs st b) = no" using buf_of_iff [OF assms(1)] assms(2) by auto
  then have k: "buf_of dev ((bufs st)(b := x)) = buf_of dev (bufs st)" using assms(3,4) by (simp add: fun_eq_iff)
  have ne: "c \<noteq> b" if "buf_of dev (bufs st) m = Some c" "m \<noteq> no" for m c
    using that b buf_of_iff [OF assms(1), of m c] by auto
  show R: "refs dev st' = (refs dev st)(no := b_refcnt x)" and "lock_of dev st' = (lock_of dev st)(no := b_lock x)"
    using assms(2,5) ne by (auto simp: fun_eq_iff refs_def lock_of_def k split: option.splits)
  show V: "view dev st' = (view dev st)(no := if b_valid x then b_data x else d no)"
    using assms(2,5,6) ne by (auto simp: fun_eq_iff view_def k split: option.splits)
  have one: "one_buf dev (bufs st)" using assms(1) by (simp add: cache_ok_def)
  have key: "b_dev (bufs st' c) = b_dev (bufs st c)" "b_blockno (bufs st' c) = b_blockno (bufs st c)" for c
    using assms(3,4,5) b by simp_all
  have d': "disk st' = d" by (simp add: assms(5))
  have clean: "view dev st' m = disk st' m" if "refs dev st' m = 0" for m
    using that assms(6,9) cache_okD(3) [OF assms(1) b(1), of m] unfolding R V d' by (auto split: if_splits)
  have each: "b_dev (bufs st' c) = dev \<or> b_dev (bufs st' c) = 0 \<and> b_refcnt (bufs st' c) = 0"
    "b_refcnt (bufs st' c) = 0 \<longrightarrow> b_lock (bufs st' c) = initsleeplock" if "c < NBUF" for c
    using cache_okD(1,2) [OF assms(1) that] assms(3,5,9) by (auto split: if_splits)
  have "one_buf dev (bufs st')" using one unfolding one_buf_def key .
  then show "cache_ok dev st'"
    unfolding cache_ok_def using cache_okD(4) [OF assms(1) b(1)] assms(5,7,8) each clean by simp
  show "has_buf dev st' m c" if "m \<noteq> no" "has_buf dev st m c"
    using that ne [of m c] assms(5) by (simp add: has_buf_def k)
  show "has_buf dev st' no b" if "b_valid x" "b_refcnt x > 0"
    using that assms(2,5) by (simp add: has_buf_def k)
qed

section \<open>What the operations do\<close>

text \<open>The state a successful \<open>bread\<close> leaves, for a block with \<open>n\<close> references before.\<close>

definition was_read :: "int \<Rightarrow> u32 \<Rightarrow> u32 \<Rightarrow> nat \<Rightarrow> bcache \<Rightarrow> bcache \<Rightarrow> bool" where
  "was_read me dev no b st st' \<longleftrightarrow> cache_ok dev st' \<and> has_buf dev st' no b
     \<and> view dev st' = view dev st \<and> refs dev st' = (refs dev st)(no := refs dev st no + 1)
     \<and> lock_of dev st' = (lock_of dev st)(no := \<lparr>sl_locked = 1, sl_pid = me\<rparr>)
     \<and> disk st' = disk st \<and> writes st' = writes st \<and> (\<forall>m c. has_buf dev st m c \<longrightarrow> has_buf dev st' m c)"

lemma sleeplock_taken [simp]: "lk\<lparr>sl_locked := l, sl_pid := p\<rparr> = \<lparr>sl_locked = l, sl_pid = p\<rparr>"
  by (cases lk) simp

lemma bread_hit:
  assumes "cache_ok dev st" "buf_of dev (bufs st) no = Some b" "sl_locked (lock_of dev st no) = 0"
  shows "\<exists>st'. bread me dev no st = Some (b, st') \<and> was_read me dev no b st st'"
proof -
  have b: "b < NBUF" "b_dev (bufs st b) = dev" "b_blockno (bufs st b) = no" using buf_of_iff [OF assms(1)] assms(2) by auto
  let ?d = "if b_valid (bufs st b) then b_data (bufs st b) else disk st no"
  define x where "x = (bufs st b)\<lparr>b_refcnt := b_refcnt (bufs st b) + 1, b_lock := \<lparr>sl_locked = 1, sl_pid = me\<rparr>, b_valid := True, b_data := ?d\<rparr>"
  define st' where "st' = st\<lparr>bufs := (bufs st)(b := x), disk := disk st, lru := lru st, writes := writes st\<rparr>"
  have run: "bread me dev no st = Some (b, st')"
    using assms b by (cases "bufs st b") (simp add: bread_def bget_def find_lru lock_buf_def acquiresleep_def lock_of_def st'_def x_def)
  have x: "b_dev x = dev" "b_blockno x = no" "b_valid x" "b_refcnt x = b_refcnt (bufs st b) + 1" "b_data x = ?d"
    "b_lock x = \<lparr>sl_locked = 1, sl_pid = me\<rparr>" using b by (simp_all add: x_def)
  have l: "distinct (lru st)" "set (lru st) = {..<NBUF}" using assms(1) by (simp_all add: cache_ok_def)
  have live: "b_refcnt x = 0 \<Longrightarrow> b_lock x = initsleeplock \<and> (b_valid x \<longrightarrow> b_data x = disk st no)" by (simp add: x(4))
  note U = cache_upd [OF assms(1,2) x(1,2) st'_def _ l live]
  have r: "refs dev st no = b_refcnt (bufs st b)" using assms(2) by (simp add: refs_def)
  have v: "view dev st no = ?d" using assms(2) by (simp add: view_def)
  have "has_buf dev st m c \<longrightarrow> has_buf dev st' m c" for m c
    using U(5,6) x(3,4) assms(2) by (cases "m = no") (auto simp: has_buf_def)
  moreover have "view dev st' = view dev st" using U(4) x(3,5) v by (simp add: fun_eq_iff)
  moreover have "disk st' = disk st" "writes st' = writes st" by (simp_all add: st'_def)
  ultimately have "was_read me dev no b st st'"
    using U(1,2,3,6) x(3,4,6) r by (simp add: was_read_def)
  with run show ?thesis by blast
qed

lemma find_SomeD: "find P xs = Some x \<Longrightarrow> P x \<and> x \<in> set xs"
  by (metis find_Some_iff nth_mem)

text \<open>A miss takes the least recently used buffer without references.\<close>

lemma bread_miss:
  assumes "cache_ok dev st" "buf_of dev (bufs st) no = None" "card (in_use dev st) < NBUF"
  shows "\<exists>b st'. bread me dev no st = Some (b, st') \<and> was_read me dev no b st st'"
proof -
  obtain c where "c < NBUF" "b_refcnt (bufs st c) = 0" using free_buffer [OF assms(1,3)] by blast
  then have "find (\<lambda>b. b_refcnt (bufs st b) = 0) (rev (lru st)) \<noteq> None"
    using cache_okD(5) [OF assms(1), of c] by (auto simp: find_None_iff)
  then obtain b where f: "find (\<lambda>b. b_refcnt (bufs st b) = 0) (rev (lru st)) = Some b" by blast
  then have "b_refcnt (bufs st b) = 0" "b \<in> set (rev (lru st))" using find_SomeD [OF f] by simp_all
  then have b: "b < NBUF" "b_refcnt (bufs st b) = 0" "b_lock (bufs st b) = initsleeplock"
    using assms(1) cache_okD(2) by (auto simp: cache_ok_def)
  define x where "x = (bufs st b)\<lparr>b_dev := dev, b_blockno := no, b_valid := True, b_refcnt := 1,
    b_lock := \<lparr>sl_locked = 1, sl_pid = me\<rparr>, b_data := disk st no\<rparr>"
  define st' where "st' = st\<lparr>bufs := (bufs st)(b := x)\<rparr>"
  have run: "bread me dev no st = Some (b, st')"
    using assms(1,2) b f by (cases "bufs st b")
      (simp add: bread_def bget_def find_lru lock_buf_def acquiresleep_def initsleeplock_def st'_def x_def)
  have new: "b_dev (bufs st c) \<noteq> dev \<or> b_blockno (bufs st c) \<noteq> no" if "c < NBUF" for c
    using assms(2) that by (auto simp: buf_of_def find_upt_None)
  have one: "one_buf dev (bufs st)" using assms(1) by (simp add: cache_ok_def)
  then have one': "one_buf dev (bufs st')" using new unfolding one_buf_def by (auto simp: st'_def x_def)
  have k_no: "buf_of dev (bufs st') no = Some b" using b(1) by (simp add: buf_of_one [OF one']) (simp add: st'_def x_def)
  have k: "buf_of dev (bufs st') m = (if buf_of dev (bufs st) m = Some b then None else buf_of dev (bufs st) m)" if "m \<noteq> no" for m
  proof -
    have "buf_of dev (bufs st') m = Some c \<longleftrightarrow> c \<noteq> b \<and> buf_of dev (bufs st) m = Some c" for c
      using that unfolding buf_of_one [OF one'] buf_of_one [OF one] by (auto simp: st'_def x_def)
    then show ?thesis by (metis option.exhaust option.distinct(1))
  qed
  have same: "bufs st' c = bufs st c" if "c \<noteq> b" for c using that by (simp add: st'_def)
  have old: "view dev st m = disk st m" "refs dev st m = 0" "lock_of dev st m = initsleeplock"
    if "buf_of dev (bufs st) m = Some b" for m
    using that b cache_okD(3) [OF assms(1) b(1), of m] by (simp_all add: refs_def lock_of_def)
  have none: "view dev st no = disk st no" "refs dev st no = 0" using assms(2) by (simp_all add: view_def refs_def)
  have d: "disk st' = disk st" "writes st' = writes st" "lru st' = lru st" by (simp_all add: st'_def)
  have x: "b_valid x" "b_data x = disk st no" "b_refcnt x = 1" "b_lock x = \<lparr>sl_locked = 1, sl_pid = me\<rparr>" "bufs st' b = x"
    by (simp_all add: x_def st'_def)
  have V: "view dev st' m = view dev st m" and R: "refs dev st' m = ((refs dev st)(no := refs dev st no + 1)) m"
    and L: "lock_of dev st' m = ((lock_of dev st)(no := \<lparr>sl_locked = 1, sl_pid = me\<rparr>)) m" for m
  proof -
    show "view dev st' m = view dev st m" "refs dev st' m = ((refs dev st)(no := refs dev st no + 1)) m"
      "lock_of dev st' m = ((lock_of dev st)(no := \<lparr>sl_locked = 1, sl_pid = me\<rparr>)) m"
      using old [of m] none x k_no k [of m] same d
      by (cases "m = no"; auto simp: view_def refs_def lock_of_def split: option.splits)+
  qed
  have H: "has_buf dev st' m c" if "has_buf dev st m c" for m c
  proof -
    have "c \<noteq> b" "m \<noteq> no" using that b(2) assms(2) by (auto simp: has_buf_def)
    then show ?thesis using that k [of m] same [of c] by (auto simp: has_buf_def)
  qed
  have "cache_ok dev st'"
    unfolding cache_ok_def
  proof (intro conjI allI impI)
    show "dev \<noteq> 0" "distinct (lru st')" "set (lru st') = {..<NBUF}" using assms(1) d by (simp_all add: cache_ok_def)
    show "one_buf dev (bufs st')" by (rule one')
    show "b_dev (bufs st' c) = dev \<or> b_dev (bufs st' c) = 0 \<and> b_refcnt (bufs st' c) = 0" if "c < NBUF" for c
      using cache_okD(1) [OF assms(1) that] by (cases "c = b") (simp_all add: st'_def x_def)
    show "b_lock (bufs st' c) = initsleeplock" if "c < NBUF" "b_refcnt (bufs st' c) = 0" for c
      using cache_okD(2) [OF assms(1) that(1)] that(2) x by (cases "c = b") (simp_all add: same)
    show "view dev st' m = disk st' m" if "refs dev st' m = 0" for m
      using that cache_okD(3) [OF assms(1) b(1), of m] none by (simp add: V R d split: if_splits)
  qed
  moreover have "has_buf dev st' no b" using k_no x by (simp add: has_buf_def)
  ultimately have "was_read me dev no b st st'"
    using H by (simp add: was_read_def V R L d fun_eq_iff)
  with run show ?thesis by blast
qed

lemma bread_ex:
  assumes "cache_ok dev st" "sl_locked (lock_of dev st no) = 0" "refs dev st no > 0 \<or> card (in_use dev st) < NBUF"
  obtains b st' where "bread me dev no st = Some (b, st')" "was_read me dev no b st st'"
proof (cases "buf_of dev (bufs st) no")
  case None
  then have "card (in_use dev st) < NBUF" using assms(3) by (simp add: refs_def)
  then show thesis using bread_miss [OF assms(1) None] that by blast
next
  case (Some b)
  then show thesis using bread_hit [OF assms(1) Some assms(2)] that by blast
qed

text \<open>A state reached with these contents, references, locks, disk and writes; buffers in use stay.\<close>

definition moved :: "u32 \<Rightarrow> bcache \<Rightarrow> (u32 \<Rightarrow> block) \<Rightarrow> (u32 \<Rightarrow> nat) \<Rightarrow> (u32 \<Rightarrow> sleeplock) \<Rightarrow> (u32 \<Rightarrow> block)
    \<Rightarrow> (u32 \<times> block) list \<Rightarrow> bcache \<Rightarrow> bool" where
  "moved dev st V R L D W st' \<longleftrightarrow> cache_ok dev st' \<and> view dev st' = V \<and> refs dev st' = R \<and> lock_of dev st' = L
     \<and> disk st' = D \<and> writes st' = W \<and> (\<forall>m c. has_buf dev st m c \<and> R m > 0 \<longrightarrow> has_buf dev st' m c)"

lemma movedI:
  assumes "cache_ok dev st" "has_buf dev st no b" "b_dev x = b_dev (bufs st b)" "b_blockno x = b_blockno (bufs st b)" "b_valid x"
    "st' = st\<lparr>bufs := (bufs st)(b := x), disk := d, lru := l, writes := w\<rparr>"
    "\<forall>m. m \<noteq> no \<longrightarrow> d m = disk st m" "distinct l" "set l = {..<NBUF}"
    "b_refcnt x = 0 \<Longrightarrow> b_lock x = initsleeplock \<and> b_data x = d no"
  shows "moved dev st ((view dev st)(no := b_data x)) ((refs dev st)(no := b_refcnt x)) ((lock_of dev st)(no := b_lock x)) d w st'"
proof -
  have k: "buf_of dev (bufs st) no = Some b" using assms(2) by (simp add: has_buf_def)
  then have b: "b_dev x = dev" "b_blockno x = no" using assms(3,4) buf_of_iff [OF assms(1)] by auto
  have z: "b_refcnt x = 0 \<Longrightarrow> b_lock x = initsleeplock \<and> (b_valid x \<longrightarrow> b_data x = d no)" using assms(10) by blast
  note U = cache_upd [OF assms(1) k b assms(6-9) z]
  have "has_buf dev st' m c" if "has_buf dev st m c" "((refs dev st)(no := b_refcnt x)) m > 0" for m c
    using that U(5) [of m c] U(6) k assms(5) by (cases "m = no") (auto simp: has_buf_def)
  then show ?thesis using U(1-4) assms(5) by (auto simp: moved_def assms(6))
qed

lemma set_data_ok:
  assumes "cache_ok dev st" "has_buf dev st no b"
  shows "moved dev st ((view dev st)(no := data)) (refs dev st) (lock_of dev st) (disk st) (writes st) (set_data b data st)"
proof -
  note h = has_buf_views [OF assms(2)]
  have "moved dev st ((view dev st)(no := data)) ((refs dev st)(no := refs dev st no)) ((lock_of dev st)(no := lock_of dev st no))
      (disk st) (writes st) (set_data b data st)"
    using movedI [OF assms, where x = "(bufs st b)\<lparr>b_data := data\<rparr>" and st' = "set_data b data st" and d = "disk st"
      and l = "lru st" and w = "writes st"] assms
    by (simp add: set_data_def has_buf_def h cache_ok_def)
  then show ?thesis by simp
qed

lemma bwrite_ex:
  assumes "cache_ok dev st" "has_buf dev st no b" "holdingsleep me (lock_of dev st no)"
  shows "\<exists>st'. bwrite me b st = Some st' \<and>
    moved dev st (view dev st) (refs dev st) (lock_of dev st) ((disk st)(no := view dev st no)) (writes st @ [(no, view dev st no)]) st'"
proof -
  note h = has_buf_views [OF assms(2)]
  have no: "b_blockno (bufs st b) = no" using assms(2) buf_of_iff [OF assms(1)] by (auto simp: has_buf_def)
  define st' where "st' = st\<lparr>disk := (disk st)(no := view dev st no), writes := writes st @ [(no, view dev st no)]\<rparr>"
  have "moved dev st ((view dev st)(no := view dev st no)) ((refs dev st)(no := refs dev st no)) ((lock_of dev st)(no := lock_of dev st no))
      ((disk st)(no := view dev st no)) (writes st @ [(no, view dev st no)]) st'"
    using movedI [OF assms(1,2), where x = "bufs st b" and st' = st' and d = "(disk st)(no := view dev st no)"
      and l = "lru st" and w = "writes st @ [(no, view dev st no)]"] assms(1,2)
    by (simp add: has_buf_def h st'_def cache_ok_def)
  moreover have "bwrite me b st = Some st'" using assms(3) h no by (simp add: bwrite_def st'_def Let_def)
  ultimately show ?thesis by simp
qed

lemma brelse_ex:
  assumes "cache_ok dev st" "has_buf dev st no b" "holdingsleep me (lock_of dev st no)"
    "refs dev st no = 1 \<longrightarrow> view dev st no = disk st no"
  shows "\<exists>st'. brelse me b st = Some st' \<and>
    moved dev st (view dev st) ((refs dev st)(no := refs dev st no - 1)) ((lock_of dev st)(no := initsleeplock)) (disk st) (writes st) st'"
proof -
  note h = has_buf_views [OF assms(2)]
  have rel: "releasesleep lk = initsleeplock" for lk by (cases lk) (simp add: releasesleep_def initsleeplock_def)
  have b: "b < NBUF" "b_refcnt (bufs st b) > 0" using assms(2) buf_of_iff [OF assms(1)] by (auto simp: has_buf_def)
  define x where "x = (bufs st b)\<lparr>b_lock := initsleeplock, b_refcnt := b_refcnt (bufs st b) - 1\<rparr>"
  define l where "l = (if b_refcnt x = 0 then b # remove1 b (lru st) else lru st)"
  define st' where "st' = st\<lparr>bufs := (bufs st)(b := x), disk := disk st, lru := l, writes := writes st\<rparr>"
  have "brelse me b st = Some st'"
    using assms(3) b(2) by (simp add: brelse_def h rel st'_def l_def x_def Let_def)
  moreover have "distinct l" "set l = {..<NBUF}" using cache_okD(5,6) [OF assms(1) b(1)] assms(1) b(1)
    by (auto simp: l_def cache_ok_def)
  moreover have "b_refcnt x = 0 \<Longrightarrow> b_lock x = initsleeplock \<and> b_data x = disk st no"
    using assms(4) b(2) by (simp add: x_def h)
  ultimately have "moved dev st ((view dev st)(no := b_data x)) ((refs dev st)(no := b_refcnt x)) ((lock_of dev st)(no := b_lock x)) (disk st) (writes st) st'"
    using movedI [OF assms(1,2) _ _ _ st'_def] assms(2) by (simp add: x_def has_buf_def)
  moreover have "b_data x = view dev st no" "b_refcnt x = refs dev st no - 1" "b_lock x = initsleeplock" by (simp_all add: x_def h)
  ultimately show ?thesis using \<open>brelse me b st = Some st'\<close> by simp
qed

lemma pin_ok:
  assumes "cache_ok dev st" "has_buf dev st no b"
  shows "moved dev st (view dev st) ((refs dev st)(no := refs dev st no + 1)) (lock_of dev st) (disk st) (writes st) (bpin b st)"
    and "refs dev st no > 1 \<Longrightarrow> \<exists>st'. bunpin b st = Some st' \<and>
      moved dev st (view dev st) ((refs dev st)(no := refs dev st no - 1)) (lock_of dev st) (disk st) (writes st) st'"
proof -
  note h = has_buf_views [OF assms(2)]
  have m: "moved dev st (view dev st) ((refs dev st)(no := n)) (lock_of dev st) (disk st) (writes st)
      (upd_buf b (\<lambda>x. x\<lparr>b_refcnt := n\<rparr>) st)" if "n > 0" for n
  proof -
    have "moved dev st ((view dev st)(no := view dev st no)) ((refs dev st)(no := n)) ((lock_of dev st)(no := lock_of dev st no))
        (disk st) (writes st) (upd_buf b (\<lambda>x. x\<lparr>b_refcnt := n\<rparr>) st)"
      using movedI [OF assms, where x = "(bufs st b)\<lparr>b_refcnt := n\<rparr>" and st' = "upd_buf b (\<lambda>x. x\<lparr>b_refcnt := n\<rparr>) st" and d = "disk st"
        and l = "lru st" and w = "writes st"]
        assms that by (simp add: has_buf_def h cache_ok_def)
    then show ?thesis by simp
  qed
  show "moved dev st (view dev st) ((refs dev st)(no := refs dev st no + 1)) (lock_of dev st) (disk st) (writes st) (bpin b st)"
    using m [of "refs dev st no + 1"] by (simp add: bpin_def h)
  show "\<exists>st'. bunpin b st = Some st' \<and>
      moved dev st (view dev st) ((refs dev st)(no := refs dev st no - 1)) (lock_of dev st) (disk st) (writes st) st'"
    if "refs dev st no > 1"
    using m [of "refs dev st no - 1"] that by (simp add: bunpin_def h)
qed

text \<open>\<open>bread\<close> in the same terms.\<close>

lemma bread_moved:
  assumes "cache_ok dev st" "lock_of dev st no = initsleeplock" "refs dev st no > 0 \<or> card (in_use dev st) < NBUF"
  obtains b st' where "bread me dev no st = Some (b, st')" "has_buf dev st' no b"
    "moved dev st (view dev st) ((refs dev st)(no := refs dev st no + 1))
       ((lock_of dev st)(no := \<lparr>sl_locked = 1, sl_pid = me\<rparr>)) (disk st) (writes st) st'"
proof -
  have "sl_locked (lock_of dev st no) = 0" by (simp add: assms(2) initsleeplock_def)
  then obtain b st' where r: "bread me dev no st = Some (b, st')" "was_read me dev no b st st'"
    using bread_ex [OF assms(1) _ assms(3)] by metis
  show thesis by (rule that [OF r(1)]) (use r(2) in \<open>auto simp: was_read_def moved_def\<close>)
qed

lemma movedD:
  assumes "moved dev st V R L D W st'"
  shows "cache_ok dev st'" "view dev st' = V" "refs dev st' = R" "lock_of dev st' = L" "disk st' = D" "writes st' = W"
    "has_buf dev st m c \<Longrightarrow> R m > 0 \<Longrightarrow> has_buf dev st' m c"
  using assms by (simp_all add: moved_def)

lemma in_use_free:
  assumes "cache_ok dev st"
  shows "finite (in_use dev st)"
  unfolding in_use_bufs(1) [OF assms] by simp

lemma unused_lock:
  assumes "cache_ok dev st" "refs dev st no = 0"
  shows "lock_of dev st no = initsleeplock"
proof (cases "buf_of dev (bufs st) no")
  case (Some b)
  then have "b < NBUF" "b_refcnt (bufs st b) = 0" using assms(2) buf_of_iff [OF assms(1), of no b] by (simp_all add: refs_def)
  then show ?thesis using cache_okD(2) [OF assms(1)] Some by (simp add: lock_of_def)
qed (simp add: lock_of_def)

end
