(* ===== verification/Xv6_Log.thy ===== *)
theory Xv6_Log
  imports Xv6_Bio
begin

text \<open>
  The log of the xv6 file system (\<open>kernel/log.c\<close>) over the buffer cache.  Blocks are byte lists; the
  header is read from and written into the bytes of its block.  A panic, an access outside
  \<open>lh.block\<close> and sleeping for ever is None.
\<close>

section \<open>State and operations\<close>

definition MAXOPBLOCKS :: int where "MAXOPBLOCKS = 10"
definition LOGSIZE :: nat where "LOGSIZE = 30"

record log =
  l_start :: u32
  l_size :: int
  l_outstanding :: int
  l_committing :: bool
  l_dev :: u32
  lh_n :: int
  lh_block :: "u32 list"

text \<open>The block of the log for position \<open>tail\<close>.\<close>

definition log_block :: "log \<Rightarrow> nat \<Rightarrow> u32" where
  "log_block lg tail = l_start lg + of_nat tail + 1"

text \<open>The field of 4 bytes at \<open>off\<close> of a block.\<close>

definition get32 :: "nat \<Rightarrow> block \<Rightarrow> u32" where
  "get32 off x = le32_of (take 4 (drop off x))"

definition set32 :: "nat \<Rightarrow> u32 \<Rightarrow> block \<Rightarrow> block" where
  "set32 off w x = take off x @ le32_bytes w @ drop (off + 4) x"

fun write_log :: "int \<Rightarrow> log \<Rightarrow> nat list \<Rightarrow> bcache \<Rightarrow> bcache option" where
  "write_log me lg [] st = Some st"
| "write_log me lg (tail # ts) st = do {
     (to, st) \<leftarrow> bread me (l_dev lg) (log_block lg tail) st;
     no \<leftarrow> array_get (lh_block lg) tail;
     (from, st) \<leftarrow> bread me (l_dev lg) no st;
     let st = set_data to (b_data (bufs st from)) st;
     st \<leftarrow> bwrite me to st;
     st \<leftarrow> brelse me from st;
     st \<leftarrow> brelse me to st;
     write_log me lg ts st
   }"

fun install_trans :: "int \<Rightarrow> bool \<Rightarrow> log \<Rightarrow> nat list \<Rightarrow> bcache \<Rightarrow> bcache option" where
  "install_trans me recovering lg [] st = Some st"
| "install_trans me recovering lg (tail # ts) st = do {
     (lbuf, st) \<leftarrow> bread me (l_dev lg) (log_block lg tail) st;
     no \<leftarrow> array_get (lh_block lg) tail;
     (dbuf, st) \<leftarrow> bread me (l_dev lg) no st;
     let st = set_data dbuf (b_data (bufs st lbuf)) st;
     st \<leftarrow> bwrite me dbuf st;
     st \<leftarrow> (if recovering then Some st else bunpin dbuf st);
     st \<leftarrow> brelse me lbuf st;
     st \<leftarrow> brelse me dbuf st;
     install_trans me recovering lg ts st
   }"

definition tails :: "log \<Rightarrow> nat list" where
  "tails lg = [0..<nat (lh_n lg)]"

text \<open>The loops over \<open>block[i]\<close> of the header in memory and in the buffer.\<close>

fun load_blocks :: "block \<Rightarrow> nat list \<Rightarrow> u32 list \<Rightarrow> u32 list option" where
  "load_blocks x [] bs = Some bs"
| "load_blocks x (i # is) bs = do { bs \<leftarrow> array_set bs i (get32 (4 + 4 * i) x); load_blocks x is bs }"

fun store_blocks :: "u32 list \<Rightarrow> nat list \<Rightarrow> block \<Rightarrow> block option" where
  "store_blocks bs [] x = Some x"
| "store_blocks bs (i # is) x = do { no \<leftarrow> array_get bs i; store_blocks bs is (set32 (4 + 4 * i) no x) }"

definition read_head :: "int \<Rightarrow> log \<Rightarrow> bcache \<Rightarrow> (log \<times> bcache) option" where
  "read_head me lg st = do {
     (b, st) \<leftarrow> bread me (l_dev lg) (l_start lg) st;
     let lg = lg\<lparr>lh_n := sint (get32 0 (b_data (bufs st b)))\<rparr>;
     bs \<leftarrow> load_blocks (b_data (bufs st b)) (tails lg) (lh_block lg);
     let lg = lg\<lparr>lh_block := bs\<rparr>;
     st \<leftarrow> brelse me b st;
     Some (lg, st)
   }"

definition write_head :: "int \<Rightarrow> log \<Rightarrow> bcache \<Rightarrow> bcache option" where
  "write_head me lg st = do {
     (b, st) \<leftarrow> bread me (l_dev lg) (l_start lg) st;
     x \<leftarrow> store_blocks (lh_block lg) (tails lg) (set32 0 (word_of_int (lh_n lg)) (b_data (bufs st b)));
     st \<leftarrow> bwrite me b (set_data b x st);
     brelse me b st
   }"

definition recover_from_log :: "int \<Rightarrow> log \<Rightarrow> bcache \<Rightarrow> (log \<times> bcache) option" where
  "recover_from_log me lg st = do {
     (lg, st) \<leftarrow> read_head me lg st;
     st \<leftarrow> install_trans me True lg (tails lg) st;
     let lg = lg\<lparr>lh_n := 0\<rparr>;
     st \<leftarrow> write_head me lg st;
     Some (lg, st)
   }"

definition log_init :: "u32 \<Rightarrow> u32 \<Rightarrow> u32 \<Rightarrow> log" where
  "log_init dev logstart nlog = \<lparr>l_start = logstart, l_size = sint nlog, l_outstanding = 0, l_committing = False,
     l_dev = dev, lh_n = 0, lh_block = replicate LOGSIZE 0\<rparr>"

definition initlog :: "int \<Rightarrow> u32 \<Rightarrow> u32 \<Rightarrow> u32 \<Rightarrow> bcache \<Rightarrow> (log \<times> bcache) option" where
  "initlog me dev logstart nlog st = recover_from_log me (log_init dev logstart nlog) st"

definition commit :: "int \<Rightarrow> log \<Rightarrow> bcache \<Rightarrow> (log \<times> bcache) option" where
  "commit me lg st =
     (if lh_n lg > 0 then do {
        st \<leftarrow> write_log me lg (tails lg) st;
        st \<leftarrow> write_head me lg st;
        st \<leftarrow> install_trans me False lg (tails lg) st;
        let lg = lg\<lparr>lh_n := 0\<rparr>;
        st \<leftarrow> write_head me lg st;
        Some (lg, st)
      } else Some (lg, st))"

text \<open>
  \<open>log_write\<close> of a buffer whose block the caller has changed: its first entry is used again, a new
  one pins the buffer.  \<open>log_add\<close> is the part that changes the log.
\<close>

definition log_add :: "u32 \<Rightarrow> log \<Rightarrow> (bool \<times> log) option" where
  "log_add no lg = do {
     guard (\<not> (lh_n lg \<ge> int LOGSIZE \<or> lh_n lg \<ge> l_size lg - 1));
     guard (\<not> l_outstanding lg < 1);
     let i = (case find (\<lambda>i. lh_block lg ! i = no) (tails lg) of Some i \<Rightarrow> int i | None \<Rightarrow> max 0 (lh_n lg));
     bs \<leftarrow> array_set (lh_block lg) (nat i) no;
     let lg = lg\<lparr>lh_block := bs\<rparr>;
     Some (if i = lh_n lg then (True, lg\<lparr>lh_n := lh_n lg + 1\<rparr>) else (False, lg))
   }"

definition log_write :: "nat \<Rightarrow> log \<Rightarrow> bcache \<Rightarrow> (log \<times> bcache) option" where
  "log_write b lg st = do {
     (fresh, lg) \<leftarrow> log_add (b_blockno (bufs st b)) lg;
     Some (lg, if fresh then bpin b st else st)
   }"

text \<open>One turn of the loop of \<open>begin_op\<close>: None when the caller goes to sleep.\<close>

definition begin_op :: "log \<Rightarrow> log option" where
  "begin_op lg =
     (if l_committing lg then None
      else if lh_n lg + (l_outstanding lg + 1) * MAXOPBLOCKS > int LOGSIZE then None
      else Some (lg\<lparr>l_outstanding := l_outstanding lg + 1\<rparr>))"

text \<open>\<open>end_op\<close> up to the commit: whether the caller has to commit; otherwise it has woken the others.\<close>

definition end_op :: "log \<Rightarrow> (bool \<times> log) option" where
  "end_op lg = do {
     let lg = lg\<lparr>l_outstanding := l_outstanding lg - 1\<rparr>;
     guard (\<not> l_committing lg);
     Some (if l_outstanding lg = 0 then (True, lg\<lparr>l_committing := True\<rparr>) else (False, lg))
   }"

definition end_commit :: "log \<Rightarrow> log" where
  "end_commit lg = lg\<lparr>l_committing := False\<rparr>"

section \<open>Sequences of writes\<close>

definition apply_writes :: "(u32 \<times> block) list \<Rightarrow> (u32 \<Rightarrow> block) \<Rightarrow> u32 \<Rightarrow> block" where
  "apply_writes ws d = fold (\<lambda>(no, x) d. d(no := x)) ws d"

lemma apply_writes_simps [simp]:
  "apply_writes [] d = d" "apply_writes ((no, x) # ws) d = apply_writes ws (d(no := x))"
  "apply_writes (ws @ vs) d = apply_writes vs (apply_writes ws d)"
  by (simp_all add: apply_writes_def)

lemma apply_writes_other: "no \<notin> fst ` set ws \<Longrightarrow> apply_writes ws d no = d no"
  by (induction ws arbitrary: d) auto

lemma apply_writes_in:
  assumes "distinct (map fst ws)" "(no, x) \<in> set ws"
  shows "apply_writes ws d no = x"
  using assms by (induction ws arbitrary: d) (auto simp: apply_writes_other)

text \<open>
  A part of the code that performs the writes \<open>ws\<close> and leaves the locks as they are and these
  references.
\<close>

definition wrote :: "u32 \<Rightarrow> bcache \<Rightarrow> (u32 \<times> block) list \<Rightarrow> (u32 \<Rightarrow> nat) \<Rightarrow> bcache \<Rightarrow> bool" where
  "wrote dev st ws R st' \<longleftrightarrow> cache_ok dev st' \<and> view dev st' = apply_writes ws (view dev st) \<and> refs dev st' = R
     \<and> lock_of dev st' = lock_of dev st \<and> disk st' = apply_writes ws (disk st) \<and> writes st' = writes st @ ws"

lemma wrote_trans:
  assumes "wrote dev st ws R st1" "wrote dev st1 vs Q st2"
  shows "wrote dev st (ws @ vs) Q st2"
  using assms by (simp add: wrote_def)

lemma wroteD:
  assumes "wrote dev st ws R st'"
  shows "cache_ok dev st'" "view dev st' = apply_writes ws (view dev st)" "refs dev st' = R" "lock_of dev st' = lock_of dev st"
    "disk st' = apply_writes ws (disk st)" "writes st' = writes st @ ws"
  using assms by (simp_all add: wrote_def)

lemma taken_held [simp]: "holdingsleep me \<lparr>sl_locked = 1, sl_pid = me\<rparr>"
  by (simp add: holdingsleep_def)

lemma in_use_upd: "in_use dev st = {no. refs dev st no > 0}"
  by (simp add: in_use_def)

text \<open>After the first of two reads one more block is in use at most.\<close>

lemma in_use_grows:
  assumes "cache_ok dev st" "refs dev st' = (refs dev st)(no := n)"
  shows "card (in_use dev st') \<le> card (in_use dev st) + 1"
proof -
  have "in_use dev st' \<subseteq> insert no (in_use dev st)" by (auto simp: in_use_def assms(2) split: if_splits)
  then have "card (in_use dev st') \<le> card (insert no (in_use dev st))"
    using in_use_free [OF assms(1)] by (intro card_mono) simp_all
  also have "\<dots> \<le> card (in_use dev st) + 1" by (simp add: card_insert_le_m1 card_insert_if in_use_free [OF assms(1)])
  finally show ?thesis .
qed

text \<open>
  Two different blocks are read and the second one is written into the first or the other way
  round; the block written may lose a pin.
\<close>

lemma two_blocks:
  assumes "cache_ok dev st" "a \<noteq> c" "lock_of dev st a = initsleeplock" "lock_of dev st c = initsleeplock"
    "card (in_use dev st) < NBUF" "refs dev st c > 0 \<or> card (in_use dev st) + 2 \<le> NBUF"
  obtains x y st1 st2 where "bread me dev a st = Some (x, st1)" "bread me dev c st1 = Some (y, st2)"
    "has_buf dev st2 a x" "has_buf dev st2 c y"
    "moved dev st (view dev st) ((refs dev st)(a := refs dev st a + 1, c := refs dev st c + 1))
       ((lock_of dev st)(a := \<lparr>sl_locked = 1, sl_pid = me\<rparr>, c := \<lparr>sl_locked = 1, sl_pid = me\<rparr>)) (disk st) (writes st) st2"
proof -
  obtain x st1 where r1: "bread me dev a st = Some (x, st1)" "has_buf dev st1 a x"
    and m1: "moved dev st (view dev st) ((refs dev st)(a := refs dev st a + 1))
       ((lock_of dev st)(a := \<lparr>sl_locked = 1, sl_pid = me\<rparr>)) (disk st) (writes st) st1"
    using bread_moved [OF assms(1,3)] assms(5) by metis
  note D1 = movedD [OF m1]
  have "refs dev st1 c > 0 \<or> card (in_use dev st1) < NBUF"
    using in_use_grows [OF assms(1) D1(3)] assms(2,6) by (auto simp: D1(3))
  moreover have "lock_of dev st1 c = initsleeplock" using assms(2,4) by (simp add: D1(4))
  ultimately obtain y st2 where r2: "bread me dev c st1 = Some (y, st2)" "has_buf dev st2 c y"
    and m2: "moved dev st1 (view dev st1) ((refs dev st1)(c := refs dev st1 c + 1))
       ((lock_of dev st1)(c := \<lparr>sl_locked = 1, sl_pid = me\<rparr>)) (disk st1) (writes st1) st2"
    using bread_moved [OF D1(1)] by metis
  note D2 = movedD [OF m2]
  have "has_buf dev st2 a x" by (rule D2(7) [OF r1(2)]) (use assms(2) in \<open>simp add: D1(3)\<close>)
  moreover have "has_buf dev st2 m b" if "has_buf dev st m b" for m b
  proof -
    have p: "refs dev st m > 0" using that has_buf_views(2) [OF that] by (simp add: has_buf_def)
    show ?thesis by (rule D2(7) [OF D1(7) [OF that]]) (use p in \<open>simp_all add: D1(3)\<close>)
  qed
  moreover have "refs dev st1 c = refs dev st c" using assms(2) by (simp add: D1(3))
  ultimately show thesis
    using that [OF r1(1) r2(1) _ r2(2)] D1 D2(1-6) by (simp add: moved_def)
qed

lemma write_log_step:
  assumes "cache_ok dev st" "a \<noteq> c" "lock_of dev st a = initsleeplock" "lock_of dev st c = initsleeplock"
    "card (in_use dev st) < NBUF" "refs dev st a = 0" "refs dev st c > 0"
    "l_dev lg = dev" "log_block lg t = a" "t < length (lh_block lg)" "lh_block lg ! t = c"
  shows "\<exists>st'. write_log me lg (t # ts) st = write_log me lg ts st' \<and> wrote dev st [(a, view dev st c)] (refs dev st) st'"
proof -
  obtain x y st1 st2 where r: "bread me dev a st = Some (x, st1)" "bread me dev c st1 = Some (y, st2)"
    "has_buf dev st2 a x" "has_buf dev st2 c y"
    and m: "moved dev st (view dev st) ((refs dev st)(a := refs dev st a + 1, c := refs dev st c + 1))
       ((lock_of dev st)(a := \<lparr>sl_locked = 1, sl_pid = me\<rparr>, c := \<lparr>sl_locked = 1, sl_pid = me\<rparr>)) (disk st) (writes st) st2"
    by (rule two_blocks [OF assms(1-5) disjI1 [OF assms(7)]])
  note D2 = movedD [OF m]
  have data: "b_data (bufs st2 y) = view dev st c" using has_buf_views(1) [OF r(4)] by (simp add: D2(2))
  define st3 where "st3 = set_data x (view dev st c) st2"
  note D3 = movedD [OF set_data_ok [OF D2(1) r(3), of "view dev st c", folded st3_def]]
  have h3: "has_buf dev st3 a x" "has_buf dev st3 c y" using D3(7) r(3,4) assms(2) by (simp_all add: D2(3))
  have "holdingsleep me (lock_of dev st3 a)" using assms(2) by (simp add: D3(4) D2(4))
  then obtain st4 where r4: "bwrite me x st3 = Some st4" and m4: "moved dev st3 (view dev st3) (refs dev st3) (lock_of dev st3)
      ((disk st3)(a := view dev st3 a)) (writes st3 @ [(a, view dev st3 a)]) st4"
    using bwrite_ex [OF D3(1) h3(1)] by blast
  note D4 = movedD [OF m4]
  have h4: "has_buf dev st4 a x" "has_buf dev st4 c y" using D4(7) h3 assms(2) by (simp_all add: D3(3) D2(3))
  have "holdingsleep me (lock_of dev st4 c)" "refs dev st4 c \<noteq> 1" using assms(7) by (simp_all add: D4(3,4) D3(3,4) D2(3,4))
  then obtain st5 where r5: "brelse me y st4 = Some st5" and m5: "moved dev st4 (view dev st4) ((refs dev st4)(c := refs dev st4 c - 1))
      ((lock_of dev st4)(c := initsleeplock)) (disk st4) (writes st4) st5"
    using brelse_ex [OF D4(1) h4(2)] by blast
  note D5 = movedD [OF m5]
  have h5: "has_buf dev st5 a x" using D5(7) h4(1) assms(2) by (simp add: D4(3) D3(3) D2(3))
  have "holdingsleep me (lock_of dev st5 a)" "view dev st5 a = disk st5 a"
    using assms(2) by (simp_all add: D5(2,4,5) D4(2,4,5) D3(2,4) D2(4))
  then obtain st6 where r6: "brelse me x st5 = Some st6" and m6: "moved dev st5 (view dev st5) ((refs dev st5)(a := refs dev st5 a - 1))
      ((lock_of dev st5)(a := initsleeplock)) (disk st5) (writes st5) st6"
    using brelse_ex [OF D5(1) h5] by blast
  note D6 = movedD [OF m6]
  have "wrote dev st [(a, view dev st c)] (refs dev st) st6"
    unfolding wrote_def using D6(1) assms(2,3,4)
    by (auto simp: D6(2-6) D5(2-6) D4(2-6) D3(2-6) D2(2-6) fun_eq_iff)
  moreover have "write_log me lg (t # ts) st = write_log me lg ts st6"
    using r(1,2) r4 r5 r6 assms(8-11) by (simp add: st3_def data array_get_def)
  ultimately show ?thesis by blast
qed

text \<open>The part of \<open>install_trans\<close> from the write on, with \<open>n\<close> references of the block written.\<close>

lemma install_tail:
  assumes "cache_ok dev st" "a \<noteq> c" "has_buf dev st a x" "has_buf dev st c y"
    "lock_of dev st a = \<lparr>sl_locked = 1, sl_pid = me\<rparr>" "lock_of dev st c = \<lparr>sl_locked = 1, sl_pid = me\<rparr>"
    "refs dev st a = 1" "view dev st a = disk st a" "\<not> recovering \<Longrightarrow> refs dev st c > 1"
  obtains st1 st2 st3 st4 where "bwrite me y st = Some st1" "(if recovering then Some st1 else bunpin y st1) = Some st2"
    "brelse me x st2 = Some st3" "brelse me y st3 = Some st4"
    "cache_ok dev st4" "view dev st4 = view dev st" "disk st4 = (disk st)(c := view dev st c)"
    "refs dev st4 = (refs dev st)(a := 0, c := refs dev st c - (if recovering then 1 else 2))"
    "lock_of dev st4 = (lock_of dev st)(a := initsleeplock, c := initsleeplock)"
    "writes st4 = writes st @ [(c, view dev st c)]"
proof -
  have rc: "refs dev st c > 0" using assms(4) has_buf_views(2) [OF assms(4)] by (simp add: has_buf_def)
  obtain st1 where r1: "bwrite me y st = Some st1" and m1: "moved dev st (view dev st) (refs dev st) (lock_of dev st)
      ((disk st)(c := view dev st c)) (writes st @ [(c, view dev st c)]) st1"
    using bwrite_ex [OF assms(1,4), of me] by (auto simp: assms(6))
  note D1 = movedD [OF m1]
  have h1: "has_buf dev st1 a x" "has_buf dev st1 c y" using D1(7) assms(3,4,7) rc by simp_all
  let ?n = "refs dev st c - (if recovering then 0 else 1)"
  obtain st2 where r2: "(if recovering then Some st1 else bunpin y st1) = Some st2"
    and m2: "moved dev st1 (view dev st1) ((refs dev st1)(c := ?n)) (lock_of dev st1) (disk st1) (writes st1) st2"
  proof (cases recovering)
    case True
    then have "moved dev st1 (view dev st1) ((refs dev st1)(c := ?n)) (lock_of dev st1) (disk st1) (writes st1) st1"
      by (auto simp: moved_def D1(1,3))
    then show thesis using that True by simp
  next
    case False
    then have "refs dev st1 c > 1" using assms(9) by (simp add: D1(3))
    then show thesis using pin_ok(2) [OF D1(1) h1(2)] that False by (auto simp: D1(3))
  qed
  note D2 = movedD [OF m2]
  have n: "?n > 0" using assms(9) rc by (cases recovering) auto
  have h2: "has_buf dev st2 a x" "has_buf dev st2 c y" using D2(7) h1 n assms(2,7) by (simp_all add: D1(3))
  have "holdingsleep me (lock_of dev st2 a)" "view dev st2 a = disk st2 a"
    using assms(2,5,8) by (simp_all add: D2(2,4,5) D1(2,4,5))
  then obtain st3 where r3: "brelse me x st2 = Some st3" and m3: "moved dev st2 (view dev st2) ((refs dev st2)(a := refs dev st2 a - 1))
      ((lock_of dev st2)(a := initsleeplock)) (disk st2) (writes st2) st3"
    using brelse_ex [OF D2(1) h2(1)] by blast
  note D3 = movedD [OF m3]
  have h3: "has_buf dev st3 c y" using D3(7) h2(2) n assms(2) by (simp add: D2(3))
  have "holdingsleep me (lock_of dev st3 c)" "view dev st3 c = disk st3 c"
    using assms(2,6) by (simp_all add: D3(2,4,5) D2(2,4,5) D1(2,4,5))
  then obtain st4 where r4: "brelse me y st3 = Some st4" and m4: "moved dev st3 (view dev st3) ((refs dev st3)(c := refs dev st3 c - 1))
      ((lock_of dev st3)(c := initsleeplock)) (disk st3) (writes st3) st4"
    using brelse_ex [OF D3(1) h3] by blast
  note D4 = movedD [OF m4]
  show thesis
  proof (rule that [OF r1 r2 r3 r4 D4(1)])
    show "view dev st4 = view dev st" "disk st4 = (disk st)(c := view dev st c)" "writes st4 = writes st @ [(c, view dev st c)]"
      by (simp_all add: D4(2,5,6) D3(2,5,6) D2(2,5,6) D1(2,5,6))
    show "refs dev st4 = (refs dev st)(a := 0, c := refs dev st c - (if recovering then 1 else 2))"
      "lock_of dev st4 = (lock_of dev st)(a := initsleeplock, c := initsleeplock)"
      using assms(2,7) by (auto simp: D4(3,4) D3(3,4) D2(3,4) D1(3,4) fun_eq_iff)
  qed
qed

lemma install_step:
  assumes "cache_ok dev st" "a \<noteq> c" "lock_of dev st a = initsleeplock" "lock_of dev st c = initsleeplock"
    "card (in_use dev st) < NBUF" "refs dev st a = 0" "refs dev st c > 0 \<or> recovering \<and> card (in_use dev st) + 2 \<le> NBUF"
    "l_dev lg = dev" "log_block lg t = a" "t < length (lh_block lg)" "lh_block lg ! t = c"
  shows "\<exists>st'. install_trans me recovering lg (t # ts) st = install_trans me recovering lg ts st' \<and>
    wrote dev st [(c, view dev st a)] (if recovering then refs dev st else (refs dev st)(c := refs dev st c - 1)) st'"
proof -
  have room: "refs dev st c > 0 \<or> card (in_use dev st) + 2 \<le> NBUF" and pin: "\<not> recovering \<Longrightarrow> refs dev st c > 0"
    using assms(7) by blast+
  obtain x y st1 st2 where r: "bread me dev a st = Some (x, st1)" "bread me dev c st1 = Some (y, st2)"
    "has_buf dev st2 a x" "has_buf dev st2 c y"
    and m: "moved dev st (view dev st) ((refs dev st)(a := refs dev st a + 1, c := refs dev st c + 1))
       ((lock_of dev st)(a := \<lparr>sl_locked = 1, sl_pid = me\<rparr>, c := \<lparr>sl_locked = 1, sl_pid = me\<rparr>)) (disk st) (writes st) st2"
    by (rule two_blocks [OF assms(1-5) room])
  note D2 = movedD [OF m]
  have data: "b_data (bufs st2 x) = view dev st a" using has_buf_views(1) [OF r(3)] by (simp add: D2(2))
  define st3 where "st3 = set_data y (view dev st a) st2"
  note D3 = movedD [OF set_data_ok [OF D2(1) r(4), of "view dev st a", folded st3_def]]
  have h3: "has_buf dev st3 a x" "has_buf dev st3 c y" using D3(7) r(3,4) assms(2) by (simp_all add: D2(3))
  have clean: "view dev st a = disk st a" using assms(1,6) by (simp add: cache_ok_def)
  have p: "lock_of dev st3 a = \<lparr>sl_locked = 1, sl_pid = me\<rparr>" "lock_of dev st3 c = \<lparr>sl_locked = 1, sl_pid = me\<rparr>"
    "refs dev st3 a = 1" "view dev st3 a = disk st3 a" "\<not> recovering \<Longrightarrow> refs dev st3 c > 1"
    using assms(2,6) pin clean by (simp_all add: D3(2-5) D2(2-5))
  obtain s1 s2 s3 s4 where t: "bwrite me y st3 = Some s1" "(if recovering then Some s1 else bunpin y s1) = Some s2"
    "brelse me x s2 = Some s3" "brelse me y s3 = Some s4"
    "cache_ok dev s4" "view dev s4 = view dev st3" "disk s4 = (disk st3)(c := view dev st3 c)"
    "refs dev s4 = (refs dev st3)(a := 0, c := refs dev st3 c - (if recovering then 1 else 2))"
    "lock_of dev s4 = (lock_of dev st3)(a := initsleeplock, c := initsleeplock)"
    "writes s4 = writes st3 @ [(c, view dev st3 c)]"
    by (rule install_tail [OF D3(1) assms(2) h3 p])
  have "wrote dev st [(c, view dev st a)] (if recovering then refs dev st else (refs dev st)(c := refs dev st c - 1)) s4"
    unfolding wrote_def using t(5) assms(2,3,4,6) by (auto simp: t(6-10) D3(2-6) D2(2-6) fun_eq_iff)
  moreover have "install_trans me recovering lg (t # ts) st = install_trans me recovering lg ts s4"
    using r(1,2) t(1-4) assms(8-11) by (auto simp: st3_def [symmetric] data array_get_def split: if_splits)
  ultimately show ?thesis by blast
qed

section \<open>The header in its block\<close>

lemma length_set32 [simp]: "off + 4 \<le> length x \<Longrightarrow> length (set32 off w x) = length x"
  by (simp add: set32_def)

lemma get32_set32: "off + 4 \<le> length x \<Longrightarrow> get32 off (set32 off w x) = w"
  by (simp add: get32_def set32_def)

lemma get32_set32_other:
  assumes "off + 4 \<le> length x" "off' + 4 \<le> off \<or> off + 4 \<le> off'"
  shows "get32 off' (set32 off w x) = get32 off' x"
proof -
  have "take 4 (drop off' (set32 off w x)) = take 4 (drop off' x)"
  proof (cases "off' + 4 \<le> off")
    case True
    then have "take 4 (drop off' (set32 off w x)) = take 4 (drop off' (take off x))" using assms(1) by (simp add: set32_def)
    also have "\<dots> = take 4 (drop off' x)" using True by (simp add: drop_take)
    finally show ?thesis .
  next
    case False
    then have "drop off' (set32 off w x) = drop off' x" using assms by (simp add: set32_def min_def add.commute)
    then show ?thesis by simp
  qed
  then show ?thesis by (simp add: get32_def)
qed

lemma store_blocks_spec:
  assumes "\<forall>i \<in> set is. i < length bs \<and> 8 + 4 * i \<le> length x"
  shows "\<exists>y. store_blocks bs is x = Some y \<and> length y = length x \<and> (\<forall>i \<in> set is. get32 (4 + 4 * i) y = bs ! i)
    \<and> (\<forall>off. (\<forall>i \<in> set is. off + 4 \<le> 4 + 4 * i \<or> 8 + 4 * i \<le> off) \<longrightarrow> get32 off y = get32 off x)"
  using assms
proof (induction "is" arbitrary: x)
  case (Cons i "is")
  let ?x = "set32 (4 + 4 * i) (bs ! i) x"
  have i: "i < length bs" "4 + 4 * i + 4 \<le> length x" using Cons.prems by auto
  have fits: "\<forall>j \<in> set is. j < length bs \<and> 8 + 4 * j \<le> length ?x" using Cons.prems i by simp
  obtain y where y: "store_blocks bs is ?x = Some y" "length y = length ?x" "\<forall>j \<in> set is. get32 (4 + 4 * j) y = bs ! j"
    "\<forall>off. (\<forall>j \<in> set is. off + 4 \<le> 4 + 4 * j \<or> 8 + 4 * j \<le> off) \<longrightarrow> get32 off y = get32 off ?x"
    using Cons.IH [OF fits] by blast
  have "get32 (4 + 4 * i) y = bs ! i"
  proof (cases "i \<in> set is")
    case False
    have "4 + 4 * i + 4 \<le> 4 + 4 * j \<or> 8 + 4 * j \<le> 4 + 4 * i" if "j \<in> set is" for j
    proof -
      have "i \<noteq> j" using False that by blast
      then show ?thesis by presburger
    qed
    then show ?thesis using y(4) get32_set32 [OF i(2)] by simp
  qed (use y(3) in blast)
  moreover have "get32 off ?x = get32 off x" if "off + 4 \<le> 4 + 4 * i \<or> 8 + 4 * i \<le> off" for off
    using get32_set32_other [OF i(2)] that by auto
  ultimately show ?case using y i by (intro exI [of _ y]) (auto simp: array_get_def)
qed simp

lemma load_blocks_spec:
  assumes "\<forall>i \<in> set is. i < length bs"
  shows "\<exists>cs. load_blocks x is bs = Some cs \<and> length cs = length bs \<and> (\<forall>i \<in> set is. cs ! i = get32 (4 + 4 * i) x)
    \<and> (\<forall>i. i \<notin> set is \<longrightarrow> cs ! i = bs ! i)"
  using assms
proof (induction "is" arbitrary: bs)
  case (Cons i "is")
  let ?bs = "bs[i := get32 (4 + 4 * i) x]"
  have i: "i < length bs" and "\<forall>j \<in> set is. j < length ?bs" using Cons.prems by simp_all
  then obtain cs where cs: "load_blocks x is ?bs = Some cs" "length cs = length bs"
    "\<forall>j \<in> set is. cs ! j = get32 (4 + 4 * j) x" "\<forall>j. j \<notin> set is \<longrightarrow> cs ! j = ?bs ! j"
    using Cons.IH [of ?bs] by auto
  then show ?case using i by (intro exI [of _ cs]) (auto simp: array_set_def)
qed simp

section \<open>The loops\<close>

definition log_area :: "u32 \<Rightarrow> int \<Rightarrow> u32 set" where
  "log_area start len = (\<lambda>i. start + of_nat i) ` {..<nat len}"

text \<open>The blocks of a transaction are different and none of them lies in the log.\<close>

definition log_ok :: "u32 \<Rightarrow> log \<Rightarrow> bool" where
  "log_ok dev lg \<longleftrightarrow> l_dev lg = dev \<and> lh_n lg < l_size lg \<and> l_size lg < 2 ^ 31 \<and> length (lh_block lg) = LOGSIZE \<and> 0 \<le> lh_n lg \<and> lh_n lg \<le> int LOGSIZE
     \<and> distinct (take (nat (lh_n lg)) (lh_block lg)) \<and> set (take (nat (lh_n lg)) (lh_block lg)) \<inter> log_area (l_start lg) (l_size lg) = {}"

abbreviation home :: "log \<Rightarrow> nat \<Rightarrow> u32" where
  "home lg t \<equiv> lh_block lg ! t"

lemma area_inj: "i < 2 ^ 31 \<Longrightarrow> j < 2 ^ 31 \<Longrightarrow> (s :: u32) + of_nat i = s + of_nat j \<Longrightarrow> i = j"
proof -
  assume b: "i < 2 ^ 31" "j < 2 ^ 31" and e: "s + of_nat i = s + of_nat j"
  have "unat (of_nat i :: u32) = unat (of_nat j :: u32)" using e by simp
  then show "i = j" using b by (simp add: unat_of_nat)
qed

lemma start_area: "0 < l_size lg \<Longrightarrow> l_start lg \<in> log_area (l_start lg) (l_size lg)"
  unfolding log_area_def by (rule image_eqI [of _ _ 0]) simp_all

text \<open>The positions of a log.\<close>

definition slot :: "log \<Rightarrow> nat \<Rightarrow> bool" where
  "slot lg t \<longleftrightarrow> int t + 1 < l_size lg \<and> l_size lg < 2 ^ 31"

lemma log_block_area:
  assumes "slot lg t"
  shows "log_block lg t \<in> log_area (l_start lg) (l_size lg)" "log_block lg t \<noteq> l_start lg"
proof -
  have e: "log_block lg t = l_start lg + of_nat (Suc t)" by (simp add: log_block_def)
  then show "log_block lg t \<in> log_area (l_start lg) (l_size lg)"
    unfolding log_area_def by (rule image_eqI [of _ _ "Suc t"]) (use assms in \<open>auto simp: slot_def\<close>)
  show "log_block lg t \<noteq> l_start lg"
    using area_inj [of "Suc t" 0 "l_start lg"] assms e by (auto simp: slot_def)
qed

lemma log_block_inj: "slot lg t \<Longrightarrow> slot lg u \<Longrightarrow> log_block lg t = log_block lg u \<Longrightarrow> t = u"
  using area_inj [of "Suc t" "Suc u" "l_start lg"] by (simp add: log_block_def slot_def)

lemma log_okD:
  assumes "log_ok dev lg" "t < nat (lh_n lg)"
  shows "t < length (lh_block lg)" "slot lg t" "home lg t \<notin> log_area (l_start lg) (l_size lg)" "l_dev lg = dev"
    "slot lg u \<Longrightarrow> home lg t \<noteq> log_block lg u" "home lg t \<noteq> l_start lg"
proof -
  show t: "t < length (lh_block lg)" "slot lg t" "l_dev lg = dev" using assms by (auto simp: log_ok_def slot_def)
  have "home lg t \<in> set (take (nat (lh_n lg)) (lh_block lg))"
    using assms(2) t(1) by (metis in_set_conv_nth length_take min_less_iff_conj nth_take)
  then show a: "home lg t \<notin> log_area (l_start lg) (l_size lg)" using assms(1) by (auto simp: log_ok_def)
  show "slot lg u \<Longrightarrow> home lg t \<noteq> log_block lg u" using a log_block_area(1) by metis
  have "l_start lg \<in> log_area (l_start lg) (l_size lg)" using assms by (intro start_area) (auto simp: log_ok_def)
  then show "home lg t \<noteq> l_start lg" using a by metis
qed

lemma home_inj:
  assumes "log_ok dev lg" "t < nat (lh_n lg)" "u < nat (lh_n lg)" "home lg t = home lg u"
  shows "t = u"
proof -
  let ?bs = "take (nat (lh_n lg)) (lh_block lg)"
  have "distinct ?bs" using assms(1) by (simp add: log_ok_def)
  moreover have "t < length ?bs" "u < length ?bs" "?bs ! t = ?bs ! u"
    using assms log_okD(1) [OF assms(1)] by auto
  ultimately show ?thesis by (rule nth_eq_iff_index_eq [THEN iffD1])
qed

lemma write_log_spec:
  assumes "cache_ok dev st" "log_ok dev lg" "set ts \<subseteq> {..<nat (lh_n lg)}" "card (in_use dev st) < NBUF"
    "\<forall>t \<in> set ts. refs dev st (log_block lg t) = 0 \<and> refs dev st (home lg t) > 0 \<and> lock_of dev st (home lg t) = initsleeplock"
  shows "\<exists>st'. write_log me lg ts st = Some st' \<and>
    wrote dev st (map (\<lambda>t. (log_block lg t, view dev st (home lg t))) ts) (refs dev st) st'"
  using assms
proof (induction ts arbitrary: st)
  case Nil
  then show ?case by (simp add: wrote_def)
next
  case (Cons t ts)
  have t: "t < nat (lh_n lg)" using Cons.prems(3) by simp
  note B = log_okD [OF Cons.prems(2) t]
  have l: "lock_of dev st (log_block lg t) = initsleeplock" using unused_lock [OF Cons.prems(1)] Cons.prems(5) by simp
  obtain st1 where s1: "write_log me lg (t # ts) st = write_log me lg ts st1"
    and w1: "wrote dev st [(log_block lg t, view dev st (home lg t))] (refs dev st) st1"
    using write_log_step [OF Cons.prems(1) B(5) [OF B(2), symmetric] l _ Cons.prems(4) _ _ B(4) refl B(1) refl] Cons.prems(5)
    by force
  note W = wroteD [OF w1]
  have same: "view dev st1 (home lg u) = view dev st (home lg u)" if "u \<in> set ts" for u
    using log_okD(5) [OF Cons.prems(2) _ B(2), of u] that Cons.prems(3) by (auto simp: W(2))
  obtain st2 where s2: "write_log me lg ts st1 = Some st2"
    and w2: "wrote dev st1 (map (\<lambda>t. (log_block lg t, view dev st1 (home lg t))) ts) (refs dev st1) st2"
    using Cons.IH [OF W(1) Cons.prems(2)] Cons.prems(3-5) by (auto simp: W(3,4) in_use_def)
  have e: "map (\<lambda>t. (log_block lg t, view dev st1 (home lg t))) ts = map (\<lambda>t. (log_block lg t, view dev st (home lg t))) ts"
    using same by simp
  have "write_log me lg (t # ts) st = Some st2" by (simp only: s1 s2)
  moreover have "wrote dev st (map (\<lambda>t. (log_block lg t, view dev st (home lg t))) (t # ts)) (refs dev st) st2"
    using wrote_trans [OF w1 w2] unfolding e W(3) by simp
  ultimately show ?case by blast
qed

text \<open>The references after the loop of \<open>install_trans\<close>: in \<open>commit\<close> each block loses its pin.\<close>

definition unpinned :: "bool \<Rightarrow> u32 set \<Rightarrow> (u32 \<Rightarrow> nat) \<Rightarrow> u32 \<Rightarrow> nat" where
  "unpinned recovering B r = (if recovering then r else (\<lambda>no. if no \<in> B then r no - 1 else r no))"

lemma in_use_shrinks:
  assumes "cache_ok dev st" "\<And>no. refs dev st' no \<le> refs dev st no"
  shows "card (in_use dev st') \<le> card (in_use dev st)"
proof (rule card_mono [OF in_use_free [OF assms(1)]])
  show "in_use dev st' \<subseteq> in_use dev st" using assms(2) by (auto simp: in_use_def intro: less_le_trans)
qed

lemma install_spec:
  assumes "cache_ok dev st" "log_ok dev lg" "set ts \<subseteq> {..<nat (lh_n lg)}" "distinct ts" "card (in_use dev st) < NBUF"
    "\<forall>t \<in> set ts. refs dev st (log_block lg t) = 0 \<and> lock_of dev st (home lg t) = initsleeplock
      \<and> (refs dev st (home lg t) > 0 \<or> recovering \<and> card (in_use dev st) + 2 \<le> NBUF)"
  shows "\<exists>st'. install_trans me recovering lg ts st = Some st' \<and>
    wrote dev st (map (\<lambda>t. (home lg t, view dev st (log_block lg t))) ts) (unpinned recovering (home lg ` set ts) (refs dev st)) st'"
  using assms
proof (induction ts arbitrary: st)
  case Nil
  then show ?case by (simp add: wrote_def unpinned_def)
next
  case (Cons t ts)
  have t: "t < nat (lh_n lg)" using Cons.prems(3) by simp
  note B = log_okD [OF Cons.prems(2) t]
  have l: "lock_of dev st (log_block lg t) = initsleeplock" using unused_lock [OF Cons.prems(1)] Cons.prems(6) by simp
  obtain st1 where s1: "install_trans me recovering lg (t # ts) st = install_trans me recovering lg ts st1"
    and w1: "wrote dev st [(home lg t, view dev st (log_block lg t))]
      (if recovering then refs dev st else (refs dev st)(home lg t := refs dev st (home lg t) - 1)) st1"
    using install_step [OF Cons.prems(1) B(5) [OF B(2), symmetric] l _ Cons.prems(5) _ _ B(4) refl B(1) refl, of recovering me ts] Cons.prems(6)
    by force
  note W = wroteD [OF w1]
  have ne: "home lg u \<noteq> home lg t" "log_block lg u \<noteq> home lg t" if "u \<in> set ts" for u
  proof -
    have u: "u < nat (lh_n lg)" "u \<noteq> t" using that Cons.prems(3,4) by auto
    then show "home lg u \<noteq> home lg t" using home_inj [OF Cons.prems(2) u(1) t] by blast
    show "log_block lg u \<noteq> home lg t" using B(5) [of u] log_okD(2) [OF Cons.prems(2) u(1)] by metis
  qed
  have "refs dev st1 no \<le> refs dev st no" for no by (simp add: W(3))
  then have le: "card (in_use dev st1) \<le> card (in_use dev st)" by (rule in_use_shrinks [OF Cons.prems(1)])
  then have "card (in_use dev st1) < NBUF" using Cons.prems(5) by linarith
  moreover have "\<forall>u \<in> set ts. refs dev st1 (log_block lg u) = 0 \<and> lock_of dev st1 (home lg u) = initsleeplock
      \<and> (refs dev st1 (home lg u) > 0 \<or> recovering \<and> card (in_use dev st1) + 2 \<le> NBUF)"
    using Cons.prems(6) ne le by (auto simp: W(3,4))
  ultimately obtain st2 where s2: "install_trans me recovering lg ts st1 = Some st2"
    and w2: "wrote dev st1 (map (\<lambda>t. (home lg t, view dev st1 (log_block lg t))) ts)
      (unpinned recovering (home lg ` set ts) (refs dev st1)) st2"
    using Cons.IH [OF W(1) Cons.prems(2)] Cons.prems(3,4) by auto
  have e: "map (\<lambda>t. (home lg t, view dev st1 (log_block lg t))) ts = map (\<lambda>t. (home lg t, view dev st (log_block lg t))) ts"
    using ne(2) by (simp add: W(2))
  have r: "unpinned recovering (home lg ` set ts) (refs dev st1) = unpinned recovering (home lg ` set (t # ts)) (refs dev st)"
  proof -
    have "home lg t \<notin> home lg ` set ts" using ne(1) by fastforce
    then show ?thesis by (auto simp: unpinned_def W(3) fun_eq_iff)
  qed
  have "install_trans me recovering lg (t # ts) st = Some st2" by (simp only: s1 s2)
  moreover have "wrote dev st (map (\<lambda>t. (home lg t, view dev st (log_block lg t))) (t # ts))
      (unpinned recovering (home lg ` set (t # ts)) (refs dev st)) st2"
    using wrote_trans [OF w1 w2] unfolding e r by simp
  ultimately show ?case by blast
qed

text \<open>The header block that \<open>write_head\<close> makes of an old one.\<close>

definition header :: "log \<Rightarrow> block \<Rightarrow> block" where
  "header lg x = (case store_blocks (lh_block lg) (tails lg) (set32 0 (word_of_int (lh_n lg)) x) of Some y \<Rightarrow> y | None \<Rightarrow> x)"

lemma header_spec:
  assumes "log_ok dev lg" "length x = BSIZE"
  shows "store_blocks (lh_block lg) (tails lg) (set32 0 (word_of_int (lh_n lg)) x) = Some (header lg x)"
    "length (header lg x) = BSIZE" "get32 0 (header lg x) = word_of_int (lh_n lg)"
    "i < nat (lh_n lg) \<Longrightarrow> get32 (4 + 4 * i) (header lg x) = home lg i"
proof -
  let ?x = "set32 0 (word_of_int (lh_n lg)) x"
  have x: "length ?x = BSIZE" "get32 0 ?x = word_of_int (lh_n lg)" using assms(2) get32_set32 [of 0 x] by (simp_all add: BSIZE_def)
  have "\<forall>i \<in> set (tails lg). i < length (lh_block lg) \<and> 8 + 4 * i \<le> length ?x"
    using assms(1) x(1) by (auto simp: tails_def log_ok_def BSIZE_def LOGSIZE_def)
  from store_blocks_spec [OF this] obtain y where y: "store_blocks (lh_block lg) (tails lg) ?x = Some y" "length y = BSIZE"
    "\<forall>i \<in> set (tails lg). get32 (4 + 4 * i) y = home lg i" "get32 0 y = get32 0 ?x"
    using x(1) by auto
  then have h: "header lg x = y" by (simp add: header_def)
  show "store_blocks (lh_block lg) (tails lg) ?x = Some (header lg x)" "length (header lg x) = BSIZE"
    "get32 0 (header lg x) = word_of_int (lh_n lg)" using y x(2) h by simp_all
  show "i < nat (lh_n lg) \<Longrightarrow> get32 (4 + 4 * i) (header lg x) = home lg i" using y(3) h by (simp add: tails_def)
qed

lemma write_head_spec:
  assumes "cache_ok dev st" "log_ok dev lg" "refs dev st (l_start lg) = 0" "card (in_use dev st) < NBUF"
    "length (view dev st (l_start lg)) = BSIZE"
  shows "\<exists>st'. write_head me lg st = Some st' \<and>
    wrote dev st [(l_start lg, header lg (view dev st (l_start lg)))] (refs dev st) st'"
proof -
  let ?a = "l_start lg" and ?x = "header lg (view dev st (l_start lg))"
  have l: "lock_of dev st ?a = initsleeplock" by (rule unused_lock [OF assms(1,3)])
  obtain b st1 where r1: "bread me dev ?a st = Some (b, st1)" and h1: "has_buf dev st1 ?a b"
    and m1: "moved dev st (view dev st) ((refs dev st)(?a := refs dev st ?a + 1))
       ((lock_of dev st)(?a := \<lparr>sl_locked = 1, sl_pid = me\<rparr>)) (disk st) (writes st) st1"
    using bread_moved [OF assms(1) l] assms(4) by metis
  note D1 = movedD [OF m1]
  have data: "b_data (bufs st1 b) = view dev st ?a" using has_buf_views(1) [OF h1] by (simp add: D1(2))
  note D2 = movedD [OF set_data_ok [OF D1(1) h1, of ?x]]
  have h2: "has_buf dev (set_data b ?x st1) ?a b" using D2(7) h1 by (simp add: D1(3))
  obtain st3 where r3: "bwrite me b (set_data b ?x st1) = Some st3" and m3: "moved dev (set_data b ?x st1) (view dev (set_data b ?x st1))
      (refs dev (set_data b ?x st1)) (lock_of dev (set_data b ?x st1)) ((disk (set_data b ?x st1))(?a := view dev (set_data b ?x st1) ?a))
      (writes (set_data b ?x st1) @ [(?a, view dev (set_data b ?x st1) ?a)]) st3"
    using bwrite_ex [OF D2(1) h2, of me] by (auto simp: D2(4) D1(4))
  note D3 = movedD [OF m3]
  have h3: "has_buf dev st3 ?a b" using D3(7) h2 by (simp add: D2(3) D1(3))
  have "holdingsleep me (lock_of dev st3 ?a)" "view dev st3 ?a = disk st3 ?a"
    by (simp_all add: D3(2,4,5) D2(2,4) D1(4))
  then obtain st4 where r4: "brelse me b st3 = Some st4" and m4: "moved dev st3 (view dev st3) ((refs dev st3)(?a := refs dev st3 ?a - 1))
      ((lock_of dev st3)(?a := initsleeplock)) (disk st3) (writes st3) st4"
    using brelse_ex [OF D3(1) h3] by blast
  note D4 = movedD [OF m4]
  have "write_head me lg st = Some st4"
    using r1 r3 r4 header_spec(1) [OF assms(2,5)] assms(2) by (simp add: write_head_def data log_ok_def)
  moreover have "wrote dev st [(?a, ?x)] (refs dev st) st4"
    unfolding wrote_def using D4(1) l assms(3) by (auto simp: D4(2-6) D3(2-6) D2(2-6) D1(2-6) fun_eq_iff)
  ultimately show ?thesis by blast
qed

section \<open>Commit\<close>

text \<open>
  A transaction ready to be committed: the blocks of the log are not in use, its own blocks are
  pinned and unlocked, and a buffer is left.
\<close>

definition ready :: "u32 \<Rightarrow> log \<Rightarrow> bcache \<Rightarrow> bool" where
  "ready dev lg st \<longleftrightarrow> cache_ok dev st \<and> log_ok dev lg \<and> 0 < lh_n lg \<and> card (in_use dev st) < NBUF
     \<and> (\<forall>no \<in> log_area (l_start lg) (l_size lg). refs dev st no = 0)
     \<and> (\<forall>t < nat (lh_n lg). refs dev st (home lg t) > 0 \<and> lock_of dev st (home lg t) = initsleeplock)
     \<and> length (disk st (l_start lg)) = BSIZE"

definition log_writes :: "log \<Rightarrow> (u32 \<Rightarrow> block) \<Rightarrow> (u32 \<times> block) list" where
  "log_writes lg V = map (\<lambda>t. (log_block lg t, V (home lg t))) (tails lg)"

definition home_writes :: "log \<Rightarrow> (nat \<Rightarrow> block) \<Rightarrow> (u32 \<times> block) list" where
  "home_writes lg f = map (\<lambda>t. (home lg t, f t)) (tails lg)"

definition commit_writes :: "log \<Rightarrow> (u32 \<Rightarrow> block) \<Rightarrow> (u32 \<times> block) list" where
  "commit_writes lg V = log_writes lg V @ [(l_start lg, header lg (V (l_start lg)))] @ home_writes lg (\<lambda>t. V (home lg t))
     @ [(l_start lg, header (lg\<lparr>lh_n := 0\<rparr>) (header lg (V (l_start lg))))]"

lemma tails_set [simp]: "set (tails lg) = {..<nat (lh_n lg)}" "distinct (tails lg)"
  by (auto simp: tails_def)

lemma home_fresh:
  assumes "log_ok dev lg" "no \<in> log_area (l_start lg) (l_size lg)"
  shows "no \<notin> fst ` set (home_writes lg f)"
  using log_okD(3) [OF assms(1)] assms(2) by (auto simp: home_writes_def)

lemma log_writes_area:
  assumes "log_ok dev lg"
  shows "fst ` set (log_writes lg V) \<subseteq> log_area (l_start lg) (l_size lg)" "l_start lg \<notin> fst ` set (log_writes lg V)"
    "distinct (map fst (log_writes lg V))"
proof -
  have t: "slot lg t" if "t < nat (lh_n lg)" for t using log_okD(2) [OF assms that] .
  show "fst ` set (log_writes lg V) \<subseteq> log_area (l_start lg) (l_size lg)" "l_start lg \<notin> fst ` set (log_writes lg V)"
    using log_block_area t by (auto simp: log_writes_def) metis
  have "inj_on (log_block lg) {..<nat (lh_n lg)}" using log_block_inj t by (auto simp: inj_on_def)
  then show "distinct (map fst (log_writes lg V))" by (simp add: log_writes_def comp_def distinct_map)
qed

lemma logged:
  assumes "log_ok dev lg" "t < nat (lh_n lg)"
  shows "apply_writes (log_writes lg V) d (log_block lg t) = V (home lg t)"
  by (rule apply_writes_in [OF log_writes_area(3) [OF assms(1)]]) (use assms(2) in \<open>auto simp: log_writes_def\<close>)

lemma log_ok_zero: "log_ok dev lg \<Longrightarrow> log_ok dev (lg\<lparr>lh_n := 0\<rparr>)"
  by (simp add: log_ok_def)

lemma commit_spec:
  assumes "ready dev lg st"
  shows "\<exists>st'. commit me lg st = Some (lg\<lparr>lh_n := 0\<rparr>, st') \<and>
    wrote dev st (commit_writes lg (view dev st)) (unpinned False (home lg ` {..<nat (lh_n lg)}) (refs dev st)) st'"
proof -
  let ?V = "view dev st" and ?a = "l_start lg" and ?lg0 = "lg\<lparr>lh_n := 0\<rparr>"
  have A: "cache_ok dev st" "log_ok dev lg" "0 < lh_n lg" "card (in_use dev st) < NBUF"
    using assms by (auto simp: ready_def)
  have free: "refs dev st no = 0" if "no \<in> log_area ?a (l_size lg)" for no
    using assms that by (auto simp: ready_def)
  have start: "?a \<in> log_area ?a (l_size lg)" by (rule start_area) (use A(2,3) in \<open>simp add: log_ok_def\<close>)
  have pinned: "refs dev st (home lg t) > 0" "lock_of dev st (home lg t) = initsleeplock" if "t < nat (lh_n lg)" for t
    using assms that by (auto simp: ready_def)
  obtain s1 where r1: "write_log me lg (tails lg) st = Some s1" and w1: "wrote dev st (log_writes lg ?V) (refs dev st) s1"
    using write_log_spec [OF A(1,2) _ A(4), where ts = "tails lg" and me = me] free log_block_area(1) log_okD(2) [OF A(2)] pinned
    by (auto simp: log_writes_def)
  note W1 = wroteD [OF w1]
  have use1: "in_use dev s1 = in_use dev st" by (simp add: in_use_def W1(3))
  have V1: "view dev s1 ?a = ?V ?a" "t < nat (lh_n lg) \<Longrightarrow> view dev s1 (log_block lg t) = ?V (home lg t)" for t
    using log_writes_area(2) [OF A(2)] logged [OF A(2)] by (simp_all add: W1(2) apply_writes_other)
  have len: "length (?V ?a) = BSIZE"
    using assms free [OF start] A(1) by (simp add: ready_def cache_ok_def)
  obtain s2 where r2: "write_head me lg s1 = Some s2" and w2: "wrote dev s1 [(?a, header lg (?V ?a))] (refs dev s1) s2"
    using write_head_spec [OF W1(1) A(2), of me] free [OF start] A(4) len by (auto simp: W1(3) use1 V1)
  note W2 = wroteD [OF w2]
  have use2: "in_use dev s2 = in_use dev st" by (simp add: in_use_def W1(3) W2(3))
  have V2: "view dev s2 (log_block lg t) = ?V (home lg t)" if "t < nat (lh_n lg)" for t
    using V1(2) [OF that] log_block_area(2) [OF log_okD(2) [OF A(2) that]] by (simp add: W2(2))
  have e: "map (\<lambda>t. (home lg t, view dev s2 (log_block lg t))) (tails lg) = home_writes lg (\<lambda>t. ?V (home lg t))"
    using V2 by (simp add: home_writes_def)
  obtain s3 where r3: "install_trans me False lg (tails lg) s2 = Some s3"
    and w3: "wrote dev s2 (home_writes lg (\<lambda>t. ?V (home lg t))) (unpinned False (home lg ` {..<nat (lh_n lg)}) (refs dev s2)) s3"
    using install_spec [OF W2(1) A(2), where ts = "tails lg" and recovering = False and me = me] A(4) free log_block_area(1) log_okD(2) [OF A(2)] pinned
    by (auto simp: use2 e W2(3,4) W1(3,4))
  note W3 = wroteD [OF w3]
  have "refs dev s3 no \<le> refs dev st no" for no by (simp add: W3(3) W2(3) W1(3) unpinned_def)
  then have use3: "card (in_use dev s3) < NBUF" using in_use_shrinks [OF A(1), of s3] A(4) by fastforce
  have V3: "view dev s3 ?a = header lg (?V ?a)"
    using home_fresh [OF A(2) start] by (simp add: W3(2) W2(2) apply_writes_other)
  have r0: "refs dev s3 ?a = 0" using free [OF start] by (simp add: W3(3) W2(3) W1(3) unpinned_def)
  obtain s4 where r4: "write_head me ?lg0 s3 = Some s4" and w4: "wrote dev s3 [(?a, header ?lg0 (header lg (?V ?a)))] (refs dev s3) s4"
    using write_head_spec [OF W3(1) log_ok_zero [OF A(2)], of me] use3 r0 header_spec(2) [OF A(2) len] by (auto simp: V3)
  have "commit me lg st = Some (?lg0, s4)" using A(3) r1 r2 r3 r4 by (simp add: commit_def)
  moreover have "wrote dev st (commit_writes lg ?V) (unpinned False (home lg ` {..<nat (lh_n lg)}) (refs dev st)) s4"
    using wrote_trans [OF w1 wrote_trans [OF w2 wrote_trans [OF w3 w4]]]
    by (simp add: commit_writes_def W3(3) W2(3) W1(3))
  ultimately show ?thesis by blast
qed

section \<open>Adding a block\<close>

text \<open>What \<open>log_write\<close> does to the log: nothing for a block it has, else the block becomes the last one.\<close>

definition add_block :: "u32 \<Rightarrow> log \<Rightarrow> log" where
  "add_block no lg = (if no \<in> home lg ` {..<nat (lh_n lg)} then lg
     else lg\<lparr>lh_block := (lh_block lg)[nat (lh_n lg) := no], lh_n := lh_n lg + 1\<rparr>)"

lemma add_block_keeps [simp]: "l_start (add_block no lg) = l_start lg" "l_dev (add_block no lg) = l_dev lg" "l_size (add_block no lg) = l_size lg"
  "l_outstanding (add_block no lg) = l_outstanding lg"
  by (simp_all add: add_block_def)

lemma add_block_ok:
  assumes "log_ok dev lg" "lh_n lg < int LOGSIZE" "lh_n lg < l_size lg - 1" "no \<notin> log_area (l_start lg) (l_size lg)"
  shows "log_ok dev (add_block no lg)" "home (add_block no lg) ` {..<nat (lh_n (add_block no lg))} = insert no (home lg ` {..<nat (lh_n lg)})"
proof -
  let ?n = "nat (lh_n lg)"
  have n: "0 \<le> lh_n lg" "?n < length (lh_block lg)" using assms by (auto simp: log_ok_def)
  have tk: "take (Suc ?n) ((lh_block lg)[?n := no]) = take ?n (lh_block lg) @ [no]"
    using n(2) by (simp add: take_Suc_conv_app_nth)
  have hs: "set (take ?n (lh_block lg)) = home lg ` {..<?n}"
    using n(2) by (simp add: nth_image [symmetric] lessThan_atLeast0)
  have s: "nat (lh_n lg + 1) = Suc ?n" using n(1) by simp
  show "log_ok dev (add_block no lg)"
    using assms n tk hs by (auto simp: add_block_def log_ok_def s simp del: take_Suc)
  have "home (lg\<lparr>lh_block := (lh_block lg)[?n := no], lh_n := lh_n lg + 1\<rparr>) ` {..<Suc ?n} = insert no (home lg ` {..<?n})"
    using n(2) by (auto simp: lessThan_Suc nth_list_update image_iff)
  then show "home (add_block no lg) ` {..<nat (lh_n (add_block no lg))} = insert no (home lg ` {..<nat (lh_n lg)})"
    by (auto simp: add_block_def s)
qed

lemma log_add_eq:
  assumes "log_ok dev lg" "lh_n lg < int LOGSIZE" "lh_n lg < l_size lg - 1" "1 \<le> l_outstanding lg"
  shows "log_add no lg = Some (no \<notin> home lg ` {..<nat (lh_n lg)}, add_block no lg)"
proof -
  let ?n = "nat (lh_n lg)"
  have n: "0 \<le> lh_n lg" "?n < length (lh_block lg)" using assms by (auto simp: log_ok_def)
  show ?thesis
  proof (cases "find (\<lambda>i. home lg i = no) [0..<?n]")
    case None
    then have "no \<notin> home lg ` {..<?n}" by (auto simp: find_upt_None)
    then show ?thesis using assms n None by (simp add: log_add_def tails_def array_set_def add_block_def Let_def)
  next
    case (Some i)
    note i = find_upt_Some [OF Some]
    then have "no \<in> home lg ` {..<?n}" by auto
    moreover have "(lh_block lg)[i := no] = lh_block lg" using i by (metis list_update_id)
    moreover have "i < length (lh_block lg)" "int i \<noteq> lh_n lg" using i n by auto
    ultimately show ?thesis using assms n Some by (simp add: log_add_def tails_def array_set_def add_block_def Let_def)
  qed
qed

lemma log_write_eq:
  assumes "log_ok dev lg" "lh_n lg < int LOGSIZE" "lh_n lg < l_size lg - 1" "1 \<le> l_outstanding lg" "b_blockno (bufs st b) = no"
  shows "log_write b lg st = Some (add_block no lg, if no \<in> home lg ` {..<nat (lh_n lg)} then st else bpin b st)"
  using log_add_eq [OF assms(1-4), of no] assms(5) by (simp add: log_write_def)

text \<open>The blocks of the transaction.\<close>

definition homes :: "log \<Rightarrow> u32 set" where
  "homes lg = home lg ` {..<nat (lh_n lg)}"

lemma finite_homes [simp]: "finite (homes lg)"
  by (simp add: homes_def)

lemma card_homes: "log_ok dev lg \<Longrightarrow> int (card (homes lg)) = lh_n lg"
proof -
  assume ok: "log_ok dev lg"
  have "inj_on (home lg) {..<nat (lh_n lg)}" using home_inj [OF ok] by (auto simp: inj_on_def)
  then show ?thesis using ok by (simp add: homes_def card_image log_ok_def)
qed

end
