(* ===== verification/Xv6_Crash.thy ===== *)
theory Xv6_Crash
  imports Xv6_Log
begin

text \<open>
  Crashes of the file system of xv6: recovery from the log on disk (\<open>recover_from_log\<close>), power
  failures between any two writes of a commit or of a recovery, and what is found afterwards.
\<close>

section \<open>Recovery\<close>

text \<open>The log that \<open>read_head\<close> finds in a block.\<close>

definition head_of :: "log \<Rightarrow> block \<Rightarrow> log" where
  "head_of lg x =
     (let lg = lg\<lparr>lh_n := sint (get32 0 x)\<rparr> in
      case load_blocks x (tails lg) (lh_block lg) of Some bs \<Rightarrow> lg\<lparr>lh_block := bs\<rparr> | None \<Rightarrow> lg)"

definition head_ok :: "u32 \<Rightarrow> log \<Rightarrow> (u32 \<Rightarrow> block) \<Rightarrow> bool" where
  "head_ok dev lg d \<longleftrightarrow> length (d (l_start lg)) = BSIZE \<and> log_ok dev (head_of lg (d (l_start lg)))"

lemma head_of_simps [simp]: "l_start (head_of lg x) = l_start lg" "l_dev (head_of lg x) = l_dev lg" "l_size (head_of lg x) = l_size lg" "lh_n (head_of lg x) = sint (get32 0 x)"
  "log_block (head_of lg x) t = log_block lg t"
  by (simp_all add: head_of_def Let_def log_block_def split: option.splits)

lemma head_of_shape: "head_of lg x = lg\<lparr>lh_n := sint (get32 0 x), lh_block := lh_block (head_of lg x)\<rparr>"
  by (cases lg) (simp add: head_of_def Let_def split: option.split)

lemma head_of_spec:
  assumes "length (lh_block lg) = LOGSIZE" "sint (get32 0 x) \<le> int LOGSIZE"
  shows "load_blocks x (tails (lg\<lparr>lh_n := sint (get32 0 x)\<rparr>)) (lh_block lg) = Some (lh_block (head_of lg x))"
    "length (lh_block (head_of lg x)) = LOGSIZE"
    "i < nat (sint (get32 0 x)) \<Longrightarrow> home (head_of lg x) i = get32 (4 + 4 * i) x"
proof -
  let ?lg = "lg\<lparr>lh_n := sint (get32 0 x)\<rparr>"
  have "\<forall>i \<in> set (tails ?lg). i < length (lh_block lg)" using assms by auto
  from load_blocks_spec [OF this, of x] obtain cs where cs: "load_blocks x (tails ?lg) (lh_block lg) = Some cs"
    "length cs = length (lh_block lg)" "\<forall>i \<in> set (tails ?lg). cs ! i = get32 (4 + 4 * i) x" by blast
  then have h: "lh_block (head_of lg x) = cs" by (simp add: head_of_def)
  show "load_blocks x (tails ?lg) (lh_block lg) = Some (lh_block (head_of lg x))" "length (lh_block (head_of lg x)) = LOGSIZE"
    "i < nat (sint (get32 0 x)) \<Longrightarrow> home (head_of lg x) i = get32 (4 + 4 * i) x"
    using cs assms(1) h by simp_all
qed

definition recover_writes :: "log \<Rightarrow> (u32 \<Rightarrow> block) \<Rightarrow> (u32 \<times> block) list" where
  "recover_writes lg D = home_writes lg (\<lambda>t. D (log_block lg t)) @ [(l_start lg, header (lg\<lparr>lh_n := 0\<rparr>) (D (l_start lg)))]"

lemma read_head_spec:
  assumes "cache_ok dev st" "in_use dev st = {}" "l_dev lg = dev" "length (lh_block lg) = LOGSIZE" "head_ok dev lg (disk st)"
  shows "\<exists>st'. read_head me lg st = Some (head_of lg (disk st (l_start lg)), st') \<and> wrote dev st [] (refs dev st) st'"
proof -
  let ?a = "l_start lg" and ?x = "disk st (l_start lg)"
  have r0: "refs dev st no = 0" for no using assms(2) by (auto simp: in_use_def)
  then have l: "lock_of dev st ?a = initsleeplock" and v: "view dev st ?a = ?x"
    using unused_lock [OF assms(1)] assms(1) by (simp_all add: cache_ok_def)
  have "card (in_use dev st) < NBUF" by (simp add: assms(2) NBUF_def)
  then obtain b st1 where r1: "bread me dev ?a st = Some (b, st1)" and h1: "has_buf dev st1 ?a b"
    and m1: "moved dev st (view dev st) ((refs dev st)(?a := refs dev st ?a + 1))
       ((lock_of dev st)(?a := \<lparr>sl_locked = 1, sl_pid = me\<rparr>)) (disk st) (writes st) st1"
    using bread_moved [OF assms(1) l] by metis
  note D1 = movedD [OF m1]
  have data: "b_data (bufs st1 b) = ?x" using has_buf_views(1) [OF h1] by (simp add: D1(2) v)
  have "view dev st1 ?a = disk st1 ?a" by (simp add: D1(2,5) v)
  then obtain st2 where r2: "brelse me b st1 = Some st2" and m2: "moved dev st1 (view dev st1) ((refs dev st1)(?a := refs dev st1 ?a - 1))
      ((lock_of dev st1)(?a := initsleeplock)) (disk st1) (writes st1) st2"
    using brelse_ex [OF D1(1) h1, of me] by (auto simp: D1(4))
  note D2 = movedD [OF m2]
  have n: "sint (get32 0 ?x) \<le> int LOGSIZE" using assms(5) by (simp add: head_ok_def log_ok_def)
  have "read_head me lg st = Some ((lg\<lparr>lh_n := sint (get32 0 ?x)\<rparr>)\<lparr>lh_block := lh_block (head_of lg ?x)\<rparr>, st2)"
    using r1 r2 head_of_spec(1) [OF assms(4) n] assms(3) by (simp add: read_head_def data)
  moreover have "(lg\<lparr>lh_n := sint (get32 0 ?x)\<rparr>)\<lparr>lh_block := lh_block (head_of lg ?x)\<rparr> = head_of lg ?x"
    by (rule head_of_shape [symmetric])
  moreover have "wrote dev st [] (refs dev st) st2"
    unfolding wrote_def using D2(1) l by (auto simp: D2(2-6) D1(2-6) fun_eq_iff)
  ultimately show ?thesis by simp
qed

lemma recover_spec:
  assumes "cache_ok dev st" "in_use dev st = {}" "l_dev lg = dev" "length (lh_block lg) = LOGSIZE" "head_ok dev lg (disk st)"
  defines "lg1 \<equiv> head_of lg (disk st (l_start lg))"
  shows "\<exists>st'. recover_from_log me lg st = Some (lg1\<lparr>lh_n := 0\<rparr>, st') \<and> wrote dev st (recover_writes lg1 (disk st)) (refs dev st) st'"
proof -
  let ?a = "l_start lg"
  have r0: "refs dev st no = 0" for no using assms(2) by (auto simp: in_use_def)
  have v: "view dev st = disk st" using assms(1) r0 by (auto simp: cache_ok_def)
  have ok: "log_ok dev lg1" and len: "length (disk st ?a) = BSIZE" using assms(5) by (simp_all add: head_ok_def lg1_def)
  have a: "l_start lg1 = ?a" by (simp add: lg1_def)
  obtain s1 where r1: "read_head me lg st = Some (lg1, s1)" and w1: "wrote dev st [] (refs dev st) s1"
    using read_head_spec [OF assms(1-5)] unfolding lg1_def by blast
  note W1 = wroteD [OF w1]
  have use1: "in_use dev s1 = {}" by (simp add: in_use_def W1(3) r0)
  have locks: "lock_of dev s1 no = initsleeplock" for no using unused_lock [OF W1(1)] by (simp add: W1(3) r0)
  obtain s2 where r2: "install_trans me True lg1 (tails lg1) s1 = Some s2"
    and w2: "wrote dev s1 (home_writes lg1 (\<lambda>t. disk st (log_block lg1 t))) (refs dev s1) s2"
    using install_spec [OF W1(1) ok, where ts = "tails lg1" and recovering = True and me = me] locks
    by (auto simp: use1 NBUF_def W1(2,3) r0 v home_writes_def unpinned_def)
  note W2 = wroteD [OF w2]
  have use2: "in_use dev s2 = {}" by (simp add: in_use_def W2(3) W1(3) r0)
  have "?a \<notin> fst ` set (home_writes lg1 f)" for f using home_fresh [OF ok start_area] ok by (simp add: a log_ok_def)
  then have V2: "view dev s2 ?a = disk st ?a" by (simp add: W2(2) W1(2) v apply_writes_other)
  obtain s3 where r3: "write_head me (lg1\<lparr>lh_n := 0\<rparr>) s2 = Some s3"
    and w3: "wrote dev s2 [(?a, header (lg1\<lparr>lh_n := 0\<rparr>) (disk st ?a))] (refs dev s2) s3"
    using write_head_spec [OF W2(1) log_ok_zero [OF ok], of me] len by (auto simp: a V2 use2 NBUF_def W2(3) W1(3) r0)
  have "recover_from_log me lg st = Some (lg1\<lparr>lh_n := 0\<rparr>, s3)" using r1 r2 r3 by (simp add: recover_from_log_def)
  moreover have "wrote dev st (recover_writes lg1 (disk st)) (refs dev st) s3"
    using wrote_trans [OF w1 wrote_trans [OF w2 w3]] by (simp add: recover_writes_def a W2(3) W1(3))
  ultimately show ?thesis by blast
qed

section \<open>Disks after a part of the writes\<close>

lemma apply_writes_agree: "no \<in> fst ` set ws \<Longrightarrow> apply_writes ws d no = apply_writes ws e no"
proof (induction ws arbitrary: d e)
  case (Cons w ws)
  obtain m x where w: "w = (m, x)" by force
  show ?case
  proof (cases "no \<in> fst ` set ws")
    case False
    then show ?thesis using Cons.prems by (simp add: w apply_writes_other)
  qed (use Cons.IH in \<open>simp add: w\<close>)
qed simp

lemma apply_writes_cong: "d no = e no \<Longrightarrow> apply_writes ws d no = apply_writes ws e no"
  by (cases "no \<in> fst ` set ws") (simp_all add: apply_writes_agree apply_writes_other)

text \<open>Writes done before are overwritten by a list that writes the same blocks.\<close>

lemma apply_writes_absorb:
  assumes "fst ` set vs \<subseteq> fst ` set ws"
  shows "apply_writes ws (apply_writes vs d) no = apply_writes ws d no"
proof (cases "no \<in> fst ` set ws")
  case False
  then have "no \<notin> fst ` set vs" using assms by blast
  with False show ?thesis by (simp add: apply_writes_other)
qed (rule apply_writes_agree)

definition recovered :: "log \<Rightarrow> (u32 \<Rightarrow> block) \<Rightarrow> u32 \<Rightarrow> block" where
  "recovered lg d = apply_writes (recover_writes (head_of lg (d (l_start lg))) d) d"

lemma length_writes [simp]: "length (log_writes lg V) = nat (lh_n lg)" "length (home_writes lg f) = nat (lh_n lg)"
  by (simp_all add: log_writes_def home_writes_def tails_def)

text \<open>A disk whose header says that the log is empty.\<close>

lemma empty_log:
  assumes "l_dev lg = dev" "length (lh_block lg) = LOGSIZE" "0 < l_size lg" "l_size lg < 2 ^ 31" "length (d (l_start lg)) = BSIZE" "get32 0 (d (l_start lg)) = 0"
  shows "head_ok dev lg d" "no \<notin> log_area (l_start lg) (l_size lg) \<Longrightarrow> recovered lg d no = d no"
proof -
  let ?lg = "head_of lg (d (l_start lg))"
  have n: "lh_n ?lg = 0" using assms(6) by simp
  have "length (lh_block ?lg) = LOGSIZE" using head_of_spec(2) [OF assms(2)] assms(6) by simp
  then show "head_ok dev lg d" using n assms(1,3,4,5) by (simp add: head_ok_def log_ok_def)
  show "recovered lg d no = d no" if "no \<notin> log_area (l_start lg) (l_size lg)"
  proof -
    have "no \<noteq> l_start lg" using that start_area assms(3) by metis
    then show ?thesis using n by (simp add: recovered_def recover_writes_def home_writes_def tails_def)
  qed
qed

lemma recovery_prefix:
  assumes "l_dev lg = dev" "length (lh_block lg) = LOGSIZE" "head_ok dev lg d"
    "dk = apply_writes (take k (recover_writes (head_of lg (d (l_start lg))) d)) d"
  shows "head_ok dev lg dk \<and> (\<forall>no. no \<notin> log_area (l_start lg) (l_size lg) \<longrightarrow> recovered lg dk no = recovered lg d no)"
proof -
  let ?a = "l_start lg"
  define lg1 where "lg1 = head_of lg (d ?a)"
  define hw where "hw = home_writes lg1 (\<lambda>t. d (log_block lg1 t))"
  have ok: "log_ok dev lg1" and len: "length (d ?a) = BSIZE" using assms(3) by (simp_all add: head_ok_def lg1_def)
  have a: "l_start lg1 = ?a" "l_size lg1 = l_size lg" by (simp_all add: lg1_def)
  have size: "0 < l_size lg" "l_size lg < 2 ^ 31" using ok by (simp_all add: log_ok_def a)
  have start: "?a \<in> log_area ?a (l_size lg)" by (rule start_area [OF size(1)])
  have fresh: "no \<notin> fst ` set (take k hw)" "no \<notin> fst ` set hw" if "no \<in> log_area ?a (l_size lg)" for no
    using home_fresh [OF ok] that set_take_subset [of k hw] by (auto simp: a hw_def)
  have rw: "recover_writes lg1 d = hw @ [(?a, header (lg1\<lparr>lh_n := 0\<rparr>) (d ?a))]" by (simp add: recover_writes_def hw_def a)
  show ?thesis
  proof (cases "k \<le> nat (lh_n lg1)")
    case True
    then have dk: "dk = apply_writes (take k hw) d" by (simp add: assms(4) lg1_def [symmetric] rw) (simp add: hw_def)
    have same: "dk no = d no" if "no \<in> log_area ?a (l_size lg)" for no using fresh(1) [OF that] by (simp add: dk apply_writes_other)
    have "home_writes lg1 (\<lambda>t. dk (log_block lg1 t)) = hw"
      using same log_block_area(1) [of lg1] log_okD(2) [OF ok] by (simp add: hw_def home_writes_def a)
    moreover have start: "dk ?a = d ?a" using same start by metis
    ultimately have "recovered lg dk = apply_writes (recover_writes lg1 d) dk"
      by (simp add: recovered_def lg1_def [symmetric] recover_writes_def hw_def a)
    moreover have "fst ` set (take k hw) \<subseteq> fst ` set (recover_writes lg1 d)" using set_take_subset [of k hw] by (auto simp: rw)
    ultimately have "recovered lg dk = recovered lg d"
      by (simp add: fun_eq_iff dk apply_writes_absorb recovered_def lg1_def [symmetric])
    then show ?thesis using assms(3) start by (simp add: head_ok_def)
  next
    case False
    then have all: "dk = recovered lg d" by (simp add: assms(4) recovered_def lg1_def [symmetric] rw hw_def)
    then have "dk ?a = header (lg1\<lparr>lh_n := 0\<rparr>) (d ?a)"
      using fresh(2) [OF start] by (simp add: recovered_def lg1_def [symmetric] rw)
    then have "length (dk ?a) = BSIZE" "get32 0 (dk ?a) = 0" using header_spec(2,3) [OF log_ok_zero [OF ok] len] by simp_all
    then show ?thesis using empty_log [OF assms(1,2) size] all by blast
  qed
qed

text \<open>A disk on which the transaction \<open>lc\<close> is in the log with its header.\<close>

lemma committed_log:
  assumes "l_dev lg = dev" "length (lh_block lg) = LOGSIZE" "log_ok dev lc" "l_start lc = l_start lg \<and> l_size lc = l_size lg" "length x = BSIZE"
    "d (l_start lg) = header lc x" "\<And>t. t < nat (lh_n lc) \<Longrightarrow> d (log_block lc t) = f t"
  shows "head_ok dev lg d" "no \<notin> log_area (l_start lg) (l_size lg) \<Longrightarrow> recovered lg d no = apply_writes (home_writes lc f) d no"
proof -
  let ?a = "l_start lg"
  define l1 where "l1 = head_of lg (d ?a)"
  note H = header_spec [OF assms(3,5)]
  have small: "0 \<le> lh_n lc" "lh_n lc \<le> 30" using assms(3) by (simp_all add: log_ok_def LOGSIZE_def)
  then have "signed_take_bit 31 (lh_n lc) = lh_n lc"
    by (intro signed_take_bit_int_eq_self order_trans [of "- (2 ^ 31)" 0 "lh_n lc"]) simp_all
  then have s: "sint (get32 0 (d ?a)) = lh_n lc" by (simp add: assms(6) H(3) sint_sbintrunc')
  then have n: "lh_n l1 = lh_n lc" "tails l1 = tails lc" by (simp_all add: l1_def tails_def)
  have le: "sint (get32 0 (d ?a)) \<le> int LOGSIZE" using small s by (simp add: LOGSIZE_def)
  have hm: "home l1 t = home lc t" if "t < nat (lh_n lc)" for t
    using that head_of_spec(3) [OF assms(2) le, of t] H(4) [OF that] s assms(6) by (simp add: l1_def)
  have l: "length (lh_block l1) = LOGSIZE" using head_of_spec(2) [OF assms(2) le] by (simp add: l1_def)
  have "length (lh_block lc) = LOGSIZE" using assms(3) by (simp add: log_ok_def)
  then have tk: "take (nat (lh_n lc)) (lh_block l1) = take (nat (lh_n lc)) (lh_block lc)"
    using hm l by (intro nth_equalityI) simp_all
  have "log_ok dev l1" using assms(1,3,4) l tk by (simp add: log_ok_def n) (simp add: l1_def)
  then show "head_ok dev lg d" using H(2) assms(6) by (simp add: head_ok_def l1_def)
  show "recovered lg d no = apply_writes (home_writes lc f) d no" if "no \<notin> log_area ?a (l_size lg)"
  proof -
    have b: "log_block l1 t = log_block lc t" for t using assms(4) by (simp add: l1_def log_block_def)
    have "home_writes l1 (\<lambda>t. d (log_block l1 t)) = home_writes lc f"
      using hm assms(7) by (simp add: home_writes_def n b)
    moreover have "no \<noteq> ?a" using that start_area [of lg] assms(3,4) by (auto simp: log_ok_def)
    ultimately show ?thesis by (simp add: recovered_def l1_def [symmetric] recover_writes_def) (simp add: l1_def)
  qed
qed

lemma commit_outside:
  assumes "log_ok dev lc" "no \<notin> log_area (l_start lc) (l_size lc)"
  shows "apply_writes (commit_writes lc V) d no = apply_writes (home_writes lc (\<lambda>t. V (home lc t))) d no"
proof -
  have no: "no \<noteq> l_start lc" using assms start_area [of lc] by (auto simp: log_ok_def)
  have "apply_writes (log_writes lc V) d no = d no"
    using assms(2) log_writes_area(1) [OF assms(1)] by (intro apply_writes_other) blast
  then have "apply_writes (home_writes lc f) ((apply_writes (log_writes lc V) d)(l_start lc := h)) no = apply_writes (home_writes lc f) d no" for f h
    using no by (intro apply_writes_cong) simp
  then show ?thesis using no by (simp add: commit_writes_def)
qed

lemma commit_prefix:
  assumes "l_dev lg = dev" "length (lh_block lg) = LOGSIZE" "log_ok dev lc" "l_start lc = l_start lg \<and> l_size lc = l_size lg"
    "length (d (l_start lg)) = BSIZE" "get32 0 (d (l_start lg)) = 0" "V (l_start lg) = d (l_start lg)"
    "dk = apply_writes (take k (commit_writes lc V)) d"
  shows "head_ok dev lg dk \<and> (\<forall>no. no \<notin> log_area (l_start lg) (l_size lg) \<longrightarrow> recovered lg dk no =
    (if k \<le> nat (lh_n lc) then d no else apply_writes (home_writes lc (\<lambda>t. V (home lc t))) d no))"
proof -
  let ?a = "l_start lg" and ?n = "nat (lh_n lc)"
  let ?lw = "log_writes lc V" and ?hw = "home_writes lc (\<lambda>t. V (home lc t))" and ?h = "header lc (d ?a)"
  have a: "l_start lc = ?a" "l_size lc = l_size lg" using assms(4) by simp_all
  have size: "0 < l_size lg" "l_size lg < 2 ^ 31" using assms(3) by (simp_all add: log_ok_def a)
  note L = log_writes_area [OF assms(3), of V, unfolded a]
  have away: "apply_writes (take j ?lw) e no = e no" if "no \<notin> log_area ?a (l_size lg)" for no j e
    using that L(1) set_take_subset [of j ?lw] by (intro apply_writes_other) blast
  have fresh: "no \<notin> fst ` set (take j ?hw)" "no \<notin> fst ` set ?hw" if "no \<in> log_area ?a (l_size lg)" for no j
    using home_fresh [OF assms(3)] that set_take_subset [of j ?hw] a by auto
  have start: "?a \<in> log_area ?a (l_size lg)" by (rule start_area [OF size(1)])
  note H = header_spec [OF assms(3,5)]
  have "k \<le> n \<or> (\<exists>j. k = n + 1 + j \<and> j \<le> n) \<or> k > n + 1 + n" for n by presburger
  then consider (log) "k \<le> ?n" | (home) j where "k = ?n + 1 + j" "j \<le> ?n" | (erased) "k > ?n + 1 + ?n" by metis
  then show ?thesis
  proof cases
    case log
    then have dk: "dk = apply_writes (take k ?lw) d" by (simp add: assms(8) commit_writes_def)
    have "?a \<notin> fst ` set (take k ?lw)" using L(2) set_take_subset [of k ?lw] by blast
    then have "dk ?a = d ?a" by (simp add: dk apply_writes_other)
    then show ?thesis using empty_log [OF assms(1,2) size, of dk] assms(5,6) away log by (simp add: dk)
  next
    case (home j)
    then have dk: "dk = apply_writes (take j ?hw) ((apply_writes ?lw d)(?a := ?h))"
      by (simp add: assms(7,8) commit_writes_def a)
    have st: "dk ?a = ?h" using fresh(1) [OF start] by (simp add: dk apply_writes_other)
    have lb: "dk (log_block lc t) = V (lh_block lc ! t)" if "t < ?n" for t
    proof -
      have t: "log_block lc t \<in> log_area ?a (l_size lg)" "log_block lc t \<noteq> ?a"
        using log_block_area [OF log_okD(2) [OF assms(3) that]] a by simp_all
      then show ?thesis using logged [OF assms(3) that, of V d] fresh(1) [OF t(1)] by (simp add: dk apply_writes_other)
    qed
    note C = committed_log [OF assms(1-5) st lb]
    have "apply_writes ?hw dk no = apply_writes ?hw d no" if "no \<notin> log_area ?a (l_size lg)" for no
    proof -
      have "apply_writes ?hw dk no = apply_writes ?hw ((apply_writes ?lw d)(?a := ?h)) no"
        unfolding dk by (rule apply_writes_absorb) (use set_take_subset [of j ?hw] in blast)
      also have "\<dots> = apply_writes ?hw d no"
        using that start away [OF that, of ?n d] by (intro apply_writes_cong) auto
      finally show ?thesis .
    qed
    then show ?thesis using C home by simp
  next
    case erased
    then have dk: "dk = (apply_writes ?hw ((apply_writes ?lw d)(?a := ?h)))(?a := header (lc\<lparr>lh_n := 0\<rparr>) ?h)"
      by (simp add: assms(7,8) commit_writes_def a)
    have "length (dk ?a) = BSIZE" "get32 0 (dk ?a) = 0"
      using header_spec(2,3) [OF log_ok_zero [OF assms(3)] H(2)] by (simp_all add: dk)
    moreover have "dk no = apply_writes ?hw d no" if "no \<notin> log_area ?a (l_size lg)" for no
      using commit_outside [OF assms(3), of no V d] that erased by (simp add: assms(8) a commit_writes_def)
    ultimately show ?thesis using empty_log [OF assms(1,2) size, of dk] erased by simp
  qed
qed

section \<open>Crashes\<close>

text \<open>
  The power fails any number of times while the system boots: each time it has done a part of the
  writes of \<open>initlog\<close> on the disk of the time before, with an empty cache.
\<close>

inductive boots :: "int \<Rightarrow> u32 \<Rightarrow> u32 \<Rightarrow> u32 \<Rightarrow> (u32 \<Rightarrow> block) \<Rightarrow> (u32 \<Rightarrow> block) \<Rightarrow> bool" for me dev start nlog d where
  boots_none: "boots me dev start nlog d d"
| boots_crash: "boots me dev start nlog d d' \<Longrightarrow> initlog me dev start nlog (binit d') = Some (lg, st)
    \<Longrightarrow> boots me dev start nlog d (apply_writes (take k (writes st)) d')"

lemma initlog_spec:
  assumes "dev \<noteq> 0" "head_ok dev (log_init dev start nlog) d"
  shows "\<exists>lg st. initlog me dev start nlog (binit d) = Some (lg, st) \<and> lh_n lg = 0 \<and> l_start lg = start
    \<and> disk st = recovered (log_init dev start nlog) d
    \<and> writes st = recover_writes (head_of (log_init dev start nlog) (d start)) d"
proof -
  let ?lg = "log_init dev start nlog"
  have ok: "cache_ok dev (binit d)" by (rule binit_ok [OF assms(1)])
  have "buf_of dev (\<lambda>_. buf_zero) no = None" for no using assms(1) by (simp add: buf_of_def find_None_iff buf_zero_def)
  then have use: "in_use dev (binit d) = {}" by (simp add: in_use_def refs_def binit_def)
  have d: "disk (binit d) = d" "writes (binit d) = []" by (simp_all add: binit_def)
  have l: "l_dev ?lg = dev" "length (lh_block ?lg) = LOGSIZE" "l_start ?lg = start" "l_size ?lg = sint nlog" by (simp_all add: log_init_def)
  obtain st where r: "recover_from_log me ?lg (binit d) = Some ((head_of ?lg (d start))\<lparr>lh_n := 0\<rparr>, st)"
    and w: "wrote dev (binit d) (recover_writes (head_of ?lg (d start)) d) (refs dev (binit d)) st"
    using recover_spec [OF ok use l(1,2), of me] assms(2) by (auto simp: d l(3))
  show ?thesis using r wroteD(5,6) [OF w] by (simp add: initlog_def recovered_def d l(3))
qed

lemma boots_keep:
  assumes "boots me dev start nlog d d'" "dev \<noteq> 0" "head_ok dev (log_init dev start nlog) d"
  shows "head_ok dev (log_init dev start nlog) d' \<and>
    (\<forall>no. no \<notin> log_area start (sint nlog) \<longrightarrow> recovered (log_init dev start nlog) d' no = recovered (log_init dev start nlog) d no)"
  using assms(1)
proof (induction rule: boots.induct)
  case boots_none
  then show ?case using assms(3) by simp
next
  case (boots_crash d' lg st k)
  let ?lg = "log_init dev start nlog"
  have l: "l_dev ?lg = dev" "length (lh_block ?lg) = LOGSIZE" "l_start ?lg = start" "l_size ?lg = sint nlog" by (simp_all add: log_init_def)
  have ok: "head_ok dev ?lg d'" using boots_crash.IH by blast
  have "writes st = recover_writes (head_of ?lg (d' start)) d'"
    using initlog_spec [OF assms(2) ok, of me] boots_crash.hyps(2) by auto
  then have "head_ok dev ?lg (apply_writes (take k (writes st)) d') \<and> (\<forall>no. no \<notin> log_area start (sint nlog) \<longrightarrow>
      recovered ?lg (apply_writes (take k (writes st)) d') no = recovered ?lg d' no)"
    using recovery_prefix [OF l(1,2) ok refl, of k] by (simp add: l(3,4))
  then show ?case using boots_crash.IH by simp
qed

text \<open>A commit cut off by a crash, as seen by the next complete boot.\<close>

lemma commit_crash_atomic:
  assumes "ready dev lg st" "get32 0 (disk st (l_start lg)) = 0" "commit me lg st = Some (lg', st')"
    "writes st' = writes st @ ws" "sint nlog = l_size lg"
    "boots me' dev (l_start lg) nlog (apply_writes (take k ws) (disk st)) d"
  shows "\<exists>lg2 st2. initlog me'' dev (l_start lg) nlog (binit d) = Some (lg2, st2) \<and> lh_n lg2 = 0 \<and>
    (\<forall>no. no \<notin> log_area (l_start lg) (l_size lg) \<longrightarrow> disk st2 no = (if k \<le> nat (lh_n lg) then disk st no else disk st' no))"
proof -
  let ?a = "l_start lg" and ?V = "view dev st" and ?l0 = "log_init dev (l_start lg) nlog"
  have ok: "log_ok dev lg" "cache_ok dev st" "length (disk st ?a) = BSIZE" "refs dev st ?a = 0" and dev: "dev \<noteq> 0"
    using assms(1) start_area [of lg] by (simp_all add: ready_def cache_ok_def log_ok_def)
  have V: "?V ?a = disk st ?a" using ok(2,4) by (simp add: cache_ok_def)
  have l: "l_dev ?l0 = dev" "length (lh_block ?l0) = LOGSIZE" "l_start ?l0 = ?a" "l_size ?l0 = l_size lg" by (simp_all add: log_init_def assms(5))
  have w: "wrote dev st (commit_writes lg ?V) (unpinned False (home lg ` {..<nat (lh_n lg)}) (refs dev st)) st'"
    using commit_spec [OF assms(1), of me] assms(3) by auto
  then have ws: "ws = commit_writes lg ?V" and d': "disk st' = apply_writes (commit_writes lg ?V) (disk st)"
    using assms(4) wroteD(5,6) [OF w] by simp_all
  note pre = commit_prefix [where d = "disk st" and V = "view dev st" and lc = lg, OF l(1,2) ok(1), unfolded l(3,4), OF conjI [OF refl refl] ok(3) assms(2) V refl]
  have p: "head_ok dev ?l0 (apply_writes (take k ws) (disk st))"
    "no \<notin> log_area ?a (l_size lg) \<Longrightarrow> recovered ?l0 (apply_writes (take k ws) (disk st)) no =
      (if k \<le> nat (lh_n lg) then disk st no else apply_writes (home_writes lg (\<lambda>t. ?V (home lg t))) (disk st) no)" for no
    using pre [of k] by (simp_all add: ws)
  have fin: "disk st' no = apply_writes (home_writes lg (\<lambda>t. ?V (home lg t))) (disk st) no" if "no \<notin> log_area ?a (l_size lg)" for no
    unfolding d' by (rule commit_outside [OF ok(1) that])
  have b: "head_ok dev ?l0 d" "no \<notin> log_area ?a (l_size lg) \<Longrightarrow> recovered ?l0 d no = recovered ?l0 (apply_writes (take k ws) (disk st)) no" for no
    using boots_keep [OF assms(6) dev p(1)] by (simp_all add: assms(5))
  obtain lg2 st2 where "initlog me'' dev ?a nlog (binit d) = Some (lg2, st2)" "lh_n lg2 = 0" "disk st2 = recovered ?l0 d"
    using initlog_spec [OF dev b(1), of me''] by blast
  then show ?thesis using b(2) p(2) fin by auto
qed

section \<open>Transactions\<close>

text \<open>The typical use of \<open>log_write\<close>: read a block, change it, log it, release it.\<close>

definition log_update :: "int \<Rightarrow> u32 \<Rightarrow> block \<Rightarrow> log \<Rightarrow> bcache \<Rightarrow> (log \<times> bcache) option" where
  "log_update me no data lg st = do {
     (b, st) \<leftarrow> bread me (l_dev lg) no st;
     (lg, st) \<leftarrow> log_write b lg (set_data b data st);
     st \<leftarrow> brelse me b st;
     Some (lg, st)
   }"

fun log_updates :: "int \<Rightarrow> (u32 \<times> block) list \<Rightarrow> log \<Rightarrow> bcache \<Rightarrow> (log \<times> bcache) option" where
  "log_updates me [] lg st = Some (lg, st)"
| "log_updates me ((no, data) # us) lg st = do { (lg, st) \<leftarrow> log_update me no data lg st; log_updates me us lg st }"

text \<open>During a transaction exactly its blocks are in use, and nobody holds a buffer between the updates.\<close>

definition trans :: "u32 \<Rightarrow> log \<Rightarrow> bcache \<Rightarrow> bool" where
  "trans dev lg st \<longleftrightarrow> cache_ok dev st \<and> log_ok dev lg \<and> in_use dev st = home lg ` {..<nat (lh_n lg)}
     \<and> (\<forall>no. lock_of dev st no = initsleeplock) \<and> length (disk st (l_start lg)) = BSIZE"

lemma trans_card: "trans dev lg st \<Longrightarrow> card (in_use dev st) \<le> nat (lh_n lg)"
  by (metis trans_def card_image_le card_lessThan finite_lessThan)

lemma trans_ready:
  assumes "trans dev lg st" "0 < lh_n lg" "lh_n lg < int LOGSIZE"
  shows "ready dev lg st"
proof -
  have T: "cache_ok dev st" "log_ok dev lg" "in_use dev st = home lg ` {..<nat (lh_n lg)}" using assms(1) by (simp_all add: trans_def)
  have "refs dev st no = 0" if "no \<in> log_area (l_start lg) (l_size lg)" for no
  proof -
    have "no \<notin> in_use dev st" using that log_okD(3) [OF T(2)] by (auto simp: T(3))
    then show ?thesis by (simp add: in_use_def)
  qed
  moreover have "refs dev st (home lg t) > 0" if "t < nat (lh_n lg)" for t
  proof -
    have "home lg t \<in> in_use dev st" using that by (simp add: T(3))
    then show ?thesis by (simp add: in_use_def)
  qed
  moreover have "card (in_use dev st) < NBUF" using trans_card [OF assms(1)] assms(3) by (simp add: NBUF_def LOGSIZE_def)
  ultimately show ?thesis using assms by (simp add: ready_def trans_def)
qed

lemma log_update_spec:
  assumes "trans dev lg st" "lh_n lg < int LOGSIZE" "lh_n lg < l_size lg - 1" "1 \<le> l_outstanding lg" "no \<notin> log_area (l_start lg) (l_size lg)"
  shows "\<exists>st'. log_update me no data lg st = Some (add_block no lg, st') \<and> trans dev (add_block no lg) st'
    \<and> view dev st' = (view dev st)(no := data) \<and> disk st' = disk st \<and> writes st' = writes st
    \<and> refs dev st' = (refs dev st)(no := max 1 (refs dev st no))"
proof -
  have T: "cache_ok dev st" "log_ok dev lg" "in_use dev st = home lg ` {..<nat (lh_n lg)}" "lock_of dev st no' = initsleeplock"
    "length (disk st (l_start lg)) = BSIZE" for no' using assms(1) by (simp_all add: trans_def)
  have dev: "l_dev lg = dev" using T(2) by (simp add: log_ok_def)
  have "card (in_use dev st) < NBUF" using trans_card [OF assms(1)] assms(2) by (simp add: NBUF_def LOGSIZE_def)
  then obtain b s1 where r1: "bread me dev no st = Some (b, s1)" and h1: "has_buf dev s1 no b"
    and m1: "moved dev st (view dev st) ((refs dev st)(no := refs dev st no + 1))
       ((lock_of dev st)(no := \<lparr>sl_locked = 1, sl_pid = me\<rparr>)) (disk st) (writes st) s1"
    using bread_moved [OF T(1,4)] by metis
  note D1 = movedD [OF m1]
  define s2 where "s2 = set_data b data s1"
  note D2 = movedD [OF set_data_ok [OF D1(1) h1, of data, folded s2_def]]
  have h2: "has_buf dev s2 no b" using D2(7) h1 by (simp add: D1(3))
  have b: "b_blockno (bufs s2 b) = no" using h2 buf_of_iff [OF D2(1)] by (simp add: has_buf_def)
  let ?old = "no \<in> home lg ` {..<nat (lh_n lg)}"
  define s3 where "s3 = (if ?old then s2 else bpin b s2)"
  have r3: "log_write b lg s2 = Some (add_block no lg, s3)"
    unfolding s3_def by (rule log_write_eq [OF T(2) assms(2-4) b])
  have m3: "moved dev s2 (view dev s2) ((refs dev s2)(no := refs dev s2 no + (if ?old then 0 else 1))) (lock_of dev s2) (disk s2) (writes s2) s3"
    using pin_ok(1) [OF D2(1) h2] D2(1) by (auto simp: s3_def moved_def)
  note D3 = movedD [OF m3]
  have h3: "has_buf dev s3 no b" using D3(7) h2 by (simp add: D2(3) D1(3))
  have r: "refs dev st no > 0 \<longleftrightarrow> ?old" using T(3) by (auto simp: in_use_def)
  have "holdingsleep me (lock_of dev s3 no)" "refs dev s3 no \<noteq> 1" using r by (auto simp: D3(3,4) D2(3,4) D1(3,4))
  then obtain s4 where r4: "brelse me b s3 = Some s4" and m4: "moved dev s3 (view dev s3) ((refs dev s3)(no := refs dev s3 no - 1))
      ((lock_of dev s3)(no := initsleeplock)) (disk s3) (writes s3) s4"
    using brelse_ex [OF D3(1) h3] by blast
  note D4 = movedD [OF m4]
  have "in_use dev s4 = insert no (in_use dev st)"
    using r by (auto simp: in_use_def D4(3) D3(3) D2(3) D1(3) split: if_splits)
  then have "trans dev (add_block no lg) s4"
    using D4(1) T add_block_ok [OF T(2) assms(2,3,5)] by (simp add: trans_def D4(4,5) D3(4,5) D2(4,5) D1(4,5))
  moreover have "log_update me no data lg st = Some (add_block no lg, s4)"
    using r1 r3 r4 by (simp add: log_update_def dev s2_def [symmetric])
  moreover have "refs dev s4 = (refs dev st)(no := max 1 (refs dev st no))"
    using r by (auto simp: D4(3) D3(3) D2(3) D1(3) fun_eq_iff)
  ultimately show ?thesis by (auto simp: D4(2,5,6) D3(2,5,6) D2(2,5,6) D1(2,5,6))
qed

lemma trans_exact: "trans dev lg st \<Longrightarrow> int (card (in_use dev st)) = lh_n lg"
proof -
  assume t: "trans dev lg st"
  then have ok: "log_ok dev lg" and u: "in_use dev st = home lg ` {..<nat (lh_n lg)}" by (simp_all add: trans_def)
  have "inj_on (home lg) {..<nat (lh_n lg)}" using home_inj [OF ok] by (auto simp: inj_on_def)
  then show ?thesis using u ok by (simp add: card_image log_ok_def)
qed

text \<open>A list of updates needs room in the log for its blocks and one more.\<close>

lemma log_updates_spec:
  assumes "trans dev lg st" "card (in_use dev st \<union> fst ` set us) < LOGSIZE" "int (card (in_use dev st \<union> fst ` set us)) < l_size lg - 1"
    "1 \<le> l_outstanding lg" "fst ` set us \<inter> log_area (l_start lg) (l_size lg) = {}"
  shows "\<exists>lg' st'. log_updates me us lg st = Some (lg', st') \<and> trans dev lg' st' \<and> l_start lg' = l_start lg \<and> l_size lg' = l_size lg
    \<and> in_use dev st' = in_use dev st \<union> fst ` set us
    \<and> view dev st' = apply_writes us (view dev st) \<and> disk st' = disk st \<and> writes st' = writes st"
  using assms
proof (induction us arbitrary: lg st)
  case Nil
  then show ?case by auto
next
  case (Cons u us)
  obtain no data where u: "u = (no, data)" by force
  let ?B = "in_use dev st \<union> fst ` set (u # us)"
  have fin: "finite ?B" using in_use_free Cons.prems(1) by (simp add: trans_def)
  then have "card (in_use dev st) \<le> card ?B" by (intro card_mono) auto
  then have n: "lh_n lg < int LOGSIZE" "lh_n lg < l_size lg - 1"
    using trans_exact [OF Cons.prems(1)] Cons.prems(2,3) by linarith+
  have no: "no \<notin> log_area (l_start lg) (l_size lg)" using Cons.prems(5) by (auto simp: u)
  obtain s1 where r1: "log_update me no data lg st = Some (add_block no lg, s1)" and t1: "trans dev (add_block no lg) s1"
    and v1: "view dev s1 = (view dev st)(no := data)" "disk s1 = disk st" "writes s1 = writes st"
    using log_update_spec [OF Cons.prems(1) n Cons.prems(4) no] by blast
  have ok: "log_ok dev lg" using Cons.prems(1) by (simp add: trans_def)
  have use: "in_use dev s1 = insert no (in_use dev st)"
    using t1 Cons.prems(1) add_block_ok(2) [OF ok n no] by (simp add: trans_def)
  have B: "in_use dev s1 \<union> fst ` set us = ?B" by (auto simp: use u)
  have "\<exists>lg' st'. log_updates me us (add_block no lg) s1 = Some (lg', st') \<and> trans dev lg' st' \<and> l_start lg' = l_start (add_block no lg)
    \<and> l_size lg' = l_size (add_block no lg) \<and> in_use dev st' = in_use dev s1 \<union> fst ` set us
    \<and> view dev st' = apply_writes us (view dev s1) \<and> disk st' = disk s1 \<and> writes st' = writes s1"
    by (rule Cons.IH [OF t1]) (use Cons.prems B in \<open>auto simp: u\<close>)
  then show ?case using r1 v1 B by (simp add: u)
qed

lemma apply_writes_of:
  assumes "\<forall>(m, x) \<in> set ws. x = V m"
  shows "apply_writes ws d no = (if no \<in> fst ` set ws then V no else d no)"
  using assms
proof (induction ws arbitrary: d)
  case (Cons w ws)
  obtain m x where w: "w = (m, x)" by force
  then have x: "x = V m" using Cons.prems by simp
  have "apply_writes (w # ws) d no = (if no \<in> fst ` set ws then V no else (d(m := x)) no)"
    unfolding w apply_writes_simps by (rule Cons.IH) (use Cons.prems in simp)
  then show ?case using w x by simp
qed simp

text \<open>A commit brings the disk up to date.\<close>

lemma commit_trans:
  assumes "trans dev lg st" "0 < lh_n lg" "lh_n lg < int LOGSIZE"
  shows "\<exists>st' ws. commit me lg st = Some (lg\<lparr>lh_n := 0\<rparr>, st') \<and> writes st' = writes st @ ws \<and> length ws = 2 * nat (lh_n lg) + 2
    \<and> (\<forall>no. no \<notin> log_area (l_start lg) (l_size lg) \<longrightarrow> disk st' no = view dev st no)"
proof -
  have R: "ready dev lg st" by (rule trans_ready [OF assms])
  have T: "cache_ok dev st" "log_ok dev lg" "in_use dev st = home lg ` {..<nat (lh_n lg)}" using assms(1) by (simp_all add: trans_def)
  obtain st' where c: "commit me lg st = Some (lg\<lparr>lh_n := 0\<rparr>, st')"
    and w: "wrote dev st (commit_writes lg (view dev st)) (unpinned False (home lg ` {..<nat (lh_n lg)}) (refs dev st)) st'"
    using commit_spec [OF R] by blast
  let ?hw = "home_writes lg (\<lambda>t. view dev st (home lg t))"
  have "disk st' no = view dev st no" if "no \<notin> log_area (l_start lg) (l_size lg)" for no
  proof -
    have "disk st' no = apply_writes ?hw (disk st) no"
      unfolding wroteD(5) [OF w] by (rule commit_outside [OF T(2) that])
    also have "\<dots> = (if no \<in> fst ` set ?hw then view dev st no else disk st no)"
      by (rule apply_writes_of) (auto simp: home_writes_def)
    also have "\<dots> = view dev st no"
    proof (cases "no \<in> fst ` set ?hw")
      case False
      then have "no \<notin> in_use dev st" by (auto simp: T(3) home_writes_def image_image)
      then show ?thesis using False T(1) by (simp add: in_use_def cache_ok_def)
    qed simp
    finally show ?thesis .
  qed
  then show ?thesis using c wroteD(6) [OF w] by (auto simp: commit_writes_def)
qed

lemma boot_empty:
  assumes "boots me dev start nlog d d'" "dev \<noteq> 0" "0 < sint nlog" "length (d start) = BSIZE" "get32 0 (d start) = 0"
  shows "\<exists>lg st. initlog me' dev start nlog (binit d') = Some (lg, st) \<and> (\<forall>no. no \<notin> log_area start (sint nlog) \<longrightarrow> disk st no = d no)"
proof -
  let ?l0 = "log_init dev start nlog"
  have "sint nlog < 2 ^ 31" using sint_lt [of nlog] by simp
  then have l: "l_dev ?l0 = dev" "length (lh_block ?l0) = LOGSIZE" "0 < l_size ?l0" "l_size ?l0 < 2 ^ 31" "l_start ?l0 = start" "l_size ?l0 = sint nlog"
    using assms(3) by (simp_all add: log_init_def)
  note E = empty_log [OF l(1-4), of d, unfolded l(5,6), OF assms(4,5)]
  note K = boots_keep [OF assms(1,2) E(1)]
  then obtain lg st where "initlog me' dev start nlog (binit d') = Some (lg, st)" "disk st = recovered ?l0 d'"
    using initlog_spec [OF assms(2)] by blast
  then show ?thesis using K E(2) by auto
qed

text \<open>
  C2: transactions are atomic under crashes.  Take any list of block updates through \<open>log_write\<close>, then
  \<open>commit\<close>: both return, without a panic and without running out of buffers, and the disk outside
  the log has all the updates.  Let the power fail after any number \<open>k\<close> of the writes of the commit,
  and any number of times again during recovery: the next complete boot finds none of the updates or
  all of them, and all of them when the commit had finished.
\<close>

theorem transaction_crash_atomic:
  assumes "trans dev lg st" "lh_n lg = 0" "get32 0 (disk st (l_start lg)) = 0" "sint nlog = l_size lg" "1 \<le> l_outstanding lg"
    "card (fst ` set us) < LOGSIZE" "int (card (fst ` set us)) < l_size lg - 1"
    "fst ` set us \<inter> log_area (l_start lg) (l_size lg) = {}"
  shows "\<exists>lg1 st1 lg2 st2 ws. log_updates me us lg st = Some (lg1, st1) \<and> commit me lg1 st1 = Some (lg2, st2)
    \<and> writes st2 = writes st @ ws
    \<and> (\<forall>no. no \<notin> log_area (l_start lg) (l_size lg) \<longrightarrow> disk st2 no = apply_writes us (disk st) no)
    \<and> (\<forall>k d. boots me' dev (l_start lg) nlog (apply_writes (take k ws) (disk st)) d \<longrightarrow>
        (\<exists>lg3 st3 all. initlog me' dev (l_start lg) nlog (binit d) = Some (lg3, st3) \<and> (length ws \<le> k \<longrightarrow> all)
          \<and> (\<forall>no. no \<notin> log_area (l_start lg) (l_size lg) \<longrightarrow>
               disk st3 no = (if all then apply_writes us (disk st) no else disk st no))))"
proof -
  let ?a = "l_start lg" and ?A = "log_area (l_start lg) (l_size lg)"
  have T: "cache_ok dev st" "in_use dev st = {}" "length (disk st ?a) = BSIZE" "0 < l_size lg" and dev: "dev \<noteq> 0"
    using assms(1,2) by (auto simp: trans_def log_ok_def cache_ok_def)
  have v: "view dev st = disk st" using T(1,2) by (auto simp: cache_ok_def in_use_def fun_eq_iff)
  obtain lg1 st1 where U: "log_updates me us lg st = Some (lg1, st1)" "trans dev lg1 st1" "l_start lg1 = ?a" "l_size lg1 = l_size lg"
    "in_use dev st1 = fst ` set us" "view dev st1 = apply_writes us (disk st)" "disk st1 = disk st" "writes st1 = writes st"
    using log_updates_spec [OF assms(1), of us me] assms(5-8) by (auto simp: T(2) v)
  have n: "lh_n lg1 = int (card (fst ` set us))" using trans_exact [OF U(2)] by (simp add: U(5))
  show ?thesis
  proof (cases "us = []")
    case True
    then have c: "commit me lg1 st1 = Some (lg1, st1)" by (simp add: commit_def n)
    show ?thesis
      using boot_empty [of me' dev ?a nlog "disk st" _ me'] dev T(3,4) assms(3,4) c U(1,7,8) True
      by (intro exI [of _ lg1] exI [of _ st1] exI [of _ "[]"]) fastforce
  next
    case False
    then have n0: "0 < lh_n lg1" "lh_n lg1 < int LOGSIZE" using assms(6) by (auto simp: n card_gt_0_iff)
    obtain st2 ws where C: "commit me lg1 st1 = Some (lg1\<lparr>lh_n := 0\<rparr>, st2)" "writes st2 = writes st1 @ ws"
      "length ws = 2 * nat (lh_n lg1) + 2" "no \<notin> ?A \<Longrightarrow> disk st2 no = view dev st1 no" for no
      using commit_trans [OF U(2) n0, of me] U(3,4) by auto
    note X = commit_crash_atomic [OF trans_ready [OF U(2) n0] _ C(1,2), unfolded U(3,4,7), OF assms(3,4)]
    have "\<exists>lg3 st3 all. initlog me' dev ?a nlog (binit d) = Some (lg3, st3) \<and> (length ws \<le> k \<longrightarrow> all)
          \<and> (\<forall>no. no \<notin> ?A \<longrightarrow> disk st3 no = (if all then apply_writes us (disk st) no else disk st no))"
      if b: "boots me' dev ?a nlog (apply_writes (take k ws) (disk st)) d" for k d
    proof -
      obtain lg3 st3 where "initlog me' dev ?a nlog (binit d) = Some (lg3, st3)"
        "no \<notin> ?A \<Longrightarrow> disk st3 no = (if k \<le> nat (lh_n lg1) then disk st no else disk st2 no)" for no
        using X [OF b, of me'] by blast
      then show ?thesis using C(3,4) U(6)
        by (intro exI [of _ lg3] exI [of _ st3] exI [of _ "\<not> k \<le> nat (lh_n lg1)"]) auto
    qed
    then show ?thesis using U(1,6,8) C(1,2,4) by (intro exI [of _ lg1] exI [of _ st1] exI [of _ "lg1\<lparr>lh_n := 0\<rparr>"] exI [of _ st2] exI [of _ ws]) auto
  qed
qed

text \<open>A volume of zeros with the log of 30 blocks from block 2 on, as \<open>mkfs\<close> lays it out.\<close>

definition zeros :: "u32 \<Rightarrow> block" where
  "zeros = (\<lambda>_. replicate BSIZE 0)"

definition mkfs_log :: log where
  "mkfs_log = (log_init 1 2 30)\<lparr>l_outstanding := 1\<rparr>"

lemma mkfs_trans: "trans 1 mkfs_log (binit zeros)" "lh_n mkfs_log = 0" "get32 0 (zeros no) = 0"
proof -
  have none: "buf_of 1 (\<lambda>_. buf_zero) no = None" for no by (simp add: buf_of_def find_None_iff buf_zero_def)
  then have "in_use 1 (binit zeros) = {}" "lock_of 1 (binit zeros) no = initsleeplock" for no
    by (simp_all add: in_use_def refs_def lock_of_def binit_def)
  then show "trans 1 mkfs_log (binit zeros)"
    by (simp add: trans_def binit_ok mkfs_log_def log_init_def log_ok_def) (simp add: binit_def zeros_def BSIZE_def)
  show "lh_n mkfs_log = 0" by (simp add: mkfs_log_def log_init_def)
  show "get32 0 (zeros no) = 0" by (simp add: get32_def zeros_def BSIZE_def le32_of_def numeral_2_eq_2)
qed

lemma log_area_bound: "no \<in> log_area start len \<Longrightarrow> int (unat (no - start)) < len"
proof -
  assume "no \<in> log_area start len"
  then obtain i where i: "no = start + of_nat i" "i < nat len" by (auto simp: log_area_def)
  have "unat (of_nat i :: u32) \<le> i" by (simp add: unat_of_nat)
  moreover have "no - start = of_nat i" using i(1) by simp
  ultimately show ?thesis using i(2) by (metis nat_less_iff zless_nat_eq_int_zless le_less_trans)
qed

theorem transaction_crash_atomic_witness:
  "\<exists>lg1 st1 lg2 st2. log_updates 7 [(100, [1]), (200, [2])] mkfs_log (binit zeros) = Some (lg1, st1)
    \<and> commit 7 lg1 st1 = Some (lg2, st2) \<and> disk st2 100 = [1] \<and> disk st2 200 = [2]"
proof -
  have l: "l_start mkfs_log = 2" "l_size mkfs_log = 30" "l_outstanding mkfs_log = 1" by (simp_all add: mkfs_log_def log_init_def)
  have d: "disk (binit zeros) = zeros" by (simp add: binit_def)
  have out: "(100 :: u32) \<notin> log_area 2 30" "(200 :: u32) \<notin> log_area 2 30"
    by (auto dest: log_area_bound)
  have "fst ` set [(100 :: u32, [1 :: u8]), (200, [2])] \<inter> log_area (l_start mkfs_log) (l_size mkfs_log) = {}"
    using out by (simp add: l)
  with transaction_crash_atomic [OF mkfs_trans(1,2), of 30 "[(100, [1]), (200, [2])]" 7 7] out
  show ?thesis by (auto simp: l d mkfs_trans(3) LOGSIZE_def)
qed

end
