(* ===== verification/Xv6_Log_Ops.thy ===== *)
theory Xv6_Log_Ops
  imports Xv6_Crash Transition_System
begin

text \<open>
  Group commit: any number of processes between \<open>begin_op\<close> and \<open>end_op\<close> share one transaction of the
  log and the buffer cache.  Each section under \<open>log.lock\<close> is one step; so is an update of a block,
  from \<open>bread\<close> to \<open>brelse\<close>, and the whole \<open>commit\<close>.  The contract of a file system call is to write at
  most \<open>MAXOPBLOCKS\<close> different blocks, none of them in the log.
\<close>

section \<open>The log and the cache together\<close>

text \<open>A transaction whose blocks, and only they, are in use, each with its pin as the only reference.\<close>

definition grouped :: "u32 \<Rightarrow> log \<Rightarrow> bcache \<Rightarrow> bool" where
  "grouped dev lg st \<longleftrightarrow> trans dev lg st \<and> (\<forall>no. refs dev st no \<le> 1)"

lemma grouped_counts [simp]:
  "grouped dev (lg\<lparr>l_outstanding := x\<rparr>) st = grouped dev lg st" "grouped dev (lg\<lparr>l_committing := c\<rparr>) st = grouped dev lg st"
  by (simp_all add: grouped_def trans_def log_ok_def)

lemma grouped_trans: "grouped dev lg st \<Longrightarrow> trans dev lg st"
  by (simp add: grouped_def)

lemma log_update_room:
  assumes "log_update me no data lg st = Some (lg', st')"
  shows "lh_n lg < int LOGSIZE" "lh_n lg < l_size lg - 1" "1 \<le> l_outstanding lg"
  using assms by (auto simp: log_update_def log_write_def log_add_def bind_eq_Some_conv split: if_splits)

lemma grouped_update:
  assumes "grouped dev lg st" "no \<notin> log_area (l_start lg) (l_size lg)" "log_update me no data lg st = Some (lg', st')"
  shows "lg' = add_block no lg" "grouped dev lg' st'"
proof -
  have T: "trans dev lg st" using assms(1) by (simp add: grouped_def)
  have "lg' = add_block no lg \<and> trans dev lg' st' \<and> refs dev st' = (refs dev st)(no := max 1 (refs dev st no))"
    using log_update_spec [OF T log_update_room [OF assms(3)] assms(2), where me = me and data = data] assms(3) by auto
  then show "lg' = add_block no lg" "grouped dev lg' st'" using assms(1) by (auto simp: grouped_def)
qed

lemma grouped_commit:
  assumes "grouped dev lg st" "lh_n lg < int LOGSIZE"
  shows "\<exists>st'. commit me lg st = Some (lg\<lparr>lh_n := 0\<rparr>, st') \<and> grouped dev (lg\<lparr>lh_n := 0\<rparr>) st'
    \<and> (\<forall>no. no \<notin> log_area (l_start lg) (l_size lg) \<longrightarrow> disk st' no = view dev st no)"
proof (cases "lh_n lg > 0")
  case False
  have T: "trans dev lg st" using assms(1) by (simp add: grouped_def)
  then have n: "lh_n lg = 0" using False by (simp add: trans_def log_ok_def)
  then have same: "lg\<lparr>lh_n := 0\<rparr> = lg" by simp
  have "view dev st = disk st" using T n by (auto simp: trans_def in_use_def cache_ok_def fun_eq_iff)
  then show ?thesis unfolding same using assms(1) n by (simp add: commit_def)
next
  case True
  have T: "trans dev lg st" "cache_ok dev st" "log_ok dev lg" "in_use dev st = home lg ` {..<nat (lh_n lg)}"
    "\<forall>no. lock_of dev st no = initsleeplock" using assms(1) by (simp_all add: grouped_def trans_def)
  have once: "refs dev st no \<le> 1" for no using assms(1) by (simp add: grouped_def)
  note R = trans_ready [OF T(1) True assms(2)]
  let ?ws = "commit_writes lg (view dev st)" and ?a = "l_start lg"
  obtain st' where c: "commit me lg st = Some (lg\<lparr>lh_n := 0\<rparr>, st')"
    and w: "wrote dev st ?ws (unpinned False (home lg ` {..<nat (lh_n lg)}) (refs dev st)) st'"
    using commit_spec [OF R] by blast
  note W = wroteD [OF w]
  have "disk st' no = view dev st no" if "no \<notin> log_area (l_start lg) (l_size lg)" for no
    using commit_trans [OF T(1) True assms(2), of me] c that by auto
  moreover have r0: "refs dev st' no = 0" for no
  proof (cases "no \<in> in_use dev st")
    case True
    then show ?thesis using once [of no] by (simp add: W(3) unpinned_def flip: T(4))
  next
    case False
    then show ?thesis by (simp add: W(3) unpinned_def in_use_def flip: T(4))
  qed
  moreover have "length (disk st' ?a) = BSIZE"
  proof -
    have start: "?a \<in> log_area ?a (l_size lg)" by (rule start_area) (use T(3) True in \<open>simp add: log_ok_def\<close>)
    have "refs dev st ?a = 0" using R start by (simp add: ready_def)
    then have v: "view dev st ?a = disk st ?a" using T(2) by (simp add: cache_ok_def)
    have "length (view dev st ?a) = BSIZE" using T(1) v by (simp add: trans_def)
    then have "length (header lg (view dev st ?a)) = BSIZE" by (rule header_spec(2) [OF T(3)])
    then have "length (header (lg\<lparr>lh_n := 0\<rparr>) (header lg (view dev st ?a))) = BSIZE" by (rule header_spec(2) [OF log_ok_zero [OF T(3)]])
    then show ?thesis by (simp add: W(5) commit_writes_def)
  qed
  moreover have "log_ok dev (lg\<lparr>lh_n := 0\<rparr>)" by (rule log_ok_zero [OF T(3)])
  ultimately show ?thesis using c W(1,4) T(5) by (intro exI [of _ st']) (simp add: grouped_def trans_def in_use_def)
qed

text \<open>With every buffer pinned no other block can be read.\<close>

lemma bread_full:
  assumes "cache_ok dev st" "card (in_use dev st) = NBUF" "no \<notin> in_use dev st"
  shows "bread me dev no st = None"
proof -
  let ?B = "{b. b < NBUF \<and> b_refcnt (bufs st b) > 0}"
  have "?B = {..<NBUF}" using in_use_bufs(2) [OF assms(1)] assms(2) by (intro card_subset_eq) auto
  then have busy: "b_refcnt (bufs st b) > 0" if "b < NBUF" for b using that by blast
  have "find (\<lambda>b. b_dev (bufs st b) = dev \<and> b_blockno (bufs st b) = no) (lru st) = None"
  proof (rule ccontr)
    assume "\<not> ?thesis"
    then obtain b where "b \<in> set (lru st)" "b_dev (bufs st b) = dev" "b_blockno (bufs st b) = no"
      by (auto simp: find_None_iff)
    moreover from this(1) have "b < NBUF" using assms(1) by (simp add: cache_ok_def)
    ultimately have "refs dev st no > 0" using busy buf_of_iff [OF assms(1), of no b] by (simp add: refs_def)
    then show False using assms(3) by (simp add: in_use_def)
  qed
  moreover have "find (\<lambda>b. b_refcnt (bufs st b) = 0) (rev (lru st)) = None"
    using busy assms(1) by (auto simp: find_None_iff cache_ok_def)
  ultimately show ?thesis by (simp add: bread_def bget_def)
qed

lemma commit_full:
  assumes "grouped dev lg st" "lh_n lg = int LOGSIZE"
  shows "commit me lg st = None"
proof -
  have T: "trans dev lg st" "cache_ok dev st" "log_ok dev lg" "in_use dev st = home lg ` {..<nat (lh_n lg)}"
    using assms(1) by (simp_all add: grouped_def trans_def)
  have "card (in_use dev st) = NBUF" using trans_exact [OF T(1)] assms(2) by (simp add: LOGSIZE_def NBUF_def)
  moreover have "0 < nat (lh_n lg)" using assms(2) by (simp add: LOGSIZE_def)
  then have "home lg t \<noteq> log_block lg 0" if "t < nat (lh_n lg)" for t
    using log_okD(5) [OF T(3) that log_okD(2) [OF T(3)]] by blast
  then have "log_block lg 0 \<notin> in_use dev st" unfolding T(4) by fastforce
  ultimately have "bread me (l_dev lg) (log_block lg 0) st = None"
    using bread_full [OF T(2)] T(3) by (simp add: log_ok_def)
  moreover have "tails lg = 0 # [1..<nat (lh_n lg)]" using \<open>0 < nat (lh_n lg)\<close> by (simp add: tails_def upt_conv_Cons)
  ultimately show ?thesis using assms(2) by (simp add: commit_def LOGSIZE_def)
qed

lemma head_of_counts: "l_outstanding (head_of lg x) = l_outstanding lg" "l_committing (head_of lg x) = l_committing lg"
  by (simp_all add: head_of_def Let_def split: option.splits)

text \<open>The log and the cache as \<open>initlog\<close> leaves them.\<close>

lemma grouped_boot:
  assumes "dev \<noteq> 0" "head_ok dev (log_init dev start nlog) d" "0 < sint nlog" "initlog me dev start nlog (binit d) = Some (lg, st)"
  shows "grouped dev lg st" "lh_n lg = 0" "l_outstanding lg = 0" "\<not> l_committing lg" "l_start lg = start" "l_size lg = sint nlog"
proof -
  let ?l = "log_init dev start nlog"
  let ?l1 = "head_of ?l (d start)"
  have ok: "cache_ok dev (binit d)" by (rule binit_ok [OF assms(1)])
  have "buf_of dev (\<lambda>_. buf_zero) no = None" for no using assms(1) by (simp add: buf_of_def find_None_iff buf_zero_def)
  then have r: "refs dev (binit d) = (\<lambda>_. 0)" "lock_of dev (binit d) = (\<lambda>_. initsleeplock)" "in_use dev (binit d) = {}"
    by (simp_all add: refs_def lock_of_def in_use_def binit_def fun_eq_iff)
  have l: "l_dev ?l = dev" "length (lh_block ?l) = LOGSIZE" "l_start ?l = start" by (simp_all add: log_init_def)
  have db: "disk (binit d) = d" by (simp add: binit_def)
  have head: "length (d start) = BSIZE" "log_ok dev ?l1" using assms(2) l(3) by (simp_all add: head_ok_def)
  obtain st' where "recover_from_log me ?l (binit d) = Some (?l1\<lparr>lh_n := 0\<rparr>, st')"
    and w: "wrote dev (binit d) (recover_writes ?l1 d) (refs dev (binit d)) st'"
    using recover_spec [OF ok r(3) l(1,2), of me] assms(2) unfolding db l(3) by blast
  then have e: "lg = ?l1\<lparr>lh_n := 0\<rparr>" "st = st'" using assms(4) by (simp_all add: initlog_def)
  note W = wroteD [OF w]
  show f: "lh_n lg = 0" "l_start lg = start" "l_size lg = sint nlog" by (simp_all add: e(1) log_init_def)
  show "l_outstanding lg = 0" "\<not> l_committing lg"
    by (simp_all add: e(1) head_of_counts) (simp_all add: log_init_def)
  have "length (disk st start) = BSIZE"
    using header_spec(2) [OF log_ok_zero [OF head(2)] head(1)] by (simp add: e(2) W(5) recover_writes_def l(3))
  then show "grouped dev lg st"
    using W(1,3,4) r log_ok_zero [OF head(2)] f
    by (simp add: grouped_def trans_def in_use_def e)
qed

section \<open>The steps\<close>

text \<open>An operation in progress has the set of blocks it has logged.\<close>

datatype op_phase = Resting | Calling | Snoozing | Working "u32 set" | Flushing

record log_sys =
  sys_log :: log
  sys_cache :: bcache
  op_at :: "nat \<Rightarrow> op_phase"

definition wake_ops :: "(nat \<Rightarrow> op_phase) \<Rightarrow> nat \<Rightarrow> op_phase" where
  "wake_ops ph = (\<lambda>q. if ph q = Snoozing then Calling else ph q)"

inductive log_step :: "log_sys \<Rightarrow> log_sys \<Rightarrow> bool" where
  enter: "op_at s p = Resting \<Longrightarrow> log_step s (s\<lparr>op_at := (op_at s)(p := Calling)\<rparr>)"
| start: "op_at s p = Calling \<Longrightarrow> begin_op (sys_log s) = Some lg
    \<Longrightarrow> log_step s (s\<lparr>sys_log := lg, op_at := (op_at s)(p := Working {})\<rparr>)"
| snooze: "op_at s p = Calling \<Longrightarrow> begin_op (sys_log s) = None \<Longrightarrow> log_step s (s\<lparr>op_at := (op_at s)(p := Snoozing)\<rparr>)"
| add: "op_at s p = Working B \<Longrightarrow> int (card (insert no B)) \<le> MAXOPBLOCKS \<Longrightarrow> no \<notin> log_area (l_start (sys_log s)) (l_size (sys_log s))
    \<Longrightarrow> log_update (int p) no data (sys_log s) (sys_cache s) = Some (lg, st)
    \<Longrightarrow> log_step s (s\<lparr>sys_log := lg, sys_cache := st, op_at := (op_at s)(p := Working (insert no B))\<rparr>)"
| finish: "op_at s p = Working B \<Longrightarrow> end_op (sys_log s) = Some (False, lg)
    \<Longrightarrow> log_step s (s\<lparr>sys_log := lg, op_at := (wake_ops (op_at s))(p := Resting)\<rparr>)"
| last: "op_at s p = Working B \<Longrightarrow> end_op (sys_log s) = Some (True, lg)
    \<Longrightarrow> log_step s (s\<lparr>sys_log := lg, op_at := (op_at s)(p := Flushing)\<rparr>)"
| flush: "op_at s p = Flushing \<Longrightarrow> commit (int p) (sys_log s) (sys_cache s) = Some (lg, st)
    \<Longrightarrow> log_step s (s\<lparr>sys_log := end_commit lg, sys_cache := st, op_at := (wake_ops (op_at s))(p := Resting)\<rparr>)"

section \<open>The invariant\<close>

fun op_blocks :: "op_phase \<Rightarrow> u32 set" where
  "op_blocks (Working B) = B"
| "op_blocks x = {}"

definition workers :: "log_sys \<Rightarrow> nat set" where
  "workers s = {p. \<exists>B. op_at s p = Working B}"

text \<open>The blocks that the operations in progress may still add.\<close>

definition owed :: "log_sys \<Rightarrow> int" where
  "owed s = (\<Sum>p \<in> workers s. MAXOPBLOCKS - int (card (op_blocks (op_at s p))))"

definition log_inv :: "u32 \<Rightarrow> log_sys \<Rightarrow> bool" where
  "log_inv dev s \<longleftrightarrow> grouped dev (sys_log s) (sys_cache s) \<and> finite (workers s) \<and> l_outstanding (sys_log s) = int (card (workers s))
     \<and> (\<forall>p B. op_at s p = Working B \<longrightarrow> finite B \<and> B \<subseteq> homes (sys_log s) \<and> int (card B) \<le> MAXOPBLOCKS)
     \<and> lh_n (sys_log s) + owed s \<le> int LOGSIZE
     \<and> (l_committing (sys_log s) \<longleftrightarrow> (\<exists>p. op_at s p = Flushing)) \<and> (\<forall>p q. op_at s p = Flushing \<longrightarrow> op_at s q = Flushing \<longrightarrow> p = q)
     \<and> (l_committing (sys_log s) \<longrightarrow> workers s = {}) \<and> (\<not> l_committing (sys_log s) \<and> workers s = {} \<longrightarrow> lh_n (sys_log s) = 0)
     \<and> (\<forall>p. op_at s p = Snoozing \<longrightarrow> begin_op (sys_log s) = None)"

text \<open>The system after a boot from a disk whose log header is in order.\<close>

definition log_started :: "u32 \<Rightarrow> log_sys \<Rightarrow> bool" where
  "log_started dev s \<longleftrightarrow> dev \<noteq> 0 \<and> (\<forall>p. op_at s p = Resting) \<and> (\<exists>me start nlog d. 0 < sint nlog \<and> head_ok dev (log_init dev start nlog) d
     \<and> initlog me dev start nlog (binit d) = Some (sys_log s, sys_cache s))"

lemma log_started_inv: "log_started dev s \<Longrightarrow> log_inv dev s"
proof -
  assume s: "log_started dev s"
  then obtain me start nlog d where b: "dev \<noteq> 0" "head_ok dev (log_init dev start nlog) d" "0 < sint nlog"
    "initlog me dev start nlog (binit d) = Some (sys_log s, sys_cache s)" and r: "op_at s p = Resting" for p
    by (auto simp: log_started_def)
  show "log_inv dev s" using grouped_boot [OF b] r by (simp add: log_inv_def workers_def owed_def LOGSIZE_def)
qed

text \<open>A step that moves one process between phases without blocks.\<close>

lemma workers_upd:
  "workers (s\<lparr>sys_log := lg, op_at := (op_at s)(p := Working B)\<rparr>) = insert p (workers s)"
  "workers (s\<lparr>sys_log := lg, sys_cache := st, op_at := (op_at s)(p := Working B)\<rparr>) = insert p (workers s)"
  "(\<And>B. x \<noteq> Working B) \<Longrightarrow> workers (s\<lparr>op_at := (op_at s)(p := x)\<rparr>) = workers s - {p}"
  by (auto simp: workers_def)

lemma owed_cong:
  assumes "workers s' = workers s" "\<And>p. p \<in> workers s \<Longrightarrow> op_at s' p = op_at s p"
  shows "owed s' = owed s"
  unfolding owed_def assms(1) by (rule sum.cong) (simp_all add: assms(2))

lemma log_inv_idle:
  assumes "log_inv dev s" "op_at s p \<in> {Resting, Calling}" "x \<in> {Calling, Snoozing}" "x = Snoozing \<longrightarrow> begin_op (sys_log s) = None"
  shows "log_inv dev (s\<lparr>op_at := (op_at s)(p := x)\<rparr>)"
proof -
  let ?s = "s\<lparr>op_at := (op_at s)(p := x)\<rparr>"
  have w: "workers ?s = workers s" using assms(2,3) by (auto simp: workers_def)
  have o: "owed ?s = owed s" by (rule owed_cong [OF w]) (use assms(2) in \<open>auto simp: workers_def\<close>)
  have f: "op_at ?s q = Flushing \<longleftrightarrow> op_at s q = Flushing" "op_at ?s q = Working B \<longleftrightarrow> op_at s q = Working B" for q B
    using assms(2,3) by auto
  have z: "op_at ?s q = Snoozing \<longrightarrow> begin_op (sys_log s) = None" for q using assms(1,4) by (auto simp: log_inv_def)
  show ?thesis using assms(1) z unfolding log_inv_def w o f by simp
qed

lemma log_invD:
  assumes "log_inv dev s"
  shows "grouped dev (sys_log s) (sys_cache s)" "finite (workers s)" "l_outstanding (sys_log s) = int (card (workers s))"
    "op_at s p = Working B \<Longrightarrow> finite B \<and> B \<subseteq> homes (sys_log s) \<and> int (card B) \<le> MAXOPBLOCKS"
    "lh_n (sys_log s) + owed s \<le> int LOGSIZE"
    "l_committing (sys_log s) \<longleftrightarrow> (\<exists>p. op_at s p = Flushing)" "op_at s p = Flushing \<Longrightarrow> op_at s q = Flushing \<Longrightarrow> p = q"
    "l_committing (sys_log s) \<Longrightarrow> workers s = {}" "\<not> l_committing (sys_log s) \<Longrightarrow> workers s = {} \<Longrightarrow> lh_n (sys_log s) = 0"
    "op_at s p = Snoozing \<Longrightarrow> begin_op (sys_log s) = None"
  using assms unfolding log_inv_def by blast+

lemma log_inv_ok: "log_inv dev s \<Longrightarrow> log_ok dev (sys_log s)"
  using log_invD(1) by (auto simp: grouped_def trans_def)

lemma owed_bounds:
  assumes "log_inv dev s"
  shows "0 \<le> owed s" "owed s \<le> int (card (workers s)) * MAXOPBLOCKS"
proof -
  have b: "0 \<le> MAXOPBLOCKS - int (card (op_blocks (op_at s p)))" if "p \<in> workers s" for p
    using that log_invD(4) [OF assms] by (auto simp: workers_def)
  then show "0 \<le> owed s" unfolding owed_def by (rule sum_nonneg)
  have "owed s \<le> of_nat (card (workers s)) * MAXOPBLOCKS" unfolding owed_def by (rule sum_bounded_above) simp
  then show "owed s \<le> int (card (workers s)) * MAXOPBLOCKS" by simp
qed

lemma owed_split:
  assumes "finite (workers s)" "p \<in> workers s"
  shows "owed s = (MAXOPBLOCKS - int (card (op_blocks (op_at s p)))) + (\<Sum>q \<in> workers s - {p}. MAXOPBLOCKS - int (card (op_blocks (op_at s q))))"
  unfolding owed_def by (rule sum.remove [OF assms])

lemma rest_cong:
  assumes "\<And>q. q \<noteq> p \<Longrightarrow> op_blocks (f q) = op_blocks (g q)"
  shows "(\<Sum>q \<in> W - {p}. MAXOPBLOCKS - int (card (op_blocks (f q)))) = (\<Sum>q \<in> W - {p}. MAXOPBLOCKS - int (card (op_blocks (g q))))"
  by (rule sum.cong) (use assms in auto)

lemma wake_simps [simp]:
  "wake_ops ph q = Working B \<longleftrightarrow> ph q = Working B" "wake_ops ph q = Flushing \<longleftrightarrow> ph q = Flushing" "wake_ops ph q \<noteq> Snoozing"
  "op_blocks (wake_ops ph q) = op_blocks (ph q)"
  by (auto simp: wake_ops_def)

lemma start_inv:
  assumes "log_inv dev s" "op_at s p = Calling" "begin_op (sys_log s) = Some lg"
  shows "log_inv dev (s\<lparr>sys_log := lg, op_at := (op_at s)(p := Working {})\<rparr>)" (is "log_inv dev ?s")
proof -
  note I = log_invD [OF assms(1)]
  have lg: "lg = (sys_log s)\<lparr>l_outstanding := l_outstanding (sys_log s) + 1\<rparr>" "\<not> l_committing (sys_log s)"
    "lh_n (sys_log s) + (l_outstanding (sys_log s) + 1) * MAXOPBLOCKS \<le> int LOGSIZE"
    using assms(3) by (auto simp: begin_op_def split: if_splits)
  have w: "workers ?s = insert p (workers s)" by (rule workers_upd(1))
  have np: "p \<notin> workers s" using assms(2) by (simp add: workers_def)
  have "owed ?s = MAXOPBLOCKS + (\<Sum>q \<in> workers ?s - {p}. MAXOPBLOCKS - int (card (op_blocks (op_at ?s q))))"
    using owed_split [of ?s p] I(2) by (simp add: w)
  also have "workers ?s - {p} = workers s - {p}" using w by auto
  also have "(\<Sum>q \<in> workers s - {p}. MAXOPBLOCKS - int (card (op_blocks (op_at ?s q)))) = (\<Sum>q \<in> workers s - {p}. MAXOPBLOCKS - int (card (op_blocks (op_at s q))))"
    by (rule rest_cong) simp
  also have "\<dots> = owed s" using np by (simp add: owed_def)
  finally have "owed ?s = MAXOPBLOCKS + owed s" .
  then have room: "lh_n lg + owed ?s \<le> int LOGSIZE"
    using lg(3) owed_bounds(2) [OF assms(1)] by (simp add: lg(1) I(3) distrib_right)
  have "grouped dev lg (sys_cache s)" using I(1) by (simp add: lg(1))
  moreover have "homes lg = homes (sys_log s)" by (simp add: homes_def lg(1))
  moreover have "\<not> (\<exists>q. op_at s q = Flushing)" "\<not> (\<exists>q. op_at s q = Snoozing)" using I(6) lg(2) I(10) assms(3) by auto
  moreover have "l_outstanding lg = int (card (insert p (workers s)))" using I(2,3) np by (simp add: lg(1))
  ultimately show ?thesis
    using I(2) I(4) room lg(2) unfolding log_inv_def w by (auto simp: lg(1) MAXOPBLOCKS_def)
qed


lemma add_inv:
  assumes "log_inv dev s" "op_at s p = Working B" "int (card (insert no B)) \<le> MAXOPBLOCKS"
    "no \<notin> log_area (l_start (sys_log s)) (l_size (sys_log s))" "log_update (int p) no data (sys_log s) (sys_cache s) = Some (lg, st)"
  shows "log_inv dev (s\<lparr>sys_log := lg, sys_cache := st, op_at := (op_at s)(p := Working (insert no B))\<rparr>)" (is "log_inv dev ?s")
proof -
  note I = log_invD [OF assms(1)]
  note G = grouped_update [OF I(1) assms(4,5)]
  note A = G(1) log_update_room(1,2) [OF assms(5)]
  have p: "p \<in> workers s" using assms(2) by (auto simp: workers_def)
  have w: "workers ?s = workers s" using p by (simp add: workers_upd(2) insert_absorb)
  have B: "finite B" "B \<subseteq> homes (sys_log s)" using I(4) [OF assms(2)] by auto
  have h: "homes lg = insert no (homes (sys_log s))"
    using add_block_ok(2) [OF log_inv_ok [OF assms(1)] A(2,3) assms(4)] by (simp add: A(1) homes_def)
  have n: "lh_n lg = (if no \<in> homes (sys_log s) then lh_n (sys_log s) else lh_n (sys_log s) + 1)"
    by (simp add: A(1) add_block_def homes_def)
  have keep: "l_outstanding lg = l_outstanding (sys_log s)" "l_committing lg = l_committing (sys_log s)"
    by (simp_all add: A(1) add_block_def)
  have nc: "\<not> l_committing (sys_log s)" using I(8) p by auto
  have "(\<Sum>q \<in> workers s - {p}. MAXOPBLOCKS - int (card (op_blocks (op_at ?s q)))) = (\<Sum>q \<in> workers s - {p}. MAXOPBLOCKS - int (card (op_blocks (op_at s q))))"
    by (rule rest_cong) simp
  then have o: "owed ?s = owed s + int (card B) - int (card (insert no B))"
    using owed_split [of ?s p] owed_split [OF I(2) p] I(2) p assms(2) by (simp add: w)
  have "lh_n lg + owed ?s \<le> int LOGSIZE"
  proof (cases "no \<in> homes (sys_log s)")
    case True
    have "card B \<le> card (insert no B)" using B(1) by (intro card_mono) auto
    then show ?thesis using I(5) True by (simp add: n o)
  next
    case False
    then have "no \<notin> B" using B(2) by blast
    then show ?thesis using I(5) False B(1) by (simp add: n o)
  qed
  moreover have "begin_op lg = None" if "op_at s q = Snoozing" for q
    using I(10) [OF that] n by (auto simp: begin_op_def keep split: if_splits)
  moreover have "\<forall>q C. op_at ?s q = Working C \<longrightarrow> finite C \<and> C \<subseteq> homes lg \<and> int (card C) \<le> MAXOPBLOCKS"
    using I(4) assms(3) B h by auto
  moreover have "op_at ?s q = Flushing \<longleftrightarrow> op_at s q = Flushing" "op_at ?s q = Snoozing \<longleftrightarrow> op_at s q = Snoozing" for q
    using assms(2) by auto
  ultimately show ?thesis
    using I(2,3,6,7,8) p G(2) nc unfolding log_inv_def w by (simp add: keep) auto
qed

lemma end_op_Some:
  assumes "end_op lg = Some (c, lg')"
  shows "\<not> l_committing lg" "c \<longleftrightarrow> l_outstanding lg = 1" "lg' = lg\<lparr>l_outstanding := l_outstanding lg - 1, l_committing := c\<rparr>"
  using assms by (auto simp: end_op_def Let_def split: if_splits)

text \<open>The process that leaves takes its blocks off what is owed.\<close>

lemma leave_owed:
  assumes "log_inv dev s" "op_at s p = Working B" "workers s' = workers s - {p}" "\<And>q. q \<noteq> p \<Longrightarrow> op_blocks (op_at s' q) = op_blocks (op_at s q)"
  shows "owed s' \<le> owed s" "card (workers s') + 1 = card (workers s)" "finite (workers s')"
proof -
  note I = log_invD [OF assms(1)]
  have p: "p \<in> workers s" using assms(2) by (auto simp: workers_def)
  have "owed s' = (\<Sum>q \<in> workers s - {p}. MAXOPBLOCKS - int (card (op_blocks (op_at s q))))"
    unfolding owed_def assms(3) by (rule rest_cong) (rule assms(4))
  then show "owed s' \<le> owed s" using owed_split [OF I(2) p] I(4) [OF assms(2)] assms(2) by simp
  show "card (workers s') + 1 = card (workers s)" using card_Suc_Diff1 [OF I(2) p] unfolding assms(3) by simp
  show "finite (workers s')" using I(2) unfolding assms(3) by simp
qed

lemma finish_inv:
  assumes "log_inv dev s" "op_at s p = Working B" "end_op (sys_log s) = Some (False, lg)"
  shows "log_inv dev (s\<lparr>sys_log := lg, op_at := (wake_ops (op_at s))(p := Resting)\<rparr>)" (is "log_inv dev ?s")
proof -
  note I = log_invD [OF assms(1)]
  note E = end_op_Some [OF assms(3)]
  have w: "workers ?s = workers s - {p}" by (auto simp: workers_def)
  note L = leave_owed [OF assms(1,2) w, simplified]
  have "grouped dev lg (sys_cache s)" "homes lg = homes (sys_log s)" using I(1) by (simp_all add: E(3) homes_def)
  moreover have "workers s - {p} \<noteq> {}"
  proof
    assume "workers s - {p} = {}"
    then have "card (workers ?s) = 0" by (simp only: w card.empty)
    then show False using L(2) E(2) I(3) by simp
  qed
  moreover have "l_outstanding lg = int (card (workers s - {p}))" using L(2) I(3) w by (simp add: E(3))
  moreover have "lh_n lg + owed ?s \<le> int LOGSIZE" using I(5) L(1) by (simp add: E(3))
  ultimately show ?thesis
    using I(4,6) E(1) L(3) unfolding log_inv_def w by (auto simp: E(3) w)
qed

lemma last_inv:
  assumes "log_inv dev s" "op_at s p = Working B" "end_op (sys_log s) = Some (True, lg)"
  shows "log_inv dev (s\<lparr>sys_log := lg, op_at := (op_at s)(p := Flushing)\<rparr>)" (is "log_inv dev ?s")
proof -
  note I = log_invD [OF assms(1)]
  note E = end_op_Some [OF assms(3)]
  have "card (workers s) = 1" using E(2) I(3) by simp
  moreover have "p \<in> workers s" using assms(2) by (auto simp: workers_def)
  ultimately have w0: "workers s = {p}" by (metis card_1_singletonE singletonD)
  have w: "workers ?s = {}" using w0 by (auto simp: workers_def set_eq_iff)
  have "lh_n lg \<le> int LOGSIZE" using I(5) owed_bounds(1) [OF assms(1)] by (simp add: E(3))
  moreover have "grouped dev lg (sys_cache s)" using I(1) by (simp add: E(3))
  moreover have "begin_op lg = None" by (simp add: E(3) begin_op_def)
  moreover have "op_at s q \<noteq> Flushing" for q using I(6) E(1) by blast
  moreover have "l_outstanding lg = 0" "l_committing lg" using E(2) by (simp_all add: E(3))
  moreover have "op_at ?s q \<noteq> Working C" for q C using w by (auto simp: workers_def)
  ultimately show ?thesis unfolding log_inv_def w by (simp add: owed_def w)
qed

lemma flush_inv:
  assumes "log_inv dev s" "op_at s p = Flushing" "commit (int p) (sys_log s) (sys_cache s) = Some (lg, st)"
  shows "log_inv dev (s\<lparr>sys_log := end_commit lg, sys_cache := st, op_at := (wake_ops (op_at s))(p := Resting)\<rparr>)" (is "log_inv dev ?s")
proof -
  note I = log_invD [OF assms(1)]
  have "lh_n (sys_log s) \<noteq> int LOGSIZE" using commit_full [OF I(1)] assms(3) by auto
  then have "lh_n (sys_log s) < int LOGSIZE" using log_inv_ok [OF assms(1)] by (simp add: log_ok_def)
  then have lg: "lg = (sys_log s)\<lparr>lh_n := 0\<rparr>" "grouped dev lg st"
    using grouped_commit [OF I(1), of "int p"] assms(3) by auto
  have c: "l_committing (sys_log s)" using I(6) assms(2) by blast
  then have w0: "workers s = {}" by (rule I(8))
  then have nw: "op_at s q \<noteq> Working C" for q C by (auto simp: workers_def)
  then have w: "workers ?s = {}" by (auto simp: workers_def)
  have "op_at ?s q \<noteq> Flushing" for q using I(7) [OF assms(2)] by auto
  moreover have "grouped dev (end_commit lg) st" using lg(2) by (simp add: end_commit_def)
  moreover have "owed ?s = 0" by (simp only: owed_def w sum.empty)
  moreover have "op_at ?s q \<noteq> Working C" "op_at ?s q \<noteq> Snoozing" for q C using nw by auto
  moreover have "l_outstanding (sys_log s) = 0" using I(3) w0 by simp
  ultimately show ?thesis unfolding log_inv_def w by (simp add: end_commit_def lg(1))
qed

lemma log_step_inv:
  assumes "log_inv dev s" "log_step s s'"
  shows "log_inv dev s'"
  using assms(2)
proof (cases rule: log_step.cases)
  case (add p B no data lg st)
  then show ?thesis using add_inv [OF assms(1)] by blast
qed (use log_inv_idle [OF assms(1)] start_inv [OF assms(1)] finish_inv [OF assms(1)] last_inv [OF assms(1)] flush_inv [OF assms(1)] in blast)+

interpretation log_ops: invariant_system "log_started dev" log_step "log_inv dev" for dev
proof unfold_locales
  show "log_started dev s \<Longrightarrow> log_inv dev s" for s by (rule log_started_inv)
  show "log_inv dev s \<Longrightarrow> log_step s s' \<Longrightarrow> log_inv dev s'" for s s' by (rule log_step_inv)
qed


text \<open>The log from block 2 on of a volume of zeros, after the boot.\<close>

definition booted_log :: "u32 \<Rightarrow> int \<Rightarrow> (nat \<Rightarrow> op_phase) \<Rightarrow> log_sys" where
  "booted_log nlog n ph = \<lparr>sys_log = (log_init 1 2 nlog)\<lparr>l_outstanding := n\<rparr>,
     sys_cache = snd (the (initlog 1 1 2 nlog (binit zeros))), op_at = ph\<rparr>"

lemma head_of_zero: "lh_n lg = 0 \<Longrightarrow> get32 0 x = 0 \<Longrightarrow> head_of lg x = lg"
  by (cases lg) (simp add: head_of_def tails_def)

lemma booted_log_started:
  assumes "0 < sint nlog"
  shows "log_started 1 (booted_log nlog 0 (\<lambda>_. Resting))"
proof -
  let ?l = "log_init 1 2 nlog"
  have "sint nlog < 2 ^ 31" using sint_lt [of nlog] by simp
  then have l: "l_dev ?l = 1" "length (lh_block ?l) = LOGSIZE" "0 < l_size ?l" "l_size ?l < 2 ^ 31" "l_start ?l = 2" "lh_n ?l = 0"
    "?l\<lparr>l_outstanding := 0\<rparr> = ?l" "?l\<lparr>lh_n := 0\<rparr> = ?l"
    using assms by (simp_all add: log_init_def)
  have z: "length (zeros 2) = BSIZE" "get32 0 (zeros 2) = 0" using mkfs_trans(3) by (simp_all add: zeros_def)
  then have h: "head_ok 1 ?l zeros" using empty_log(1) [OF l(1-4), of zeros] by (simp add: l(5))
  have t: "cache_ok 1 (binit zeros)" "in_use 1 (binit zeros) = {}" using mkfs_trans(1,2) by (auto simp: trans_def)
  have d: "disk (binit zeros) = zeros" by (simp add: binit_def)
  obtain st where "recover_from_log 1 ?l (binit zeros) = Some ((head_of ?l (zeros 2))\<lparr>lh_n := 0\<rparr>, st)"
    using recover_spec [OF t l(1,2), of 1] h unfolding d l(5) by blast
  then have "initlog 1 1 2 nlog (binit zeros) = Some (?l, st)"
    unfolding head_of_zero [OF l(6) z(2)] l(8) by (simp add: initlog_def)
  then show ?thesis using h assms l(7) by (auto simp: log_started_def booted_log_def)
qed

definition one_op :: log_sys where
  "one_op = booted_log 31 1 ((\<lambda>_. Resting)(0 := Working {}))"

lemma one_op_reached:
  "log_started 1 (booted_log 31 0 (\<lambda>_. Resting))" "log_step\<^sup>*\<^sup>* (booted_log 31 0 (\<lambda>_. Resting)) one_op"
proof -
  let ?s = "booted_log 31 0 (\<lambda>_. Resting)"
  show "log_started 1 ?s" by (rule booted_log_started) simp
  let ?t = "booted_log 31 0 ((\<lambda>_. Resting)(0 := Calling))"
  have "begin_op (sys_log ?t) = Some ((log_init 1 2 31)\<lparr>l_outstanding := 1\<rparr>)"
    by (simp add: begin_op_def booted_log_def log_init_def MAXOPBLOCKS_def LOGSIZE_def)
  then have "log_step ?t one_op" using log_step.start [of ?t 0] by (simp add: one_op_def booted_log_def)
  moreover have "log_step ?s ?t" using log_step.enter [of ?s 0] by (simp add: booted_log_def)
  ultimately show "log_step\<^sup>*\<^sup>* ?s one_op" by (meson r_into_rtranclp converse_rtranclp_into_rtranclp)
qed

text \<open>One operation in progress on a log of 31 blocks can add its first block; it can also end, and commit.\<close>

definition one_commit :: log_sys where
  "one_commit = one_op\<lparr>sys_log := (log_init 1 2 31)\<lparr>l_committing := True\<rparr>, op_at := (\<lambda>_. Resting)(0 := Flushing)\<rparr>"

lemma one_commit_reached: "log_step\<^sup>*\<^sup>* (booted_log 31 0 (\<lambda>_. Resting)) one_commit"
proof -
  have "end_op (sys_log one_op) = Some (True, (log_init 1 2 31)\<lparr>l_committing := True\<rparr>)"
    by (simp add: end_op_def one_op_def booted_log_def log_init_def)
  moreover have "op_at one_op 0 = Working {}" "(op_at one_op)(0 := Flushing) = (\<lambda>_. Resting)(0 := Flushing)"
    by (simp_all add: one_op_def booted_log_def)
  ultimately have "log_step one_op one_commit" using log_step.last [of one_op 0 "{}"] by (simp add: one_commit_def)
  with one_op_reached(2) show ?thesis by (rule rtranclp.rtrancl_into_rtrancl)
qed


section \<open>A log as large as the header\<close>

text \<open>An operation adds blocks that are not in the log yet.\<close>

lemma add_run:
  assumes "log_inv dev s" "op_at s p = Working B" "distinct nos" "set nos \<inter> homes (sys_log s) = {}"
    "set nos \<inter> log_area (l_start (sys_log s)) (l_size (sys_log s)) = {}" "card B + length nos \<le> 10"
    "lh_n (sys_log s) + int (length nos) < l_size (sys_log s)" "lh_n (sys_log s) + int (length nos) \<le> 30"
  shows "\<exists>s'. log_step\<^sup>*\<^sup>* s s' \<and> op_at s' = (op_at s)(p := Working (B \<union> set nos)) \<and> lh_n (sys_log s') = lh_n (sys_log s) + int (length nos)
    \<and> homes (sys_log s') = homes (sys_log s) \<union> set nos \<and> l_start (sys_log s') = l_start (sys_log s) \<and> l_size (sys_log s') = l_size (sys_log s)"
  using assms
proof (induction nos arbitrary: s B)
  case Nil
  then have "op_at s = (op_at s)(p := Working B)" by (simp add: fun_upd_idem)
  then show ?case by (intro exI [of _ s]) simp
next
  case (Cons no nos)
  note inv = Cons.prems(1) and w = Cons.prems(2)
  note I = log_invD [OF inv]
  have p: "p \<in> workers s" using w by (auto simp: workers_def)
  then have "card (workers s) \<noteq> 0" using I(2) by auto
  then have g: "lh_n (sys_log s) < int LOGSIZE" "lh_n (sys_log s) < l_size (sys_log s) - 1" "1 \<le> l_outstanding (sys_log s)"
    using Cons.prems(7,8) I(3) by (simp_all add: LOGSIZE_def)
  define lg where "lg = add_block no (sys_log s)"
  have fin: "finite B" using I(4) [OF w] by simp
  have new: "no \<notin> log_area (l_start (sys_log s)) (l_size (sys_log s))" "no \<notin> homes (sys_log s)" using Cons.prems(4,5) by auto
  have c: "card (insert no B) \<le> card B + 1" using fin by (simp add: card_insert_if)
  obtain st where "log_update (int p) no [] (sys_log s) (sys_cache s) = Some (lg, st)"
    using log_update_spec [OF grouped_trans [OF I(1)] g new(1), of "int p" "[]"] by (auto simp: lg_def)
  define t where "t = s\<lparr>sys_log := lg, sys_cache := st, op_at := (op_at s)(p := Working (insert no B))\<rparr>"
  have step: "log_step s t" unfolding t_def
    by (rule log_step.add [OF w _ new(1)]) (use c Cons.prems(6) \<open>log_update _ _ _ _ _ = Some (lg, st)\<close> in \<open>simp_all add: MAXOPBLOCKS_def\<close>)
  have n: "lh_n lg = lh_n (sys_log s) + 1" using new(2) by (simp add: lg_def add_block_def homes_def)
  have h: "homes lg = insert no (homes (sys_log s))" using add_block_ok(2) [OF log_inv_ok [OF inv] g(1,2) new(1)] by (simp add: lg_def homes_def)
  have k: "l_start lg = l_start (sys_log s)" "l_size lg = l_size (sys_log s)" by (simp_all add: lg_def)
  have "\<exists>s'. log_step\<^sup>*\<^sup>* t s' \<and> op_at s' = (op_at t)(p := Working (insert no B \<union> set nos)) \<and> lh_n (sys_log s') = lh_n (sys_log t) + int (length nos)
    \<and> homes (sys_log s') = homes (sys_log t) \<union> set nos \<and> l_start (sys_log s') = l_start (sys_log t) \<and> l_size (sys_log s') = l_size (sys_log t)"
    by (rule Cons.IH) (use log_step_inv [OF inv step] Cons.prems(3-8) c in \<open>auto simp: t_def h n k\<close>)
  then show ?case using step by (auto simp: t_def h n k intro: converse_rtranclp_into_rtranclp)
qed

definition three_ops :: log_sys where
  "three_ops = booted_log 30 3 (\<lambda>q. if q < 3 then Working {} else Resting)"

definition blocks_from :: "nat \<Rightarrow> nat \<Rightarrow> u32 list" where
  "blocks_from a n = map of_nat [a..<a + n]"

lemma three_ops_reached:
  "log_started 1 (booted_log 30 0 (\<lambda>_. Resting))" "log_step\<^sup>*\<^sup>* (booted_log 30 0 (\<lambda>_. Resting)) three_ops"
proof -
  let ?l = "\<lambda>k :: int. (log_init 1 2 30)\<lparr>l_outstanding := k\<rparr>"
  let ?s = "booted_log 30"
  let ?p = "\<lambda>k q :: nat. if q < k then Working {} else Resting"
  show "log_started 1 (booted_log 30 0 (\<lambda>_. Resting))"
    by (rule booted_log_started) simp
  have one: "log_step\<^sup>*\<^sup>* (?s (int k) (?p k)) (?s (int (Suc k)) (?p (Suc k)))" if "k < 3" for k
  proof -
    have a: "log_step (?s (int k) (?p k)) (?s (int k) ((?p k)(k := Calling)))"
      using log_step.enter [of "?s (int k) (?p k)" k] by (simp add: booted_log_def)
    have "begin_op (?l (int k)) = Some (?l (int (Suc k)))"
      using that by (simp add: begin_op_def log_init_def MAXOPBLOCKS_def LOGSIZE_def)
    then have b: "log_step (?s (int k) ((?p k)(k := Calling))) (?s (int (Suc k)) ((?p k)(k := Working {})))"
      using log_step.start [of "?s (int k) ((?p k)(k := Calling))" k] by (simp add: booted_log_def)
    have "(?p k)(k := Working {}) = ?p (Suc k)" by (rule ext) auto
    with b have "log_step\<^sup>*\<^sup>* (?s (int k) ((?p k)(k := Calling))) (?s (int (Suc k)) (?p (Suc k)))" by simp
    with a show ?thesis by (rule converse_rtranclp_into_rtranclp [where r = log_step])
  qed
  have "n \<le> 3 \<Longrightarrow> log_step\<^sup>*\<^sup>* (?s 0 (?p 0)) (?s (int n) (?p n))" for n
  proof (induction n)
    case (Suc n)
    have "log_step\<^sup>*\<^sup>* (?s 0 (?p 0)) (?s (int n) (?p n))" using Suc by simp
    also have "log_step\<^sup>*\<^sup>* (?s (int n) (?p n)) (?s (int (Suc n)) (?p (Suc n)))" by (rule one [of n]) (use Suc in simp)
    finally show ?case .
  qed simp
  from this [of 3] have "log_step\<^sup>*\<^sup>* (?s 0 (?p 0)) (?s (int 3) (?p 3))" by blast
  moreover have "?s 0 (?p 0) = booted_log 30 0 (\<lambda>_. Resting)" by simp
  moreover have "?s (int 3) (?p 3) = three_ops" by (simp add: three_ops_def)
  ultimately show "log_step\<^sup>*\<^sup>* (booted_log 30 0 (\<lambda>_. Resting)) three_ops" by (simp only:)
qed

text \<open>
  C40: three operations within their limits of 10 blocks each bring \<open>log_write\<close> to its panic on a log
  of \<open>LOGSIZE\<close> blocks, the size \<open>mkfs\<close> gives it: \<open>begin_op\<close> reserves 30 blocks, the log has room for 29.
\<close>


theorem full_log_panics:
  "\<exists>s0 s p B no. log_started 1 s0 \<and> l_size (sys_log s0) = int LOGSIZE \<and> log_step\<^sup>*\<^sup>* s0 s \<and> op_at s p = Working B
    \<and> int (card (insert no B)) \<le> MAXOPBLOCKS \<and> no \<notin> log_area (l_start (sys_log s)) (l_size (sys_log s)) \<and> log_add no (sys_log s) = None
    \<and> (\<forall>data. log_update (int p) no data (sys_log s) (sys_cache s) = None)"
proof -
  have start: "log_inv 1 three_ops" by (rule log_ops.reachable_inv [OF three_ops_reached])
  have out: "set (blocks_from a n) \<inter> log_area 2 30 = {}" if "100 \<le> a" "a + n \<le> 200" for a n
  proof -
    have "of_nat x \<noteq> (of_nat (i + 2) :: u32)" if "a \<le> x" "x < a + n" "i < 30" for x i
      using that \<open>100 \<le> a\<close> \<open>a + n \<le> 200\<close> by (simp only: of_nat_eq_iff word_unat_eq_iff unat_of_nat) simp
    then show ?thesis by (fastforce simp: blocks_from_def log_area_def)
  qed
  have d: "distinct (blocks_from a n)" "length (blocks_from a n) = n" if "a + n \<le> 200" for a n
    using that by (auto simp: blocks_from_def distinct_map inj_on_def word_unat_eq_iff unat_of_nat)
  have apart: "set (blocks_from a n) \<inter> set (blocks_from b m) = {}" if "a + n \<le> b" "b + m \<le> 200" for a n b m
    using that by (auto simp: blocks_from_def word_unat_eq_iff unat_of_nat)
  have t: "op_at three_ops = (\<lambda>q. if q < 3 then Working {} else Resting)" "lh_n (sys_log three_ops) = 0" "homes (sys_log three_ops) = {}"
    "l_start (sys_log three_ops) = 2" "l_size (sys_log three_ops) = 30"
    by (simp_all add: three_ops_def booted_log_def log_init_def homes_def)
  obtain s1 where s1: "log_step\<^sup>*\<^sup>* three_ops s1" "op_at s1 = (op_at three_ops)(0 := Working (set (blocks_from 100 10)))" "lh_n (sys_log s1) = 10"
    "homes (sys_log s1) = set (blocks_from 100 10)" "l_start (sys_log s1) = 2" "l_size (sys_log s1) = 30"
    using add_run [OF start, of 0 "{}" "blocks_from 100 10"] d [of 100 10] out [of 100 10] by (auto simp: t)
  have i1: "log_inv 1 s1" by (rule log_ops.reachable_inv [OF three_ops_reached(1) rtranclp_trans [OF three_ops_reached(2) s1(1)]])
  obtain s2 where s2: "log_step\<^sup>*\<^sup>* s1 s2" "op_at s2 = (op_at s1)(1 := Working (set (blocks_from 110 10)))" "lh_n (sys_log s2) = 20"
    "homes (sys_log s2) = set (blocks_from 100 10) \<union> set (blocks_from 110 10)" "l_start (sys_log s2) = 2" "l_size (sys_log s2) = 30"
    using add_run [OF i1, of 1 "{}" "blocks_from 110 10"] d [of 110 10] out [of 110 10] apart [of 100 10 110 10] by (auto simp: s1 t)
  have i2: "log_inv 1 s2" by (rule log_ops.reachable_inv [OF three_ops_reached(1) rtranclp_trans [OF three_ops_reached(2) rtranclp_trans [OF s1(1) s2(1)]]])
  obtain s3 where s3: "log_step\<^sup>*\<^sup>* s2 s3" "op_at s3 = (op_at s2)(2 := Working (set (blocks_from 120 9)))" "lh_n (sys_log s3) = 29"
    "l_start (sys_log s3) = 2" "l_size (sys_log s3) = 30"
    using add_run [OF i2, of 2 "{}" "blocks_from 120 9"] d [of 120 9] out [of 120 9] apart [of 100 10 120 9] apart [of 110 10 120 9]
    by (auto simp: s2 s1 t Int_Un_distrib)
  have "log_add 129 (sys_log s3) = None" using s3(3,5) by (simp add: log_add_def)
  moreover have "log_update 2 129 data (sys_log s3) (sys_cache s3) = None" for data
  proof (cases "log_update 2 129 data (sys_log s3) (sys_cache s3)")
    case (Some r)
    then have "log_update 2 129 data (sys_log s3) (sys_cache s3) = Some (fst r, snd r)" by simp
    from log_update_room(2) [OF this] s3(3,5) show ?thesis by simp
  qed simp
  moreover have "int (card (insert 129 (set (blocks_from 120 9)))) \<le> MAXOPBLOCKS"
    using card_length [of "129 # blocks_from 120 9"] d(2) [of 120 9] by (simp add: MAXOPBLOCKS_def)
  moreover have "129 \<notin> log_area (l_start (sys_log s3)) (l_size (sys_log s3))"
    using out [of 129 1] by (simp add: s3 blocks_from_def)
  moreover have "op_at s3 2 = Working (set (blocks_from 120 9))" by (simp add: s3(2))
  moreover have "log_step\<^sup>*\<^sup>* (booted_log 30 0 (\<lambda>_. Resting)) s3"
    using three_ops_reached(2) s1(1) s2(1) s3(1) by (meson rtranclp_trans)
  moreover have "l_size (sys_log (booted_log 30 0 (\<lambda>_. Resting))) = int LOGSIZE"
    by (simp add: booted_log_def log_init_def LOGSIZE_def)
  ultimately show ?thesis using three_ops_reached(1)
    by (intro exI [of _ "booted_log 30 0 (\<lambda>_. Resting)"] exI [of _ s3] exI [of _ "2 :: nat"] exI [of _ "set (blocks_from 120 9)"] exI [of _ "129 :: u32"])
      simp
qed

end
