(* ===== verification/Xv6_Blocks.thy ===== *)
theory Xv6_Blocks
  imports Xv6_Log
begin

text \<open>
  The blocks layer of the xv6 file system (\<open>kernel/fs.c\<close>): the superblock, the bitmap of free blocks,
  \<open>balloc\<close> and \<open>bfree\<close>, over the log and the buffer cache, for one process inside a transaction.
  Block numbers of \<open>int\<close> variables are natural numbers; the theorems assume volumes of less than
  \<open>2 ^ 31\<close> blocks, so that they do not overflow.
\<close>

section \<open>State\<close>

record superblock =
  sb_magic :: u32
  sb_size :: u32
  sb_nblocks :: u32
  sb_ninodes :: u32
  sb_nlog :: u32
  sb_logstart :: u32
  sb_inodestart :: u32
  sb_bmapstart :: u32

definition FSMAGIC :: u32 where "FSMAGIC = 0x10203040"
definition BPB :: nat where "BPB = BSIZE * 8"
definition IPB :: nat where "IPB = 16"

definition BBLOCK :: "superblock \<Rightarrow> nat \<Rightarrow> u32" where
  "BBLOCK sb b = of_nat (b div BPB) + sb_bmapstart sb"

definition IBLOCK :: "superblock \<Rightarrow> u32 \<Rightarrow> u32" where
  "IBLOCK sb i = of_nat (unat i div IPB) + sb_inodestart sb"

text \<open>The file system of the device: \<open>sb\<close>, the log, the cache.\<close>

record fsys =
  sblk :: superblock
  flog :: log
  cache :: bcache

abbreviation fdev :: "fsys \<Rightarrow> u32" where
  "fdev s \<equiv> l_dev (flog s)"

text \<open>The operations of the cache and of the log on this state.\<close>

definition fread :: "int \<Rightarrow> u32 \<Rightarrow> fsys \<Rightarrow> (nat \<times> fsys) option" where
  "fread me no s = do { (b, c) \<leftarrow> bread me (fdev s) no (cache s); Some (b, s\<lparr>cache := c\<rparr>) }"

definition frelse :: "int \<Rightarrow> nat \<Rightarrow> fsys \<Rightarrow> fsys option" where
  "frelse me b s = do { c \<leftarrow> brelse me b (cache s); Some (s\<lparr>cache := c\<rparr>) }"

definition fdata :: "nat \<Rightarrow> fsys \<Rightarrow> block" where
  "fdata b s = b_data (bufs (cache s) b)"

definition fput :: "nat \<Rightarrow> block \<Rightarrow> fsys \<Rightarrow> fsys" where
  "fput b x s = s\<lparr>cache := set_data b x (cache s)\<rparr>"

definition flogw :: "nat \<Rightarrow> fsys \<Rightarrow> fsys option" where
  "flogw b s = do { (lg, c) \<leftarrow> log_write b (flog s) (cache s); Some (s\<lparr>flog := lg, cache := c\<rparr>) }"

section \<open>Operations\<close>

definition superblock_of :: "block \<Rightarrow> superblock" where
  "superblock_of x = \<lparr>sb_magic = get32 0 x, sb_size = get32 4 x, sb_nblocks = get32 8 x, sb_ninodes = get32 12 x,
     sb_nlog = get32 16 x, sb_logstart = get32 20 x, sb_inodestart = get32 24 x, sb_bmapstart = get32 28 x\<rparr>"

definition readsb :: "int \<Rightarrow> u32 \<Rightarrow> bcache \<Rightarrow> (superblock \<times> bcache) option" where
  "readsb me dev c = do {
     (b, c) \<leftarrow> bread me dev 1 c;
     let sb = superblock_of (b_data (bufs c b));
     c \<leftarrow> brelse me b c;
     Some (sb, c)
   }"

definition fsinit :: "int \<Rightarrow> u32 \<Rightarrow> bcache \<Rightarrow> fsys option" where
  "fsinit me dev c = do {
     (sb, c) \<leftarrow> readsb me dev c;
     guard (sb_magic sb = FSMAGIC);
     (lg, c) \<leftarrow> initlog me dev (sb_logstart sb) (sb_nlog sb) c;
     Some \<lparr>sblk = sb, flog = lg, cache = c\<rparr>
   }"

definition bzero :: "int \<Rightarrow> u32 \<Rightarrow> fsys \<Rightarrow> fsys option" where
  "bzero me bno s = do {
     (b, s) \<leftarrow> fread me bno s;
     s \<leftarrow> flogw b (fput b (replicate BSIZE 0) s);
     frelse me b s
   }"

text \<open>The bit of block \<open>bi\<close> of a bitmap block.\<close>

definition bit_mask :: "nat \<Rightarrow> u8" where
  "bit_mask bi = push_bit (bi mod 8) 1"

definition bit_free :: "block \<Rightarrow> nat \<Rightarrow> bool" where
  "bit_free x bi \<longleftrightarrow> x ! (bi div 8) AND bit_mask bi = 0"

fun balloc_loop :: "int \<Rightarrow> nat list \<Rightarrow> fsys \<Rightarrow> (u32 \<times> fsys) option" where
  "balloc_loop me [] s = Some (0, s)"
| "balloc_loop me (b # bs) s = do {
     (bp, s) \<leftarrow> fread me (BBLOCK (sblk s) b) s;
     (case find (bit_free (fdata bp s)) [0..<min BPB (unat (sb_size (sblk s)) - b)] of
        Some bi \<Rightarrow> do {
          let x = fdata bp s;
          s \<leftarrow> flogw bp (fput bp (x[bi div 8 := x ! (bi div 8) OR bit_mask bi]) s);
          s \<leftarrow> frelse me bp s;
          s \<leftarrow> bzero me (of_nat (b + bi)) s;
          Some (of_nat (b + bi), s)
        }
      | None \<Rightarrow> do {
          s \<leftarrow> frelse me bp s;
          balloc_loop me bs s
        })
   }"

text \<open>The values of \<open>b\<close> in the outer loop.\<close>

definition group_starts :: "nat \<Rightarrow> nat list" where
  "group_starts n = map (\<lambda>k. k * BPB) [0..<(n + BPB - 1) div BPB]"

definition balloc :: "int \<Rightarrow> fsys \<Rightarrow> (u32 \<times> fsys) option" where
  "balloc me s = balloc_loop me (group_starts (unat (sb_size (sblk s)))) s"

definition bfree :: "int \<Rightarrow> u32 \<Rightarrow> fsys \<Rightarrow> fsys option" where
  "bfree me b s = do {
     (bp, s) \<leftarrow> fread me (BBLOCK (sblk s) (unat b)) s;
     let bi = unat b mod BPB;
     let x = fdata bp s;
     guard (\<not> bit_free x bi);
     s \<leftarrow> flogw bp (fput bp (x[bi div 8 := x ! (bi div 8) AND NOT (bit_mask bi)]) s);
     frelse me bp s
   }"

section \<open>A process in a transaction\<close>

text \<open>
  Inside a transaction \<open>me\<close> holds the buffers of the blocks \<open>H\<close>, nobody holds another one, and the
  contents of the blocks are \<open>V\<close>: those of the transaction are pinned, the others are on the disk.
\<close>

definition txn :: "int \<Rightarrow> u32 set \<Rightarrow> (u32 \<Rightarrow> block) \<Rightarrow> fsys \<Rightarrow> bool" where
  "txn me H V s \<longleftrightarrow> cache_ok (fdev s) (cache s) \<and> log_ok (fdev s) (flog s) \<and> 1 \<le> l_outstanding (flog s)
     \<and> view (fdev s) (cache s) = V \<and> finite H
     \<and> refs (fdev s) (cache s) = (\<lambda>no. (if no \<in> homes (flog s) then 1 else 0) + (if no \<in> H then 1 else 0))
     \<and> lock_of (fdev s) (cache s) = (\<lambda>no. if no \<in> H then \<lparr>sl_locked = 1, sl_pid = me\<rparr> else initsleeplock)
     \<and> (\<forall>no. no \<notin> homes (flog s) \<longrightarrow> V no = disk (cache s) no) \<and> (\<forall>no. length (V no) = BSIZE)"

abbreviation holds :: "fsys \<Rightarrow> u32 \<Rightarrow> nat \<Rightarrow> bool" where
  "holds s no b \<equiv> has_buf (fdev s) (cache s) no b"

text \<open>The blocks an operation may still add: four buffers stay free for reading.\<close>

definition spare :: "fsys \<Rightarrow> int" where
  "spare s = min 26 (l_size (flog s) - 1) - lh_n (flog s)"

text \<open>What every operation leaves as it is, and the buffers it does not touch.\<close>

definition same_fs :: "u32 set \<Rightarrow> fsys \<Rightarrow> fsys \<Rightarrow> bool" where
  "same_fs H s s' \<longleftrightarrow> sblk s' = sblk s \<and> fdev s' = fdev s \<and> l_start (flog s') = l_start (flog s) \<and> l_size (flog s') = l_size (flog s)
     \<and> disk (cache s') = disk (cache s) \<and> writes (cache s') = writes (cache s) \<and> homes (flog s) \<subseteq> homes (flog s')
     \<and> (\<forall>no b. no \<in> H \<longrightarrow> holds s no b \<longrightarrow> holds s' no b)"

lemma same_fs_trans: "same_fs H s s' \<Longrightarrow> same_fs K s' s'' \<Longrightarrow> same_fs (H \<inter> K) s s''"
  unfolding same_fs_def by auto

lemma same_fs_mono: "same_fs H s s' \<Longrightarrow> K \<subseteq> H \<Longrightarrow> same_fs K s s'"
  unfolding same_fs_def by auto

lemma same_fs_refl [simp]: "same_fs H s s"
  unfolding same_fs_def by auto

lemma same_fsD:
  assumes "same_fs H s s'"
  shows "sblk s' = sblk s" "fdev s' = fdev s" "l_start (flog s') = l_start (flog s)" "l_size (flog s') = l_size (flog s)"
    "no \<in> H \<Longrightarrow> holds s no b \<Longrightarrow> holds s' no b"
  using assms unfolding same_fs_def by auto

lemma txnD:
  assumes "txn me H V s"
  shows "length (V no) = BSIZE" "finite H" "cache_ok (fdev s) (cache s)" "log_ok (fdev s) (flog s)" "view (fdev s) (cache s) = V"
  using assms by (simp_all add: txn_def)

lemma spare_card: "txn me H V s \<Longrightarrow> int (card (homes (flog s))) = min 26 (l_size (flog s) - 1) - spare s"
  using card_homes [OF txnD(4)] by (simp add: spare_def)

lemma holds_data: "txn me H V s \<Longrightarrow> holds s no b \<Longrightarrow> fdata b s = V no"
  using has_buf_views(1) [of "fdev s" "cache s" no b] by (simp add: txn_def fdata_def)

lemma fread_ok:
  assumes "txn me H V s" "no \<notin> H" "0 \<le> spare s" "card H \<le> 3"
  shows "\<exists>b s'. fread me no s = Some (b, s') \<and> txn me (insert no H) V s' \<and> same_fs H s s' \<and> holds s' no b \<and> spare s' = spare s"
proof -
  let ?d = "fdev s" and ?c = "cache s"
  have T: "cache_ok ?d ?c" "finite H" "lock_of ?d ?c no = initsleeplock"
    "refs ?d ?c = (\<lambda>no. (if no \<in> homes (flog s) then 1 else 0) + (if no \<in> H then 1 else 0))"
    using assms(1,2) by (simp_all add: txn_def)
  have "in_use ?d ?c = homes (flog s) \<union> H" by (auto simp: in_use_def T(4))
  then have "card (in_use ?d ?c) \<le> card (homes (flog s)) + card H" by (simp add: card_Un_le)
  also have "\<dots> < NBUF" using spare_card [OF assms(1)] assms(3,4) by (simp add: NBUF_def)
  finally have "card (in_use ?d ?c) < NBUF" .
  then obtain b c where r: "bread me ?d no ?c = Some (b, c)" and h: "has_buf ?d c no b"
    and m: "moved ?d ?c (view ?d ?c) ((refs ?d ?c)(no := refs ?d ?c no + 1))
       ((lock_of ?d ?c)(no := \<lparr>sl_locked = 1, sl_pid = me\<rparr>)) (disk ?c) (writes ?c) c"
    using bread_moved [OF T(1,3)] by metis
  note M = movedD [OF m]
  let ?s = "s\<lparr>cache := c\<rparr>"
  have "fread me no s = Some (b, ?s)" by (simp add: fread_def r)
  moreover have "txn me (insert no H) V ?s"
    using assms(1,2) M(1-6) unfolding txn_def by (auto simp: fun_eq_iff)
  moreover have "same_fs H s ?s"
    unfolding same_fs_def using M(5-7) T(4) by auto
  moreover have "holds ?s no b" using h by simp
  moreover have "spare ?s = spare s" by (simp add: spare_def)
  ultimately show ?thesis by blast
qed

lemma frelse_ok:
  assumes "txn me H V s" "no \<in> H" "holds s no b"
  shows "\<exists>s'. frelse me b s = Some s' \<and> txn me (H - {no}) V s' \<and> same_fs (H - {no}) s s' \<and> spare s' = spare s"
proof -
  let ?d = "fdev s" and ?c = "cache s"
  have T: "cache_ok ?d ?c" "holdingsleep me (lock_of ?d ?c no)" "view ?d ?c = V"
    "refs ?d ?c = (\<lambda>no. (if no \<in> homes (flog s) then 1 else 0) + (if no \<in> H then 1 else 0))"
    using assms(1,2) by (simp_all add: txn_def)
  have "refs ?d ?c no = 1 \<longrightarrow> view ?d ?c no = disk ?c no" using assms(1,2) by (simp add: txn_def)
  then obtain c where r: "brelse me b ?c = Some c" and m: "moved ?d ?c (view ?d ?c) ((refs ?d ?c)(no := refs ?d ?c no - 1))
      ((lock_of ?d ?c)(no := initsleeplock)) (disk ?c) (writes ?c) c"
    using brelse_ex [OF T(1) assms(3) T(2)] by blast
  note M = movedD [OF m]
  let ?s = "s\<lparr>cache := c\<rparr>"
  have "frelse me b s = Some ?s" by (simp add: frelse_def r)
  moreover have "txn me (H - {no}) V ?s"
    using assms(1,2) M(1-6) unfolding txn_def by (auto simp: fun_eq_iff)
  moreover have "same_fs (H - {no}) s ?s"
    unfolding same_fs_def using M(5-7) T(4) by auto
  moreover have "spare ?s = spare s" by (simp add: spare_def)
  ultimately show ?thesis by blast
qed

text \<open>Changing a buffer and recording it.\<close>

lemma flog_put_ok:
  assumes "txn me H V s" "no \<in> H" "holds s no b" "length x = BSIZE" "1 \<le> spare s" "no \<notin> log_area (l_start (flog s)) (l_size (flog s))"
  shows "\<exists>s'. flogw b (fput b x s) = Some s' \<and> txn me H (V(no := x)) s' \<and> same_fs H s s' \<and> spare s - 1 \<le> spare s'"
proof -
  let ?d = "fdev s" and ?c = "cache s" and ?lg = "flog s"
  have T: "cache_ok ?d ?c" "log_ok ?d ?lg" "1 \<le> l_outstanding ?lg" "view ?d ?c = V"
    "refs ?d ?c = (\<lambda>no. (if no \<in> homes ?lg then 1 else 0) + (if no \<in> H then 1 else 0))"
    using assms(1) by (simp_all add: txn_def)
  have n: "lh_n ?lg < int LOGSIZE" "lh_n ?lg < l_size ?lg - 1" using assms(5) by (auto simp: spare_def LOGSIZE_def)
  define c1 where "c1 = set_data b x ?c"
  note M1 = movedD [OF set_data_ok [OF T(1) assms(3), of x, folded c1_def]]
  have h1: "has_buf ?d c1 no b" using M1(7) [OF assms(3)] assms(2) by (simp add: T(5))
  have b: "b_blockno (bufs c1 b) = no" using h1 buf_of_iff [OF M1(1)] by (simp add: has_buf_def)
  let ?old = "no \<in> homes ?lg"
  define c2 where "c2 = (if ?old then c1 else bpin b c1)"
  have r: "log_write b ?lg c1 = Some (add_block no ?lg, c2)"
    unfolding c2_def homes_def by (rule log_write_eq [OF T(2) n T(3) b])
  have m2: "moved ?d c1 (view ?d c1) ((refs ?d c1)(no := refs ?d c1 no + (if ?old then 0 else 1))) (lock_of ?d c1) (disk c1) (writes c1) c2"
    using pin_ok(1) [OF M1(1) h1] M1(1) by (auto simp: c2_def moved_def)
  note M2 = movedD [OF m2]
  let ?s = "s\<lparr>flog := add_block no ?lg, cache := c2\<rparr>"
  have "flogw b (fput b x s) = Some ?s" by (simp add: flogw_def fput_def r [unfolded c1_def])
  moreover have L: "log_ok ?d (add_block no ?lg)" "homes (add_block no ?lg) = insert no (homes ?lg)"
    using add_block_ok [OF T(2) n assms(6)] by (simp_all add: homes_def)
  have "txn me H (V(no := x)) ?s"
    using assms(1,2,4) M1(1-6) M2(1-6) L unfolding txn_def by (auto simp: fun_eq_iff)
  moreover have "same_fs H s ?s"
    unfolding same_fs_def using M1(5-7) M2(5-7) L(2) assms(2) by (auto simp: T(5) M1(3))
  moreover have "spare s - 1 \<le> spare ?s" by (auto simp: spare_def add_block_def)
  ultimately show ?thesis by blast
qed

text \<open>The usual way to change a block: read, change, record, release.\<close>

lemma change_block:
  assumes "txn me H V s" "no \<notin> H" "card H \<le> 3" "length x = BSIZE" "1 \<le> spare s" "no \<notin> log_area (l_start (flog s)) (l_size (flog s))"
  obtains b s1 s2 s3 where "fread me no s = Some (b, s1)" "fdata b s1 = V no" "sblk s1 = sblk s"
    "flogw b (fput b x s1) = Some s2" "frelse me b s2 = Some s3"
    "txn me H (V(no := x)) s3" "same_fs H s s3" "spare s - 1 \<le> spare s3"
proof -
  have "0 \<le> spare s" using assms(5) by simp
  then obtain b s1 where s1: "fread me no s = Some (b, s1)" "txn me (insert no H) V s1" "same_fs H s s1" "holds s1 no b" "spare s1 = spare s"
    using fread_ok [OF assms(1,2)] assms(3) by blast
  note S1 = same_fsD [OF s1(3)]
  obtain s2 where s2: "flogw b (fput b x s1) = Some s2" "txn me (insert no H) (V(no := x)) s2" "same_fs (insert no H) s1 s2" "spare s1 - 1 \<le> spare s2"
    using flog_put_ok [OF s1(2) _ s1(4) assms(4)] assms(5,6) s1(5) S1 by auto
  have "holds s2 no b" using same_fsD(5) [OF s2(3) _ s1(4)] by simp
  then obtain s3 where s3: "frelse me b s2 = Some s3" "txn me (insert no H - {no}) (V(no := x)) s3" "same_fs (insert no H - {no}) s2 s3" "spare s3 = spare s2"
    using frelse_ok [OF s2(2)] by blast
  have H: "insert no H - {no} = H" using assms(2) by auto
  have "same_fs (H \<inter> insert no H \<inter> H) s s3" by (rule same_fs_trans [OF same_fs_trans [OF s1(3) s2(3)] s3(3) [unfolded H]])
  then have "same_fs H s s3" by (rule same_fs_mono) auto
  then show thesis using that [OF s1(1) holds_data [OF s1(2,4)] S1(1) s2(1) s3(1)] s3 s2(4) s1(5) unfolding H by simp
qed

text \<open>Reading a block and releasing it again.\<close>

lemma look_block:
  assumes "txn me H V s" "no \<notin> H" "card H \<le> 3" "0 \<le> spare s"
  obtains b s1 s2 where "fread me no s = Some (b, s1)" "fdata b s1 = V no" "sblk s1 = sblk s" "frelse me b s1 = Some s2"
    "txn me H V s2" "same_fs H s s2" "spare s2 = spare s"
proof -
  obtain b s1 where s1: "fread me no s = Some (b, s1)" "txn me (insert no H) V s1" "same_fs H s s1" "holds s1 no b" "spare s1 = spare s"
    using fread_ok [OF assms(1,2,4,3)] by blast
  obtain s2 where s2: "frelse me b s1 = Some s2" "txn me (insert no H - {no}) V s2" "same_fs (insert no H - {no}) s1 s2" "spare s2 = spare s1"
    using frelse_ok [OF s1(2) _ s1(4)] by blast
  have H: "insert no H - {no} = H" using assms(2) by auto
  have "same_fs (H \<inter> H) s s2" by (rule same_fs_trans [OF s1(3) s2(3) [unfolded H]])
  then show thesis using that [OF s1(1) holds_data [OF s1(2,4)] same_fsD(1) [OF s1(3)] s2(1)] s2 s1(5) unfolding H by simp
qed

lemma bzero_ok:
  assumes "txn me H V s" "no \<notin> H" "card H \<le> 3" "1 \<le> spare s" "no \<notin> log_area (l_start (flog s)) (l_size (flog s))"
  shows "\<exists>s'. bzero me no s = Some s' \<and> txn me H (V(no := replicate BSIZE 0)) s' \<and> same_fs H s s' \<and> spare s - 1 \<le> spare s'"
proof -
  have len: "length (replicate BSIZE (0 :: u8)) = BSIZE" by simp
  show ?thesis by (rule change_block [OF assms(1-3) len assms(4,5), of thesis for thesis]) (auto simp: bzero_def)
qed

section \<open>The bitmap\<close>

lemma bit_free_iff: "bit_free x i \<longleftrightarrow> \<not> bit (x ! (i div 8)) (i mod 8)"
  unfolding bit_free_def bit_mask_def
  by (simp add: bit_iff_and_push_bit_not_eq_0)

lemma byte_bit: "length x = BSIZE \<Longrightarrow> i < BPB \<Longrightarrow> i div 8 < length x"
  by (simp add: BPB_def)

lemma same_bit: "(i :: nat) div 8 = j div 8 \<Longrightarrow> i mod 8 = j mod 8 \<Longrightarrow> i = j"
  by (metis div_mult_mod_eq)

lemma mask_bit: "bit (bit_mask j) n \<longleftrightarrow> n = j mod 8"
  by (auto simp: bit_mask_def bit_simps)

lemma bit_free_set:
  assumes "length x = BSIZE" "j < BPB"
  shows "bit_free (x[j div 8 := x ! (j div 8) OR bit_mask j]) i \<longleftrightarrow> bit_free x i \<and> i \<noteq> j"
  using byte_bit [OF assms] same_bit [of i j] by (auto simp: bit_free_iff nth_list_update bit_or_iff mask_bit)

lemma bit_free_clear:
  assumes "length x = BSIZE" "j < BPB"
  shows "bit_free (x[j div 8 := x ! (j div 8) AND NOT (bit_mask j)]) i \<longleftrightarrow> bit_free x i \<or> i = j"
proof -
  have "bit (NOT (bit_mask j)) (i mod 8) \<longleftrightarrow> i mod 8 \<noteq> j mod 8" by (simp add: bit_not_iff mask_bit)
  then show ?thesis
    using byte_bit [OF assms] same_bit [of i j] by (auto simp: bit_free_iff nth_list_update bit_and_iff)
qed

definition used :: "superblock \<Rightarrow> (u32 \<Rightarrow> block) \<Rightarrow> nat \<Rightarrow> bool" where
  "used sb V b \<longleftrightarrow> \<not> bit_free (V (BBLOCK sb b)) (b mod BPB)"

definition nblocks :: "superblock \<Rightarrow> nat" where
  "nblocks sb = unat (sb_size sb)"

definition bitmap_blocks :: "superblock \<Rightarrow> u32 set" where
  "bitmap_blocks sb = BBLOCK sb ` {..<nblocks sb}"

definition inode_blocks :: "superblock \<Rightarrow> u32 set" where
  "inode_blocks sb = IBLOCK sb ` {i. i < sb_ninodes sb}"

text \<open>The parts of the volume are apart, and the blocks that are not data are marked as used.\<close>

definition meta_blocks :: "fsys \<Rightarrow> u32 set" where
  "meta_blocks s = {0, 1} \<union> log_area (l_start (flog s)) (l_size (flog s)) \<union> bitmap_blocks (sblk s) \<union> inode_blocks (sblk s)"

definition fs_inv :: "fsys \<Rightarrow> (u32 \<Rightarrow> block) \<Rightarrow> bool" where
  "fs_inv s V \<longleftrightarrow> 0 < nblocks (sblk s) \<and> nblocks (sblk s) < 2 ^ 31
     \<and> bitmap_blocks (sblk s) \<inter> log_area (l_start (flog s)) (l_size (flog s)) = {}
     \<and> inode_blocks (sblk s) \<inter> log_area (l_start (flog s)) (l_size (flog s)) = {}
     \<and> bitmap_blocks (sblk s) \<inter> inode_blocks (sblk s) = {}
     \<and> (\<forall>b < nblocks (sblk s). of_nat b \<in> meta_blocks s \<longrightarrow> used (sblk s) V b)"

lemma meta_same: "same_fs H s s' \<Longrightarrow> meta_blocks s' = meta_blocks s"
  unfolding meta_blocks_def by (simp add: same_fsD)

lemma fs_inv_same: "same_fs H s s' \<Longrightarrow> fs_inv s' V = fs_inv s V"
  unfolding fs_inv_def by (simp add: same_fsD meta_same)

lemma fs_invD:
  assumes "fs_inv s V"
  shows "0 < nblocks (sblk s)" "nblocks (sblk s) < 2 ^ 31"
    "no \<in> bitmap_blocks (sblk s) \<Longrightarrow> no \<notin> log_area (l_start (flog s)) (l_size (flog s)) \<and> no \<notin> inode_blocks (sblk s)"
    "no \<in> inode_blocks (sblk s) \<Longrightarrow> no \<notin> log_area (l_start (flog s)) (l_size (flog s)) \<and> no \<notin> bitmap_blocks (sblk s)"
    "b < nblocks (sblk s) \<Longrightarrow> of_nat b \<in> meta_blocks s \<Longrightarrow> used (sblk s) V b"
  using assms unfolding fs_inv_def by blast+

lemma block_number_inj: "a < 2 ^ 31 \<Longrightarrow> b < 2 ^ 31 \<Longrightarrow> (of_nat a :: u32) = of_nat b \<Longrightarrow> a = b"
  using area_inj [of a b 0] by simp

lemma BBLOCK_inj:
  assumes "a < 2 ^ 31" "b < 2 ^ 31"
  shows "BBLOCK sb a = BBLOCK sb b \<longleftrightarrow> a div BPB = b div BPB"
proof -
  have "a div BPB < 2 ^ 31" "b div BPB < 2 ^ 31" using assms div_le_dividend [of a BPB] div_le_dividend [of b BPB] by linarith+
  then show ?thesis using block_number_inj by (auto simp: BBLOCK_def)
qed

definition mark :: "superblock \<Rightarrow> nat \<Rightarrow> (u32 \<Rightarrow> block) \<Rightarrow> u32 \<Rightarrow> block" where
  "mark sb b V = (let x = V (BBLOCK sb b); i = b mod BPB in V(BBLOCK sb b := x[i div 8 := x ! (i div 8) OR bit_mask i]))"

definition unmark :: "superblock \<Rightarrow> nat \<Rightarrow> (u32 \<Rightarrow> block) \<Rightarrow> u32 \<Rightarrow> block" where
  "unmark sb b V = (let x = V (BBLOCK sb b); i = b mod BPB in V(BBLOCK sb b := x[i div 8 := x ! (i div 8) AND NOT (bit_mask i)]))"

definition taken :: "superblock \<Rightarrow> nat \<Rightarrow> (u32 \<Rightarrow> block) \<Rightarrow> u32 \<Rightarrow> block" where
  "taken sb b V = (mark sb b V)(of_nat b := replicate BSIZE 0)"

lemma BPB_pos [simp]: "0 < BPB" "i mod BPB < BPB"
  by (simp_all add: BPB_def BSIZE_def)

lemma used_mark:
  assumes "a < 2 ^ 31" "b < 2 ^ 31" "length (V (BBLOCK sb b)) = BSIZE"
  shows "used sb (mark sb b V) a \<longleftrightarrow> a = b \<or> used sb V a" "used sb (unmark sb b V) a \<longleftrightarrow> a \<noteq> b \<and> used sb V a"
proof -
  have "a div BPB = b div BPB \<Longrightarrow> a mod BPB = b mod BPB \<Longrightarrow> a = b" by (metis div_mult_mod_eq)
  then show "used sb (mark sb b V) a \<longleftrightarrow> a = b \<or> used sb V a" "used sb (unmark sb b V) a \<longleftrightarrow> a \<noteq> b \<and> used sb V a"
    using BBLOCK_inj [OF assms(1,2), of sb] bit_free_set [OF assms(3) BPB_pos(2)] bit_free_clear [OF assms(3) BPB_pos(2)]
    by (auto simp: used_def mark_def unmark_def Let_def)
qed

lemma used_upd_other: "b < nblocks sb \<Longrightarrow> no \<notin> bitmap_blocks sb \<Longrightarrow> used sb (V(no := x)) b = used sb V b"
  by (auto simp: used_def bitmap_blocks_def)

lemma mark_other: "no \<noteq> BBLOCK sb b \<Longrightarrow> mark sb b V no = V no" "no \<noteq> BBLOCK sb b \<Longrightarrow> unmark sb b V no = V no"
  by (simp_all add: mark_def unmark_def Let_def)

section \<open>Allocating\<close>

definition first_free :: "superblock \<Rightarrow> (u32 \<Rightarrow> block) \<Rightarrow> nat option" where
  "first_free sb V = find (\<lambda>b. \<not> used sb V b) [0..<nblocks sb]"

lemma used_group: "bi < BPB \<Longrightarrow> used sb V (k * BPB + bi) \<longleftrightarrow> \<not> bit_free (V (BBLOCK sb (k * BPB))) bi"
  by (simp add: used_def BBLOCK_def)

lemma group_scan:
  assumes "find (bit_free (V (BBLOCK sb (k * BPB)))) [0..<min BPB (nblocks sb - k * BPB)] = r"
    "\<forall>b < k * BPB. b < nblocks sb \<longrightarrow> used sb V b"
  shows "r = Some bi \<Longrightarrow> bi < BPB \<and> k * BPB + bi < nblocks sb \<and> \<not> used sb V (k * BPB + bi) \<and> first_free sb V = Some (k * BPB + bi)"
    "r = None \<Longrightarrow> \<forall>b < Suc k * BPB. b < nblocks sb \<longrightarrow> used sb V b"
proof -
  have split: "\<exists>i < BPB. b = k * BPB + i" if "k * BPB \<le> b" "b < Suc k * BPB" for b
    using that by (intro exI [of _ "b - k * BPB"]) auto
  show "\<forall>b < Suc k * BPB. b < nblocks sb \<longrightarrow> used sb V b" if r: "r = None"
  proof (intro allI impI)
    fix b assume b: "b < Suc k * BPB" "b < nblocks sb"
    show "used sb V b"
    proof (cases "b < k * BPB")
      case False
      then obtain i where i: "i < BPB" "b = k * BPB + i" using split [of b] b(1) by (meson not_less)
      then have "i < min BPB (nblocks sb - k * BPB)" using b(2) by auto
      then have "\<not> bit_free (V (BBLOCK sb (k * BPB))) i" using assms(1) [unfolded r find_upt_None] by blast
      then show ?thesis using used_group [OF i(1)] i(2) by simp
    qed (use assms(2) b(2) in blast)
  qed
  show "bi < BPB \<and> k * BPB + bi < nblocks sb \<and> \<not> used sb V (k * BPB + bi) \<and> first_free sb V = Some (k * BPB + bi)" if r: "r = Some bi"
  proof -
    have f: "bi < BPB" "k * BPB + bi < nblocks sb" "\<not> used sb V (k * BPB + bi)" "\<forall>j < bi. used sb V (k * BPB + j)"
      using find_upt_Some [OF assms(1) [unfolded r]] used_group by auto
    have "used sb V b" if "b < k * BPB + bi" for b
      using that f(2,4) assms(2) by (cases "b < k * BPB") (auto simp: not_less le_iff_add)
    then have "first_free sb V = Some (k * BPB + bi)"
      unfolding first_free_def find_Some_iff using f(2,3) by (intro exI [of _ "k * BPB + bi"]) simp
    then show ?thesis using f by blast
  qed
qed

text \<open>The group of a block, as the loops reach it.\<close>

lemma group_starts_eq: "group_starts n = map (\<lambda>k. k * BPB) [0..<(n + BPB - 1) div BPB]"
  by (simp add: group_starts_def)

lemma groups_cover: "b < n \<Longrightarrow> b < ((n + BPB - 1) div BPB) * BPB"
proof -
  assume b: "b < n"
  let ?m = "n + BPB - 1"
  have "?m mod BPB < BPB" "?m div BPB * BPB + ?m mod BPB = ?m" by simp_all
  then show ?thesis using b BPB_pos(1) by linarith
qed

lemma group_block: "k < (n + BPB - 1) div BPB \<Longrightarrow> k * BPB < n"
proof -
  assume k: "k < (n + BPB - 1) div BPB"
  then have "Suc k * BPB \<le> (n + BPB - 1) div BPB * BPB" by (intro mult_le_mono1) simp
  also have "\<dots> \<le> n + BPB - 1" by simp
  finally show ?thesis unfolding mult_Suc using BPB_pos(1) by linarith
qed

definition balloc_post :: "int \<Rightarrow> u32 set \<Rightarrow> (u32 \<Rightarrow> block) \<Rightarrow> fsys \<Rightarrow> u32 \<Rightarrow> fsys \<Rightarrow> bool" where
  "balloc_post me H V s r s' \<longleftrightarrow> same_fs H s s' \<and> spare s - 2 \<le> spare s' \<and>
     (case first_free (sblk s) V of
        None \<Rightarrow> r = 0 \<and> txn me H V s'
      | Some b \<Rightarrow> r = of_nat b \<and> txn me H (taken (sblk s) b V) s')"

lemma first_freeD: "first_free sb V = Some b \<Longrightarrow> b < nblocks sb \<and> \<not> used sb V b"
  unfolding first_free_def by (drule find_upt_Some) blast

lemma balloc_hit:
  assumes "txn me H V s" "fs_inv s V" "card H \<le> 3" "2 \<le> spare s" "H \<inter> bitmap_blocks (sblk s) = {}"
    "k * BPB < nblocks (sblk s)" "find (bit_free (V (BBLOCK (sblk s) (k * BPB)))) [0..<min BPB (nblocks (sblk s) - k * BPB)] = Some bi"
    "first_free (sblk s) V = Some (k * BPB + bi)" "bi < BPB" "of_nat (k * BPB + bi) \<notin> H"
  shows "\<exists>s'. balloc_loop me (k * BPB # bs) s = Some (of_nat (k * BPB + bi), s') \<and> balloc_post me H V s (of_nat (k * BPB + bi)) s'"
proof -
  let ?sb = "sblk s" and ?b = "k * BPB + bi" and ?no = "BBLOCK (sblk s) (k * BPB)"
  let ?x = "(V ?no)[bi div 8 := V ?no ! (bi div 8) OR bit_mask bi]"
  note F = fs_invD [OF assms(2)]
  have f: "?b < nblocks ?sb" "\<not> used ?sb V ?b" using first_freeD [OF assms(8)] by auto
  have no: "?no \<in> bitmap_blocks ?sb" using assms(6) by (auto simp: bitmap_blocks_def)
  have eq: "BBLOCK ?sb ?b = ?no" using assms(9) by (simp add: BBLOCK_def)
  have m: "V(?no := ?x) = mark ?sb ?b V" using assms(9) by (simp add: mark_def Let_def eq)
  have len: "length ?x = BSIZE" using txnD(1) [OF assms(1)] by simp
  have meta: "of_nat ?b \<notin> meta_blocks s" using F(5) f by blast
  have free: "?no \<notin> H" and sp: "1 \<le> spare s" and la: "?no \<notin> log_area (l_start (flog s)) (l_size (flog s))"
    using no assms(4,5) F(3) [OF no] by auto
  obtain bp s1 s2 s3 where r: "fread me ?no s = Some (bp, s1)" "fdata bp s1 = V ?no" "sblk s1 = sblk s"
    "flogw bp (fput bp ?x s1) = Some s2" "frelse me bp s2 = Some s3"
    and t3: "txn me H (mark ?sb ?b V) s3" "same_fs H s s3" "spare s - 1 \<le> spare s3"
    by (rule change_block [OF assms(1) free assms(3) len sp la, unfolded m])
  have "of_nat ?b \<notin> log_area (l_start (flog s3)) (l_size (flog s3))" using meta same_fsD [OF t3(2)] by (simp add: meta_blocks_def)
  then obtain s4 where s4: "bzero me (of_nat ?b) s3 = Some s4" "txn me H (taken ?sb ?b V) s4" "same_fs H s3 s4" "spare s3 - 1 \<le> spare s4"
    using bzero_ok [OF t3(1) assms(10,3)] assms(4) t3(3) by (auto simp: taken_def)
  have "balloc_loop me (k * BPB # bs) s = Some (of_nat ?b, s4)"
    using r s4(1) assms(7) by (simp add: nblocks_def Let_def)
  moreover have "same_fs (H \<inter> H) s s4" by (rule same_fs_trans [OF t3(2) s4(3)])
  ultimately show ?thesis using s4(2,4) t3(3) assms(8) by (auto simp: balloc_post_def)
qed

lemma balloc_loop_ok:
  assumes "txn me H V s" "fs_inv s V" "card H \<le> 3" "2 \<le> spare s" "H \<inter> bitmap_blocks (sblk s) = {}"
    "\<forall>b < nblocks (sblk s). of_nat b \<in> H \<longrightarrow> used (sblk s) V b"
    "G = (nblocks (sblk s) + BPB - 1) div BPB" "k \<le> G" "\<forall>b < k * BPB. b < nblocks (sblk s) \<longrightarrow> used (sblk s) V b"
  shows "\<exists>r s'. balloc_loop me (map (\<lambda>k. k * BPB) [k..<G]) s = Some (r, s') \<and> balloc_post me H V s r s'"
  using assms
proof (induction "G - k" arbitrary: k s)
  case 0
  then have "first_free (sblk s) V = None"
    unfolding first_free_def find_upt_None using groups_cover [of _ "nblocks (sblk s)"] by simp
  then show ?case using "0.prems"(1) "0.hyps" "0.prems"(8) by (simp add: balloc_post_def)
next
  case (Suc n)
  let ?sb = "sblk s" and ?no = "BBLOCK (sblk s) (k * BPB)"
  have kG: "k < G" using Suc.hyps(2) by simp
  have list: "map (\<lambda>k. k * BPB) [k..<G] = k * BPB # map (\<lambda>k. k * BPB) [Suc k..<G]" using kG by (simp add: upt_conv_Cons)
  have kb: "k * BPB < nblocks ?sb" by (rule group_block) (use kG Suc.prems(7) in simp)
  define q where "q = find (bit_free (V ?no)) [0..<min BPB (nblocks ?sb - k * BPB)]"
  note scan = group_scan [OF q_def [symmetric] Suc.prems(9)]
  show ?case
  proof (cases q)
    case (Some bi)
    note b = scan(1) [OF Some]
    then have "of_nat (k * BPB + bi) \<notin> H" using Suc.prems(6) by blast
    then show ?thesis
      unfolding list using balloc_hit [OF Suc.prems(1-5) kb] b Some unfolding q_def by blast
  next
    case None
    have "?no \<in> bitmap_blocks ?sb" using kb by (auto simp: bitmap_blocks_def)
    then have free: "?no \<notin> H" and sp: "0 \<le> spare s" using Suc.prems(4,5) by auto
    obtain bp s1 s2 where r: "fread me ?no s = Some (bp, s1)" "fdata bp s1 = V ?no" "sblk s1 = sblk s" "frelse me bp s1 = Some s2"
      and t2: "txn me H V s2" "same_fs H s s2" "spare s2 = spare s"
      by (rule look_block [OF Suc.prems(1) free Suc.prems(3) sp])
    note S2 = same_fsD [OF t2(2)]
    have "fs_inv s2 V" using fs_inv_same [OF t2(2)] Suc.prems(2) by simp
    moreover have "n = G - Suc k" using Suc.hyps(2) by simp
    ultimately obtain r' s' where l: "balloc_loop me (map (\<lambda>k. k * BPB) [Suc k..<G]) s2 = Some (r', s')" "balloc_post me H V s2 r' s'"
      using Suc.hyps(1) [of "Suc k" s2, unfolded S2(1) t2(3), OF _ t2(1) _ Suc.prems(3-7) _ scan(2) [OF None]] kG by auto
    have "balloc_loop me (map (\<lambda>k. k * BPB) [k..<G]) s = Some (r', s')"
      unfolding list using r l(1) None by (simp add: q_def nblocks_def)
    moreover have "balloc_post me H V s r' s'"
      using l(2) same_fs_trans [OF t2(2), of H s'] t2(3) by (simp add: balloc_post_def S2 split: option.splits)
    ultimately show ?thesis by blast
  qed
qed

lemma balloc_ok:
  assumes "txn me H V s" "fs_inv s V" "card H \<le> 3" "2 \<le> spare s" "H \<inter> bitmap_blocks (sblk s) = {}"
    "\<forall>b < nblocks (sblk s). of_nat b \<in> H \<longrightarrow> used (sblk s) V b"
  shows "\<exists>r s'. balloc me s = Some (r, s') \<and> balloc_post me H V s r s'"
  using balloc_loop_ok [OF assms refl, of 0] by (simp add: balloc_def group_starts_eq nblocks_def)

section \<open>What allocation keeps\<close>

lemma taken_parts:
  assumes "fs_inv s V" "first_free (sblk s) V = Some b" "\<forall>no. length (V no) = BSIZE"
  shows "b < nblocks (sblk s)" "\<not> used (sblk s) V b" "of_nat b \<notin> meta_blocks s"
    "taken (sblk s) b V (of_nat b) = replicate BSIZE 0"
    "no \<noteq> of_nat b \<Longrightarrow> no \<notin> bitmap_blocks (sblk s) \<Longrightarrow> taken (sblk s) b V no = V no"
    "a < nblocks (sblk s) \<Longrightarrow> used (sblk s) (taken (sblk s) b V) a \<longleftrightarrow> a = b \<or> used (sblk s) V a"
    "fs_inv s (taken (sblk s) b V)"
proof -
  let ?sb = "sblk s"
  note F = fs_invD [OF assms(1)]
  show b: "b < nblocks ?sb" "\<not> used ?sb V b" using first_freeD [OF assms(2)] by auto
  show m: "of_nat b \<notin> meta_blocks s" using F(5) b by blast
  then have nb: "of_nat b \<notin> bitmap_blocks ?sb" by (simp add: meta_blocks_def)
  have BB: "BBLOCK ?sb b \<in> bitmap_blocks ?sb" using b(1) by (simp add: bitmap_blocks_def)
  show "taken ?sb b V (of_nat b) = replicate BSIZE 0" by (simp add: taken_def)
  show "no \<noteq> of_nat b \<Longrightarrow> no \<notin> bitmap_blocks ?sb \<Longrightarrow> taken ?sb b V no = V no"
    using BB mark_other(1) [of no ?sb b V] by (auto simp: taken_def)
  show u: "used ?sb (taken ?sb b V) a \<longleftrightarrow> a = b \<or> used ?sb V a" if "a < nblocks ?sb" for a
    using used_upd_other [OF that nb] used_mark(1) [of a b V ?sb] that b(1) F(2) assms(3) by (simp add: taken_def)
  show "fs_inv s (taken ?sb b V)" using assms(1) u unfolding fs_inv_def by blast
qed

lemma bfree_ok:
  assumes "txn me H V s" "fs_inv s V" "card H \<le> 3" "1 \<le> spare s" "H \<inter> bitmap_blocks (sblk s) = {}" "unat b < nblocks (sblk s)"
  shows "if used (sblk s) V (unat b)
    then \<exists>s'. bfree me b s = Some s' \<and> txn me H (unmark (sblk s) (unat b) V) s' \<and> same_fs H s s' \<and> spare s - 1 \<le> spare s'
    else bfree me b s = None"
proof -
  let ?sb = "sblk s" and ?no = "BBLOCK (sblk s) (unat b)" and ?i = "unat b mod BPB"
  let ?x = "(V ?no)[?i div 8 := V ?no ! (?i div 8) AND NOT (bit_mask ?i)]"
  have no: "?no \<in> bitmap_blocks ?sb" using assms(6) by (auto simp: bitmap_blocks_def)
  have free: "?no \<notin> H" and la: "?no \<notin> log_area (l_start (flog s)) (l_size (flog s))"
    using no assms(5) fs_invD(3) [OF assms(2) no] by auto
  have len: "length ?x = BSIZE" using txnD(1) [OF assms(1)] by simp
  have m: "V(?no := ?x) = unmark ?sb (unat b) V" by (simp add: unmark_def Let_def)
  obtain bp s1 s2 s3 where r: "fread me ?no s = Some (bp, s1)" "fdata bp s1 = V ?no" "sblk s1 = sblk s"
    "flogw bp (fput bp ?x s1) = Some s2" "frelse me bp s2 = Some s3"
    and t3: "txn me H (unmark ?sb (unat b) V) s3" "same_fs H s s3" "spare s - 1 \<le> spare s3"
    by (rule change_block [OF assms(1) free assms(3) len assms(4) la, unfolded m])
  then show ?thesis by (simp add: bfree_def used_def Let_def)
qed

section \<open>Properties\<close>

text \<open>
  C13: \<open>balloc\<close> gives out the first block the bitmap has as free, marked and zeroed, and changes nothing
  else: no block that was in use and none of the superblock, log, inodes.  It returns 0, and changes
  nothing, exactly when no block is free.  It comes back in every such state with all buffers released
  that it took, having logged two blocks at most, and nothing has reached the disk.
\<close>

theorem balloc_first_free:
  assumes "txn me {} V s" "fs_inv s V" "2 \<le> spare s"
  shows "\<exists>r s' V'. balloc me s = Some (r, s') \<and> txn me {} V' s' \<and> fs_inv s' V' \<and> disk (cache s') = disk (cache s) \<and> spare s - 2 \<le> spare s'
    \<and> (if \<exists>b < nblocks (sblk s). \<not> used (sblk s) V b
       then unat r < nblocks (sblk s) \<and> \<not> used (sblk s) V (unat r) \<and> (\<forall>b < unat r. used (sblk s) V b) \<and> r \<notin> meta_blocks s
         \<and> V' r = replicate BSIZE 0 \<and> (\<forall>no. no \<noteq> r \<and> no \<notin> bitmap_blocks (sblk s) \<longrightarrow> V' no = V no)
         \<and> (\<forall>b < nblocks (sblk s). used (sblk s) V' b \<longleftrightarrow> b = unat r \<or> used (sblk s) V b)
       else r = 0 \<and> V' = V)"
proof -
  obtain r s' where r: "balloc me s = Some (r, s')" and p: "balloc_post me {} V s r s'"
    using balloc_ok [OF assms(1,2) _ assms(3)] by auto
  have keep: "same_fs {} s s'" "spare s - 2 \<le> spare s'" using p by (auto simp: balloc_post_def)
  have d: "disk (cache s') = disk (cache s)" using keep(1) by (simp add: same_fs_def)
  show ?thesis
  proof (cases "first_free (sblk s) V")
    case None
    then have "\<forall>b < nblocks (sblk s). used (sblk s) V b" by (simp add: first_free_def find_upt_None)
    moreover have "r = 0" "txn me {} V s'" using p None by (auto simp: balloc_post_def)
    ultimately show ?thesis using r keep d fs_inv_same [OF keep(1)] assms(2) by auto
  next
    case (Some b)
    note T = taken_parts [OF assms(2) Some]
    have len: "\<forall>no. length (V no) = BSIZE" using txnD(1) [OF assms(1)] by blast
    note T = T [OF len]
    have rb: "r = of_nat b" "txn me {} (taken (sblk s) b V) s'" using p Some by (auto simp: balloc_post_def)
    have "b < 2 ^ 32" using T(1) fs_invD(2) [OF assms(2)] by simp
    then have u: "unat r = b" by (simp add: rb(1) unat_of_nat)
    have "\<forall>a < b. used (sblk s) V a" using Some find_upt_Some unfolding first_free_def by blast
    moreover have "fs_inv s' (taken (sblk s) b V)" using T(7) fs_inv_same [OF keep(1)] by simp
    ultimately show ?thesis using r keep d rb T(1-6) u
      by (intro exI [of _ r] exI [of _ s'] exI [of _ "taken (sblk s) b V"]) auto
  qed
qed

text \<open>A volume of 100 blocks with 16 inodes; the first 48 blocks are in use.\<close>

definition small_sb :: superblock where
  "small_sb = \<lparr>sb_magic = FSMAGIC, sb_size = 100, sb_nblocks = 52, sb_ninodes = 16, sb_nlog = 30, sb_logstart = 2,
     sb_inodestart = 32, sb_bmapstart = 45\<rparr>"

definition small_disk :: "u32 \<Rightarrow> block" where
  "small_disk no = (if no = 45 then replicate 6 0xFF @ replicate 1018 0 else replicate BSIZE 0)"

definition small_fs :: fsys where
  "small_fs = \<lparr>sblk = small_sb, flog = (log_init 1 2 30)\<lparr>l_outstanding := 1\<rparr>, cache = binit small_disk\<rparr>"

lemma small_disk_length [simp]: "length (small_disk no) = BSIZE"
  by (simp add: small_disk_def BSIZE_def)

lemma small_used: "b < 100 \<Longrightarrow> used small_sb small_disk b \<longleftrightarrow> b < 48"
proof -
  assume b: "b < 100"
  then have m: "b mod BPB = b" "b div BPB = 0" by (simp_all add: BPB_def BSIZE_def)
  have "(0xFF :: u8) = mask 8" by (simp add: mask_eq_exp_minus_1)
  then have "bit (0xFF :: u8) (b mod 8) = bit (mask 8 :: u8) (b mod 8)" by (rule arg_cong)
  then have "bit (0xFF :: u8) (b mod 8)" by (simp only: bit_mask_iff) simp
  moreover have "small_disk 45 ! (b div 8) = (if b div 8 < 6 then 0xFF else 0)"
    using b by (simp add: small_disk_def nth_append)
  moreover have "used small_sb small_disk b \<longleftrightarrow> bit (small_disk 45 ! (b div 8)) (b mod 8)"
    by (simp add: used_def m BBLOCK_def small_sb_def bit_free_iff)
  moreover have "b div 8 < 6 \<longleftrightarrow> b < 48" by presburger
  ultimately show ?thesis by simp
qed

lemma small_parts: "bitmap_blocks small_sb = {45}" "inode_blocks small_sb = {32}"
  "nblocks small_sb = 100" "log_area 2 30 = (of_nat ` {2..<32} :: u32 set)"
proof -
  have "b div BPB = 0" if "b < 100" for b using that by (simp add: BPB_def BSIZE_def)
  then show "bitmap_blocks small_sb = {45}" "nblocks small_sb = 100"
    by (auto simp: bitmap_blocks_def nblocks_def small_sb_def BBLOCK_def intro: image_eqI [of _ _ 0])
  have "unat i div 16 = 0" if "i < 16" for i :: u32 using that by (simp add: unat_less_iff)
  then show "inode_blocks small_sb = {32}"
    by (auto simp: inode_blocks_def small_sb_def IBLOCK_def IPB_def intro!: image_eqI [of _ _ 0])
  have "(2 :: u32) + of_nat i = of_nat (2 + i)" for i by simp
  then have "log_area 2 30 = (of_nat ` (\<lambda>i. 2 + i) ` {..<30} :: u32 set)" by (simp only: log_area_def image_image) simp
  also have "(\<lambda>i. 2 + i) ` {..<30 :: nat} = {2..<32}"
  proof -
    have "x \<in> (\<lambda>i. 2 + i) ` {..<30}" if "x \<in> {2..<32}" for x :: nat
      using that by (intro image_eqI [of _ _ "x - 2"]) auto
    then show ?thesis by auto
  qed
  finally show "log_area 2 30 = (of_nat ` {2..<32} :: u32 set)" .
qed

lemma small_fs_ok: "txn 7 {} small_disk small_fs" "fs_inv small_fs small_disk" "spare small_fs = 26" "sblk small_fs = small_sb"
proof -
  have none: "buf_of 1 (bufs (binit small_disk)) no = None" for no by (simp add: buf_of_def binit_def buf_zero_def find_None_iff)
  have "log_ok 1 (log_init 1 2 30)" using log_init_def by (simp add: log_ok_def LOGSIZE_def)
  then show "txn 7 {} small_disk small_fs"
    using binit_ok [of 1 small_disk] none
    by (simp add: txn_def small_fs_def log_init_def log_ok_def homes_def fun_eq_iff view_def refs_def lock_of_def) (simp add: binit_def)
  show "spare small_fs = 26" "sblk small_fs = small_sb" by (simp_all add: spare_def small_fs_def log_init_def)
  have s: "l_start (flog small_fs) = 2" "l_size (flog small_fs) = 30" "sblk small_fs = small_sb"
    by (simp_all add: small_fs_def log_init_def)
  have no: "(of_nat b :: u32) \<notin> of_nat ` {2..<32}" if "32 \<le> b" "b < 100" for b
  proof
    assume "(of_nat b :: u32) \<in> of_nat ` {2..<32}"
    then obtain i where i: "(of_nat b :: u32) = of_nat i" "i < 32" by auto
    have "b = i" by (rule block_number_inj [OF _ _ i(1)]) (use that i(2) in simp_all)
    then show False using that i(2) by simp
  qed
  have "b < 48" if "b < 100" "(of_nat b :: u32) \<in> meta_blocks small_fs" for b
  proof (rule ccontr)
    assume "\<not> b < 48"
    moreover have "(of_nat b :: u32) \<noteq> of_nat a" if "a < 48" for a using block_number_inj [of b a] \<open>b < 100\<close> that \<open>\<not> b < 48\<close> by auto
    from this [of 0] this [of 1] this [of 32] this [of 45] have "(of_nat b :: u32) \<notin> {0, 1, 32, 45}" by simp
    ultimately show False using that no [of b] by (simp add: meta_blocks_def s small_parts)
  qed
  moreover have "(45 :: u32) \<notin> of_nat ` {2..<32}" "(32 :: u32) \<notin> of_nat ` {2..<32}" using no [of 45] no [of 32] by simp_all
  ultimately show "fs_inv small_fs small_disk"
    unfolding fs_inv_def s small_parts by (simp add: small_used)
qed

theorem balloc_first_free_witness:
  "\<exists>r s'. balloc 7 small_fs = Some (r, s') \<and> unat r = 48"
proof -
  have e: "\<exists>b < nblocks (sblk small_fs). \<not> used (sblk small_fs) small_disk b"
    unfolding small_fs_ok(4) small_parts by (rule exI [of _ 48]) (simp add: small_used)
  obtain r s' where r: "balloc 7 small_fs = Some (r, s')" "unat r < 100" "\<not> used small_sb small_disk (unat r)" "\<forall>b < unat r. used small_sb small_disk b"
    using balloc_first_free [OF small_fs_ok(1,2)] e by (auto simp: small_fs_ok(3,4) small_parts)
  have "unat r = 48"
  proof (rule linorder_cases)
    assume "unat r < 48"
    then show ?thesis using r(2,3) small_used by simp
  next
    assume "48 < unat r"
    then show ?thesis using r(4) small_used [of 48] by simp
  qed
  then show ?thesis using r(1) by blast
qed

end
