(* ===== verification/Xv6_Semaphore.thy ===== *)
theory Xv6_Semaphore
  imports Prelude Transition_System
begin

text \<open>
  The semaphores of LAB2 (\<open>kernel/sem.c\<close>).  A call of a process is a sequence of steps at its
  accesses to shared memory: the acquisition of the lock, the critical section, the sleep; \<open>sem_close\<close>
  takes no lock, so its three accesses are three steps.  Processes are numbers.  An access outside
  \<open>sem_array\<close> is the phase \<open>Faulted\<close>.  The values stay in the range of a C \<open>int\<close> because they stay
  between 0 and the initial value.
\<close>

definition MAX_SEM :: int where "MAX_SEM = 32"

record semaphore =
  s_locked :: bool
  s_value :: int
  s_init :: int

datatype sem_op = Sem_open int int | Sem_down int | Sem_up int | Sem_close int

fun sem_of :: "sem_op \<Rightarrow> int" where
  "sem_of (Sem_open s v) = s"
| "sem_of (Sem_down s) = s"
| "sem_of (Sem_up s) = s"
| "sem_of (Sem_close s) = s"

text \<open>
  Where a process is: outside with the result of its last call, before the first access of a call,
  behind it, between the two assignments of \<open>sem_close\<close>, or asleep in \<open>sem_down\<close>.
\<close>

datatype sem_phase = Ready int | Entry sem_op | Body sem_op | Tail int | Asleep int | Faulted

record sem_machine =
  sem_array :: "int \<Rightarrow> semaphore"
  at :: "nat \<Rightarrow> sem_phase"

abbreviation upd_sem :: "int \<Rightarrow> (semaphore \<Rightarrow> semaphore) \<Rightarrow> sem_machine \<Rightarrow> sem_machine" where
  "upd_sem s f m \<equiv> m\<lparr>sem_array := (sem_array m)(s := f (sem_array m s))\<rparr>"

definition goto :: "nat \<Rightarrow> sem_phase \<Rightarrow> sem_machine \<Rightarrow> sem_machine" where
  "goto p ph m = m\<lparr>at := (at m)(p := ph)\<rparr>"

definition unlock :: "int \<Rightarrow> sem_machine \<Rightarrow> sem_machine" where
  "unlock s = upd_sem s (\<lambda>x. x\<lparr>s_locked := False\<rparr>)"

text \<open>\<open>wakeup\<close>: the sleepers go on to reacquire the lock and to test the value again.\<close>

definition wakeup_sem :: "int \<Rightarrow> sem_machine \<Rightarrow> sem_machine" where
  "wakeup_sem s m = m\<lparr>at := \<lambda>q. if at m q = Asleep s then Entry (Sem_down s) else at m q\<rparr>"

text \<open>The critical sections.\<close>

definition sem_open :: "nat \<Rightarrow> int \<Rightarrow> int \<Rightarrow> sem_machine \<Rightarrow> sem_machine" where
  "sem_open p s v m =
     (if s > MAX_SEM then goto p (Ready (- 1)) m
      else goto p (Ready 0) (unlock s (upd_sem s (\<lambda>x. x\<lparr>s_value := v, s_init := v\<rparr>) m)))"

definition sem_down :: "nat \<Rightarrow> int \<Rightarrow> sem_machine \<Rightarrow> sem_machine" where
  "sem_down p s m =
     (if s_value (sem_array m s) > 0
      then goto p (Ready 0) (unlock s (upd_sem s (\<lambda>x. x\<lparr>s_value := s_value x - 1\<rparr>) m))
      else goto p (Asleep s) (unlock s m))"

definition sem_up :: "nat \<Rightarrow> int \<Rightarrow> sem_machine \<Rightarrow> sem_machine" where
  "sem_up p s m =
     (if s_init (sem_array m s) = s_value (sem_array m s) then goto p (Ready (- 1)) (unlock s m)
      else goto p (Ready 0) (unlock s (wakeup_sem s (upd_sem s (\<lambda>x. x\<lparr>s_value := s_value x + 1\<rparr>) m))))"

definition sem_close_test :: "nat \<Rightarrow> int \<Rightarrow> sem_machine \<Rightarrow> sem_machine" where
  "sem_close_test p s m = goto p (if s_locked (sem_array m s) then Ready (- 1) else Body (Sem_close s)) m"

text \<open>The next step of process \<open>p\<close> in its call; None while it spins, sleeps or is outside.\<close>

definition sem_step :: "nat \<Rightarrow> sem_machine \<Rightarrow> sem_machine option" where
  "sem_step p m =
     (case at m p of
        Ready r \<Rightarrow> None
      | Asleep s \<Rightarrow> None
      | Faulted \<Rightarrow> None
      | Entry op \<Rightarrow>
          let s = sem_of op in
          if s < 0 \<or> s \<ge> MAX_SEM then Some (goto p Faulted m)
          else (case op of
              Sem_close s \<Rightarrow> Some (sem_close_test p s m)
            | _ \<Rightarrow> if s_locked (sem_array m s) then None
                   else Some (goto p (Body op) (upd_sem s (\<lambda>x. x\<lparr>s_locked := True\<rparr>) m)))
      | Body op \<Rightarrow>
          Some (case op of
              Sem_open s v \<Rightarrow> sem_open p s v m
            | Sem_down s \<Rightarrow> sem_down p s m
            | Sem_up s \<Rightarrow> sem_up p s m
            | Sem_close s \<Rightarrow> goto p (Tail s) (upd_sem s (\<lambda>x. x\<lparr>s_value := 0\<rparr>) m))
      | Tail s \<Rightarrow> Some (goto p (Ready 0) (upd_sem s (\<lambda>x. x\<lparr>s_init := 0\<rparr>) m)))"

lemmas sem_op_defs = goto_def unlock_def wakeup_sem_def sem_open_def sem_down_def sem_up_def sem_close_test_def

section \<open>Downs and ups on one semaphore\<close>

text \<open>
  Processes that call \<open>sem_down\<close> and \<open>sem_up\<close> of semaphore \<open>s\<close>, and anything on the other semaphores;
  the events are the downs and ups of \<open>s\<close> that have had their effect.
\<close>

datatype sem_event = Down | Up | Quiet

definition keeps_open :: "int \<Rightarrow> sem_op \<Rightarrow> bool" where
  "keeps_open s op \<longleftrightarrow> sem_of op \<noteq> s \<or> op = Sem_down s \<or> op = Sem_up s"

definition event_of :: "int \<Rightarrow> nat \<Rightarrow> sem_machine \<Rightarrow> sem_event" where
  "event_of s p m =
     (if at m p = Body (Sem_down s) \<and> s_value (sem_array m s) > 0 then Down
      else if at m p = Body (Sem_up s) \<and> s_init (sem_array m s) \<noteq> s_value (sem_array m s) then Up
      else Quiet)"

inductive sem_move :: "int \<Rightarrow> sem_machine \<Rightarrow> sem_event \<Rightarrow> sem_machine \<Rightarrow> bool" for s where
  call: "at m p = Ready r \<Longrightarrow> keeps_open s op \<Longrightarrow> sem_move s m Quiet (goto p (Entry op) m)"
| step: "sem_step p m = Some m' \<Longrightarrow> sem_move s m (event_of s p m) m'"

inductive sem_runs :: "int \<Rightarrow> sem_machine \<Rightarrow> sem_event list \<Rightarrow> sem_machine \<Rightarrow> bool" for s where
  sem_runs_Nil: "sem_runs s m [] m"
| sem_runs_snoc: "sem_runs s m es m' \<Longrightarrow> sem_move s m' e m'' \<Longrightarrow> sem_runs s m (es @ [e]) m''"

text \<open>
  The invariant: the value lies between 0 and the initial value, the lock of \<open>s\<close> is held exactly
  while one process is in the critical section of \<open>s\<close>, nobody reopens or closes \<open>s\<close>, and processes
  sleep on \<open>s\<close> only while its value is 0.
\<close>

definition in_section :: "int \<Rightarrow> nat \<Rightarrow> sem_machine \<Rightarrow> bool" where
  "in_section s p m \<longleftrightarrow> at m p = Body (Sem_down s) \<or> at m p = Body (Sem_up s)"

definition stays_open :: "int \<Rightarrow> sem_phase \<Rightarrow> bool" where
  "stays_open s ph = (case ph of Entry op \<Rightarrow> keeps_open s op | Body op \<Rightarrow> keeps_open s op | Tail x \<Rightarrow> x \<noteq> s | _ \<Rightarrow> True)"

definition sem_inv :: "int \<Rightarrow> sem_machine \<Rightarrow> bool" where
  "sem_inv s m \<longleftrightarrow> 0 \<le> s_value (sem_array m s) \<and> s_value (sem_array m s) \<le> s_init (sem_array m s)
     \<and> (\<forall>p. stays_open s (at m p))
     \<and> (s_locked (sem_array m s) \<longleftrightarrow> (\<exists>p. in_section s p m))
     \<and> (\<forall>p q. in_section s p m \<and> in_section s q m \<longrightarrow> p = q)
     \<and> (\<forall>p. at m p = Asleep s \<longrightarrow> s_value (sem_array m s) = 0)"

lemma sem_invD:
  assumes "sem_inv s m"
  shows "0 \<le> s_value (sem_array m s)" "s_value (sem_array m s) \<le> s_init (sem_array m s)" "stays_open s (at m p)"
    "s_locked (sem_array m s) \<longleftrightarrow> (\<exists>p. in_section s p m)" "in_section s p m \<Longrightarrow> in_section s q m \<Longrightarrow> p = q"
    "at m p = Asleep s \<Longrightarrow> s_value (sem_array m s) = 0"
  using assms unfolding sem_inv_def by blast+

text \<open>A step that leaves the semaphore, its section and its sleepers alone.\<close>

lemma sem_inv_frame:
  assumes "sem_inv s m" "sem_array m' s = sem_array m s" "\<And>q. in_section s q m' = in_section s q m"
    "\<And>q. stays_open s (at m' q)" "\<And>q. at m' q = Asleep s \<Longrightarrow> at m q = Asleep s"
  shows "sem_inv s m'"
  using assms(1) sem_invD(6) [OF assms(1)] unfolding sem_inv_def assms(2,3) using assms(4,5) by blast

text \<open>A process that leaves the section of \<open>s\<close>, with a new value and the sleepers awake or not.\<close>

lemma sem_inv_leave:
  assumes "sem_inv s m" "in_section s p m" "sem_array m' s = \<lparr>s_locked = False, s_value = v, s_init = s_init (sem_array m s)\<rparr>"
    "0 \<le> v" "v \<le> s_init (sem_array m s)" "stays_open s (at m' p)" "\<not> in_section s p m'" "at m' p = Asleep s \<Longrightarrow> v = 0"
    "\<And>q. q \<noteq> p \<Longrightarrow> at m' q = at m q \<or> (at m q = Asleep s \<and> at m' q = Entry (Sem_down s))"
    "\<And>q. q \<noteq> p \<Longrightarrow> at m' q = Asleep s \<Longrightarrow> v = 0"
  shows "sem_inv s m'"
proof -
  have no: "\<not> in_section s q m'" for q
  proof (cases "q = p")
    case False
    then have "\<not> in_section s q m" using sem_invD(5) [OF assms(1,2)] by blast
    then show ?thesis using assms(9) [OF False] by (auto simp: in_section_def)
  qed (use assms(7) in simp)
  have "stays_open s (at m' q)" for q
    using assms(6) assms(9) [of q] sem_invD(3) [OF assms(1), of q] by (cases "q = p") (auto simp: stays_open_def keeps_open_def)
  moreover have "v = 0" if "at m' q = Asleep s" for q using assms(8) assms(10) [of q] that by (cases "q = p") auto
  ultimately show ?thesis using no assms(4,5) by (auto simp: sem_inv_def assms(3))
qed

lemma sem_step_inv:
  assumes "sem_inv s m" "sem_step p m = Some m'"
  shows "sem_inv s m'" "s_init (sem_array m' s) = s_init (sem_array m s)"
    "s_value (sem_array m' s) = s_value (sem_array m s) +
       (case event_of s p m of Down \<Rightarrow> - 1 | Up \<Rightarrow> 1 | Quiet \<Rightarrow> 0)"
proof -
  note D = sem_invD [OF assms(1)]
  have awake: "0 < s_value (sem_array m s) \<Longrightarrow> at m q \<noteq> Asleep s" for q using D(6) [of q] by force
  have "sem_inv s m' \<and> s_init (sem_array m' s) = s_init (sem_array m s) \<and> s_value (sem_array m' s) = s_value (sem_array m s) +
       (case event_of s p m of Down \<Rightarrow> - 1 | Up \<Rightarrow> 1 | Quiet \<Rightarrow> 0)"
  proof (cases "at m p")
    case (Entry op)
    have ko: "keeps_open s op" using D(3) [of p] Entry by (simp add: stays_open_def)
    have ev: "event_of s p m = Quiet" by (simp add: event_of_def Entry)
    show ?thesis
    proof (cases "sem_of op = s \<and> 0 \<le> s \<and> s < MAX_SEM")
      case True
      then have op: "op = Sem_down s \<or> op = Sem_up s" and r: "0 \<le> s" "s < MAX_SEM" using ko by (auto simp: keeps_open_def)
      then have free: "\<not> s_locked (sem_array m s)"
        and m': "m' = goto p (Body op) (upd_sem s (\<lambda>x. x\<lparr>s_locked := True\<rparr>) m)"
        using assms(2) Entry by (auto simp: sem_step_def split: if_splits)
      have no: "\<not> in_section s q m" for q using D(4) free by blast
      have "in_section s q m' \<longleftrightarrow> q = p" for q using no [of q] op by (auto simp: m' goto_def in_section_def)
      moreover have "stays_open s (at m' q)" for q using D(3) [of q] ko by (simp add: m' goto_def stays_open_def)
      moreover have "at m' q = Asleep s \<Longrightarrow> at m q = Asleep s" for q by (simp add: m' goto_def split: if_splits)
      ultimately have "sem_inv s m'" using D(1,2,6) by (auto simp: sem_inv_def m' goto_def)
      then show ?thesis by (simp add: ev) (simp add: m' goto_def)
    next
      case False
      have same: "sem_array m' s = sem_array m s" using False assms(2) Entry ko
        by (auto simp: sem_step_def goto_def sem_close_test_def Let_def keeps_open_def split: if_splits sem_op.splits)
      have oth: "q \<noteq> p \<Longrightarrow> at m' q = at m q" and here: "\<not> in_section s p m'" "stays_open s (at m' p)" "at m' p \<noteq> Asleep s" for q
        using False assms(2) Entry ko
        by (auto simp: sem_step_def goto_def sem_close_test_def Let_def keeps_open_def in_section_def stays_open_def split: if_splits sem_op.splits)
      have "sem_inv s m'"
      proof (rule sem_inv_frame [OF assms(1) same])
        show "in_section s q m' = in_section s q m" for q
          using oth [of q] here Entry by (cases "q = p") (auto simp: in_section_def)
        show "stays_open s (at m' q)" "at m' q = Asleep s \<Longrightarrow> at m q = Asleep s" for q
          using oth [of q] here D(3) [of q] by (cases "q = p"; simp)+
      qed
      then show ?thesis by (simp add: ev same)
    qed
  next
    case (Body op)
    have ko: "keeps_open s op" using D(3) [of p] Body by (simp add: stays_open_def)
    show ?thesis
    proof (cases "sem_of op = s")
      case True
      then have op: "op = Sem_down s \<or> op = Sem_up s" using ko by (auto simp: keeps_open_def)
      then have sec: "in_section s p m" using Body by (auto simp: in_section_def)
      show ?thesis
      proof (cases "op = Sem_down s")
        case d: True
        then have m': "m' = sem_down p s m" using assms(2) Body by (simp add: sem_step_def)
        have "sem_inv s m'"
          by (rule sem_inv_leave [OF assms(1) sec, where v = "s_value (sem_array m' s)"])
            (use D(1,2) awake in \<open>auto simp: m' sem_down_def unlock_def goto_def stays_open_def in_section_def\<close>)
        then show ?thesis using D(1) Body d by (simp add: event_of_def) (simp add: m' sem_down_def unlock_def goto_def)
      next
        case u: False
        then have m': "m' = sem_up p s m" and u': "op = Sem_up s" using assms(2) Body op by (simp_all add: sem_step_def)
        have "sem_inv s m'"
          by (rule sem_inv_leave [OF assms(1) sec, where v = "s_value (sem_array m' s)"])
            (use D(1,2,6) in \<open>auto simp: m' sem_up_def unlock_def goto_def wakeup_sem_def stays_open_def in_section_def split: if_splits\<close>)
        then show ?thesis using Body u' by (simp add: event_of_def) (simp add: m' sem_up_def unlock_def goto_def wakeup_sem_def)
      qed
    next
      case False
      have ev: "event_of s p m = Quiet" using False Body by (auto simp: event_of_def)
      have same: "sem_array m' s = sem_array m s" using False assms(2) Body
        by (cases op) (auto simp: sem_step_def sem_op_defs split: if_splits)
      have at: "at m' q = at m q \<or> (\<exists>x. x \<noteq> s \<and> at m' q \<in> {Entry (Sem_down x), Asleep x, Tail x}) \<or> (\<exists>r. at m' q = Ready r)" for q
        using False assms(2) Body by (cases op) (auto simp: sem_step_def sem_op_defs split: if_splits)
      have other: "at m' q \<noteq> at m q \<Longrightarrow> \<not> in_section s q m" for q
        using False assms(2) Body by (cases op; cases "q = p") (auto simp: sem_step_def sem_op_defs in_section_def split: if_splits)
      have "sem_inv s m'"
      proof (rule sem_inv_frame [OF assms(1) same])
        show "in_section s q m' = in_section s q m" for q using at [of q] other [of q] by (auto simp: in_section_def)
        show "stays_open s (at m' q)" for q using at [of q] D(3) [of q] by (auto simp: stays_open_def keeps_open_def)
        show "at m' q = Asleep s \<Longrightarrow> at m q = Asleep s" for q using at [of q] by auto
      qed
      then show ?thesis by (simp add: ev same)
    qed
  next
    case (Tail x)
    then have x: "x \<noteq> s" using D(3) [of p] by (simp add: stays_open_def)
    have m': "m' = goto p (Ready 0) (upd_sem x (\<lambda>y. y\<lparr>s_init := 0\<rparr>) m)" using assms(2) Tail by (simp add: sem_step_def)
    have "sem_inv s m'" using x D(3) Tail
      by (intro sem_inv_frame [OF assms(1)]) (auto simp: m' goto_def in_section_def stays_open_def split: if_splits)
    then show ?thesis using x Tail by (simp add: event_of_def) (simp add: m' goto_def)
  qed (use assms(2) in \<open>simp_all add: sem_step_def\<close>)
  then show "sem_inv s m'" "s_init (sem_array m' s) = s_init (sem_array m s)"
    "s_value (sem_array m' s) = s_value (sem_array m s) + (case event_of s p m of Down \<Rightarrow> - 1 | Up \<Rightarrow> 1 | Quiet \<Rightarrow> 0)" by blast+
qed

lemma sem_move_inv:
  assumes "sem_inv s m" "sem_move s m e m'"
  shows "sem_inv s m'" "s_init (sem_array m' s) = s_init (sem_array m s)"
    "s_value (sem_array m' s) = s_value (sem_array m s) + (case e of Down \<Rightarrow> - 1 | Up \<Rightarrow> 1 | Quiet \<Rightarrow> 0)"
proof -
  have "sem_inv s m' \<and> s_init (sem_array m' s) = s_init (sem_array m s)
    \<and> s_value (sem_array m' s) = s_value (sem_array m s) + (case e of Down \<Rightarrow> - 1 | Up \<Rightarrow> 1 | Quiet \<Rightarrow> 0)"
    using assms(2)
  proof (cases rule: sem_move.cases)
    case (call p r op)
    have "sem_inv s (goto p (Entry op) m)" using call(3,4) sem_invD(3) [OF assms(1)]
      by (intro sem_inv_frame [OF assms(1)]) (auto simp: goto_def in_section_def stays_open_def split: if_splits)
    then show ?thesis using call by (simp add: goto_def)
  next
    case (step p)
    then show ?thesis using sem_step_inv [OF assms(1) step(2)] by simp
  qed
  then show "sem_inv s m'" "s_init (sem_array m' s) = s_init (sem_array m s)"
    "s_value (sem_array m' s) = s_value (sem_array m s) + (case e of Down \<Rightarrow> - 1 | Up \<Rightarrow> 1 | Quiet \<Rightarrow> 0)" by blast+
qed

text \<open>The abstract semaphore: a counter between 0 and its initial value.\<close>

inductive counter_step :: "int \<times> int \<Rightarrow> int \<times> int \<Rightarrow> bool" where
  down: "0 < x \<Longrightarrow> counter_step (x, i) (x - 1, i)"
| up: "x < i \<Longrightarrow> counter_step (x, i) (x + 1, i)"

inductive_simps counter_step_simps: "counter_step (x, i) (y, j)"

definition counter :: "int \<Rightarrow> sem_machine \<Rightarrow> int \<times> int" where
  "counter s m = (s_value (sem_array m s), s_init (sem_array m s))"

text \<open>Just after \<open>sem_open(s, v)\<close>, with every process outside.\<close>

definition sem_opened :: "int \<Rightarrow> int \<Rightarrow> sem_machine \<Rightarrow> bool" where
  "sem_opened s v m \<longleftrightarrow> 0 \<le> v \<and> sem_array m s = \<lparr>s_locked = False, s_value = v, s_init = v\<rparr> \<and> (\<forall>p. \<exists>r. at m p = Ready r)"

lemma sem_opened_inv: "sem_opened s v m \<Longrightarrow> sem_inv s m"
proof -
  assume o: "sem_opened s v m"
  then have at: "\<exists>r. at m p = Ready r" for p by (simp add: sem_opened_def)
  have no: "\<not> in_section s p m" "stays_open s (at m p)" "at m p \<noteq> Asleep s" for p
    using at [of p] by (auto simp: in_section_def stays_open_def)
  then show "sem_inv s m" using o by (simp add: sem_inv_def sem_opened_def)
qed

interpretation sem_sys: simulation "sem_opened s v" "\<lambda>m m'. \<exists>e. sem_move s m e m'" "sem_inv s" "counter s" counter_step
  for s v
proof unfold_locales
  show "sem_opened s v m \<Longrightarrow> sem_inv s m" for m by (rule sem_opened_inv)
  show "sem_inv s m \<Longrightarrow> \<exists>e. sem_move s m e m' \<Longrightarrow> sem_inv s m'" for m m' using sem_move_inv(1) by blast
  show "counter_step (counter s m) (counter s m') \<or> counter s m' = counter s m"
    if a: "sem_inv s m" "\<exists>e. sem_move s m e m'" for m m'
  proof -
    obtain e where e: "sem_move s m e m'" using a(2) by blast
    have "sem_inv s m'" by (rule sem_move_inv(1) [OF a(1) e])
    then show ?thesis using sem_move_inv(2,3) [OF a(1) e] sem_invD(1,2) [of s m']
      by (cases e) (simp_all add: counter_def counter_step_simps)
  qed
qed

lemma sem_runs_moves: "sem_runs s m es m' \<Longrightarrow> (\<lambda>m m'. \<exists>e. sem_move s m e m')\<^sup>*\<^sup>* m m'"
  by (induction rule: sem_runs.induct) (auto intro: rtranclp.rtrancl_into_rtrancl)

lemma sem_runs_value:
  assumes "sem_runs s m es m'" "sem_inv s m"
  shows "sem_inv s m' \<and> s_init (sem_array m' s) = s_init (sem_array m s)
    \<and> s_value (sem_array m' s) = s_value (sem_array m s) + int (count_list es Up) - int (count_list es Down)"
  using assms
proof (induction rule: sem_runs.induct)
  case (sem_runs_snoc m es m' e m'')
  then show ?case using sem_move_inv [of s m' e m''] by (cases e) simp_all
qed simp

text \<open>One process takes a semaphore of value 1.\<close>

definition one_free :: sem_machine where
  "one_free = \<lparr>sem_array = \<lambda>_. \<lparr>s_locked = False, s_value = 1, s_init = 1\<rparr>, at = \<lambda>_. Ready 0\<rparr>"

lemma one_free_opened: "sem_opened 3 1 one_free"
  by (simp add: sem_opened_def one_free_def)

lemma one_free_down: "\<exists>m. sem_runs 3 one_free [Quiet, Quiet, Down] m \<and> s_value (sem_array m 3) = 0"
proof -
  let ?m1 = "goto 0 (Entry (Sem_down 3)) one_free"
  let ?m2 = "goto 0 (Body (Sem_down 3)) (upd_sem 3 (\<lambda>x. x\<lparr>s_locked := True\<rparr>) ?m1)"
  let ?m3 = "sem_down 0 3 ?m2"
  have "sem_move 3 one_free Quiet ?m1" by (rule sem_move.call [where r = 0]) (simp_all add: one_free_def keeps_open_def)
  moreover have "sem_move 3 ?m1 Quiet ?m2"
    using sem_move.step [of 0 ?m1 ?m2 3] by (simp add: sem_step_def goto_def one_free_def event_of_def MAX_SEM_def)
  moreover have "sem_move 3 ?m2 Down ?m3"
    using sem_move.step [of 0 ?m2 ?m3 3] by (simp add: sem_step_def) (simp add: event_of_def goto_def one_free_def)
  ultimately have "sem_runs 3 one_free ((([] @ [Quiet]) @ [Quiet]) @ [Down]) ?m3" by (meson sem_runs.intros)
  then show ?thesis by (intro exI [of _ ?m3]) (simp add: sem_down_def unlock_def goto_def one_free_def)
qed

text \<open>
  C20: the semaphores count.  Whatever the processes and the CPUs do after \<open>sem_open(s, v)\<close>, as long
  as nobody opens or closes \<open>s\<close>: its value is \<open>v\<close> plus the ups minus the downs that took effect and
  stays between 0 and \<open>v\<close>, at most one process is in a critical section of \<open>s\<close>, and a process sleeps
  on \<open>s\<close> only while its value is 0, so no wakeup is lost.
\<close>

theorem semaphore_counts:
  assumes "sem_opened s v m0" "sem_runs s m0 es m"
  shows "s_value (sem_array m s) = v + int (count_list es Up) - int (count_list es Down)
    \<and> 0 \<le> s_value (sem_array m s) \<and> s_value (sem_array m s) \<le> v
    \<and> (in_section s p m \<and> in_section s q m \<longrightarrow> p = q)
    \<and> (at m p = Asleep s \<longrightarrow> s_value (sem_array m s) = 0)"
proof -
  have v: "s_value (sem_array m0 s) = v \<and> s_init (sem_array m0 s) = v" using assms(1) by (simp add: sem_opened_def)
  note R = sem_runs_value [OF assms(2) sem_opened_inv [OF assms(1)]]
  have I: "sem_inv s m" by (rule sem_sys.reachable_inv [OF assms(1) sem_runs_moves [OF assms(2)]])
  show ?thesis using R v sem_invD(1,2,5,6) [OF I] by auto
qed

theorem semaphore_counts_witness:
  "\<exists>m. sem_runs 3 one_free [Quiet, Quiet, Down] m \<and> s_value (sem_array m 3) = 1 + 0 - 1 \<and> 0 \<le> s_value (sem_array m 3)"
proof -
  obtain m where m: "sem_runs 3 one_free [Quiet, Quiet, Down] m" using one_free_down by blast
  show ?thesis using semaphore_counts [OF one_free_opened m] m by (intro exI [of _ m]) simp
qed

text \<open>
  The semaphores implement the abstract counter.  Every step of the processes in \<open>sem_down\<close> and
  \<open>sem_up\<close> leaves the value and the initial value of \<open>s\<close> alone or is one step of a counter that goes
  down when it is positive and up when it is below its initial value.
\<close>

theorem semaphore_refines_counter:
  assumes "sem_opened s v m0" "sem_runs s m0 es m"
  shows "counter_step\<^sup>*\<^sup>* (v, v) (s_value (sem_array m s), s_init (sem_array m s))"
  using sem_sys.abs_reachable [OF assms(1) sem_runs_moves [OF assms(2)]] assms(1)
  by (simp add: counter_def sem_opened_def)

theorem semaphore_refines_counter_witness:
  "counter_step\<^sup>*\<^sup>* (1, 1) (0, 1)"
proof -
  obtain m where m: "sem_runs 3 one_free [Quiet, Quiet, Down] m" "s_value (sem_array m 3) = 0" using one_free_down by blast
  have "s_init (sem_array m 3) = 1"
    using sem_runs_value [OF m(1) sem_opened_inv [OF one_free_opened]] by (simp add: one_free_def)
  then show ?thesis using semaphore_refines_counter [OF one_free_opened m(1)] m(2) by simp
qed

end
