(* ===== verification/Xv6_Pingpong.thy ===== *)
theory Xv6_Pingpong
  imports Xv6_Semaphore
begin

text \<open>
  The ping pong program of LAB2 (\<open>user/pingpong.c\<close>): two processes that alternate their output with
  the semaphores 0 and 1.  A process is the list of the calls it still has to make; the steps of the
  two processes, those inside the semaphore calls included, interleave in any order.
\<close>

datatype instr = Call sem_op | Print string | Fork "instr list"

definition PING :: string where "PING = ''    PING\<newline>''"
definition PONG :: string where "PONG = ''  PONG\<newline>''"

definition ping_loop :: "nat \<Rightarrow> instr list" where
  "ping_loop n = concat (replicate n [Call (Sem_down 0), Print PING, Call (Sem_up 1)])"

definition pong_loop :: "nat \<Rightarrow> instr list" where
  "pong_loop n = concat (replicate n [Call (Sem_down 1), Print PONG, Call (Sem_up 0)])"

definition closing :: "instr list" where
  "closing = [Call (Sem_close 1), Call (Sem_close 0)]"

text \<open>\<open>n\<close> is the number of turns that \<open>atoi\<close> read, 0 if it read a negative number.\<close>

definition main_pingpong :: "nat \<Rightarrow> instr list" where
  "main_pingpong n = [Call (Sem_open 0 1), Call (Sem_open 1 1), Call (Sem_down 1), Fork (ping_loop n @ closing)] @ pong_loop n @ closing"

record user =
  sems :: sem_machine
  prog :: "nat \<Rightarrow> instr list"
  screen :: "string list"

text \<open>A step of process \<open>p\<close>; the child gets the number 1.\<close>

definition user_step :: "nat \<Rightarrow> user \<Rightarrow> user option" where
  "user_step p u =
     (case at (sems u) p of
        Ready r \<Rightarrow>
          (case prog u p of
             [] \<Rightarrow> None
           | i # is \<Rightarrow>
               let u = u\<lparr>prog := (prog u)(p := is)\<rparr> in
               Some (case i of
                   Call op \<Rightarrow> u\<lparr>sems := goto p (Entry op) (sems u)\<rparr>
                 | Print s \<Rightarrow> u\<lparr>screen := screen u @ [s]\<rparr>
                 | Fork c \<Rightarrow> u\<lparr>prog := (prog u)(1 := c)\<rparr>))
      | _ \<Rightarrow> map_option (\<lambda>m. u\<lparr>sems := m\<rparr>) (sem_step p (sems u)))"

inductive user_move :: "user \<Rightarrow> user \<Rightarrow> bool" where
  "p < 2 \<Longrightarrow> user_step p u = Some u' \<Longrightarrow> user_move u u'"

inductive_cases user_moveE: "user_move u u'"

text \<open>The program starts with free locks; the semaphores may hold anything from earlier runs.\<close>

definition pingpong_start :: "nat \<Rightarrow> user \<Rightarrow> bool" where
  "pingpong_start n u \<longleftrightarrow> (\<forall>s. \<not> s_locked (sem_array (sems u) s)) \<and> (\<forall>p. at (sems u) p = Ready 0)
     \<and> prog u 0 = main_pingpong n \<and> prog u 1 = [] \<and> screen u = []"

definition turns :: "nat \<Rightarrow> string list" where
  "turns k = map (\<lambda>i. if even i then PING else PONG) [0..<k]"

lemma turns_Suc: "turns (Suc k) = turns k @ [if even k then PING else PONG]"
  by (simp add: turns_def)

section \<open>Where the two processes are\<close>

text \<open>
  A player calls \<open>sem_down d\<close>, prints \<open>w\<close>, calls \<open>sem_up e\<close>, and has the list \<open>rest\<close> to do after it.
\<close>

datatype stage = Wants | Has | Printed

definition player :: "int \<Rightarrow> string \<Rightarrow> int \<Rightarrow> stage \<Rightarrow> instr list \<Rightarrow> sem_phase \<Rightarrow> instr list \<Rightarrow> bool" where
  "player d w e st rest ph is \<longleftrightarrow> (case st of
     Wants \<Rightarrow> (\<exists>r. ph = Ready r) \<and> is = Call (Sem_down d) # Print w # Call (Sem_up e) # rest
       \<or> ph \<in> {Entry (Sem_down d), Body (Sem_down d), Asleep d} \<and> is = Print w # Call (Sem_up e) # rest
   | Has \<Rightarrow> (\<exists>r. ph = Ready r) \<and> is = Print w # Call (Sem_up e) # rest
   | Printed \<Rightarrow> (\<exists>r. ph = Ready r) \<and> is = Call (Sem_up e) # rest
       \<or> ph \<in> {Entry (Sem_up e), Body (Sem_up e)} \<and> is = rest)"

definition finished :: "sem_phase \<Rightarrow> instr list \<Rightarrow> bool" where
  "finished ph is \<longleftrightarrow> (\<exists>r. ph = Ready r) \<and> is \<in> {closing, [Call (Sem_close 0)], []}
     \<or> ph \<in> {Entry (Sem_close 1), Body (Sem_close 1), Tail 1} \<and> is = [Call (Sem_close 0)]
     \<or> ph \<in> {Entry (Sem_close 0), Body (Sem_close 0), Tail 0} \<and> is = []"

definition ping_at :: "user \<Rightarrow> stage \<Rightarrow> nat \<Rightarrow> bool" where
  "ping_at u st r = player 0 PING 1 st (ping_loop r @ closing) (at (sems u) 1) (prog u 1)"

definition pong_at :: "user \<Rightarrow> stage \<Rightarrow> nat \<Rightarrow> bool" where
  "pong_at u st r = player 1 PONG 0 st (pong_loop r @ closing) (at (sems u) 0) (prog u 0)"

definition ping_end :: "user \<Rightarrow> bool" where
  "ping_end u = finished (at (sems u) 1) (prog u 1)"

definition pong_end :: "user \<Rightarrow> bool" where
  "pong_end u = finished (at (sems u) 0) (prog u 0)"

text \<open>The player is before turn \<open>k\<close> of \<open>n\<close>, or has done all of them.\<close>

definition ping_waits :: "nat \<Rightarrow> user \<Rightarrow> nat \<Rightarrow> bool" where
  "ping_waits n u k \<longleftrightarrow> (if k < n then ping_at u Wants (n - Suc k) else ping_end u)"

definition pong_waits :: "nat \<Rightarrow> user \<Rightarrow> nat \<Rightarrow> bool" where
  "pong_waits n u k \<longleftrightarrow> (if k < n then pong_at u Wants (n - Suc k) else pong_end u)"

definition sem_values :: "user \<Rightarrow> int \<Rightarrow> int \<Rightarrow> bool" where
  "sem_values u x y \<longleftrightarrow> s_value (sem_array (sems u) 0) = x \<and> s_value (sem_array (sems u) 1) = y
     \<and> s_init (sem_array (sems u) 0) = 1 \<and> s_init (sem_array (sems u) 1) = 1"

text \<open>
  Round \<open>k\<close> of the game: the one token is in semaphore 0, with the child, in semaphore 1, or with the
  parent.  The last disjunct is the end, when a semaphore may be closed.
\<close>

definition in_round :: "nat \<Rightarrow> user \<Rightarrow> nat \<Rightarrow> bool" where
  "in_round n u k \<longleftrightarrow>
     sem_values u 1 0 \<and> ping_waits n u k \<and> pong_waits n u k \<and> screen u = turns (2 * k) \<and> k < n
   \<or> sem_values u 0 0 \<and> ping_at u Has (n - Suc k) \<and> pong_waits n u k \<and> screen u = turns (2 * k) \<and> k < n
   \<or> sem_values u 0 0 \<and> ping_at u Printed (n - Suc k) \<and> pong_waits n u k \<and> screen u = turns (2 * k + 1) \<and> k < n
   \<or> sem_values u 0 1 \<and> ping_waits n u (Suc k) \<and> pong_waits n u k \<and> screen u = turns (2 * k + 1) \<and> Suc k < n
   \<or> sem_values u 0 0 \<and> ping_waits n u (Suc k) \<and> pong_at u Has (n - Suc k) \<and> screen u = turns (2 * k + 1) \<and> Suc k < n
   \<or> sem_values u 0 0 \<and> ping_waits n u (Suc k) \<and> pong_at u Printed (n - Suc k) \<and> screen u = turns (2 * k + 2) \<and> Suc k < n"

definition at_end :: "nat \<Rightarrow> user \<Rightarrow> bool" where
  "at_end n u \<longleftrightarrow> ping_end u \<and>
     (0 < n \<and> (pong_at u Wants 0 \<or> pong_at u Has 0) \<and> screen u = turns (2 * n - 1)
      \<or> 0 < n \<and> pong_at u Printed 0 \<and> screen u = turns (2 * n)
      \<or> pong_end u \<and> screen u = turns (2 * n))"

text \<open>What a step of one process does to the other, and to the semaphores.\<close>

definition other_kept :: "nat \<Rightarrow> user \<Rightarrow> user \<Rightarrow> bool" where
  "other_kept p u u' \<longleftrightarrow> (\<forall>q. q \<noteq> p \<longrightarrow> prog u' q = prog u q
     \<and> (at (sems u') q = at (sems u) q \<or> (\<exists>s. at (sems u) q = Asleep s \<and> at (sems u') q = Entry (Sem_down s))))"

definition counts :: "user \<Rightarrow> int \<Rightarrow> int \<times> int" where
  "counts u s = (s_value (sem_array (sems u) s), s_init (sem_array (sems u) s))"

lemma sem_values_counts: "sem_values u x y \<longleftrightarrow> counts u 0 = (x, 1) \<and> counts u 1 = (y, 1)"
  by (auto simp: sem_values_def counts_def)

lemma player_other:
  assumes "player d w e st rest (at (sems u) q) (prog u q)" "other_kept p u u'" "q \<noteq> p"
  shows "player d w e st rest (at (sems u') q) (prog u' q)"
  using assms unfolding other_kept_def player_def by (cases st) auto

lemma finished_other:
  assumes "finished (at (sems u) q) (prog u q)" "other_kept p u u'" "q \<noteq> p"
  shows "finished (at (sems u') q) (prog u' q)"
  using assms unfolding other_kept_def finished_def by auto

text \<open>One step, by the phase of the process.\<close>

lemma step_call:
  assumes "at (sems u) p = Ready r" "prog u p = Call op # is" "user_step p u = Some u'"
  shows "at (sems u') p = Entry op" "prog u' p = is" "other_kept p u u'" "counts u' = counts u" "screen u' = screen u"
  using assms by (auto simp: user_step_def goto_def other_kept_def counts_def fun_eq_iff)

lemma step_print:
  assumes "at (sems u) p = Ready r" "prog u p = Print w # is" "user_step p u = Some u'"
  shows "at (sems u') p = Ready r" "prog u' p = is" "other_kept p u u'" "counts u' = counts u" "screen u' = screen u @ [w]"
  using assms by (auto simp: user_step_def other_kept_def counts_def fun_eq_iff)

lemma step_entry:
  assumes "at (sems u) p = Entry op" "op = Sem_down s \<or> op = Sem_up s \<or> op = Sem_open s v" "s \<in> {0, 1}" "user_step p u = Some u'"
  shows "at (sems u') p = Body op" "prog u' p = prog u p" "other_kept p u u'" "counts u' = counts u" "screen u' = screen u"
proof -
  have "u' = u\<lparr>sems := goto p (Body op) (upd_sem s (\<lambda>x. x\<lparr>s_locked := True\<rparr>) (sems u))\<rparr>"
    using assms by (auto simp: user_step_def sem_step_def MAX_SEM_def split: if_splits)
  then show "at (sems u') p = Body op" "prog u' p = prog u p" "other_kept p u u'" "counts u' = counts u" "screen u' = screen u"
    by (auto simp: goto_def other_kept_def counts_def fun_eq_iff)
qed

lemma step_down:
  assumes "at (sems u) p = Body (Sem_down s)" "user_step p u = Some u'"
  shows "prog u' p = prog u p" "other_kept p u u'" "screen u' = screen u"
    "0 < fst (counts u s) \<Longrightarrow> at (sems u') p = Ready 0 \<and> counts u' = (counts u)(s := (fst (counts u s) - 1, snd (counts u s)))"
    "\<not> 0 < fst (counts u s) \<Longrightarrow> at (sems u') p = Asleep s \<and> counts u' = counts u"
proof -
  have u': "u' = u\<lparr>sems := sem_down p s (sems u)\<rparr>" using assms by (simp add: user_step_def sem_step_def)
  show "prog u' p = prog u p" "other_kept p u u'" "screen u' = screen u"
    "0 < fst (counts u s) \<Longrightarrow> at (sems u') p = Ready 0 \<and> counts u' = (counts u)(s := (fst (counts u s) - 1, snd (counts u s)))"
    "\<not> 0 < fst (counts u s) \<Longrightarrow> at (sems u') p = Asleep s \<and> counts u' = counts u"
    by (simp_all add: u' sem_down_def unlock_def goto_def other_kept_def counts_def fun_eq_iff)
qed

lemma step_up:
  assumes "at (sems u) p = Body (Sem_up s)" "user_step p u = Some u'"
  shows "prog u' p = prog u p" "other_kept p u u'" "screen u' = screen u" "\<exists>r. at (sems u') p = Ready r"
    "counts u' = (counts u)(s := (if snd (counts u s) = fst (counts u s) then fst (counts u s) else fst (counts u s) + 1, snd (counts u s)))"
proof -
  have u': "u' = u\<lparr>sems := sem_up p s (sems u)\<rparr>" using assms by (simp add: user_step_def sem_step_def)
  show "prog u' p = prog u p" "other_kept p u u'" "screen u' = screen u" "\<exists>r. at (sems u') p = Ready r"
    "counts u' = (counts u)(s := (if snd (counts u s) = fst (counts u s) then fst (counts u s) else fst (counts u s) + 1, snd (counts u s)))"
    by (auto simp: u' sem_up_def unlock_def goto_def wakeup_sem_def other_kept_def counts_def fun_eq_iff)
qed

lemma step_asleep: "at (sems u) p = Asleep s \<Longrightarrow> user_step p u = None"
  by (simp add: user_step_def sem_step_def)

lemma player_wants_step:
  assumes "player d w e Wants rest (at (sems u) p) (prog u p)" "user_step p u = Some u'" "d \<in> {0, 1}"
  shows "other_kept p u u' \<and> screen u' = screen u \<and> (player d w e Wants rest (at (sems u') p) (prog u' p) \<and> counts u' = counts u
      \<or> player d w e Has rest (at (sems u') p) (prog u' p) \<and> 0 < fst (counts u d)
        \<and> counts u' = (counts u)(d := (fst (counts u d) - 1, snd (counts u d))))"
proof -
  consider (ready) r where "at (sems u) p = Ready r" "prog u p = Call (Sem_down d) # Print w # Call (Sem_up e) # rest"
    | (entry) "at (sems u) p = Entry (Sem_down d)" "prog u p = Print w # Call (Sem_up e) # rest"
    | (body) "at (sems u) p = Body (Sem_down d)" "prog u p = Print w # Call (Sem_up e) # rest"
    using assms(1,2) step_asleep [of u p d] by (auto simp: player_def)
  then show ?thesis
  proof cases
    case ready
    then show ?thesis using step_call [OF ready assms(2)] by (simp add: player_def)
  next
    case entry
    then show ?thesis using step_entry [OF entry(1) _ assms(3,2)] by (simp add: player_def)
  next
    case body
    then show ?thesis using step_down [OF body(1) assms(2)] by (cases "0 < fst (counts u d)") (simp_all add: player_def)
  qed
qed

lemma player_has_step:
  assumes "player d w e Has rest (at (sems u) p) (prog u p)" "user_step p u = Some u'"
  shows "other_kept p u u' \<and> player d w e Printed rest (at (sems u') p) (prog u' p) \<and> screen u' = screen u @ [w] \<and> counts u' = counts u"
proof -
  obtain r where r: "at (sems u) p = Ready r" "prog u p = Print w # Call (Sem_up e) # rest" using assms(1) by (auto simp: player_def)
  show ?thesis using step_print [OF r assms(2)] by (simp add: player_def)
qed

lemma player_printed_step:
  assumes "player d w e Printed rest (at (sems u) p) (prog u p)" "user_step p u = Some u'" "e \<in> {0, 1}"
  shows "other_kept p u u' \<and> screen u' = screen u \<and> (player d w e Printed rest (at (sems u') p) (prog u' p) \<and> counts u' = counts u
      \<or> (\<exists>r. at (sems u') p = Ready r) \<and> prog u' p = rest
        \<and> counts u' = (counts u)(e := (if snd (counts u e) = fst (counts u e) then fst (counts u e) else fst (counts u e) + 1, snd (counts u e))))"
proof -
  consider (ready) r where "at (sems u) p = Ready r" "prog u p = Call (Sem_up e) # rest"
    | (entry) "at (sems u) p = Entry (Sem_up e)" "prog u p = rest"
    | (body) "at (sems u) p = Body (Sem_up e)" "prog u p = rest"
    using assms(1) by (auto simp: player_def)
  then show ?thesis
  proof cases
    case ready
    then show ?thesis using step_call [OF ready assms(2)] by (simp add: player_def)
  next
    case entry
    then show ?thesis using step_entry [OF entry(1) _ assms(3,2)] by (simp add: player_def)
  next
    case body
    then show ?thesis using step_up [OF body(1) assms(2)] by simp
  qed
qed

text \<open>\<open>sem_close\<close> leaves the other process where it is.\<close>

lemma step_close:
  assumes "at (sems u) p \<in> {Entry (Sem_close s), Body (Sem_close s), Tail s}" "s \<in> {0, 1}" "user_step p u = Some u'"
  shows "other_kept p u u'" "prog u' p = prog u p" "screen u' = screen u"
    "(\<exists>r. at (sems u') p = Ready r) \<or> at (sems u') p \<in> {Body (Sem_close s), Tail s}"
  using assms
  by (auto simp: user_step_def sem_step_def sem_close_test_def goto_def other_kept_def MAX_SEM_def Let_def)

lemma finished_step:
  assumes "finished (at (sems u) p) (prog u p)" "user_step p u = Some u'"
  shows "other_kept p u u' \<and> finished (at (sems u') p) (prog u' p) \<and> screen u' = screen u"
proof -
  consider (ready) r where "at (sems u) p = Ready r" "prog u p \<in> {closing, [Call (Sem_close 0)], []}"
    | (one) "at (sems u) p \<in> {Entry (Sem_close 1), Body (Sem_close 1), Tail 1}" "prog u p = [Call (Sem_close 0)]"
    | (zero) "at (sems u) p \<in> {Entry (Sem_close 0), Body (Sem_close 0), Tail 0}" "prog u p = []"
    using assms(1) unfolding finished_def by blast
  then show ?thesis
  proof cases
    case ready
    then have "prog u p \<noteq> []" using assms(2) by (auto simp: user_step_def)
    then obtain s rs where s: "prog u p = Call (Sem_close s) # rs" "s = 1 \<and> rs = [Call (Sem_close 0)] \<or> s = 0 \<and> rs = []"
      using ready(2) by (auto simp: closing_def)
    show ?thesis using step_call [OF ready(1) s(1) assms(2)] s(2) by (auto simp: finished_def)
  next
    case one
    show ?thesis using step_close [OF one(1) _ assms(2)] one(2) by (auto simp: finished_def)
  next
    case zero
    show ?thesis using step_close [OF zero(1) _ assms(2)] zero(2) by (auto simp: finished_def)
  qed
qed

section \<open>The invariant\<close>

lemma loops_unfold: "k < n \<Longrightarrow> ping_loop (n - k) = [Call (Sem_down 0), Print PING, Call (Sem_up 1)] @ ping_loop (n - Suc k)"
  "k < n \<Longrightarrow> pong_loop (n - k) = [Call (Sem_down 1), Print PONG, Call (Sem_up 0)] @ pong_loop (n - Suc k)"
  "ping_loop 0 = []" "pong_loop 0 = []"
  by (simp_all add: ping_loop_def pong_loop_def flip: Suc_diff_Suc)

lemma turns_ping: "turns (2 * k) @ [PING] = turns (2 * k + 1)" and turns_pong: "turns (2 * k + 1) @ [PONG] = turns (2 * k + 2)"
  by (simp_all add: turns_Suc)

lemma ping_returns:
  assumes "\<exists>r. at (sems u) 1 = Ready r" "prog u 1 = ping_loop (n - k) @ closing" "k \<le> n"
  shows "ping_waits n u k"
  using assms by (cases "k < n") (auto simp: ping_waits_def ping_at_def ping_end_def player_def finished_def loops_unfold)

lemma pong_returns:
  assumes "\<exists>r. at (sems u) 0 = Ready r" "prog u 0 = pong_loop (n - k) @ closing" "k \<le> n"
  shows "pong_waits n u k"
  using assms by (cases "k < n") (auto simp: pong_waits_def pong_at_def pong_end_def player_def finished_def loops_unfold)

lemma ping_kept:
  assumes "other_kept 0 u u'"
  shows "ping_at u st r \<Longrightarrow> ping_at u' st r" "ping_end u \<Longrightarrow> ping_end u'" "ping_waits n u k \<Longrightarrow> ping_waits n u' k"
  using player_other [OF _ assms] finished_other [OF _ assms]
  by (auto simp: ping_at_def ping_end_def ping_waits_def)

lemma pong_kept:
  assumes "other_kept 1 u u'"
  shows "pong_at u st r \<Longrightarrow> pong_at u' st r" "pong_end u \<Longrightarrow> pong_end u'" "pong_waits n u k \<Longrightarrow> pong_waits n u' k"
  using player_other [OF _ assms] finished_other [OF _ assms]
  by (auto simp: pong_at_def pong_end_def pong_waits_def)

lemma ping_end_step: "ping_end u \<Longrightarrow> user_step 1 u = Some u' \<Longrightarrow> other_kept 1 u u' \<and> ping_end u' \<and> screen u' = screen u"
  unfolding ping_end_def by (rule finished_step)

lemma pong_end_step: "pong_end u \<Longrightarrow> user_step 0 u = Some u' \<Longrightarrow> other_kept 0 u u' \<and> pong_end u' \<and> screen u' = screen u"
  unfolding pong_end_def by (rule finished_step)

text \<open>A step of the child in a round.\<close>

lemma ping_in_round:
  assumes "in_round n u k" "user_step 1 u = Some u'"
  shows "in_round n u' k \<or> at_end n u'"
proof -
  from assms(1) consider
      (one) "sem_values u 1 0" "ping_at u Wants (n - Suc k)" "pong_waits n u k" "screen u = turns (2 * k)" "k < n"
    | (two) "sem_values u 0 0" "ping_at u Has (n - Suc k)" "pong_waits n u k" "screen u = turns (2 * k)" "k < n"
    | (three) "sem_values u 0 0" "ping_at u Printed (n - Suc k)" "pong_waits n u k" "screen u = turns (2 * k + 1)" "k < n"
    | (rest) x where "sem_values u 0 x" "ping_at u Wants (n - Suc (Suc k))" "Suc k < n"
        "x = 1 \<and> pong_waits n u k \<and> screen u = turns (2 * k + 1) \<or> x = 0 \<and> pong_at u Has (n - Suc k) \<and> screen u = turns (2 * k + 1)
         \<or> x = 0 \<and> pong_at u Printed (n - Suc k) \<and> screen u = turns (2 * k + 2)"
    unfolding in_round_def ping_waits_def by (auto split: if_splits)
  then show ?thesis
  proof cases
    case one
    from player_wants_step [OF one(2) [unfolded ping_at_def] assms(2)]
    have s: "other_kept 1 u u'" "screen u' = screen u" "ping_at u' Wants (n - Suc k) \<and> counts u' = counts u
      \<or> ping_at u' Has (n - Suc k) \<and> counts u' = (counts u)(0 := (fst (counts u 0) - 1, snd (counts u 0)))"
      by (auto simp: ping_at_def)
    have q: "pong_waits n u' k" by (rule pong_kept(3) [OF s(1) one(3)])
    from s(3) show ?thesis
    proof
      assume "ping_at u' Wants (n - Suc k) \<and> counts u' = counts u"
      then show ?thesis using one s(2) q by (simp add: in_round_def sem_values_counts ping_waits_def)
    next
      assume "ping_at u' Has (n - Suc k) \<and> counts u' = (counts u)(0 := (fst (counts u 0) - 1, snd (counts u 0)))"
      then show ?thesis using one s(2) q by (simp add: in_round_def sem_values_counts)
    qed
  next
    case two
    from player_has_step [OF two(2) [unfolded ping_at_def] assms(2)]
    have s: "other_kept 1 u u'" "screen u' = screen u @ [PING]" "ping_at u' Printed (n - Suc k)" "counts u' = counts u"
      by (auto simp: ping_at_def)
    then show ?thesis using two pong_kept [OF s(1)] by (simp add: in_round_def sem_values_counts turns_ping)
  next
    case three
    from player_printed_step [OF three(2) [unfolded ping_at_def] assms(2)]
    have s: "other_kept 1 u u'" "screen u' = screen u" "ping_at u' Printed (n - Suc k) \<and> counts u' = counts u
      \<or> (\<exists>r. at (sems u') 1 = Ready r) \<and> prog u' 1 = ping_loop (n - Suc k) @ closing
        \<and> counts u' = (counts u)(1 := (if snd (counts u 1) = fst (counts u 1) then fst (counts u 1) else fst (counts u 1) + 1, snd (counts u 1)))"
      by (auto simp: ping_at_def)
    from s(3) show ?thesis
    proof
      assume "ping_at u' Printed (n - Suc k) \<and> counts u' = counts u"
      then show ?thesis using three s(2) pong_kept [OF s(1)] by (simp add: in_round_def sem_values_counts)
    next
      assume a: "(\<exists>r. at (sems u') 1 = Ready r) \<and> prog u' 1 = ping_loop (n - Suc k) @ closing
        \<and> counts u' = (counts u)(1 := (if snd (counts u 1) = fst (counts u 1) then fst (counts u 1) else fst (counts u 1) + 1, snd (counts u 1)))"
      then have w: "ping_waits n u' (Suc k)" using ping_returns [of u' n "Suc k"] three(5) by simp
      have v: "sem_values u' 0 1" using a three(1) by (simp add: sem_values_counts)
      have q: "pong_waits n u' k" by (rule pong_kept(3) [OF s(1) three(3)])
      show ?thesis
      proof (cases "Suc k < n")
        case True
        then show ?thesis using w v q s(2) three(4) by (simp add: in_round_def)
      next
        case False
        then have "n = Suc k" using three(5) by simp
        then show ?thesis using w q s(2) three(4) by (simp add: at_end_def ping_waits_def pong_waits_def)
      qed
    qed
  next
    case rest
    from player_wants_step [OF rest(2) [unfolded ping_at_def] assms(2)] rest(1)
    have s: "other_kept 1 u u'" "screen u' = screen u" "ping_at u' Wants (n - Suc (Suc k)) \<and> counts u' = counts u"
      by (auto simp: ping_at_def sem_values_counts)
    have v: "sem_values u' 0 x" "ping_waits n u' (Suc k)" using rest(1,3) s(3) by (simp_all add: sem_values_counts ping_waits_def)
    from rest(4) show ?thesis
      by (elim disjE conjE) (use pong_kept [OF s(1)] v s(2) rest(3) in \<open>simp_all add: in_round_def\<close>)
  qed
qed

text \<open>A step of the parent in a round.\<close>

lemma pong_in_round:
  assumes "in_round n u k" "user_step 0 u = Some u'"
  shows "in_round n u' k \<or> in_round n u' (Suc k)"
proof -
  from assms(1) consider
      (early) x where "sem_values u x 0" "pong_at u Wants (n - Suc k)" "k < n"
        "x = 1 \<and> ping_waits n u k \<and> screen u = turns (2 * k) \<or> x = 0 \<and> ping_at u Has (n - Suc k) \<and> screen u = turns (2 * k)
         \<or> x = 0 \<and> ping_at u Printed (n - Suc k) \<and> screen u = turns (2 * k + 1)"
    | (four) "sem_values u 0 1" "ping_waits n u (Suc k)" "pong_at u Wants (n - Suc k)" "screen u = turns (2 * k + 1)" "Suc k < n"
    | (five) "sem_values u 0 0" "ping_waits n u (Suc k)" "pong_at u Has (n - Suc k)" "screen u = turns (2 * k + 1)" "Suc k < n"
    | (six) "sem_values u 0 0" "ping_waits n u (Suc k)" "pong_at u Printed (n - Suc k)" "screen u = turns (2 * k + 2)" "Suc k < n"
    unfolding in_round_def pong_waits_def by (auto split: if_splits)
  then show ?thesis
  proof cases
    case early
    from player_wants_step [OF early(2) [unfolded pong_at_def] assms(2)] early(1)
    have s: "other_kept 0 u u'" "screen u' = screen u" "pong_at u' Wants (n - Suc k) \<and> counts u' = counts u"
      by (auto simp: pong_at_def sem_values_counts)
    have v: "sem_values u' x 0" "pong_waits n u' k" using early(1,3) s(3) by (simp_all add: sem_values_counts pong_waits_def)
    from early(4) show ?thesis
      by (elim disjE conjE) (use ping_kept [OF s(1)] v s(2) early(3) in \<open>simp_all add: in_round_def\<close>)
  next
    case four
    from player_wants_step [OF four(3) [unfolded pong_at_def] assms(2)]
    have s: "other_kept 0 u u'" "screen u' = screen u" "pong_at u' Wants (n - Suc k) \<and> counts u' = counts u
      \<or> pong_at u' Has (n - Suc k) \<and> counts u' = (counts u)(1 := (fst (counts u 1) - 1, snd (counts u 1)))"
      by (auto simp: pong_at_def)
    have q: "ping_waits n u' (Suc k)" by (rule ping_kept(3) [OF s(1) four(2)])
    from s(3) show ?thesis
    proof
      assume "pong_at u' Wants (n - Suc k) \<and> counts u' = counts u"
      then show ?thesis using four s(2) q by (simp add: in_round_def sem_values_counts pong_waits_def)
    next
      assume "pong_at u' Has (n - Suc k) \<and> counts u' = (counts u)(1 := (fst (counts u 1) - 1, snd (counts u 1)))"
      then show ?thesis using four s(2) q by (simp add: in_round_def sem_values_counts)
    qed
  next
    case five
    from player_has_step [OF five(3) [unfolded pong_at_def] assms(2)]
    have s: "other_kept 0 u u'" "screen u' = screen u @ [PONG]" "pong_at u' Printed (n - Suc k)" "counts u' = counts u"
      by (auto simp: pong_at_def)
    have "screen u' = turns (2 * k + 2)" by (simp only: s(2) five(4) turns_pong)
    then show ?thesis using five(1,2,5) s ping_kept [OF s(1)] by (simp add: in_round_def sem_values_counts)
  next
    case six
    from player_printed_step [OF six(3) [unfolded pong_at_def] assms(2)]
    have s: "other_kept 0 u u'" "screen u' = screen u" "pong_at u' Printed (n - Suc k) \<and> counts u' = counts u
      \<or> (\<exists>r. at (sems u') 0 = Ready r) \<and> prog u' 0 = pong_loop (n - Suc k) @ closing
        \<and> counts u' = (counts u)(0 := (if snd (counts u 0) = fst (counts u 0) then fst (counts u 0) else fst (counts u 0) + 1, snd (counts u 0)))"
      by (auto simp: pong_at_def)
    from s(3) show ?thesis
    proof
      assume "pong_at u' Printed (n - Suc k) \<and> counts u' = counts u"
      then show ?thesis using six s(2) ping_kept [OF s(1)] by (simp add: in_round_def sem_values_counts)
    next
      assume a: "(\<exists>r. at (sems u') 0 = Ready r) \<and> prog u' 0 = pong_loop (n - Suc k) @ closing
        \<and> counts u' = (counts u)(0 := (if snd (counts u 0) = fst (counts u 0) then fst (counts u 0) else fst (counts u 0) + 1, snd (counts u 0)))"
      then have "pong_waits n u' (Suc k)" using pong_returns [of u' n "Suc k"] six(5) by simp
      moreover have "sem_values u' 1 0" using a six(1) by (simp add: sem_values_counts)
      ultimately show ?thesis using six(2,4,5) s(2) ping_kept [OF s(1)] by (simp add: in_round_def)
    qed
  qed
qed

lemma at_end_step:
  assumes "at_end n u" "user_step p u = Some u'" "p < 2"
  shows "at_end n u'"
proof (cases "p = 0")
  case False
  then have p: "p = 1" using assms(3) by simp
  have s: "other_kept 1 u u'" "ping_end u'" "screen u' = screen u" using ping_end_step assms(1,2) by (auto simp: at_end_def p)
  then show ?thesis using assms(1) pong_kept [OF s(1)] by (auto simp: at_end_def)
next
  case p: True
  have e: "ping_end u" using assms(1) by (simp add: at_end_def)
  from assms(1) consider (wants) "0 < n" "pong_at u Wants 0" "screen u = turns (2 * n - 1)"
    | (has) "0 < n" "pong_at u Has 0" "screen u = turns (2 * n - 1)" | (printed) "0 < n" "pong_at u Printed 0" "screen u = turns (2 * n)"
    | (final) "pong_end u" "screen u = turns (2 * n)" unfolding at_end_def by blast
  then show ?thesis
  proof cases
    case wants
    from player_wants_step [OF wants(2) [unfolded pong_at_def] assms(2) [unfolded p]]
    have s: "other_kept 0 u u'" "screen u' = screen u" "pong_at u' Wants 0 \<or> pong_at u' Has 0" by (auto simp: pong_at_def)
    then show ?thesis using wants ping_kept(2) [OF s(1) e] by (auto simp: at_end_def)
  next
    case has
    from player_has_step [OF has(2) [unfolded pong_at_def] assms(2) [unfolded p]]
    have s: "other_kept 0 u u'" "screen u' = screen u @ [PONG]" "pong_at u' Printed 0" by (auto simp: pong_at_def)
    obtain k where k: "n = Suc k" using has(1) by (cases n) simp_all
    have "screen u' = turns (2 * n)" using s(2) has(3) turns_pong [of k] by (simp add: k)
    then show ?thesis using has(1) s(3) ping_kept(2) [OF s(1) e] by (simp add: at_end_def)
  next
    case printed
    from player_printed_step [OF printed(2) [unfolded pong_at_def] assms(2) [unfolded p]]
    have s: "other_kept 0 u u'" "screen u' = screen u" "pong_at u' Printed 0 \<or> pong_end u'"
      by (auto simp: pong_at_def pong_end_def finished_def loops_unfold)
    then show ?thesis using printed ping_kept(2) [OF s(1) e] by (auto simp: at_end_def)
  next
    case final
    have s: "other_kept 0 u u'" "pong_end u'" "screen u' = screen u" using pong_end_step [OF final(1)] assms(2) by (simp_all add: p)
    then show ?thesis using final(2) ping_kept(2) [OF s(1) e] by (simp add: at_end_def)
  qed
qed

text \<open>The parent before the \<open>fork\<close>.\<close>

definition starting_up :: "nat \<Rightarrow> user \<Rightarrow> bool" where
  "starting_up n u \<longleftrightarrow> prog u 1 = [] \<and> at (sems u) 1 = Ready 0 \<and> screen u = []
     \<and> (let ph = at (sems u) 0; at_op = (\<lambda>op. ph = Entry op \<or> ph = Body op); out = (\<exists>r. ph = Ready r);
            left = (\<lambda>j. prog u 0 = drop j (main_pingpong n)) in
        out \<and> left 0
      \<or> at_op (Sem_open 0 1) \<and> left 1
      \<or> out \<and> left 1 \<and> counts u 0 = (1, 1)
      \<or> at_op (Sem_open 1 1) \<and> left 2 \<and> counts u 0 = (1, 1)
      \<or> out \<and> left 2 \<and> sem_values u 1 1
      \<or> at_op (Sem_down 1) \<and> left 3 \<and> sem_values u 1 1
      \<or> out \<and> left 3 \<and> sem_values u 1 0)"

lemma step_open:
  assumes "at (sems u) p = Body (Sem_open s v)" "s \<in> {0, 1}" "user_step p u = Some u'"
  shows "prog u' p = prog u p" "other_kept p u u'" "screen u' = screen u" "\<exists>r. at (sems u') p = Ready r"
    "counts u' = (counts u)(s := (v, v))"
proof -
  have u': "u' = u\<lparr>sems := sem_open p s v (sems u)\<rparr>" using assms by (simp add: user_step_def sem_step_def)
  show "prog u' p = prog u p" "other_kept p u u'" "screen u' = screen u" "\<exists>r. at (sems u') p = Ready r"
    "counts u' = (counts u)(s := (v, v))"
    using assms(2) by (auto simp: u' sem_open_def unlock_def goto_def other_kept_def counts_def fun_eq_iff MAX_SEM_def)
qed

lemma step_fork:
  assumes "at (sems u) 0 = Ready r" "prog u 0 = Fork c # is" "user_step 0 u = Some u'"
  shows "at (sems u') = at (sems u)" "prog u' 0 = is" "prog u' 1 = c" "counts u' = counts u" "screen u' = screen u"
  using assms by (auto simp: user_step_def counts_def fun_eq_iff)

lemma main_drop:
  "drop 0 (main_pingpong n) = Call (Sem_open 0 1) # drop 1 (main_pingpong n)"
  "drop 1 (main_pingpong n) = Call (Sem_open 1 1) # drop 2 (main_pingpong n)"
  "drop 2 (main_pingpong n) = Call (Sem_down 1) # drop 3 (main_pingpong n)"
  "drop 3 (main_pingpong n) = Fork (ping_loop n @ closing) # pong_loop n @ closing"
  by (simp_all add: main_pingpong_def numeral_2_eq_2 numeral_3_eq_3)

lemma other_absent: "other_kept 0 u u' \<Longrightarrow> prog u 1 = [] \<Longrightarrow> at (sems u) 1 = Ready 0 \<Longrightarrow> prog u' 1 = [] \<and> at (sems u') 1 = Ready 0"
  unfolding other_kept_def by (auto dest: spec [of _ 1])

lemma starting_up_step:
  assumes "starting_up n u" "user_step p u = Some u'" "p < 2"
  shows "starting_up n u' \<or> in_round n u' 0 \<or> at_end n u'"
proof -
  note I = assms(1) [unfolded starting_up_def Let_def]
  have one: "prog u 1 = []" "at (sems u) 1 = Ready 0" "screen u = []" using I by blast+
  have "user_step 1 u = None" using one by (simp add: user_step_def)
  then have p: "p = 0" using assms(2,3) by (cases "p = 0") (auto simp: less_Suc_eq numeral_2_eq_2)
  note st = assms(2) [unfolded p]
  have keep: "other_kept 0 u u' \<Longrightarrow> prog u' 1 = [] \<and> at (sems u') 1 = Ready 0" using other_absent one by blast
  from I consider (a) r where "at (sems u) 0 = Ready r" "prog u 0 = drop 0 (main_pingpong n)"
    | (b) "at (sems u) 0 = Entry (Sem_open 0 1)" "prog u 0 = drop 1 (main_pingpong n)"
    | (c) "at (sems u) 0 = Body (Sem_open 0 1)" "prog u 0 = drop 1 (main_pingpong n)"
    | (d) r where "at (sems u) 0 = Ready r" "prog u 0 = drop 1 (main_pingpong n)" "counts u 0 = (1, 1)"
    | (e) "at (sems u) 0 = Entry (Sem_open 1 1)" "prog u 0 = drop 2 (main_pingpong n)" "counts u 0 = (1, 1)"
    | (f) "at (sems u) 0 = Body (Sem_open 1 1)" "prog u 0 = drop 2 (main_pingpong n)" "counts u 0 = (1, 1)"
    | (g) r where "at (sems u) 0 = Ready r" "prog u 0 = drop 2 (main_pingpong n)" "sem_values u 1 1"
    | (h) "at (sems u) 0 = Entry (Sem_down 1)" "prog u 0 = drop 3 (main_pingpong n)" "sem_values u 1 1"
    | (i) "at (sems u) 0 = Body (Sem_down 1)" "prog u 0 = drop 3 (main_pingpong n)" "sem_values u 1 1"
    | (j) r where "at (sems u) 0 = Ready r" "prog u 0 = drop 3 (main_pingpong n)" "sem_values u 1 0"
    by blast
  then show ?thesis
  proof cases
    case a
    note S = step_call [OF a(1) a(2) [unfolded main_drop(1)] st]
    show ?thesis using S keep [OF S(3)] one(3) by (simp add: starting_up_def)
  next
    case b
    note S = step_entry [OF b(1) _ _ st, of 0 1, simplified]
    show ?thesis using S b(2) keep [OF S(3)] one(3) by (simp add: starting_up_def)
  next
    case c
    note S = step_open [OF c(1) _ st, simplified]
    show ?thesis using S c(2) keep [OF S(2)] one(3) by (simp add: starting_up_def Let_def)
  next
    case d
    note S = step_call [OF d(1) d(2) [unfolded main_drop(2)] st]
    show ?thesis using S d(3) keep [OF S(3)] one(3) by (simp add: starting_up_def)
  next
    case e
    note S = step_entry [OF e(1) _ _ st, of 1 1, simplified]
    show ?thesis using S e(2,3) keep [OF S(3)] one(3) by (simp add: starting_up_def)
  next
    case f
    note S = step_open [OF f(1) _ st, simplified]
    show ?thesis using S f(2,3) keep [OF S(2)] one(3) by (simp add: starting_up_def Let_def sem_values_counts)
  next
    case g
    note S = step_call [OF g(1) g(2) [unfolded main_drop(3)] st]
    show ?thesis using S g(3) keep [OF S(3)] one(3) by (simp add: starting_up_def sem_values_counts)
  next
    case h
    note S = step_entry [OF h(1) _ _ st, of 1 1, simplified]
    show ?thesis using S h(2,3) keep [OF S(3)] one(3) by (simp add: starting_up_def sem_values_counts)
  next
    case i
    note S = step_down [OF i(1) st]
    have "0 < fst (counts u 1)" using i(3) by (simp add: sem_values_counts)
    then show ?thesis using S(1,3) S(4) i(2,3) keep [OF S(2)] one(3) by (simp add: starting_up_def sem_values_counts)
  next
    case j
    note S = step_fork [OF j(1) j(2) [unfolded main_drop(4)] st]
    have "ping_waits n u' 0" using ping_returns [of u' n 0] S(1,3) one(2) by simp
    moreover have "pong_waits n u' 0" using pong_returns [of u' n 0] S(1,2) j(1) by simp
    moreover have "sem_values u' 1 0" using S(4) j(3) by (simp add: sem_values_counts)
    ultimately show ?thesis using S(5) one(3)
      by (cases n) (simp_all add: in_round_def at_end_def turns_def ping_waits_def pong_waits_def)
  qed
qed

lemma pong_busy: "pong_at u st x \<Longrightarrow> \<not> (at (sems u) 0 = Ready r \<and> prog u 0 = [])"
  by (cases st) (auto simp: pong_at_def player_def closing_def)

definition pingpong_inv :: "nat \<Rightarrow> user \<Rightarrow> bool" where
  "pingpong_inv n u \<longleftrightarrow> starting_up n u \<or> (\<exists>k. in_round n u k) \<or> at_end n u"

interpretation pingpong_sys: invariant_system "pingpong_start n" user_move "pingpong_inv n" for n
proof unfold_locales
  show "pingpong_start n u \<Longrightarrow> pingpong_inv n u" for u
    by (simp add: pingpong_start_def pingpong_inv_def starting_up_def)
  show "pingpong_inv n u'" if a: "pingpong_inv n u" "user_move u u'" for u u'
  proof -
    obtain p where p: "p < 2" "user_step p u = Some u'" using a(2) by (elim user_moveE) blast
    have p01: "p = 0 \<or> p = 1" using p(1) by auto
    from a(1) show ?thesis
      using starting_up_step [OF _ p(2,1)] at_end_step [OF _ p(2,1)] ping_in_round [of n u _ u'] pong_in_round [of n u _ u'] p01 p(2)
      unfolding pingpong_inv_def by metis
  qed
qed

text \<open>Runs by a schedule, the list of the processes that step.\<close>

fun run_schedule :: "nat list \<Rightarrow> user \<Rightarrow> user option" where
  "run_schedule [] u = Some u"
| "run_schedule (p # ps) u = (case user_step p u of None \<Rightarrow> None | Some u' \<Rightarrow> run_schedule ps u')"

lemma run_schedule_moves:
  assumes "run_schedule ps u = Some u'" "\<forall>p \<in> set ps. p < 2"
  shows "user_move\<^sup>*\<^sup>* u u'"
  using assms
proof (induction ps arbitrary: u)
  case (Cons p ps)
  then obtain v where v: "user_step p u = Some v" "run_schedule ps v = Some u'" by (auto split: option.splits)
  have "user_move u v" by (rule user_move.intros [OF _ v(1)]) (use Cons.prems(2) in simp)
  then show ?case using Cons.IH [OF v(2)] Cons.prems(2) by (auto intro: converse_rtranclp_into_rtranclp)
qed simp

definition first_user :: "nat \<Rightarrow> user" where
  "first_user n = \<lparr>sems = \<lparr>sem_array = \<lambda>_. \<lparr>s_locked = False, s_value = 0, s_init = 0\<rparr>, at = \<lambda>_. Ready 0\<rparr>,
     prog = (\<lambda>_. [])(0 := main_pingpong n), screen = []\<rparr>"

lemma first_user_start: "pingpong_start n (first_user n)"
  by (simp add: pingpong_start_def first_user_def)

text \<open>The child plays its one turn and closes the semaphores before the parent calls \<open>sem_down\<close>.\<close>

definition early_close :: "nat list" where
  "early_close = replicate 10 0 @ replicate 15 1 @ replicate 3 0"

lemma early_close_run:
  "map_option (\<lambda>u. (at (sems u) 0, at (sems u) 1, prog u 1, screen u, Option.is_none (user_step 0 u), Option.is_none (user_step 1 u)))
     (run_schedule early_close (first_user 1)) = Some (Asleep 1, Ready 0, [], [PING], True, True)"
  by code_simp

text \<open>
  C6: ping pong alternates.  Whatever the interleaving, closing of the semaphores included, the output
  is always a beginning of \<open>n\<close> rounds of PING and PONG, starting with PING; when both processes have
  ended, it is all of them.
\<close>

theorem pingpong_alternates:
  assumes "pingpong_start n u0" "user_move\<^sup>*\<^sup>* u0 u"
  shows "(\<exists>k \<le> 2 * n. screen u = turns k)
    \<and> (at (sems u) 0 = Ready r \<and> prog u 0 = [] \<longrightarrow> at (sems u) 1 = Ready r' \<longrightarrow> prog u 1 = [] \<longrightarrow> screen u = turns (2 * n))"
proof -
  have I: "pingpong_inv n u" by (rule pingpong_sys.reachable_inv [OF assms])
  have two: "0 < n \<Longrightarrow> 2 * n = 2 * (n - 1) + 2" by simp
  show ?thesis
    using I unfolding pingpong_inv_def
  proof (elim disjE exE)
    assume o: "starting_up n u"
    have "screen u = turns 0" using o by (simp add: starting_up_def turns_def)
    moreover have "prog u 0 \<noteq> []"
    proof
      assume "prog u 0 = []"
      moreover have "drop j (main_pingpong n) \<noteq> []" if "j \<le> 3" for j using that by (simp add: main_pingpong_def closing_def)
      ultimately show False using o unfolding starting_up_def Let_def by force
    qed
    ultimately show ?thesis by auto
  next
    fix k assume k: "in_round n u k"
    have "screen u = turns (2 * k) \<or> screen u = turns (2 * k + 1) \<or> screen u = turns (2 * k + 2)" "k < n"
      using k by (auto simp: in_round_def)
    moreover have "2 * k \<le> 2 * n" "2 * k + 1 \<le> 2 * n" "2 * k + 2 \<le> 2 * n" using \<open>k < n\<close> by simp_all
    ultimately have "\<exists>j \<le> 2 * n. screen u = turns j" by blast
    moreover have "pong_waits n u k \<or> pong_at u Has (n - Suc k) \<or> pong_at u Printed (n - Suc k)"
      using k unfolding in_round_def by blast
    then have "pong_at u Wants (n - Suc k) \<or> pong_at u Has (n - Suc k) \<or> pong_at u Printed (n - Suc k)"
      using \<open>k < n\<close> by (simp add: pong_waits_def)
    then have "\<not> (at (sems u) 0 = Ready r \<and> prog u 0 = [])" using pong_busy by blast
    ultimately show ?thesis by blast
  next
    assume e: "at_end n u"
    have "screen u = turns (2 * n - 1) \<or> screen u = turns (2 * n)" using e by (auto simp: at_end_def)
    then have "\<exists>j \<le> 2 * n. screen u = turns j" by (metis diff_le_self order_refl)
    moreover have "at (sems u) 0 = Ready r \<and> prog u 0 = [] \<longrightarrow> screen u = turns (2 * n)"
      using e pong_busy unfolding at_end_def by blast
    ultimately show ?thesis by blast
  qed
qed

theorem pingpong_alternates_witness:
  "\<exists>u. user_move\<^sup>*\<^sup>* (first_user 1) u \<and> prog u 1 = [] \<and> (\<exists>k \<le> 2. screen u = turns k)"
proof -
  obtain u where u: "run_schedule early_close (first_user 1) = Some u" "prog u 1 = []" using early_close_run by auto
  have r: "user_move\<^sup>*\<^sup>* (first_user 1) u" by (rule run_schedule_moves [OF u(1)]) (simp add: early_close_def)
  show ?thesis using pingpong_alternates [OF first_user_start r] u(2) r by auto
qed

text \<open>
  C36: the first to end can block the other for ever.  With one turn each, the child prints PING, ups
  semaphore 1 and closes it, which sets its value to 0 again, before the parent has taken it: the
  parent sleeps, nothing can happen any more, and PONG is never printed.
\<close>

theorem pingpong_blocks:
  "\<exists>u. pingpong_start 1 (first_user 1) \<and> user_move\<^sup>*\<^sup>* (first_user 1) u \<and> at (sems u) 0 = Asleep 1
    \<and> screen u = [PING] \<and> (\<nexists>u'. user_move u u')"
proof -
  obtain u where u: "run_schedule early_close (first_user 1) = Some u" "at (sems u) 0 = Asleep 1" "screen u = [PING]"
    "user_step 0 u = None" "user_step 1 u = None" using early_close_run by (auto simp: Option.is_none_def)
  have r: "user_move\<^sup>*\<^sup>* (first_user 1) u" by (rule run_schedule_moves [OF u(1)]) (simp add: early_close_def)
  have "\<not> user_move u u'" for u'
  proof
    assume "user_move u u'"
    then obtain p where "p < 2" "user_step p u = Some u'" by (elim user_moveE)
    moreover have "p = 0 \<or> p = 1" using \<open>p < 2\<close> by auto
    ultimately show False using u(4,5) by auto
  qed
  then show ?thesis using first_user_start r u(2,3) by blast
qed

end
