(* ===== verification/Shell_Command.thy ===== *)
theory Shell_Command
  imports Prelude
begin

text \<open>
  The command types of the shell of LAB1 (\<open>command.c\<close>, \<open>strextra.c\<close>).  A simple command keeps its
  arguments in a \<open>GList\<close>, here the list of its strings, and the files of its redirections, NULL or a
  string; a pipeline is a list of commands and a flag.  A failed \<open>assert\<close> is None.  A string on the
  heap is its block: the size that was allocated and the characters before the NUL; a \<open>strcat\<close> that
  leaves the block is None as well.  Allocation never fails.
\<close>

section \<open>Strings\<close>

record block =
  b_size :: nat
  b_str :: cstring

definition strdup :: "cstring \<Rightarrow> block" where
  "strdup s = \<lparr>b_size = length s + 1, b_str = s\<rparr>"

definition strcat :: "block \<Rightarrow> cstring \<Rightarrow> block option" where
  "strcat b s = (if length (b_str b) + length s + 1 \<le> b_size b then Some (b\<lparr>b_str := b_str b @ s\<rparr>) else None)"

definition strmerge :: "cstring \<Rightarrow> cstring \<Rightarrow> block" where
  "strmerge s1 s2 = \<lparr>b_size = length s1 + length s2 + 1, b_str = s1 @ s2\<rparr>"

definition streq :: "cstring \<Rightarrow> cstring \<Rightarrow> bool" where
  "streq s1 s2 \<longleftrightarrow> s1 = s2"

section \<open>Simple commands\<close>

record scommand =
  args :: "cstring list"
  redir_in :: "cstring option"
  redir_out :: "cstring option"

definition scommand_new :: scommand where
  "scommand_new = \<lparr>args = [], redir_in = None, redir_out = None\<rparr>"

definition scommand_is_empty :: "scommand \<Rightarrow> bool" where
  "scommand_is_empty c = (length (args c) = 0)"

definition scommand_length :: "scommand \<Rightarrow> nat" where
  "scommand_length c = length (args c)"

definition scommand_push_back :: "scommand \<Rightarrow> cstring \<Rightarrow> scommand" where
  "scommand_push_back c a = c\<lparr>args := args c @ [a]\<rparr>"

definition scommand_pop_front :: "scommand \<Rightarrow> scommand option" where
  "scommand_pop_front c = (if scommand_is_empty c then None else Some (c\<lparr>args := tl (args c)\<rparr>))"

definition scommand_front :: "scommand \<Rightarrow> cstring option" where
  "scommand_front c = (if scommand_is_empty c then None else Some (hd (args c)))"

definition scommand_set_redir_in :: "scommand \<Rightarrow> cstring option \<Rightarrow> scommand" where
  "scommand_set_redir_in c f = c\<lparr>redir_in := f\<rparr>"

definition scommand_set_redir_out :: "scommand \<Rightarrow> cstring option \<Rightarrow> scommand" where
  "scommand_set_redir_out c f = c\<lparr>redir_out := f\<rparr>"

text \<open>The loop of \<open>scommand_to_array\<close>, which empties the command.\<close>

fun to_array_loop :: "nat \<Rightarrow> scommand \<Rightarrow> (cstring list \<times> scommand) option" where
  "to_array_loop 0 c = Some ([], c)"
| "to_array_loop (Suc n) c = do {
     a \<leftarrow> scommand_front c;
     c \<leftarrow> scommand_pop_front c;
     (as, c) \<leftarrow> to_array_loop n c;
     Some (a # as, c)
   }"

definition scommand_to_array :: "scommand \<Rightarrow> (cstring list \<times> scommand) option" where
  "scommand_to_array c = to_array_loop (scommand_length c) c"

text \<open>The loop of \<open>scommand_to_string\<close> over the arguments from \<open>i\<close> on.\<close>

fun merge_args :: "cstring list \<Rightarrow> block \<Rightarrow> block" where
  "merge_args [] s = s"
| "merge_args (a # as) s =
     (let s = strmerge (b_str s) a
      in merge_args as (if as \<noteq> [] then strmerge (b_str s) (cstr '' '') else s))"

definition append_redir :: "cstring \<Rightarrow> cstring option \<Rightarrow> block \<Rightarrow> block option" where
  "append_redir op f s =
     (case f of
        None \<Rightarrow> Some s
      | Some f \<Rightarrow> do { s \<leftarrow> strcat s op; strcat s f })"

definition scommand_to_string :: "scommand \<Rightarrow> block option" where
  "scommand_to_string c = do {
     let s = merge_args (args c) (strdup []);
     s \<leftarrow> append_redir (cstr '' < '') (redir_in c) s;
     append_redir (cstr '' > '') (redir_out c) s
   }"

section \<open>Pipelines\<close>

record pipeline =
  scmds :: "scommand list"
  wait_flag :: bool

definition pipeline_new :: pipeline where
  "pipeline_new = \<lparr>scmds = [], wait_flag = True\<rparr>"

definition pipeline_is_empty :: "pipeline \<Rightarrow> bool" where
  "pipeline_is_empty p = (length (scmds p) = 0)"

definition pipeline_length :: "pipeline \<Rightarrow> nat" where
  "pipeline_length p = length (scmds p)"

definition pipeline_push_back :: "pipeline \<Rightarrow> scommand \<Rightarrow> pipeline" where
  "pipeline_push_back p c = p\<lparr>scmds := scmds p @ [c]\<rparr>"

definition pipeline_pop_front :: "pipeline \<Rightarrow> pipeline option" where
  "pipeline_pop_front p = (if pipeline_is_empty p then None else Some (p\<lparr>scmds := tl (scmds p)\<rparr>))"

definition pipeline_front :: "pipeline \<Rightarrow> scommand option" where
  "pipeline_front p = (if pipeline_is_empty p then None else Some (hd (scmds p)))"

definition pipeline_set_wait :: "pipeline \<Rightarrow> bool \<Rightarrow> pipeline" where
  "pipeline_set_wait p w = p\<lparr>wait_flag := w\<rparr>"

text \<open>The commands before the last one, then the last.\<close>

fun concat_commands :: "scommand list \<Rightarrow> block \<Rightarrow> block option" where
  "concat_commands [] s = Some s"
| "concat_commands [c] s = do { a \<leftarrow> scommand_to_string c; strcat s (b_str a) }"
| "concat_commands (c # cs) s = do {
     a \<leftarrow> scommand_to_string c;
     s \<leftarrow> strcat s (b_str a);
     s \<leftarrow> strcat s (cstr '' | '');
     concat_commands cs s
   }"

definition pipeline_to_string :: "pipeline \<Rightarrow> block option" where
  "pipeline_to_string p =
     (if scmds p = [] then Some (strdup [])
      else do {
        s \<leftarrow> concat_commands (scmds p) (strdup []);
        if \<not> wait_flag p then strcat s (cstr '' &'') else Some s
      })"

section \<open>What the commands promise\<close>

lemmas scommand_defs = scommand_is_empty_def scommand_length_def scommand_push_back_def scommand_pop_front_def
  scommand_front_def scommand_set_redir_in_def scommand_set_redir_out_def

lemmas pipeline_defs = pipeline_is_empty_def pipeline_length_def pipeline_push_back_def pipeline_pop_front_def
  pipeline_front_def pipeline_set_wait_def

text \<open>
  Both types are queues, as \<open>command.h\<close> says: the operations, and what they promise of the sequence of
  the items.
\<close>

locale fifo =
  fixes items :: "'q \<Rightarrow> 'a list" and is_empty :: "'q \<Rightarrow> bool" and push :: "'q \<Rightarrow> 'a \<Rightarrow> 'q"
    and pop :: "'q \<Rightarrow> 'q option" and front :: "'q \<Rightarrow> 'a option"
  assumes empty_items: "is_empty q \<longleftrightarrow> items q = []"
    and push_items: "items (push q a) = items q @ [a]"
    and pop_items: "pop q = None \<longleftrightarrow> is_empty q" "pop q = Some q' \<Longrightarrow> items q' = tl (items q)"
    and front_items: "front q = (if is_empty q then None else Some (hd (items q)))"
begin

lemma push_all: "items (foldl push q as) = items q @ as"
  by (induction as arbitrary: q) (simp_all add: push_items)

lemma front_pop: "items q = a # as \<Longrightarrow> front q = Some a \<and> (\<exists>q'. pop q = Some q' \<and> items q' = as)"
  using pop_items(1) [of q] pop_items(2) [of q] by (cases "pop q") (auto simp: front_items empty_items)

text \<open>What goes in first comes out first, whatever is behind it.\<close>

lemma first_in_first_out: "is_empty q \<Longrightarrow> front (foldl push q (a # as)) = Some a"
  using front_pop [of "foldl push q (a # as)" a as] push_all [of q "a # as"] by (simp add: empty_items)

end

interpretation args_queue: fifo args scommand_is_empty scommand_push_back scommand_pop_front scommand_front
  by unfold_locales (auto simp: scommand_defs split: if_splits)

interpretation cmds_queue: fifo scmds pipeline_is_empty pipeline_push_back pipeline_pop_front pipeline_front
  by unfold_locales (auto simp: pipeline_defs split: if_splits)

lemma pop_front_keeps: "scommand_pop_front c = Some c' \<Longrightarrow> c'\<lparr>args := as\<rparr> = c\<lparr>args := as\<rparr>"
  by (auto simp: scommand_pop_front_def split: if_splits)

lemma to_array_loop_all: "length (args c) = n \<Longrightarrow> to_array_loop n c = Some (args c, c\<lparr>args := []\<rparr>)"
proof (induction n arbitrary: c)
  case (Suc n)
  then obtain a as where a: "args c = a # as" by (cases "args c") simp_all
  obtain c' where c': "scommand_pop_front c = Some c'" "args c' = as" using args_queue.front_pop [OF a] by blast
  then have "length (args c') = n" using Suc.prems a by simp
  from Suc.IH [OF this] show ?case using args_queue.front_pop [OF a] c' a pop_front_keeps [OF c'(1)] by simp
qed simp

lemma scommand_to_array_all [simp]: "scommand_to_array c = Some (args c, c\<lparr>args := []\<rparr>)"
  by (simp add: scommand_to_array_def scommand_length_def to_array_loop_all)

section \<open>Printing\<close>

fun joined :: "cstring list \<Rightarrow> cstring" where
  "joined [] = []"
| "joined [a] = a"
| "joined (a # as) = a @ cstr '' '' @ joined as"

text \<open>Blocks that are just as long as their string; nothing can be appended to them.\<close>

definition tight :: "block \<Rightarrow> bool" where
  "tight b \<longleftrightarrow> b_size b = length (b_str b) + 1"

lemma strmerge_tight [simp]: "tight (strmerge s1 s2)" "b_str (strmerge s1 s2) = s1 @ s2"
  by (simp_all add: tight_def strmerge_def)

lemma merge_args_joined: "tight b \<Longrightarrow> tight (merge_args as b) \<and> b_str (merge_args as b) = b_str b @ joined as"
proof (induction as arbitrary: b)
  case (Cons a as)
  have step: "merge_args (a # as) b = merge_args as (if as \<noteq> [] then strmerge (b_str b @ a) (cstr '' '') else strmerge (b_str b) a)"
    by simp
  show ?case using Cons.IH [of "strmerge (b_str b @ a) (cstr '' '')"] Cons.IH [of "strmerge (b_str b) a"]
    unfolding step by (cases as) (simp_all del: merge_args.simps(2))
qed simp

lemma tight_strcat: "tight b \<Longrightarrow> strcat b s = (if s = [] then Some b else None)"
  by (cases b) (simp add: tight_def strcat_def)

lemma strdup_tight [simp]: "tight (strdup s)" "b_str (strdup s) = s"
  by (simp_all add: tight_def strdup_def)

lemma append_redir_tight: "tight b \<Longrightarrow> op \<noteq> [] \<Longrightarrow> append_redir op f b = (if f = None then Some b else None)"
  by (simp add: append_redir_def tight_strcat split: option.splits)

lemma cstr_nonempty [simp]: "cstr s = [] \<longleftrightarrow> s = []"
  by (simp add: cstr_def)

lemma scommand_to_string_cases:
  "scommand_to_string c = (if redir_in c = None \<and> redir_out c = None then Some (merge_args (args c) (strdup [])) else None)"
  using merge_args_joined [of "strdup []" "args c"] by (auto simp: scommand_to_string_def append_redir_tight Let_def)

lemma joined_Nil_iff: "joined as = [] \<longleftrightarrow> as = [] \<or> as = [[]]"
  by (cases as rule: joined.cases) simp_all

text \<open>
  Printing a command is memory safe exactly when it has no redirection: the block is then the
  joined arguments and as long as needed.  The string of a redirection is appended with \<open>strcat\<close> to a
  block that is already full, so it is written behind it.  Printing a pipeline appends to a block of
  one byte: it is safe only for an empty pipeline and for one command without any text.
\<close>

theorem to_string_overflows:
  "scommand_to_string c = (if redir_in c = None \<and> redir_out c = None
      then Some \<lparr>b_size = length (joined (args c)) + 1, b_str = joined (args c)\<rparr> else None)
   \<and> (pipeline_to_string p \<noteq> None \<longleftrightarrow> scmds p = []
      \<or> (\<exists>d. scmds p = [d] \<and> wait_flag p \<and> redir_in d = None \<and> redir_out d = None \<and> (args d = [] \<or> args d = [[]])))"
proof -
  have m: "tight (merge_args as (strdup []))" "b_str (merge_args as (strdup [])) = joined as" for as
    using merge_args_joined [of "strdup []" as] by simp_all
  have "merge_args as (strdup []) = \<lparr>b_size = length (joined as) + 1, b_str = joined as\<rparr>" for as
    using m [of as] by (auto simp: tight_def)
  then have "scommand_to_string c = (if redir_in c = None \<and> redir_out c = None
      then Some \<lparr>b_size = length (joined (args c)) + 1, b_str = joined (args c)\<rparr> else None)"
    by (simp add: scommand_to_string_cases)
  moreover have one: "concat_commands [d] (strdup []) \<noteq> None \<longleftrightarrow> redir_in d = None \<and> redir_out d = None \<and> joined (args d) = []" for d
    by (auto simp: scommand_to_string_cases tight_strcat m)
  moreover have one': "concat_commands [d] (strdup []) = Some s \<Longrightarrow> s = strdup []" for d s
    by (auto simp: scommand_to_string_cases tight_strcat m split: if_splits)
  moreover have two: "concat_commands (d # d' # ds) (strdup []) = None" for d d' ds
    by (auto simp: scommand_to_string_cases tight_strcat m split: bind_splits)
  moreover have "pipeline_to_string p \<noteq> None \<longleftrightarrow> scmds p = []
      \<or> (\<exists>d. scmds p = [d] \<and> wait_flag p \<and> redir_in d = None \<and> redir_out d = None \<and> joined (args d) = [])"
  proof (cases "scmds p")
    case (Cons d ds)
    show ?thesis
    proof (cases ds)
      case Nil
      show ?thesis
      proof (cases "concat_commands [d] (strdup [])")
        case None
        then show ?thesis using one [of d] by (simp add: pipeline_to_string_def Cons Nil del: concat_commands.simps)
      next
        case (Some b)
        then show ?thesis using one [of d] one' [OF Some]
          by (simp add: pipeline_to_string_def Cons Nil tight_strcat del: concat_commands.simps)
      qed
    qed (simp add: pipeline_to_string_def Cons two del: concat_commands.simps)
  qed (simp add: pipeline_to_string_def)
  ultimately show ?thesis by (simp add: joined_Nil_iff)
qed

end
