(* ===== verification/Shell_Parsing.thy ===== *)
theory Shell_Parsing
  imports Shell_Command
begin

text \<open>
  The parser of the shell of LAB1 (\<open>parsing.c\<close>).  The lexer below it is only present as an object file
  (\<open>lexer.o\<close>, \<open>parser.o\<close>): its operations are an argument, and what \<open>parser.h\<close> says of them is the
  predicate \<open>parser_contract\<close>.  Messages are returned as a list.
\<close>

datatype arg_kind = ARG_NORMAL | ARG_INPUT | ARG_OUTPUT

record 'p parser =
  parser_next_argument :: "'p \<Rightarrow> cstring option \<times> arg_kind \<times> 'p"
  parser_skip_blanks :: "'p \<Rightarrow> 'p"
  parser_op_pipe :: "'p \<Rightarrow> bool \<times> 'p"
  parser_op_background :: "'p \<Rightarrow> bool \<times> 'p"
  parser_garbage :: "'p \<Rightarrow> 'p"
  parser_at_eof :: "'p \<Rightarrow> bool"

definition NO_REDIRECTION :: string where "NO_REDIRECTION = ''mybash> : Syntax error, no redirection specified''"
definition SYNTAX_ERROR :: string where "SYNTAX_ERROR = ''mybash> : Syntax error''"
definition NOT_ENOUGH :: string where "NOT_ENOUGH = ''mybash> : Not enough arguments''"

definition add_argument :: "arg_kind \<Rightarrow> cstring \<Rightarrow> scommand \<Rightarrow> scommand" where
  "add_argument type arg cmd =
     (if type = ARG_NORMAL then scommand_push_back cmd arg
      else if type = ARG_INPUT then scommand_set_redir_in cmd (Some arg)
      else scommand_set_redir_out cmd (Some arg))"

text \<open>The loop while the next argument is not NULL, which may run for ever.\<close>

partial_function (option) parse_arguments ::
  "'p parser \<Rightarrow> scommand \<Rightarrow> arg_kind \<Rightarrow> cstring \<Rightarrow> 'p \<Rightarrow> (scommand option \<times> bool \<times> 'p) option" where
  "parse_arguments ops cmd type arg p =
     (let cmd = add_argument type arg cmd;
          p = parser_skip_blanks ops p;
          (next, type, p) = parser_next_argument ops p
      in case next of
           Some arg \<Rightarrow> parse_arguments ops cmd type arg p
         | None \<Rightarrow> if type = ARG_INPUT \<or> type = ARG_OUTPUT then Some (None, True, p) else Some (Some cmd, False, p))"

text \<open>The command or NULL, with the new \<open>had_error\<close>.\<close>

definition parse_scommand :: "'p parser \<Rightarrow> 'p \<Rightarrow> bool \<Rightarrow> string list
    \<Rightarrow> (scommand option \<times> bool \<times> string list \<times> 'p) option" where
  "parse_scommand ops p had_error out =
     (let p = parser_skip_blanks ops p;
          (first, type, p) = parser_next_argument ops p
      in case first of
           None \<Rightarrow> Some (None, had_error, out, p)
         | Some arg \<Rightarrow> do {
             (cmd, bad, p) \<leftarrow> parse_arguments ops scommand_new type arg p;
             Some (cmd, had_error \<or> bad, if bad then out @ [NO_REDIRECTION] else out, p)
           })"

text \<open>The loop while there is another pipe; the result starts with \<open>error\<close> and \<open>another_pipe\<close>.\<close>

partial_function (option) parse_pipes ::
  "'p parser \<Rightarrow> pipeline \<Rightarrow> bool \<Rightarrow> string list \<Rightarrow> 'p \<Rightarrow> (bool \<times> bool \<times> pipeline \<times> bool \<times> string list \<times> 'p) option" where
  "parse_pipes ops result had_error out p =
     do {
       (cmd, had_error, out, p) \<leftarrow> parse_scommand ops p had_error out;
       case cmd of
         None \<Rightarrow> do { result \<leftarrow> pipeline_pop_front result; Some (True, True, result, had_error, out, p) }
       | Some cmd \<Rightarrow>
           let result = pipeline_push_back result cmd;
               (another_pipe, p) = parser_op_pipe ops p
           in if another_pipe then parse_pipes ops result had_error out p
              else Some (False, False, result, had_error, out, p)
     }"

text \<open>The end of \<open>parse_pipeline\<close> after an error.\<close>

definition report_error :: "'p parser \<Rightarrow> pipeline \<Rightarrow> bool \<Rightarrow> bool \<Rightarrow> string list \<Rightarrow> 'p \<Rightarrow> string list \<times> 'p" where
  "report_error ops result another_pipe had_error out p =
     (let (another_pipe, is_op_background, p) =
            (if pipeline_is_empty result
             then let (another_pipe, p) = parser_op_pipe ops p;
                      (is_op_background, p) = parser_op_background ops p
                  in (another_pipe, is_op_background, p)
             else (another_pipe, False, p));
          (out, had_error) = (if (another_pipe \<or> is_op_background) \<and> \<not> had_error then (out @ [SYNTAX_ERROR], True) else (out, had_error));
          out = (if \<not> had_error then out @ [NOT_ENOUGH] else out)
      in (out, p))"

text \<open>The part of \<open>parse_pipeline\<close> before that: \<open>error\<close>, \<open>another_pipe\<close>, the pipeline and \<open>had_error\<close>.\<close>

definition parse_line :: "'p parser \<Rightarrow> 'p \<Rightarrow> (bool \<times> bool \<times> pipeline \<times> bool \<times> string list \<times> 'p) option" where
  "parse_line ops p = do {
     (cmd, had_error, out, p) \<leftarrow> parse_scommand ops p False [];
     case cmd of
       None \<Rightarrow>
         let (another_pipe, p) = parser_op_pipe ops p;
             (is_op_background, p) = parser_op_background ops p
         in Some (True, another_pipe, pipeline_new, \<not> (is_op_background \<or> another_pipe), out, p)
     | Some cmd \<Rightarrow> do {
         let result = pipeline_push_back pipeline_new cmd;
         let (another_pipe, p) = parser_op_pipe ops p;
         (error, another_pipe, result, had_error, out, p) \<leftarrow>
           (if another_pipe then parse_pipes ops result had_error out p
            else Some (False, False, result, had_error, out, p));
         if error then Some (True, another_pipe, result, had_error, out, p)
         else
           let (is_op_background, p) = parser_op_background ops p;
               result = pipeline_set_wait result (\<not> is_op_background)
           in if is_op_background
              then let (another_pipe, p) = parser_op_pipe ops (parser_skip_blanks ops p)
                   in Some (another_pipe, another_pipe, result, had_error, out, p)
              else Some (False, another_pipe, result, had_error, out, p)
       }
   }"

definition parse_pipeline :: "'p parser \<Rightarrow> 'p \<Rightarrow> (pipeline \<times> string list \<times> 'p) option" where
  "parse_pipeline ops p = do {
     guard (\<not> parser_at_eof ops p);
     (error, another_pipe, result, had_error, out, p) \<leftarrow> parse_line ops p;
     let (result, out, p) =
       (if error then let (out, p) = report_error ops result another_pipe had_error out p in (pipeline_new, out, p)
        else (result, out, p));
     Some (result, out, parser_garbage ops p)
   }"

section \<open>The lexer\<close>

text \<open>
  What is left of the input, as words and operators; blanks are not kept.  A redirection without a
  file name is \<open>Input\<close> or \<open>Output\<close> of None.
\<close>

datatype token = Word cstring | Input "cstring option" | Output "cstring option" | Pipe | Background | Newline

definition first_token :: "token list \<Rightarrow> cstring option \<times> arg_kind \<times> token list" where
  "first_token ts = (case ts of
     Word a # us \<Rightarrow> (Some a, ARG_NORMAL, us)
   | Input f # us \<Rightarrow> (f, ARG_INPUT, us)
   | Output f # us \<Rightarrow> (f, ARG_OUTPUT, us)
   | _ \<Rightarrow> (None, ARG_NORMAL, ts))"

definition skip_token :: "token \<Rightarrow> token list \<Rightarrow> bool \<times> token list" where
  "skip_token t ts = (if ts \<noteq> [] \<and> hd ts = t then (True, tl ts) else (False, ts))"

fun after_line :: "token list \<Rightarrow> token list" where
  "after_line [] = []"
| "after_line (t # ts) = (if t = Newline then ts else after_line ts)"

text \<open>
  The behaviour \<open>parser.h\<close> documents, for the view \<open>toks\<close> of the state of the lexer.  When there is no
  argument it also leaves the kind \<open>ARG_NORMAL\<close>, which \<open>parse_scommand\<close> relies on.
\<close>

definition parser_contract :: "'p parser \<Rightarrow> ('p \<Rightarrow> token list) \<Rightarrow> bool" where
  "parser_contract ops toks \<longleftrightarrow>
     (\<forall>p. toks (parser_skip_blanks ops p) = toks p)
   \<and> (\<forall>p. case parser_next_argument ops p of (a, k, p') \<Rightarrow> (a, k, toks p') = first_token (toks p))
   \<and> (\<forall>p. case parser_op_pipe ops p of (b, p') \<Rightarrow> (b, toks p') = skip_token Pipe (toks p))
   \<and> (\<forall>p. case parser_op_background ops p of (b, p') \<Rightarrow> (b, toks p') = skip_token Background (toks p))
   \<and> (\<forall>p. toks (parser_garbage ops p) = after_line (toks p))
   \<and> (\<forall>p. parser_at_eof ops p \<longleftrightarrow> toks p = [])"

lemma parser_contractD:
  assumes "parser_contract ops toks"
  shows "toks (parser_skip_blanks ops p) = toks p"
    "parser_next_argument ops p = (a, k, p') \<Longrightarrow> first_token (toks p) = (a, k, toks p')"
    "parser_op_pipe ops p = (b, p') \<Longrightarrow> skip_token Pipe (toks p) = (b, toks p')"
    "parser_op_background ops p = (b, p') \<Longrightarrow> skip_token Background (toks p) = (b, toks p')"
    "toks (parser_garbage ops p) = after_line (toks p)"
    "parser_at_eof ops p \<longleftrightarrow> toks p = []"
proof -
  note C = assms [unfolded parser_contract_def]
  show "toks (parser_skip_blanks ops p) = toks p" "toks (parser_garbage ops p) = after_line (toks p)"
    "parser_at_eof ops p \<longleftrightarrow> toks p = []" using C by simp_all
  have "case parser_next_argument ops p of (a, k, p') \<Rightarrow> (a, k, toks p') = first_token (toks p)"
    "case parser_op_pipe ops p of (b, p') \<Rightarrow> (b, toks p') = skip_token Pipe (toks p)"
    "case parser_op_background ops p of (b, p') \<Rightarrow> (b, toks p') = skip_token Background (toks p)" using C by simp_all
  then show "parser_next_argument ops p = (a, k, p') \<Longrightarrow> first_token (toks p) = (a, k, toks p')"
    "parser_op_pipe ops p = (b, p') \<Longrightarrow> skip_token Pipe (toks p) = (b, toks p')"
    "parser_op_background ops p = (b, p') \<Longrightarrow> skip_token Background (toks p) = (b, toks p')" by simp_all
qed

text \<open>No operation passes the end of the line, and those that say so take a token.\<close>

lemma first_token_cases:
  assumes "first_token ts = (a, k, us)"
  shows "after_line us = after_line ts" "length us \<le> length ts" "a \<noteq> None \<Longrightarrow> length us < length ts"
    "a = None \<Longrightarrow> k = ARG_NORMAL \<Longrightarrow> us = ts"
  using assms by (auto simp: first_token_def split: list.splits token.splits)

lemma skip_token_cases:
  assumes "skip_token t ts = (b, us)" "t \<noteq> Newline"
  shows "after_line us = after_line ts" "length us \<le> length ts" "b \<Longrightarrow> length us < length ts" "\<not> b \<Longrightarrow> us = ts"
  using assms by (cases ts; auto simp: skip_token_def split: if_splits)+

section \<open>The parser returns\<close>

definition cmd_ok :: "scommand \<Rightarrow> bool" where
  "cmd_ok c \<longleftrightarrow> args c \<noteq> [] \<or> redir_in c \<noteq> None \<or> redir_out c \<noteq> None"

lemma add_argument_ok: "cmd_ok (add_argument type arg cmd)"
  by (simp add: cmd_ok_def add_argument_def scommand_defs)

lemma parse_arguments_returns:
  assumes "parser_contract ops toks"
  shows "\<exists>c bad p'. parse_arguments ops cmd type arg p = Some (c, bad, p') \<and> (bad \<longleftrightarrow> c = None) \<and> (\<forall>d. c = Some d \<longrightarrow> cmd_ok d)
    \<and> after_line (toks p') = after_line (toks p) \<and> length (toks p') \<le> length (toks p)"
proof (induction "length (toks p)" arbitrary: cmd type arg p rule: less_induct)
  case less
  note D = parser_contractD [OF assms]
  obtain a k p1 where n: "parser_next_argument ops (parser_skip_blanks ops p) = (a, k, p1)" by (metis surj_pair)
  from D(2) [OF n] have "first_token (toks p) = (a, k, toks p1)" by (simp add: D(1))
  note F = first_token_cases [OF this]
  show ?case
  proof (cases a)
    case None
    then show ?thesis using n F add_argument_ok by (subst parse_arguments.simps) (auto simp: Let_def)
  next
    case (Some b)
    from less [OF F(3), of "add_argument type arg cmd" k b] Some show ?thesis
      using n F(1,2) by (subst parse_arguments.simps) (auto simp: Let_def)
  qed
qed

lemma parse_scommand_returns:
  assumes "parser_contract ops toks"
  shows "\<exists>c e out' p'. parse_scommand ops p had_error out = Some (c, e, out', p') \<and> (\<forall>d. c = Some d \<longrightarrow> cmd_ok d)
    \<and> after_line (toks p') = after_line (toks p) \<and> length (toks p') \<le> length (toks p)"
proof -
  note D = parser_contractD [OF assms]
  obtain a k p1 where n: "parser_next_argument ops (parser_skip_blanks ops p) = (a, k, p1)" by (metis surj_pair)
  from D(2) [OF n] have "first_token (toks p) = (a, k, toks p1)" by (simp add: D(1))
  note F = first_token_cases [OF this]
  show ?thesis
  proof (cases a)
    case None
    then show ?thesis using n F by (simp add: parse_scommand_def)
  next
    case (Some b)
    obtain c bad p' where c: "parse_arguments ops scommand_new k b p1 = Some (c, bad, p')" "\<forall>d. c = Some d \<longrightarrow> cmd_ok d"
      "after_line (toks p') = after_line (toks p1)" "length (toks p') \<le> length (toks p1)"
      using parse_arguments_returns [OF assms] by metis
    then have "parse_scommand ops p had_error out = Some (c, had_error \<or> bad, if bad then out @ [NO_REDIRECTION] else out, p')"
      using n Some by (simp add: parse_scommand_def)
    then show ?thesis using c F(1,2) by (metis le_trans)
  qed
qed

lemma parse_pipes_returns:
  assumes "parser_contract ops toks" "scmds result \<noteq> []" "\<forall>c \<in> set (scmds result). cmd_ok c"
  shows "\<exists>e a result' h out' p'. parse_pipes ops result had_error out p = Some (e, a, result', h, out', p')
    \<and> (\<not> e \<longrightarrow> scmds result' \<noteq> []) \<and> (\<forall>c \<in> set (scmds result'). cmd_ok c)
    \<and> after_line (toks p') = after_line (toks p) \<and> length (toks p') \<le> length (toks p)"
  using assms(2,3)
proof (induction "length (toks p)" arbitrary: result had_error out p rule: less_induct)
  case less
  note D = parser_contractD [OF assms(1)]
  obtain c h o1 p1 where c: "parse_scommand ops p had_error out = Some (c, h, o1, p1)" "\<forall>d. c = Some d \<longrightarrow> cmd_ok d"
    "after_line (toks p1) = after_line (toks p)" "length (toks p1) \<le> length (toks p)"
    using parse_scommand_returns [OF assms(1)] by metis
  show ?case
  proof (cases c)
    case None
    have "set (tl (scmds result)) \<subseteq> set (scmds result)" by (cases "scmds result") auto
    then show ?thesis using c None less.prems by (subst parse_pipes.simps) (auto simp: pipeline_defs)
  next
    case (Some d)
    let ?r = "pipeline_push_back result d"
    obtain b p2 where b: "parser_op_pipe ops p1 = (b, p2)" by (metis surj_pair)
    note F = skip_token_cases [OF D(3) [OF b], simplified]
    have r: "scmds ?r \<noteq> []" "\<forall>c \<in> set (scmds ?r). cmd_ok c" using less.prems c(2) Some by (auto simp: pipeline_defs)
    show ?thesis
    proof (cases b)
      case True
      have "length (toks p2) < length (toks p)" using F(3) True c(4) by simp
      from less.hyps [OF this r, of h o1] show ?thesis
        using c Some b True F(1,2) by (subst parse_pipes.simps) auto
    next
      case False
      then have "parse_pipes ops result had_error out p = Some (False, False, ?r, h, o1, p2)"
        using c(1) Some b by (subst parse_pipes.simps) simp
      then show ?thesis using r c(3,4) F(1,2) by (metis le_trans)
    qed
  qed
qed

lemma report_error_toks:
  assumes "parser_contract ops toks" "report_error ops result a h out p = (out', p')"
  shows "after_line (toks p') = after_line (toks p)"
proof -
  note D = parser_contractD [OF assms(1)]
  obtain b p1 where b: "parser_op_pipe ops p = (b, p1)" by (metis surj_pair)
  obtain g p2 where g: "parser_op_background ops p1 = (g, p2)" by (metis surj_pair)
  have "p' = (if pipeline_is_empty result then p2 else p)"
    using assms(2) b g by (auto simp: report_error_def Let_def split: if_splits)
  then show ?thesis using skip_token_cases(1) [OF D(3) [OF b]] skip_token_cases(1) [OF D(4) [OF g]] by simp
qed

lemma parse_line_returns:
  assumes "parser_contract ops toks"
  shows "\<exists>e a r h out p'. parse_line ops p = Some (e, a, r, h, out, p') \<and> after_line (toks p') = after_line (toks p)
    \<and> (\<not> e \<longrightarrow> scmds r \<noteq> [] \<and> (\<forall>c \<in> set (scmds r). cmd_ok c))"
proof -
  note D = parser_contractD [OF assms]
  obtain c h o1 p1 where c: "parse_scommand ops p False [] = Some (c, h, o1, p1)" "\<forall>d. c = Some d \<longrightarrow> cmd_ok d"
    "after_line (toks p1) = after_line (toks p)" using parse_scommand_returns [OF assms] by metis
  obtain a p2 where a: "parser_op_pipe ops p1 = (a, p2)" by (metis surj_pair)
  have a': "after_line (toks p2) = after_line (toks p)" using skip_token_cases(1) [OF D(3) [OF a]] c(3) by simp
  show ?thesis
  proof (cases c)
    case None
    obtain g p3 where g: "parser_op_background ops p2 = (g, p3)" by (metis surj_pair)
    show ?thesis using c None a g a' skip_token_cases(1) [OF D(4) [OF g]] by (auto simp: parse_line_def)
  next
    case (Some d)
    let ?r = "pipeline_push_back pipeline_new d"
    have r: "scmds ?r \<noteq> []" "\<forall>c \<in> set (scmds ?r). cmd_ok c" using c(2) Some by (auto simp: pipeline_defs pipeline_new_def)
    obtain e b r2 h2 o2 p3 where s: "(if a then parse_pipes ops ?r h o1 p2 else Some (False, False, ?r, h, o1, p2)) = Some (e, b, r2, h2, o2, p3)"
      "\<not> e \<longrightarrow> scmds r2 \<noteq> []" "\<forall>c \<in> set (scmds r2). cmd_ok c" "after_line (toks p3) = after_line (toks p)"
      using parse_pipes_returns [OF assms r, of h o1 p2] r a' by (cases a) auto
    obtain g p4 where g: "parser_op_background ops p3 = (g, p4)" by (metis surj_pair)
    have g': "after_line (toks p4) = after_line (toks p)" using skip_token_cases(1) [OF D(4) [OF g]] s(4) by simp
    obtain f p5 where f: "parser_op_pipe ops (parser_skip_blanks ops p4) = (f, p5)" by (metis surj_pair)
    have f': "after_line (toks p5) = after_line (toks p)" using skip_token_cases(1) [OF D(3) [OF f]] g' by (simp add: D(1))
    have "parse_line ops p = Some (if e then (True, b, r2, h2, o2, p3)
        else if g then (f, f, pipeline_set_wait r2 False, h2, o2, p5) else (False, b, pipeline_set_wait r2 True, h2, o2, p4))"
      using c(1) Some a s(1) g f by (simp add: parse_line_def)
    then show ?thesis using s(2-4) g' f' by (cases e; cases g) (auto simp: pipeline_set_wait_def)
  qed
qed

text \<open>A lexer that has the tokens as its state keeps the contract.\<close>

definition token_lexer :: "token list parser" where
  "token_lexer = \<lparr>parser_next_argument = first_token, parser_skip_blanks = id, parser_op_pipe = skip_token Pipe,
     parser_op_background = skip_token Background, parser_garbage = after_line, parser_at_eof = (\<lambda>ts. ts = [])\<rparr>"

lemma token_lexer_contract: "parser_contract token_lexer id"
  by (simp add: parser_contract_def token_lexer_def split: prod.splits)

text \<open>
  C22: the parser always returns.  For every input that is not at its end, and every lexer that keeps
  its contract, \<open>parse_pipeline\<close> passes its assertions, reads the line up to its newline and no more,
  and yields a pipeline whose commands all have a word or a redirection, or a new empty pipeline,
  where \<open>parsing.h\<close> documents \<open>NULL\<close>.
\<close>

theorem parse_pipeline_returns:
  assumes "parser_contract ops toks" "toks p \<noteq> []"
  shows "\<exists>q out p'. parse_pipeline ops p = Some (q, out, p') \<and> toks p' = after_line (toks p)
    \<and> (scmds q = [] \<longrightarrow> q = pipeline_new) \<and> (\<forall>c \<in> set (scmds q). cmd_ok c)"
proof -
  note D = parser_contractD [OF assms(1)]
  obtain e a r h o1 p1 where l: "parse_line ops p = Some (e, a, r, h, o1, p1)" "after_line (toks p1) = after_line (toks p)"
    "\<not> e \<longrightarrow> scmds r \<noteq> [] \<and> (\<forall>c \<in> set (scmds r). cmd_ok c)" using parse_line_returns [OF assms(1)] by metis
  obtain o2 p2 where r: "report_error ops r a h o1 p1 = (o2, p2)" by (metis surj_pair)
  have "parse_pipeline ops p = Some (if e then (pipeline_new, o2, parser_garbage ops p2) else (r, o1, parser_garbage ops p1))"
    using assms(2) l(1) r by (simp add: parse_pipeline_def D(6))
  then show ?thesis using l(2,3) report_error_toks [OF assms(1) r] by (simp add: D(5) pipeline_new_def)
qed

theorem parse_pipeline_returns_witness:
  "\<exists>q out p'. parse_pipeline token_lexer [Word [108], Pipe, Newline, Word [109]] = Some (q, out, p') \<and> p' = [Word [109]]"
  using parse_pipeline_returns [OF token_lexer_contract, of "[Word [108], Pipe, Newline, Word [109]]"] by auto

section \<open>Printing and parsing\<close>

definition cmd_tokens :: "scommand \<Rightarrow> token list" where
  "cmd_tokens c = map Word (args c)
     @ (case redir_in c of None \<Rightarrow> [] | Some f \<Rightarrow> [Input (Some f)])
     @ (case redir_out c of None \<Rightarrow> [] | Some f \<Rightarrow> [Output (Some f)])"

fun line_tokens :: "scommand list \<Rightarrow> token list" where
  "line_tokens [] = []"
| "line_tokens [c] = cmd_tokens c"
| "line_tokens (c # cs) = cmd_tokens c @ Pipe # line_tokens cs"

definition pipeline_tokens :: "pipeline \<Rightarrow> token list" where
  "pipeline_tokens q = line_tokens (scmds q) @ (if wait_flag q then [] else [Background])"

fun is_arg :: "token \<Rightarrow> bool" where
  "is_arg (Word a) = True"
| "is_arg (Input f) = (f \<noteq> None)"
| "is_arg (Output f) = (f \<noteq> None)"
| "is_arg _ = False"

fun add_token :: "token \<Rightarrow> scommand \<Rightarrow> scommand" where
  "add_token (Word a) = add_argument ARG_NORMAL a"
| "add_token (Input (Some f)) = add_argument ARG_INPUT f"
| "add_token (Output (Some f)) = add_argument ARG_OUTPUT f"
| "add_token _ = id"

definition stops :: "token list \<Rightarrow> bool" where
  "stops ts \<longleftrightarrow> ts \<noteq> [] \<and> hd ts \<in> {Pipe, Background, Newline}"

lemma first_token_arg: "is_arg t \<Longrightarrow> \<exists>k f. first_token (t # ts) = (Some f, k, ts) \<and> add_token t = add_argument k f"
  by (cases t rule: add_token.cases) (auto simp: first_token_def)

lemma first_token_stops: "stops ts \<Longrightarrow> first_token ts = (None, ARG_NORMAL, ts)"
  by (cases ts) (auto simp: stops_def first_token_def)

lemma parse_arguments_tokens:
  assumes "parser_contract ops toks" "toks p = us @ ts" "\<forall>u \<in> set us. is_arg u" "stops ts"
  shows "\<exists>p'. parse_arguments ops cmd type arg p = Some (Some (fold add_token us (add_argument type arg cmd)), False, p') \<and> toks p' = ts"
  using assms(2,3)
proof (induction us arbitrary: cmd type arg p)
  case Nil
  note D = parser_contractD [OF assms(1)]
  obtain a k p1 where n: "parser_next_argument ops (parser_skip_blanks ops p) = (a, k, p1)" by (metis surj_pair)
  from D(2) [OF n] have "a = None \<and> k = ARG_NORMAL \<and> toks p1 = ts" using Nil.prems first_token_stops [OF assms(4)] by (simp add: D(1))
  then show ?case using n by (subst parse_arguments.simps) simp
next
  case (Cons u us)
  note D = parser_contractD [OF assms(1)]
  obtain a k p1 where n: "parser_next_argument ops (parser_skip_blanks ops p) = (a, k, p1)" by (metis surj_pair)
  obtain f where f: "a = Some f" "toks p1 = us @ ts" "add_token u = add_argument k f"
    using D(2) [OF n] first_token_arg [of u "us @ ts"] Cons.prems by (auto simp: D(1))
  from Cons.IH [OF f(2)] Cons.prems(2) show ?case
    using n f(1,3) by (subst parse_arguments.simps) (simp add: Let_def)
qed

lemma parse_scommand_tokens:
  assumes "parser_contract ops toks" "toks p = us @ ts" "us \<noteq> []" "\<forall>u \<in> set us. is_arg u" "stops ts"
  shows "\<exists>p'. parse_scommand ops p h out = Some (Some (fold add_token us scommand_new), h, out, p') \<and> toks p' = ts"
proof -
  note D = parser_contractD [OF assms(1)]
  obtain u vs where u: "us = u # vs" using assms(3) by (cases us) simp_all
  obtain a k p1 where n: "parser_next_argument ops (parser_skip_blanks ops p) = (a, k, p1)" by (metis surj_pair)
  obtain f where f: "a = Some f" "toks p1 = vs @ ts" "add_token u = add_argument k f"
    using D(2) [OF n] first_token_arg [of u "vs @ ts"] assms(2,4) u by (auto simp: D(1))
  obtain p' where "parse_arguments ops scommand_new k f p1 = Some (Some (fold add_token vs (add_argument k f scommand_new)), False, p')"
    "toks p' = ts" using parse_arguments_tokens [OF assms(1) f(2) _ assms(5)] assms(4) u by (metis list.set_intros(2))
  then show ?thesis using n f u by (simp add: parse_scommand_def)
qed

lemma fold_words: "fold add_token (map Word as) c = c\<lparr>args := args c @ as\<rparr>"
  by (induction as arbitrary: c) (simp_all add: add_argument_def scommand_push_back_def)

lemma fold_cmd_tokens: "fold add_token (cmd_tokens c) scommand_new = c"
  by (cases c) (auto simp: cmd_tokens_def fold_words add_argument_def scommand_defs scommand_new_def split: option.splits)

lemma cmd_tokens_args: "\<forall>u \<in> set (cmd_tokens c). is_arg u" "cmd_ok c \<Longrightarrow> cmd_tokens c \<noteq> []"
  by (cases "redir_in c"; cases "redir_out c"; auto simp: cmd_tokens_def cmd_ok_def)+

lemma parse_cmd_tokens:
  assumes "parser_contract ops toks" "toks p = cmd_tokens c @ ts" "cmd_ok c" "stops ts"
  shows "\<exists>p'. parse_scommand ops p h out = Some (Some c, h, out, p') \<and> toks p' = ts"
  using parse_scommand_tokens [OF assms(1,2) cmd_tokens_args(2) [OF assms(3)] cmd_tokens_args(1) assms(4)] by (simp add: fold_cmd_tokens)

lemma skip_pipe: "parser_contract ops toks \<Longrightarrow> toks p = Pipe # ts \<Longrightarrow> \<exists>p'. parser_op_pipe ops p = (True, p') \<and> toks p' = ts"
  using parser_contractD(3) [of ops toks p] by (cases "parser_op_pipe ops p") (auto simp: skip_token_def)

lemma no_pipe: "parser_contract ops toks \<Longrightarrow> toks p = ts \<Longrightarrow> stops ts \<Longrightarrow> hd ts \<noteq> Pipe \<Longrightarrow> \<exists>p'. parser_op_pipe ops p = (False, p') \<and> toks p' = ts"
  using parser_contractD(3) [of ops toks p] by (cases "parser_op_pipe ops p") (auto simp: skip_token_def)

lemma parse_pipes_tokens:
  assumes "parser_contract ops toks" "stops ts" "hd ts \<noteq> Pipe"
  shows "toks p = line_tokens (c # cs) @ ts \<Longrightarrow> \<forall>d \<in> set (c # cs). cmd_ok d \<Longrightarrow>
    \<exists>p'. parse_pipes ops r h out p = Some (False, False, r\<lparr>scmds := scmds r @ c # cs\<rparr>, h, out, p') \<and> toks p' = ts"
proof (induction cs arbitrary: c r p)
  case Nil
  obtain p1 where p1: "parse_scommand ops p h out = Some (Some c, h, out, p1)" "toks p1 = ts"
    using parse_cmd_tokens [OF assms(1) _ _ assms(2)] Nil.prems by (metis line_tokens.simps(2) list.set_intros(1))
  obtain p2 where "parser_op_pipe ops p1 = (False, p2)" "toks p2 = ts" using no_pipe [OF assms(1) p1(2) assms(2,3)] by blast
  then show ?case using p1 by (subst parse_pipes.simps) (simp add: pipeline_push_back_def)
next
  case (Cons d cs)
  have t: "toks p = cmd_tokens c @ Pipe # line_tokens (d # cs) @ ts" using Cons.prems(1) by simp
  obtain p1 where p1: "parse_scommand ops p h out = Some (Some c, h, out, p1)" "toks p1 = Pipe # line_tokens (d # cs) @ ts"
    using parse_cmd_tokens [OF assms(1) t] Cons.prems(2) by (force simp: stops_def)
  obtain p2 where p2: "parser_op_pipe ops p1 = (True, p2)" "toks p2 = line_tokens (d # cs) @ ts" using skip_pipe [OF assms(1) p1(2)] by blast
  from Cons.IH [OF p2(2), of "pipeline_push_back r c"] Cons.prems(2) show ?case
    using p1(1) p2(1) by (subst parse_pipes.simps) (simp add: pipeline_push_back_def)
qed

lemma parse_tokens:
  assumes "parser_contract ops toks" "toks p = pipeline_tokens q @ Newline # rest" "scmds q \<noteq> []" "\<forall>c \<in> set (scmds q). cmd_ok c"
  shows "\<exists>p'. parse_pipeline ops p = Some (q, [], p') \<and> toks p' = rest"
proof -
  note D = parser_contractD [OF assms(1)]
  obtain c cs where q: "scmds q = c # cs" using assms(3) by (cases "scmds q") simp_all
  let ?ts = "(if wait_flag q then [] else [Background]) @ Newline # rest"
  have ts: "stops ?ts" "hd ?ts \<noteq> Pipe" by (simp_all add: stops_def)
  let ?r = "pipeline_push_back pipeline_new c"
  have r0: "scmds ?r = [c]" "?r\<lparr>scmds := [c]\<rparr> = ?r" by (simp_all add: pipeline_push_back_def pipeline_new_def)
  have "\<exists>a p1 p2 p3. parse_scommand ops p False [] = Some (Some c, False, [], p1) \<and> parser_op_pipe ops p1 = (a, p2)
    \<and> (if a then parse_pipes ops ?r False [] p2 else Some (False, False, ?r, False, [], p2))
        = Some (False, False, ?r\<lparr>scmds := c # cs\<rparr>, False, [], p3) \<and> toks p3 = ?ts"
  proof (cases cs)
    case Nil
    have "toks p = cmd_tokens c @ ?ts" using assms(2) by (simp add: pipeline_tokens_def q Nil)
    then obtain p1 where p1: "parse_scommand ops p False [] = Some (Some c, False, [], p1)" "toks p1 = ?ts"
      using parse_cmd_tokens [OF assms(1) _ _ ts(1)] assms(4) q by (metis list.set_intros(1))
    obtain p2 where "parser_op_pipe ops p1 = (False, p2)" "toks p2 = ?ts" using no_pipe [OF assms(1) p1(2) ts] by blast
    then show ?thesis using p1
      by (intro exI [of _ False] exI [of _ p1] exI [of _ p2]) (simp add: Nil r0(2))
  next
    case (Cons d ds)
    have t: "toks p = cmd_tokens c @ Pipe # line_tokens (d # ds) @ ?ts" using assms(2) by (simp add: pipeline_tokens_def q Cons)
    obtain p1 where p1: "parse_scommand ops p False [] = Some (Some c, False, [], p1)" "toks p1 = Pipe # line_tokens (d # ds) @ ?ts"
      using parse_cmd_tokens [OF assms(1) t] assms(4) q by (force simp: stops_def)
    obtain p2 where p2: "parser_op_pipe ops p1 = (True, p2)" "toks p2 = line_tokens (d # ds) @ ?ts" using skip_pipe [OF assms(1) p1(2)] by blast
    have ok: "\<forall>x \<in> set (d # ds). cmd_ok x" using assms(4) q Cons by simp
    from parse_pipes_tokens [OF assms(1) ts p2(2) ok, of ?r False "[]"]
    obtain p3 where "parse_pipes ops ?r False [] p2 = Some (False, False, ?r\<lparr>scmds := c # cs\<rparr>, False, [], p3)" "toks p3 = ?ts"
      by (auto simp only: r0(1) Cons append.simps)
    then show ?thesis using p1(1) p2(1)
      by (intro exI [of _ True] exI [of _ p1] exI [of _ p2] exI [of _ p3]) simp
  qed
  then obtain a p1 p2 p3 where m: "parse_scommand ops p False [] = Some (Some c, False, [], p1)" "parser_op_pipe ops p1 = (a, p2)"
    "(if a then parse_pipes ops ?r False [] p2 else Some (False, False, ?r, False, [], p2)) = Some (False, False, ?r\<lparr>scmds := c # cs\<rparr>, False, [], p3)"
    "toks p3 = ?ts" by blast
  obtain g p4 where g: "parser_op_background ops p3 = (g, p4)" by (metis surj_pair)
  have g': "g = (\<not> wait_flag q)" "toks p4 = Newline # rest"
    using D(4) [OF g] unfolding m(4) by (cases "wait_flag q"; simp add: skip_token_def)+
  obtain f p5 where f: "parser_op_pipe ops (parser_skip_blanks ops p4) = (f, p5)" by (metis surj_pair)
  then have f': "\<not> f" "toks p5 = Newline # rest" using D(3) [OF f] g'(2) by (auto simp: D(1) skip_token_def)
  have r: "pipeline_set_wait (?r\<lparr>scmds := c # cs\<rparr>) (wait_flag q) = q"
    using q by (cases q) (simp add: pipeline_set_wait_def pipeline_push_back_def pipeline_new_def)
  have "parse_line ops p = Some (False, False, q, False, [], if wait_flag q then p4 else p5)"
    using m(1-3) g g'(1) f f'(1) r by (cases "wait_flag q") (simp_all add: parse_line_def)
  moreover have "toks p \<noteq> []" using assms(2) by simp
  ultimately have "parse_pipeline ops p = Some (q, [], parser_garbage ops (if wait_flag q then p4 else p5))"
    by (simp add: parse_pipeline_def D(6))
  then show ?thesis using g'(2) f'(2) by (simp add: D(5))
qed

text \<open>
  C23: printing and parsing.  The tokens of a pipeline whose commands all have a word or a redirection,
  followed by a newline, are parsed to that pipeline without a message, and the rest of the input is
  left.
\<close>

theorem parse_roundtrip:
  assumes "parser_contract ops toks" "toks p = pipeline_tokens q @ Newline # rest" "scmds q \<noteq> []" "\<forall>c \<in> set (scmds q). cmd_ok c"
  shows "\<exists>p'. parse_pipeline ops p = Some (q, [], p') \<and> toks p' = rest"
  by (rule parse_tokens [OF assms])

theorem parse_roundtrip_witness:
  "\<exists>q. scmds q = [\<lparr>args = [[108], [109]], redir_in = Some [110], redir_out = None\<rparr>, \<lparr>args = [[108]], redir_in = None, redir_out = None\<rparr>]
    \<and> parse_pipeline token_lexer [Word [108], Word [109], Input (Some [110]), Pipe, Word [108], Background, Newline] = Some (q, [], [])"
proof -
  let ?q = "\<lparr>scmds = [\<lparr>args = [[108], [109]], redir_in = Some [110], redir_out = None\<rparr>, \<lparr>args = [[108]], redir_in = None, redir_out = None\<rparr>],
    wait_flag = False\<rparr>"
  have "id [Word [108], Word [109], Input (Some [110]), Pipe, Word [108], Background, Newline] = pipeline_tokens ?q @ Newline # []"
    by (simp add: pipeline_tokens_def cmd_tokens_def)
  from parse_roundtrip [OF token_lexer_contract this] show ?thesis by (intro exI [of _ ?q]) (simp add: cmd_ok_def)
qed

section \<open>A reference parser\<close>

text \<open>
  The grammar as a recursive function on the tokens of the line: commands of at least one word or
  redirection, separated by \<open>|\<close>, an optional \<open>&\<close> that no \<open>|\<close> follows, anything behind it.
\<close>

fun ref_command :: "token list \<Rightarrow> scommand \<Rightarrow> scommand option \<times> token list" where
  "ref_command (Word a # ts) c = ref_command ts (add_argument ARG_NORMAL a c)"
| "ref_command (Input (Some f) # ts) c = ref_command ts (add_argument ARG_INPUT f c)"
| "ref_command (Output (Some f) # ts) c = ref_command ts (add_argument ARG_OUTPUT f c)"
| "ref_command (Input None # ts) c = (None, ts)"
| "ref_command (Output None # ts) c = (None, ts)"
| "ref_command ts c = (Some c, ts)"

definition ref_first :: "token list \<Rightarrow> scommand option \<times> token list" where
  "ref_first ts = (if ts \<noteq> [] \<and> is_arg (hd ts) then ref_command ts scommand_new else (None, ts))"

lemma ref_command_length: "length (snd (ref_command ts c)) \<le> length ts"
  by (induction ts c rule: ref_command.induct) simp_all

lemma ref_first_length: "length (snd (ref_first ts)) \<le> length ts"
  using ref_command_length [of ts scommand_new] by (simp add: ref_first_def)

lemma ref_line_smaller:
  assumes "ref_first ts = (Some c, Pipe # vs)"
  shows "length vs < length ts"
  using ref_first_length [of ts] assms by simp

function ref_line :: "token list \<Rightarrow> (scommand list \<times> bool) option" where
  "ref_line ts =
     (case ref_first ts of
        (None, us) \<Rightarrow> None
      | (Some c, us) \<Rightarrow>
          (case us of
             Pipe # vs \<Rightarrow> map_option (\<lambda>(cs, w). (c # cs, w)) (ref_line vs)
           | Background # Pipe # vs \<Rightarrow> None
           | Background # vs \<Rightarrow> Some ([c], False)
           | _ \<Rightarrow> Some ([c], True)))"
  by pat_completeness auto

termination
  by (relation "measure length") (auto dest: ref_line_smaller [OF sym])

declare ref_line.simps [simp del]

lemma first_token_ref:
  assumes "first_token ts = (a, k, us)"
  shows "a = Some f \<Longrightarrow> ref_command ts c = ref_command us (add_argument k f c) \<and> ts \<noteq> [] \<and> is_arg (hd ts)"
    "a = None \<Longrightarrow> ref_command ts c = (if k = ARG_NORMAL then Some c else None, us) \<and> (ts = [] \<or> \<not> is_arg (hd ts))"
  using assms by (cases "(ts, c)" rule: ref_command.cases; auto simp: first_token_def)+

lemma parse_arguments_ref:
  assumes "parser_contract ops toks"
  shows "\<exists>bad p'. parse_arguments ops cmd type arg p = Some (fst (ref_command (toks p) (add_argument type arg cmd)), bad, p')
    \<and> toks p' = snd (ref_command (toks p) (add_argument type arg cmd))"
proof (induction "length (toks p)" arbitrary: cmd type arg p rule: less_induct)
  case less
  note D = parser_contractD [OF assms]
  obtain a k p1 where n: "parser_next_argument ops (parser_skip_blanks ops p) = (a, k, p1)" by (metis surj_pair)
  from D(2) [OF n] have t: "first_token (toks p) = (a, k, toks p1)" by (simp add: D(1))
  show ?case
  proof (cases a)
    case None
    then show ?thesis using n first_token_ref(2) [OF t None, of "add_argument type arg cmd"]
      by (subst parse_arguments.simps) (cases k; auto simp: Let_def)
  next
    case (Some b)
    have "length (toks p1) < length (toks p)" using first_token_cases(3) [OF t] Some by simp
    from less [OF this, of "add_argument type arg cmd" k b] show ?thesis
      using n Some first_token_ref(1) [OF t Some, of "add_argument type arg cmd"]
      by (subst parse_arguments.simps) (simp add: Let_def)
  qed
qed

lemma parse_scommand_ref:
  assumes "parser_contract ops toks"
  shows "\<exists>h' out' p'. parse_scommand ops p h out = Some (fst (ref_first (toks p)), h', out', p')
    \<and> (fst (ref_first (toks p)) \<noteq> None \<longrightarrow> toks p' = snd (ref_first (toks p)))"
proof -
  note D = parser_contractD [OF assms]
  obtain a k p1 where n: "parser_next_argument ops (parser_skip_blanks ops p) = (a, k, p1)" by (metis surj_pair)
  from D(2) [OF n] have t: "first_token (toks p) = (a, k, toks p1)" by (simp add: D(1))
  show ?thesis
  proof (cases a)
    case None
    then show ?thesis using n first_token_ref(2) [OF t None] by (auto simp: parse_scommand_def ref_first_def)
  next
    case (Some b)
    obtain bad p' where "parse_arguments ops scommand_new k b p1 = Some (fst (ref_command (toks p1) (add_argument k b scommand_new)), bad, p')"
      "toks p' = snd (ref_command (toks p1) (add_argument k b scommand_new))" using parse_arguments_ref [OF assms] by metis
    then show ?thesis using n Some first_token_ref(1) [OF t Some, of scommand_new] by (simp add: parse_scommand_def ref_first_def)
  qed
qed

text \<open>What the flags of the imperative parser say of the rest of the line.\<close>

definition ends_line :: "token list \<Rightarrow> (scommand list \<times> bool) option" where
  "ends_line us = (case us of Background # Pipe # vs \<Rightarrow> None | Background # vs \<Rightarrow> Some ([], False) | _ \<Rightarrow> Some ([], True))"

lemma ref_line_step:
  assumes "ref_first ts = (Some c, us)"
  shows "ref_line ts = map_option (\<lambda>(cs, w). (c # cs, w)) (if us \<noteq> [] \<and> hd us = Pipe then ref_line (tl us) else ends_line us)"
  using assms by (subst ref_line.simps) (auto simp: ends_line_def split: list.splits token.splits)

lemma parse_pipes_ref:
  assumes "parser_contract ops toks" "scmds r \<noteq> []"
  shows "\<exists>e a r' h' out' p'. parse_pipes ops r h out p = Some (e, a, r', h', out', p')
    \<and> (if e then ref_line (toks p) = None
       else \<exists>cs. r' = r\<lparr>scmds := scmds r @ cs\<rparr> \<and> ref_line (toks p) = map_option (\<lambda>(ds, w). (cs @ ds, w)) (ends_line (toks p')))"
  using assms(2)
proof (induction "length (toks p)" arbitrary: r h out p rule: less_induct)
  case less
  note D = parser_contractD [OF assms(1)]
  obtain h1 o1 p1 where s: "parse_scommand ops p h out = Some (fst (ref_first (toks p)), h1, o1, p1)"
    "fst (ref_first (toks p)) \<noteq> None \<longrightarrow> toks p1 = snd (ref_first (toks p))" using parse_scommand_ref [OF assms(1)] by metis
  show ?case
  proof (cases "fst (ref_first (toks p))")
    case None
    then have "ref_line (toks p) = None" by (cases "ref_first (toks p)") (simp add: ref_line.simps [of "toks p"])
    then show ?thesis using s(1) None less.prems by (subst parse_pipes.simps) (auto simp: pipeline_defs)
  next
    case (Some c)
    let ?r = "pipeline_push_back r c"
    have f: "ref_first (toks p) = (Some c, toks p1)" using s(2) Some by (metis option.distinct(1) prod.collapse)
    obtain b p2 where b: "parser_op_pipe ops p1 = (b, p2)" by (metis surj_pair)
    have sk: "skip_token Pipe (toks p1) = (b, toks p2)" by (rule D(3) [OF b])
    note R = ref_line_step [OF f]
    show ?thesis
    proof (cases b)
      case True
      then have t: "toks p1 \<noteq> [] \<and> hd (toks p1) = Pipe" "toks p2 = tl (toks p1)" using sk by (auto simp: skip_token_def split: if_splits)
      then have R': "ref_line (toks p) = map_option (\<lambda>(cs, w). (c # cs, w)) (ref_line (toks p2))" using R by simp
      have l: "length (toks p2) < length (toks p)" using t ref_first_length [of "toks p"] f by (cases "toks p1") auto
      have "scmds ?r \<noteq> []" by (simp add: pipeline_push_back_def)
      from less.hyps [OF l this, of h1 o1] obtain e a r' h' out' p' where i:
        "parse_pipes ops ?r h1 o1 p2 = Some (e, a, r', h', out', p')"
        "if e then ref_line (toks p2) = None
         else \<exists>cs. r' = ?r\<lparr>scmds := scmds ?r @ cs\<rparr> \<and> ref_line (toks p2) = map_option (\<lambda>(ds, w). (cs @ ds, w)) (ends_line (toks p'))"
        by blast
      have "parse_pipes ops r h out p = Some (e, a, r', h', out', p')"
        using s(1) Some b True i(1) by (subst parse_pipes.simps) simp
      moreover have "if e then ref_line (toks p) = None
         else \<exists>cs. r' = r\<lparr>scmds := scmds r @ cs\<rparr> \<and> ref_line (toks p) = map_option (\<lambda>(ds, w). (cs @ ds, w)) (ends_line (toks p'))"
      proof (cases e)
        case False
        then obtain cs where cs: "r' = ?r\<lparr>scmds := scmds ?r @ cs\<rparr>"
          "ref_line (toks p2) = map_option (\<lambda>(ds, w). (cs @ ds, w)) (ends_line (toks p'))" using i(2) by auto
        have "r' = r\<lparr>scmds := scmds r @ c # cs\<rparr>" by (simp add: cs(1) pipeline_push_back_def)
        moreover have "ref_line (toks p) = map_option (\<lambda>(ds, w). ((c # cs) @ ds, w)) (ends_line (toks p'))"
          by (simp add: R' cs(2) option.map_comp comp_def case_prod_unfold)
        ultimately show ?thesis using False by auto
      qed (use R' i(2) in simp)
      ultimately show ?thesis by blast
    next
      case False
      then have t: "\<not> (toks p1 \<noteq> [] \<and> hd (toks p1) = Pipe)" "toks p2 = toks p1" using sk by (auto simp: skip_token_def split: if_splits)
      have "parse_pipes ops r h out p = Some (False, False, ?r, h1, o1, p2)"
        using s(1) Some b False by (subst parse_pipes.simps) simp
      moreover have "?r = r\<lparr>scmds := scmds r @ [c]\<rparr>" by (simp add: pipeline_push_back_def)
      moreover have "ref_line (toks p) = map_option (\<lambda>(ds, w). ([c] @ ds, w)) (ends_line (toks p2))" using R t by simp
      ultimately show ?thesis by (intro exI [of _ False] exI [of _ False] exI [of _ ?r] exI [of _ h1] exI [of _ o1] exI [of _ p2]) auto
    qed
  qed
qed

lemma ends_line_cases:
  assumes "skip_token Background us = (g, vs)" "skip_token Pipe vs = (f, ws)"
  shows "ends_line us = (if g then if f then None else Some ([], False) else Some ([], True))"
  using assms by (cases us; cases "tl us"; cases "hd us"; cases "hd (tl us)"; auto simp: skip_token_def ends_line_def split: if_splits)

lemma parse_line_ref:
  assumes "parser_contract ops toks"
  shows "\<exists>e a r h out p'. parse_line ops p = Some (e, a, r, h, out, p')
    \<and> (if e then ref_line (toks p) = None else ref_line (toks p) = Some (scmds r, wait_flag r))"
proof -
  note D = parser_contractD [OF assms]
  obtain h1 o1 p1 where s: "parse_scommand ops p False [] = Some (fst (ref_first (toks p)), h1, o1, p1)"
    "fst (ref_first (toks p)) \<noteq> None \<longrightarrow> toks p1 = snd (ref_first (toks p))" using parse_scommand_ref [OF assms] by metis
  obtain a p2 where a: "parser_op_pipe ops p1 = (a, p2)" by (metis surj_pair)
  show ?thesis
  proof (cases "fst (ref_first (toks p))")
    case None
    then have "ref_line (toks p) = None" by (cases "ref_first (toks p)") (simp add: ref_line.simps [of "toks p"])
    moreover obtain g p3 where "parser_op_background ops p2 = (g, p3)" by (metis surj_pair)
    ultimately show ?thesis using s(1) None a by (auto simp: parse_line_def)
  next
    case (Some c)
    let ?r = "pipeline_push_back pipeline_new c"
    have r0: "scmds ?r = [c]" "wait_flag ?r = True" "?r\<lparr>scmds := [c]\<rparr> = ?r" by (simp_all add: pipeline_push_back_def pipeline_new_def)
    have f: "ref_first (toks p) = (Some c, toks p1)" using s(2) Some by (metis option.distinct(1) prod.collapse)
    note R = ref_line_step [OF f]
    have sk: "skip_token Pipe (toks p1) = (a, toks p2)" by (rule D(3) [OF a])
    have "\<exists>e b r2 h2 o2 p3. (if a then parse_pipes ops ?r h1 o1 p2 else Some (False, False, ?r, h1, o1, p2)) = Some (e, b, r2, h2, o2, p3)
      \<and> (if e then ref_line (toks p) = None
         else wait_flag r2 \<and> ref_line (toks p) = map_option (\<lambda>(ds, w). (scmds r2 @ ds, w)) (ends_line (toks p3)))"
    proof (cases a)
      case True
      then have R': "ref_line (toks p) = map_option (\<lambda>(cs, w). (c # cs, w)) (ref_line (toks p2))"
        using R sk by (auto simp: skip_token_def split: if_splits)
      obtain e b r2 h2 o2 p3 where i: "parse_pipes ops ?r h1 o1 p2 = Some (e, b, r2, h2, o2, p3)"
        "if e then ref_line (toks p2) = None
         else \<exists>cs. r2 = ?r\<lparr>scmds := scmds ?r @ cs\<rparr> \<and> ref_line (toks p2) = map_option (\<lambda>(ds, w). (cs @ ds, w)) (ends_line (toks p3))"
        using parse_pipes_ref [OF assms, of ?r h1 o1 p2] r0(1) by auto
      have "if e then ref_line (toks p) = None
         else wait_flag r2 \<and> ref_line (toks p) = map_option (\<lambda>(ds, w). (scmds r2 @ ds, w)) (ends_line (toks p3))"
        using i(2) r0(1,2) by (auto simp: R' option.map_comp comp_def case_prod_unfold split: if_splits)
      then show ?thesis using i(1) True by auto
    next
      case False
      then have t: "\<not> (toks p1 \<noteq> [] \<and> hd (toks p1) = Pipe)" "toks p2 = toks p1" using sk by (auto simp: skip_token_def split: if_splits)
      have "ref_line (toks p) = map_option (\<lambda>(ds, w). (scmds ?r @ ds, w)) (ends_line (toks p2))" using R t r0(1) by simp
      then show ?thesis using False r0(2)
        by (intro exI [of _ False] exI [of _ False] exI [of _ ?r] exI [of _ h1] exI [of _ o1] exI [of _ p2]) simp
    qed
    then obtain e b r2 h2 o2 p3 where m: "(if a then parse_pipes ops ?r h1 o1 p2 else Some (False, False, ?r, h1, o1, p2)) = Some (e, b, r2, h2, o2, p3)"
      "if e then ref_line (toks p) = None
       else wait_flag r2 \<and> ref_line (toks p) = map_option (\<lambda>(ds, w). (scmds r2 @ ds, w)) (ends_line (toks p3))" by blast
    obtain g p4 where g: "parser_op_background ops p3 = (g, p4)" by (metis surj_pair)
    obtain k p5 where k: "parser_op_pipe ops (parser_skip_blanks ops p4) = (k, p5)" by (metis surj_pair)
    have E: "ends_line (toks p3) = (if g then if k then None else Some ([], False) else Some ([], True))"
      using ends_line_cases [OF D(4) [OF g]] D(3) [OF k] by (simp add: D(1))
    have l: "parse_line ops p = Some (if e then (True, b, r2, h2, o2, p3)
        else if g then (k, k, pipeline_set_wait r2 False, h2, o2, p5) else (False, b, pipeline_set_wait r2 True, h2, o2, p4))"
      using s(1) Some a m(1) g k by (simp add: parse_line_def)
    show ?thesis using l m(2) E by (cases e; cases g; cases k) (auto simp: pipeline_set_wait_def)
  qed
qed

text \<open>
  C5: the parser with its flags is equivalent to the recursive parser of the grammar.  For every input
  and every lexer that keeps its contract the result is the pipeline the grammar gives, and a new
  empty pipeline exactly when the line does not match it.  \<open>parsing.h\<close> documents \<open>NULL\<close> as the result
  for an erroneous line; the code returns \<open>pipeline_new()\<close> there.
\<close>

theorem parse_pipeline_equivalent:
  assumes "parser_contract ops toks" "toks p \<noteq> []"
  shows "\<exists>out p'. parse_pipeline ops p =
    Some (case ref_line (toks p) of None \<Rightarrow> pipeline_new | Some (cs, w) \<Rightarrow> \<lparr>scmds = cs, wait_flag = w\<rparr>, out, p')"
proof -
  note D = parser_contractD [OF assms(1)]
  obtain e a r h o1 p1 where l: "parse_line ops p = Some (e, a, r, h, o1, p1)"
    "if e then ref_line (toks p) = None else ref_line (toks p) = Some (scmds r, wait_flag r)" using parse_line_ref [OF assms(1)] by metis
  obtain o2 p2 where r: "report_error ops r a h o1 p1 = (o2, p2)" by (metis surj_pair)
  have "parse_pipeline ops p = Some (if e then (pipeline_new, o2, parser_garbage ops p2) else (r, o1, parser_garbage ops p1))"
    using assms(2) l(1) r by (simp add: parse_pipeline_def D(6))
  then show ?thesis using l(2) by (cases e) simp_all
qed

theorem parse_pipeline_equivalent_witness:
  "(\<exists>out p'. parse_pipeline token_lexer [Word [108], Background, Pipe, Newline] = Some (pipeline_new, out, p'))
   \<and> (\<exists>out p'. parse_pipeline token_lexer [Word [108], Pipe, Word [109], Output (Some [110]), Background, Newline]
        = Some (\<lparr>scmds = [\<lparr>args = [[108]], redir_in = None, redir_out = None\<rparr>,
             \<lparr>args = [[109]], redir_in = None, redir_out = Some [110]\<rparr>], wait_flag = False\<rparr>, out, p'))"
proof
  have "ref_line [Word [108], Background, Pipe, Newline] = None"
    by (subst ref_line.simps) (simp add: ref_first_def)
  then show "\<exists>out p'. parse_pipeline token_lexer [Word [108], Background, Pipe, Newline] = Some (pipeline_new, out, p')"
    using parse_pipeline_equivalent [OF token_lexer_contract, of "[Word [108], Background, Pipe, Newline]"] by simp
  let ?cs = "[\<lparr>args = [[108]], redir_in = None, redir_out = None\<rparr>, \<lparr>args = [[109]], redir_in = None, redir_out = Some [110]\<rparr>]"
  have "ref_line [Word [108], Pipe, Word [109], Output (Some [110]), Background, Newline] = Some (?cs, False)"
    by (simp add: ref_line.simps ref_first_def add_argument_def scommand_defs scommand_new_def)
  then show "\<exists>out p'. parse_pipeline token_lexer [Word [108], Pipe, Word [109], Output (Some [110]), Background, Newline]
        = Some (\<lparr>scmds = ?cs, wait_flag = False\<rparr>, out, p')"
    using parse_pipeline_equivalent [OF token_lexer_contract,
        of "[Word [108], Pipe, Word [109], Output (Some [110]), Background, Newline]"] by simp
qed

end
