(* ===== verification/Shell_Execute.thy ===== *)
theory Shell_Execute
  imports Shell_Parsing
begin

text \<open>
  The shell of LAB1 above its parser: the internal commands (\<open>builtin.c\<close>), the execution of a pipeline
  (\<open>execute.c\<close>) and the main loop (\<open>mybash.c\<close>).  A process is its table of descriptors; a child ends in
  \<open>execvp\<close> with its arguments and its table, or exits because the command is not found.  What the
  operating system answers (process numbers, failures, the effect of \<open>chdir\<close>) is an environment.
\<close>

section \<open>Descriptors\<close>

text \<open>What a descriptor refers to: something inherited, a file opened by name, an end of the pipe.\<close>

datatype stream = Inherited nat | Reading cstring | Writing cstring | Pipe_read | Pipe_write

type_synonym fds = "nat \<Rightarrow> stream option"

definition OPEN_MAX :: nat where "OPEN_MAX = 1024"

definition lowest_fd :: "fds \<Rightarrow> nat option" where
  "lowest_fd t = find (\<lambda>i. t i = None) [0..<OPEN_MAX]"

definition sys_open :: "bool \<Rightarrow> stream \<Rightarrow> fds \<Rightarrow> int \<times> fds" where
  "sys_open ok x t =
     (case lowest_fd t of
        None \<Rightarrow> (- 1, t)
      | Some i \<Rightarrow> if ok then (int i, t(i \<mapsto> x)) else (- 1, t))"

definition dup2 :: "int \<Rightarrow> nat \<Rightarrow> fds \<Rightarrow> fds" where
  "dup2 old new t = (if old < 0 \<or> t (nat old) = None then t else t(new := t (nat old)))"

definition close :: "int \<Rightarrow> fds \<Rightarrow> fds" where
  "close fd t = (if fd < 0 then t else t(nat fd := None))"

definition sys_pipe :: "bool \<Rightarrow> fds \<Rightarrow> (int \<times> int \<times> fds) option" where
  "sys_pipe ok t =
     (let (r, t') = sys_open ok Pipe_read t; (w, t'') = sys_open ok Pipe_write t'
      in if r < 0 \<or> w < 0 then None else Some (r, w, t''))"

record env =
  can_read :: "cstring \<Rightarrow> bool"
  can_write :: "cstring \<Rightarrow> bool"
  found :: "cstring list \<Rightarrow> bool"
  pipe_works :: bool
  fork1 :: int
  fork2 :: int
  chdir_result :: "cstring \<Rightarrow> cstring \<Rightarrow> cstring option"
  uninitialised :: int

definition change_fd_in :: "env \<Rightarrow> cstring option \<Rightarrow> fds \<Rightarrow> fds" where
  "change_fd_in e red t =
     (case red of
        None \<Rightarrow> t
      | Some f \<Rightarrow> let (fd, t) = sys_open (can_read e f) (Reading f) t in close fd (dup2 fd 0 t))"

definition change_fd_out :: "env \<Rightarrow> cstring option \<Rightarrow> fds \<Rightarrow> fds" where
  "change_fd_out e red t =
     (case red of
        None \<Rightarrow> t
      | Some f \<Rightarrow> let (fd, t) = sys_open (can_write e f) (Writing f) t in close fd (dup2 fd 1 t))"

section \<open>Internal commands\<close>

text \<open>The variable HOME lies in a block of the environment, which the code writes into.\<close>

record shell =
  s_fds :: fds
  s_home :: "block option"
  s_cwd :: cstring
  s_exit :: bool
  s_out :: "string list"

definition say :: "string \<Rightarrow> shell \<Rightarrow> shell" where
  "say s sh = sh\<lparr>s_out := s_out sh @ [s]\<rparr>"

definition MAX_BUFF :: nat where "MAX_BUFF = 512"

definition cmd_is_help :: "scommand \<Rightarrow> bool option" where
  "cmd_is_help c = (if scommand_length c = 1 then map_option (\<lambda>f. streq f (cstr ''help'')) (scommand_front c) else Some False)"

definition cmd_is_exit :: "scommand \<Rightarrow> bool option" where
  "cmd_is_exit c = (if scommand_length c = 1 then map_option (\<lambda>f. streq f (cstr ''exit'')) (scommand_front c) else Some False)"

definition cmd_is_cd :: "scommand \<Rightarrow> bool option" where
  "cmd_is_cd c = map_option (\<lambda>f. streq f (cstr ''cd'')) (scommand_front c)"

definition builtin_is_internal :: "scommand \<Rightarrow> bool option" where
  "builtin_is_internal c = do {
     cd \<leftarrow> cmd_is_cd c;
     if cd then Some True
     else do {
       ex \<leftarrow> cmd_is_exit c;
       if ex then Some True else cmd_is_help c
     }
   }"

definition chdir :: "env \<Rightarrow> cstring option \<Rightarrow> shell \<Rightarrow> int \<times> shell" where
  "chdir e path sh =
     (case path of
        None \<Rightarrow> (- 1, sh)
      | Some d \<Rightarrow> (case chdir_result e (s_cwd sh) d of None \<Rightarrow> (- 1, sh) | Some cwd \<Rightarrow> (0, sh\<lparr>s_cwd := cwd\<rparr>)))"

text \<open>\<open>getcwd\<close> into a given buffer, and into a new one of \<open>MAX_BUFF\<close> bytes.\<close>

definition getcwd_into :: "block \<Rightarrow> cstring \<Rightarrow> block option" where
  "getcwd_into b cwd = (if length cwd + 1 \<le> min MAX_BUFF (b_size b) then Some (b\<lparr>b_str := cwd\<rparr>) else None)"

definition getcwd_new :: "cstring \<Rightarrow> block option" where
  "getcwd_new cwd = (if length cwd + 1 \<le> MAX_BUFF then Some \<lparr>b_size = MAX_BUFF, b_str = cwd\<rparr> else None)"

definition run_cd :: "env \<Rightarrow> cstring \<Rightarrow> shell \<Rightarrow> (int \<times> shell) option" where
  "run_cd e d sh =
     (if length d = 1 then
        if streq d (cstr ''~'') then Some (chdir e (map_option b_str (s_home sh)) sh)
        else if streq d (cstr ''.'') then
          (case s_home sh of
             None \<Rightarrow> do { b \<leftarrow> getcwd_new (s_cwd sh); Some (uninitialised e, say ''cwd'' sh) }
           | Some h \<Rightarrow> do { b \<leftarrow> getcwd_into h (s_cwd sh); Some (uninitialised e, say ''cwd'' (sh\<lparr>s_home := Some b\<rparr>)) })
        else Some (chdir e (Some d) sh)
      else if length d > 1 then
        if d ! 0 = of_char (CHR ''~'') \<and> d ! 1 = of_char (CHR ''/'') then do {
          h \<leftarrow> s_home sh;
          b \<leftarrow> strcat h (tl d);
          Some (chdir e (Some (b_str b)) (sh\<lparr>s_home := Some b\<rparr>))
        }
        else if d ! 0 = of_char (CHR ''.'') \<and> d ! 1 = of_char (CHR ''/'') then do {
          b \<leftarrow> getcwd_new (s_cwd sh);
          b \<leftarrow> strcat b (tl d);
          Some (chdir e (Some (b_str b)) sh)
        }
        else Some (chdir e (Some d) sh)
      else Some (uninitialised e, sh))"

definition builtin_cd :: "env \<Rightarrow> scommand \<Rightarrow> shell \<Rightarrow> (scommand \<times> shell) option" where
  "builtin_cd e c sh = do {
     let sh = (if scommand_length c > 2 then say ''mybash> : cd'' sh else sh);
     c \<leftarrow> scommand_pop_front c;
     if scommand_is_empty c then Some (c, snd (chdir e (map_option b_str (s_home sh)) sh))
     else do {
       d \<leftarrow> scommand_front c;
       (chd, sh) \<leftarrow> run_cd e d sh;
       c \<leftarrow> scommand_pop_front c;
       Some (c, if chd \<noteq> 0 then say ''mybash> : cd'' sh else sh)
     }
   }"

definition builtin_run :: "env \<Rightarrow> scommand \<Rightarrow> shell \<Rightarrow> (scommand \<times> shell) option" where
  "builtin_run e c sh = do {
     internal \<leftarrow> builtin_is_internal c;
     guard internal;
     help \<leftarrow> cmd_is_help c;
     let sh = (if help then say ''help'' sh else sh);
     ex \<leftarrow> cmd_is_exit c;
     let sh = (if ex then sh\<lparr>s_exit := True\<rparr> else sh);
     cd \<leftarrow> cmd_is_cd c;
     if cd then builtin_cd e c sh else Some (c, sh)
   }"

section \<open>Executing a pipeline\<close>

datatype child = Exec "cstring list" fds | Not_found

definition run_child :: "env \<Rightarrow> cstring list \<Rightarrow> fds \<Rightarrow> child" where
  "run_child e argv t = (if argv \<noteq> [] \<and> found e argv then Exec argv t else Not_found)"

text \<open>What an execution leaves: the pipeline, the shell, the children made and the processes waited for.\<close>

type_synonym execution = "pipeline \<times> shell \<times> child list \<times> int list"

definition execute_one :: "env \<Rightarrow> pipeline \<Rightarrow> shell \<Rightarrow> execution option" where
  "execute_one e p sh =
     (if fork1 e < 0 then Some (p, say ''mybash> '' sh, [], [])
      else do {
        c \<leftarrow> pipeline_front p;
        (argv, _) \<leftarrow> scommand_to_array c;
        p \<leftarrow> pipeline_pop_front p;
        let child = run_child e argv (change_fd_in e (redir_in c) (change_fd_out e (redir_out c) (s_fds sh)));
        Some (p, sh, [child], if wait_flag p then [fork1 e] else [])
      })"

definition first_child :: "env \<Rightarrow> int \<Rightarrow> int \<Rightarrow> cstring list \<Rightarrow> cstring option \<Rightarrow> cstring option \<Rightarrow> fds \<Rightarrow> child" where
  "first_child e r w argv rin rout t =
     (let t = close w (close r (dup2 w 1 t))
      in run_child e argv (change_fd_in e rin (change_fd_out e rout t)))"

definition second_child :: "env \<Rightarrow> int \<Rightarrow> int \<Rightarrow> cstring list \<Rightarrow> cstring option \<Rightarrow> cstring option \<Rightarrow> fds \<Rightarrow> child" where
  "second_child e r w argv rin rout t =
     (let t = close r (close w (dup2 r 0 t))
      in run_child e argv (change_fd_out e rin (change_fd_out e rout t)))"

definition execute_two :: "env \<Rightarrow> pipeline \<Rightarrow> shell \<Rightarrow> execution option" where
  "execute_two e p sh =
     (case sys_pipe (pipe_works e) (s_fds sh) of
        None \<Rightarrow> Some (p, say ''mybash> '' sh, [], [])
      | Some (r, w, t) \<Rightarrow> do {
          c1 \<leftarrow> pipeline_front p;
          (argv1, _) \<leftarrow> scommand_to_array c1;
          p \<leftarrow> pipeline_pop_front p;
          c2 \<leftarrow> pipeline_front p;
          (argv2, _) \<leftarrow> scommand_to_array c2;
          p \<leftarrow> pipeline_pop_front p;
          if fork1 e < 0 then Some (p, say ''mybash> '' (sh\<lparr>s_fds := t\<rparr>), [], [])
          else
            let child1 = first_child e r w argv1 (redir_in c1) (redir_out c1) t;
                children = (if fork2 e < 0 then [child1] else [child1, second_child e r w argv2 (redir_in c2) (redir_out c2) t])
            in Some (p, sh\<lparr>s_fds := close r (close w t)\<rparr>, children, if wait_flag p then [fork1 e, fork2 e] else [])
        })"

definition execute_pipeline :: "env \<Rightarrow> pipeline \<Rightarrow> shell \<Rightarrow> execution option" where
  "execute_pipeline e p sh =
     (if pipeline_is_empty p then Some (p, sh, [], [])
      else do {
        c \<leftarrow> pipeline_front p;
        internal \<leftarrow> builtin_is_internal c;
        if internal then do {
          (c, sh) \<leftarrow> builtin_run e c sh;
          Some (p\<lparr>scmds := c # tl (scmds p)\<rparr>, sh, [], [])
        }
        else if pipeline_length p = 1 then execute_one e p sh
        else if pipeline_length p = 2 then execute_two e p sh
        else Some (p, sh, [], [])
      })"

text \<open>The main loop; line \<open>i\<close> of the input is executed in environment \<open>es i\<close>.\<close>

partial_function (option) mybash :: "'p parser \<Rightarrow> (nat \<Rightarrow> env) \<Rightarrow> nat \<Rightarrow> 'p \<Rightarrow> shell \<Rightarrow> child list \<Rightarrow> (shell \<times> child list) option" where
  "mybash ops es i p sh done =
     do {
       (q, out, p) \<leftarrow> parse_pipeline ops p;
       (_, sh, children, _) \<leftarrow> execute_pipeline (es i) q (sh\<lparr>s_out := s_out sh @ out\<rparr>);
       if \<not> parser_at_eof ops p \<and> \<not> s_exit sh then mybash ops es (i + 1) p sh (done @ children)
       else Some (sh, done @ children)
     }"

section \<open>Redirections\<close>

lemma lowest_fd_free: "lowest_fd t = Some i \<Longrightarrow> t i = None"
  by (auto simp: lowest_fd_def find_Some_iff)

lemma unset [simp]: "t i = None \<Longrightarrow> t(i := None) = t"
  by (simp add: fun_upd_idem)

lemma change_fd_in_opens:
  assumes "lowest_fd t = Some i" "t 0 \<noteq> None" "can_read e f"
  shows "change_fd_in e (Some f) t = t(0 \<mapsto> Reading f)"
proof -
  have "t i = None" "i \<noteq> 0" using lowest_fd_free [OF assms(1)] assms(2) by metis+
  then show ?thesis using assms by (simp add: change_fd_in_def sys_open_def dup2_def close_def fun_upd_twist)
qed

lemma change_fd_out_opens:
  assumes "lowest_fd t = Some i" "t 1 \<noteq> None" "can_write e f"
  shows "change_fd_out e (Some f) t = t(1 \<mapsto> Writing f)"
proof -
  have "t i = None" "i \<noteq> 1" using lowest_fd_free [OF assms(1)] assms(2) by metis+
  then show ?thesis using assms by (simp add: change_fd_out_def sys_open_def dup2_def close_def fun_upd_twist)
qed

lemma no_redirection [simp]: "change_fd_in e None t = t" "change_fd_out e None t = t"
  by (simp_all add: change_fd_in_def change_fd_out_def)

lemma lowest_fd_upd: "t j \<noteq> None \<Longrightarrow> lowest_fd (t(j \<mapsto> x)) = lowest_fd t"
  by (auto simp: lowest_fd_def intro!: arg_cong [where f = "\<lambda>P. find P [0..<OPEN_MAX]"])

text \<open>Both ends of the pipe are gone but for the one that became a standard stream.\<close>

lemma pipe_ends:
  assumes "lowest_fd t = Some r" "lowest_fd (t(r \<mapsto> Pipe_read)) = Some w" "t 0 \<noteq> None" "t 1 \<noteq> None"
  shows "sys_pipe True t = Some (int r, int w, t(r \<mapsto> Pipe_read, w \<mapsto> Pipe_write))"
    "close (int w) (close (int r) (dup2 (int w) 1 (t(r \<mapsto> Pipe_read, w \<mapsto> Pipe_write)))) = t(1 \<mapsto> Pipe_write)"
    "close (int r) (close (int w) (dup2 (int r) 0 (t(r \<mapsto> Pipe_read, w \<mapsto> Pipe_write)))) = t(0 \<mapsto> Pipe_read)"
    "close (int r) (close (int w) (t(r \<mapsto> Pipe_read, w \<mapsto> Pipe_write))) = t"
proof -
  have n: "t r = None" "r \<noteq> w" "t w = None" using lowest_fd_free [OF assms(1)] lowest_fd_free [OF assms(2)] by (auto split: if_splits)
  have d: "r \<noteq> 0" "r \<noteq> 1" "w \<noteq> 0" "w \<noteq> 1" using n assms(3,4) by metis+
  show "sys_pipe True t = Some (int r, int w, t(r \<mapsto> Pipe_read, w \<mapsto> Pipe_write))"
    using assms by (simp add: sys_pipe_def sys_open_def)
  show "close (int w) (close (int r) (dup2 (int w) 1 (t(r \<mapsto> Pipe_read, w \<mapsto> Pipe_write)))) = t(1 \<mapsto> Pipe_write)"
    "close (int r) (close (int w) (dup2 (int r) 0 (t(r \<mapsto> Pipe_read, w \<mapsto> Pipe_write)))) = t(0 \<mapsto> Pipe_read)"
    "close (int r) (close (int w) (t(r \<mapsto> Pipe_read, w \<mapsto> Pipe_write))) = t"
    using n d by (auto simp: close_def dup2_def fun_eq_iff)
qed

text \<open>
  C15: the plumbing of a pipeline of two external commands.  When the system calls succeed, the first
  child runs its command with its output in the pipe, or in its \<open>>\<close> file when it has one, and its input
  from its \<open><\<close> file, if any; the second has its input from the pipe; no process keeps another end of the
  pipe open, the shell has its descriptors back, and it waits for both children when the line did not
  end in \<open>&\<close>, for none of them when it did.  A \<open><\<close> of the second command is not its input: the file is
  opened for writing and becomes its output, over its \<open>>\<close>.
\<close>

theorem pipe_plumbing:
  assumes "builtin_is_internal c1 = Some False" "args c1 \<noteq> []" "args c2 \<noteq> []" "found e (args c1)" "found e (args c2)"
    "pipe_works e" "0 < fork1 e" "0 < fork2 e" "\<forall>f. can_read e f \<and> can_write e f"
    "s_fds sh 0 \<noteq> None" "s_fds sh 1 \<noteq> None" "lowest_fd (s_fds sh) = Some r" "lowest_fd ((s_fds sh)(r \<mapsto> Pipe_read)) = Some w"
    "out1 = (s_fds sh)(1 \<mapsto> (case redir_out c1 of None \<Rightarrow> Pipe_write | Some f \<Rightarrow> Writing f))"
  shows "execute_pipeline e \<lparr>scmds = [c1, c2], wait_flag = wt\<rparr> sh =
    Some (\<lparr>scmds = [], wait_flag = wt\<rparr>, sh,
      [Exec (args c1) (case redir_in c1 of None \<Rightarrow> out1 | Some f \<Rightarrow> out1(0 \<mapsto> Reading f)),
       Exec (args c2) (case redir_in c2 of
           Some f \<Rightarrow> (s_fds sh)(0 \<mapsto> Pipe_read, 1 \<mapsto> Writing f)
         | None \<Rightarrow> (case redir_out c2 of None \<Rightarrow> (s_fds sh)(0 \<mapsto> Pipe_read) | Some f \<Rightarrow> (s_fds sh)(0 \<mapsto> Pipe_read, 1 \<mapsto> Writing f)))],
      if wt then [fork1 e, fork2 e] else [])"
proof -
  let ?t = "s_fds sh" and ?t' = "(s_fds sh)(r \<mapsto> Pipe_read, w \<mapsto> Pipe_write)"
  note P = pipe_ends [OF assms(12,13,10,11)]
  have a: "lowest_fd (?t(1 \<mapsto> x)) = Some r" "lowest_fd (?t(0 \<mapsto> Pipe_read)) = Some r"
    "lowest_fd (?t(0 \<mapsto> Pipe_read, 1 \<mapsto> Writing f)) = Some r" for f x
    using assms(10-12) lowest_fd_upd [of ?t] lowest_fd_upd [of "?t(0 \<mapsto> Pipe_read)" 1] by auto
  have "(?t(1 \<mapsto> x)) 0 \<noteq> None" "(?t(1 \<mapsto> x)) 1 \<noteq> None" for x using assms(10) by simp_all
  then have i: "change_fd_in e (Some f) (?t(1 \<mapsto> x)) = ?t(1 \<mapsto> x, 0 \<mapsto> Reading f)"
    and o1: "change_fd_out e (Some f) (?t(1 \<mapsto> Pipe_write)) = ?t(1 \<mapsto> Pipe_write, 1 \<mapsto> Writing f)" for f x
    using change_fd_in_opens [OF a(1)] change_fd_out_opens [OF a(1)] assms(9) by blast+
  have "change_fd_out e (redir_out c1) (?t(1 \<mapsto> Pipe_write)) = out1"
    using o1 by (cases "redir_out c1") (simp_all add: assms(14) del: fun_upd_apply One_nat_def)
  then have one: "first_child e (int r) (int w) (args c1) (redir_in c1) (redir_out c1) ?t' = Exec (args c1)
      (case redir_in c1 of None \<Rightarrow> out1 | Some f \<Rightarrow> out1(0 \<mapsto> Reading f))"
    using assms(2,4) i by (cases "redir_in c1")
      (simp_all add: first_child_def P(2) run_child_def assms(14) del: fun_upd_apply One_nat_def)
  have two: "second_child e (int r) (int w) (args c2) (redir_in c2) (redir_out c2) ?t' = Exec (args c2)
      (case redir_in c2 of Some f \<Rightarrow> ?t(0 \<mapsto> Pipe_read, 1 \<mapsto> Writing f)
         | None \<Rightarrow> (case redir_out c2 of None \<Rightarrow> ?t(0 \<mapsto> Pipe_read) | Some f \<Rightarrow> ?t(0 \<mapsto> Pipe_read, 1 \<mapsto> Writing f)))"
  proof -
    have t1: "(?t(0 \<mapsto> Pipe_read)) 1 \<noteq> None" "(?t(0 \<mapsto> Pipe_read, 1 \<mapsto> Writing f)) 1 \<noteq> None" for f using assms(11) by simp_all
    have o: "change_fd_out e (Some f) (?t(0 \<mapsto> Pipe_read)) = ?t(0 \<mapsto> Pipe_read, 1 \<mapsto> Writing f)" for f
      using change_fd_out_opens [OF a(2) t1(1)] assms(9) by blast
    have o': "change_fd_out e (Some g) (?t(0 \<mapsto> Pipe_read, 1 \<mapsto> Writing f)) = ?t(0 \<mapsto> Pipe_read, 1 \<mapsto> Writing g)" for f g
      using change_fd_out_opens [OF a(3) t1(2)] assms(9) by (simp del: fun_upd_apply One_nat_def)
    show ?thesis using assms(3,5)
      by (cases "redir_in c2"; cases "redir_out c2") (simp_all add: second_child_def P(3) run_child_def o o' del: fun_upd_apply One_nat_def)
  qed
  show ?thesis using assms(1,6-8)
    by (simp add: execute_pipeline_def pipeline_defs execute_two_def P(1,4) one two Let_def del: fun_upd_apply One_nat_def)
qed

text \<open>\<open>cat < i | wc > o\<close> in a shell with its three standard descriptors.\<close>

definition shell_env :: env where
  "shell_env = \<lparr>can_read = \<lambda>_. True, can_write = \<lambda>_. True, found = \<lambda>_. True, pipe_works = True, fork1 = 7, fork2 = 8,
     chdir_result = \<lambda>cwd d. Some d, uninitialised = 0\<rparr>"

definition first_shell :: shell where
  "first_shell = \<lparr>s_fds = [0 \<mapsto> Inherited 0, 1 \<mapsto> Inherited 1, 2 \<mapsto> Inherited 2], s_home = Some (strdup (cstr ''/h'')), s_cwd = cstr ''/'',
     s_exit = False, s_out = []\<rparr>"

lemma upt_five: "5 \<le> n \<Longrightarrow> [0..<n] = [0, 1, 2, 3, 4] @ [5..<n]"
  by (simp add: upt_conv_Cons eval_nat_numeral)

lemma upt_OPEN_MAX: "[0..<OPEN_MAX] = [0, 1, 2, 3, 4] @ [5..<OPEN_MAX]"
  by (rule upt_five) (simp add: OPEN_MAX_def)

lemma first_shell_fds:
  "lowest_fd (s_fds first_shell) = Some 3" "lowest_fd ((s_fds first_shell)(3 \<mapsto> Pipe_read)) = Some 4"
  by (simp_all add: lowest_fd_def upt_OPEN_MAX first_shell_def)

theorem pipe_plumbing_witness:
  "execute_pipeline shell_env \<lparr>scmds = [\<lparr>args = [cstr ''cat''], redir_in = Some [105], redir_out = None\<rparr>,
      \<lparr>args = [cstr ''wc''], redir_in = None, redir_out = Some [111]\<rparr>], wait_flag = True\<rparr> first_shell =
   Some (\<lparr>scmds = [], wait_flag = True\<rparr>, first_shell,
     [Exec [cstr ''cat''] ((s_fds first_shell)(1 \<mapsto> Pipe_write, 0 \<mapsto> Reading [105])),
      Exec [cstr ''wc''] ((s_fds first_shell)(0 \<mapsto> Pipe_read, 1 \<mapsto> Writing [111]))], [7, 8])
   \<and> execute_pipeline shell_env \<lparr>scmds = [\<lparr>args = [cstr ''cat''], redir_in = None, redir_out = Some [111]\<rparr>,
      \<lparr>args = [cstr ''wc''], redir_in = None, redir_out = None\<rparr>], wait_flag = False\<rparr> first_shell =
   Some (\<lparr>scmds = [], wait_flag = False\<rparr>, first_shell,
     [Exec [cstr ''cat''] ((s_fds first_shell)(1 \<mapsto> Writing [111])),
      Exec [cstr ''wc''] ((s_fds first_shell)(0 \<mapsto> Pipe_read))], [])"
proof -
  let ?c1 = "\<lparr>args = [cstr ''cat''], redir_in = Some [105], redir_out = None\<rparr>"
  let ?c2 = "\<lparr>args = [cstr ''wc''], redir_in = None, redir_out = Some [111]\<rparr>"
  let ?c3 = "\<lparr>args = [cstr ''cat''], redir_in = None, redir_out = Some [111]\<rparr>"
  let ?c4 = "\<lparr>args = [cstr ''wc''], redir_in = None, redir_out = None\<rparr>"
  have i: "builtin_is_internal ?c1 = Some False" "builtin_is_internal ?c3 = Some False"
    by (simp_all add: builtin_is_internal_def cmd_is_cd_def cmd_is_exit_def cmd_is_help_def scommand_defs streq_def cstr_def)
  have std: "s_fds first_shell 0 \<noteq> None" "s_fds first_shell 1 \<noteq> None" by (simp_all add: first_shell_def)
  show ?thesis
    using pipe_plumbing [OF i(1) _ _ _ _ _ _ _ _ std first_shell_fds refl, of ?c2 shell_env True]
      pipe_plumbing [OF i(2) _ _ _ _ _ _ _ _ std first_shell_fds refl, of ?c4 shell_env False]
    by (simp add: shell_env_def)
qed

section \<open>Commands that end the shell\<close>

lemma only_redirections: "args c = [] \<Longrightarrow> builtin_is_internal c = None"
  by (simp add: builtin_is_internal_def cmd_is_cd_def scommand_defs)

text \<open>
  A line that starts with redirections and no command ends the shell.  The parser accepts it, and
  \<open>execute_pipeline\<close> asks for the first word of the command, where the assertion of \<open>scommand_front\<close>
  fails: \<open>< file\<close> and a newline abort the shell, whatever the state and the environment.
\<close>

theorem redirection_line_aborts:
  assumes "parser_contract ops toks" "toks p = pipeline_tokens \<lparr>scmds = c # cs, wait_flag = wt\<rparr> @ Newline # rest"
    "args c = []" "\<forall>d \<in> set (c # cs). cmd_ok d"
  shows "mybash ops es i p sh done = None"
proof -
  obtain p' where "parse_pipeline ops p = Some (\<lparr>scmds = c # cs, wait_flag = wt\<rparr>, [], p')"
    using parse_tokens [OF assms(1,2)] assms(4) by auto
  then show ?thesis using only_redirections [OF assms(3)]
    by (subst mybash.simps) (simp add: execute_pipeline_def pipeline_defs)
qed

theorem redirection_line_aborts_witness:
  "mybash token_lexer (\<lambda>_. shell_env) 0 [Input (Some [102]), Newline] first_shell [] = None"
proof -
  let ?c = "\<lparr>args = [], redir_in = Some [102], redir_out = None\<rparr>"
  have "id [Input (Some [102]), Newline] = pipeline_tokens \<lparr>scmds = [?c], wait_flag = True\<rparr> @ Newline # []"
    by (simp add: pipeline_tokens_def cmd_tokens_def)
  from redirection_line_aborts [OF token_lexer_contract this] show ?thesis by (simp add: cmd_ok_def)
qed

text \<open>
  \<open>cd ~/d\<close> appends to the variable HOME itself.  When its block in the environment has no room, the
  code writes behind it; otherwise HOME is longer from then on, so the next \<open>cd\<close> without argument goes
  to \<open>HOME/d\<close>, and a second \<open>cd ~/d\<close> to \<open>HOME/d/d\<close>.
\<close>

theorem cd_changes_home:
  assumes "s_home sh = Some h" "args c = [cstr ''cd'', cstr ''~/'' @ d]"
    "\<And>cwd x. chdir_result e cwd x = Some x"
  shows "if b_size h < length (b_str h) + length d + 2 then builtin_run e c sh = None
    else \<exists>c' sh'. builtin_run e c sh = Some (c', sh') \<and> s_cwd sh' = b_str h @ cstr ''/'' @ d
      \<and> s_home sh' = Some (h\<lparr>b_str := b_str h @ cstr ''/'' @ d\<rparr>)
      \<and> (\<forall>c2. args c2 = [cstr ''cd''] \<longrightarrow> map_option (s_cwd \<circ> snd) (builtin_run e c2 sh') = Some (b_str h @ cstr ''/'' @ d))"
proof -
  note defs = builtin_run_def builtin_is_internal_def cmd_is_cd_def cmd_is_exit_def cmd_is_help_def scommand_defs streq_def
    builtin_cd_def chdir_def
  have tilde: "cstr ''~/'' @ d = of_char (CHR ''~'') # of_char (CHR ''/'') # d" by (simp add: cstr_def)
  have slash: "cstr ''/'' @ d = of_char (CHR ''/'') # d" by (simp add: cstr_def)
  have run: "run_cd e (cstr ''~/'' @ d) sh = (if b_size h < length (b_str h) + length d + 2 then None
      else Some (0, sh\<lparr>s_home := Some (h\<lparr>b_str := b_str h @ cstr ''/'' @ d\<rparr>), s_cwd := b_str h @ cstr ''/'' @ d\<rparr>))"
    using assms(1,3) unfolding tilde slash by (simp add: run_cd_def strcat_def chdir_def)
  have "cstr ''cd'' \<noteq> cstr ''exit''" "cstr ''cd'' \<noteq> cstr ''help''" by (simp_all add: cstr_def)
  then have "builtin_run e c2 s = Some (c2\<lparr>args := []\<rparr>, s\<lparr>s_cwd := b_str x\<rparr>)"
    if "args c2 = [cstr ''cd'']" "s_home s = Some x" for c2 s x
    using that assms(3) by (simp add: defs Let_def)
  moreover have "builtin_run e c sh = (case run_cd e (cstr ''~/'' @ d) sh of None \<Rightarrow> None
     | Some (chd, sh') \<Rightarrow> Some (c\<lparr>args := []\<rparr>, if chd \<noteq> 0 then say ''mybash> : cd'' sh' else sh'))"
    using assms(2) by (simp add: defs Let_def split: option.splits)
  ultimately show ?thesis by (simp add: run)
qed

theorem cd_changes_home_witness:
  "\<exists>c' sh'. builtin_run shell_env \<lparr>args = [cstr ''cd'', cstr ''~/'' @ [100]], redir_in = None, redir_out = None\<rparr>
      (first_shell\<lparr>s_home := Some \<lparr>b_size = 9, b_str = cstr ''/h''\<rparr>\<rparr>) = Some (c', sh')
    \<and> s_home sh' = Some \<lparr>b_size = 9, b_str = cstr ''/h'' @ cstr ''/'' @ [100]\<rparr>"
proof -
  have "\<And>cwd x. chdir_result shell_env cwd x = Some x" by (simp add: shell_env_def)
  from cd_changes_home [OF _ _ this, of "first_shell\<lparr>s_home := Some \<lparr>b_size = 9, b_str = cstr ''/h''\<rparr>\<rparr>" "\<lparr>b_size = 9, b_str = cstr ''/h''\<rparr>"
      "\<lparr>args = [cstr ''cd'', cstr ''~/'' @ [100]], redir_in = None, redir_out = None\<rparr>" "[100]"]
  show ?thesis by (auto simp: cstr_def)
qed

end
