(* ===== verification/Spec2Isabelle.thy ===== *)
theory Spec2Isabelle
  imports Prelude Fat_Util Fat_Time Fat_Table Fat_Filename Hierarchy_Tree Hierarchy_Insert
    Hierarchy_Delete Fat_File Fat_Disk Fat_File_Read Fat_Directory Fat_File_Write
    Fat_FS_Tree Fat_Volume Fat_Fuse_Ops Fat_Fuse_Props
    Transition_System Xv6_Spinlock Xv6_Proc Xv6_Proc_Props Xv6_Scheduler Xv6_Sched_Props
    Xv6_One_Cpu Xv6_Policy Xv6_Sleeplock Xv6_Pipe
    Xv6_Bio Xv6_Log Xv6_Crash Xv6_Log_Ops Xv6_Blocks Xv6_Semaphore Xv6_Pingpong
    Shell_Command Shell_Parsing Shell_Execute
begin

text \<open>
  A verification library for the operating-systems laboratories of this repository: the FAT32 file
  system over FUSE (\<open>src/LAB4/main/esqueleto\<close>), the MLFQ scheduler and the processes of the xv6
  kernel (\<open>src/LAB3/main/xv6-riscv/kernel\<close>), the semaphores and the ping pong program
  (\<open>src/LAB2/xv6-riscv\<close>) and the shell (\<open>src/LAB1/main\<close>).

  Conventions.  A definition has the name of the C function it translates; a loop of a function is a
  definition of its own.  Structures are records, pointers are addresses or indices into an explicit
  store, errors the program returns are values (\<open>errno\<close> is a field of the state), and None stands for
  everything C leaves undefined or that does not come back: a NULL dereference, an access out of
  bounds, a failed assertion, a panic, a loop without end.  So a theorem that says Some also says that
  the code returns and stays in bounds.  Integers that can wrap are words, the others are integers.

  Theories, in the order of the code.

    \<^item> \<open>Prelude\<close>: the word types, C strings, guards and arrays, shared lemmas.
    \<^item> \<open>Transition_System\<close>: the locales \<open>invariant_system\<close> and \<open>simulation\<close> of the concurrent parts,
      interpreted for spin locks, sleeping locks, the kernel, pipes, the log, the semaphores and the
      ping pong program.

  LAB4.  FUSE calls the operations of \<open>fat_fuse_ops.c\<close>; they find files in a tree by path
  (\<open>fat_fs_tree.c\<close> over \<open>hierarchy_tree.c\<close>), read and write them cluster by cluster (\<open>fat_file.c\<close>)
  through the table (\<open>fat_table.c\<close>) and positioned I/O (\<open>fat_util.c\<close>).

    \<^item> \<open>Fat_Util\<close>, \<open>Fat_Time\<close>: \<open>full_pread\<close> and \<open>full_pwrite\<close> over a file whose transfers may be short, be
      interrupted or fail, by a schedule; time stamps.  Lemmas: whole transfers, round trips.
    \<^item> \<open>Fat_Table\<close>: the mapped table and its copy on the volume; chains, free clusters, seeking.
    \<^item> \<open>Fat_Filename\<close>: names as 8+3 fields, with the memory blocks the code reads and writes.
    \<^item> \<open>Hierarchy_Tree\<close>, \<open>Hierarchy_Insert\<close>, \<open>Hierarchy_Delete\<close>: nodes in a heap that are a binary
      search tree and a hierarchy at once.  Lemmas: the tree refines a finite map; locale
      \<open>keyed_data\<close> is what the comparison functions promise, interpreted in \<open>Fat_FS_Tree\<close>.
    \<^item> \<open>Fat_File\<close>: directory entries, in-memory files and all operations of \<open>fat_file.c\<close>.
      \<open>Fat_Disk\<close>: volumes whose table mirrors the disk and whose data clusters do not overlap.
      \<open>Fat_File_Read\<close>, \<open>Fat_File_Write\<close>, \<open>Fat_Directory\<close>: what reading, deleting, truncating, writing
      and extending do to the contents of chains.
    \<^item> \<open>Fat_FS_Tree\<close>, \<open>Fat_Volume\<close>: the tree of files and the boot sector; mounting.
    \<^item> \<open>Fat_Fuse_Ops\<close>, \<open>Fat_Fuse_Props\<close>: the operations, the log of \<open>big_brother.c\<close>, and what they do
      to the mounted volume, stale \<open>errno\<close> included.

  LAB3.  Each CPU runs \<open>scheduler\<close>; the processes it switches to call the kernel.

    \<^item> \<open>Xv6_Spinlock\<close>: \<open>acquire\<close> and \<open>release\<close> as steps at the memory accesses; mutual exclusion.
    \<^item> \<open>Xv6_Proc\<close>: the process table, files and inodes counts, \<open>fork\<close>, \<open>exit\<close>, \<open>wait\<close>, \<open>sleep\<close>,
      \<open>wakeup\<close>, \<open>kill\<close> and the descriptor calls.  \<open>Xv6_Proc_Props\<close>: the invariant of the table and the
      counts, kept by every call.
    \<^item> \<open>Xv6_Scheduler\<close>: the loop of \<open>scheduler\<close> on any number of CPUs as a step relation, one step per
      critical section.  \<open>Xv6_Sched_Props\<close>: the invariant of all reachable states.  \<open>Xv6_One_Cpu\<close>:
      concrete runs.  \<open>Xv6_Policy\<close>: starvation, reference counts, lost wakeups, \<open>fork\<close>, \<open>exit\<close>, \<open>kill\<close>
      and the rules of the README.
    \<^item> \<open>Xv6_Sleeplock\<close>: \<open>sleeplock.c\<close>, one step per call; at most one holder.
    \<^item> \<open>Xv6_Pipe\<close>: \<open>pipe.c\<close> with any number of readers and writers, each turn of a loop up to sleeping as
      one step.  The ring with wrapping counters refines a bounded queue (locale \<open>bounded_queue\<close>,
      interpreted for it); streams, wakeups, closing.
    \<^item> \<open>Xv6_Bio\<close>: the buffer cache \<open>bio.c\<close>.  Lemmas: what a call does to the contents, references and
      sleeping locks by block number (\<open>view\<close>, \<open>refs\<close>, \<open>lock_of\<close>), whichever buffer holds a block.
    \<^item> \<open>Xv6_Log\<close>: \<open>log.c\<close> over the cache, each call with the writes it makes to the disk.  \<open>Xv6_Crash\<close>: a
      power failure after any prefix of them, recovery, failures during recovery; a transaction is
      seen whole or not at all.  \<open>Xv6_Log_Ops\<close>: processes that share a transaction, one step per
      critical section.
    \<^item> \<open>Xv6_Blocks\<close>: the superblock and the bitmap of \<open>fs.c\<close> inside a transaction; what \<open>balloc\<close> and
      \<open>bfree\<close> do to the contents of the blocks.

  LAB2.

    \<^item> \<open>Xv6_Semaphore\<close>: \<open>sem.c\<close>, one step per access; the semaphores count and refine a counter.
    \<^item> \<open>Xv6_Pingpong\<close>: the two processes over the semaphores; alternation, and the run that blocks.

  LAB1.

    \<^item> \<open>Shell_Command\<close>: commands and pipelines as queues (locale \<open>fifo\<close>), printing into heap blocks.
    \<^item> \<open>Shell_Parsing\<close>: the parser over an arbitrary lexer that keeps the contract of \<open>parser.h\<close>;
      equivalence with a recursive parser, termination, round trip.
    \<^item> \<open>Shell_Execute\<close>: internal commands, descriptors of the children of a pipeline, the main loop.

  Bounds and fuel.  No definition takes fuel: loops that may not end are partial functions whose
  result None is that they do not.  The process table has 64 entries and the levels are 3, as in the
  code; the number of CPUs and of processes using semaphores is arbitrary.

  Hypotheses about the disk: a block is written as a whole and in the order of the calls.
  Hypotheses about code outside \<open>src\<close>: \<open>mktime\<close>, the kernel's short transfers, the answers of the memory
  allocator and the page tables (\<open>copyin\<close> and \<open>copyout\<close> too), what \<open>chdir\<close>, \<open>open\<close>, \<open>fork\<close> and \<open>execvp\<close> answer, and the lexer of the
  shell, which is only an object file, are arguments; the lexer's documented behaviour is the predicate
  \<open>parser_contract\<close>.

  Not modelled: the inodes and directories (\<open>fs.c\<close>), the virtual memory and the drivers of xv6 and its
  user programs, which the laboratories use unchanged; other users of the buffer cache during a
  commit; interrupts other than the clock; the older
  \<open>src/LAB4/fat_fuse_ops.c\<close> and the shell for more than two commands in
  \<open>src/LAB1/Execute_npipes_nofuncional\<close>, which are not built; tests, benchmarks, scripts; printing and
  logging; memory exhaustion in user programs.
\<close>

end
